(* ===== verification/Castan_Prelude.thy ===== *)
theory Castan_Prelude
  imports Main "HOL-Library.Word" "HOL-Library.Monad_Syntax"
begin

text \<open>
  Shared vocabulary of the development: names for the machine integers of the C and C++
  sources, the outcome types of fallible code, the ordered associative container that
  models \<open>std::map\<close> and \<open>std::set\<close>, and the generic lemmas about lists, options
  and words that the components use.
\<close>

unbundle bit_operations_syntax

section \<open>Machine integers\<close>

type_synonym u8 = "8 word"
type_synonym u16 = "16 word"
type_synonym u32 = "32 word"
type_synonym u64 = "64 word"

lemma u32_less: "unat (x :: u32) < 2 ^ 32"
proof -
  have "unat x < 2 ^ LENGTH(32)" by (rule unsigned_less)
  then show ?thesis by simp
qed

named_theorems sm_simps "equations of the ordered associative container"
named_theorems mem_simps "reads after writes on byte memories"
named_theorems cache_simps "unfoldings used by the cache model proofs"

section \<open>Generic list lemmas\<close>

lemma take_Cons_take [simp]: "take n (x # take n xs) = take n (x # xs)"
  by (cases n) (simp_all add: min_def)

lemma distinct_nth_neq:
  "distinct xs \<Longrightarrow> i < length xs \<Longrightarrow> j < length xs \<Longrightarrow> i \<noteq> j \<Longrightarrow> xs ! i \<noteq> xs ! j"
  by (simp add: nth_eq_iff_index_eq)

lemma mod_neq_of_window:
  fixes i m n :: nat
  assumes "i < m" "m - i < n"
  shows "i mod n \<noteq> m mod n"
proof
  assume "i mod n = m mod n"
  then have "n dvd m - i"
    using assms(1) by (metis less_imp_le mod_eq_dvd_iff_nat)
  moreover have "0 < m - i" using assms(1) by simp
  ultimately have "n \<le> m - i" by (rule dvd_imp_le)
  with assms(2) show False by simp
qed

lemma ex_nat_Suc_split: "(\<exists>i. P i) \<longleftrightarrow> P 0 \<or> (\<exists>i. P (Suc i))"
  by (metis not0_implies_Suc)

section \<open>The ordered associative container\<close>

text \<open>
  A \<open>std::map\<close> is an association list with strictly increasing keys, so that iterating
  over the list is iterating over the container. \<open>sm_put\<close> is an assignment through
  \<open>operator[]\<close>, \<open>sm_erase\<close> is \<open>erase\<close> by key, \<open>map_of\<close> is the lookup behind
  \<open>count\<close> and \<open>operator[]\<close>, and \<open>length\<close> is \<open>size\<close>.
\<close>

type_synonym ('k, 'v) smap = "('k \<times> 'v) list"

fun sm_put :: "'k::linorder \<Rightarrow> 'v \<Rightarrow> ('k, 'v) smap \<Rightarrow> ('k, 'v) smap" where
  "sm_put k v [] = [(k, v)]"
| "sm_put k v (p # m) =
     (if k < fst p then (k, v) # p # m
      else if fst p = k then (k, v) # m
      else p # sm_put k v m)"

definition sm_erase :: "'k \<Rightarrow> ('k, 'v) smap \<Rightarrow> ('k, 'v) smap" where
  "sm_erase k m = filter (\<lambda>p. fst p \<noteq> k) m"

definition sm_wf :: "('k::linorder, 'v) smap \<Rightarrow> bool" where
  "sm_wf m \<longleftrightarrow> sorted_wrt (<) (map fst m)"

definition sm_keys :: "('k, 'v) smap \<Rightarrow> 'k set" where
  "sm_keys m = fst ` set m"

lemma sm_wf_Nil [simp]: "sm_wf []"
  by (simp add: sm_wf_def)

lemma sm_keys_Nil [simp]: "sm_keys [] = {}"
  by (simp add: sm_keys_def)

lemma sm_keys_empty [simp]: "sm_keys m = {} \<longleftrightarrow> m = []"
  by (simp add: sm_keys_def)

lemma sm_keys_Cons [simp]: "sm_keys (p # m) = insert (fst p) (sm_keys m)"
  by (simp add: sm_keys_def)

lemma finite_sm_keys [simp]: "finite (sm_keys m)"
  by (simp add: sm_keys_def)

lemma map_of_None_keys: "map_of m k = None \<longleftrightarrow> k \<notin> sm_keys m"
  by (simp add: sm_keys_def map_of_eq_None_iff)

lemma sm_keys_Some: "k \<in> sm_keys m \<Longrightarrow> \<exists>v. map_of m k = Some v"
  using map_of_None_keys [of m k] by auto

lemma map_of_Some_keys: "map_of m k = Some v \<Longrightarrow> k \<in> sm_keys m"
  using map_of_None_keys [of m k] by auto

lemma sm_wf_Cons: "sm_wf (p # m) \<longleftrightarrow> (\<forall>k \<in> sm_keys m. fst p < k) \<and> sm_wf m"
  by (auto simp: sm_wf_def sm_keys_def)

lemma sm_keys_put [sm_simps]: "sm_keys (sm_put k v m) = insert k (sm_keys m)"
  by (induction m) auto

lemma sm_wf_put [sm_simps]: "sm_wf m \<Longrightarrow> sm_wf (sm_put k v m)"
proof (induction m)
  case Nil
  then show ?case by (simp add: sm_wf_Cons)
next
  case (Cons p m)
  then show ?case by (auto simp: sm_wf_Cons sm_keys_put intro: less_trans)
qed

lemma map_of_sm_put [sm_simps]: "sm_wf m \<Longrightarrow> map_of (sm_put k v m) = (map_of m)(k \<mapsto> v)"
proof (induction m)
  case Nil
  then show ?case by simp
next
  case (Cons p m)
  then show ?case by (cases p) (auto simp: sm_wf_Cons)
qed

lemma map_of_sm_erase [sm_simps]: "map_of (sm_erase k m) = (map_of m)(k := None)"
  by (induction m) (auto simp: sm_erase_def)

lemma sm_keys_erase [sm_simps]: "sm_keys (sm_erase k m) = sm_keys m - {k}"
  by (auto simp: sm_erase_def sm_keys_def)

lemma sm_wf_erase [sm_simps]: "sm_wf m \<Longrightarrow> sm_wf (sm_erase k m)"
  by (induction m) (auto simp: sm_erase_def sm_wf_Cons sm_keys_def)

lemma sm_wf_distinct: "sm_wf m \<Longrightarrow> distinct (map fst m)"
  unfolding sm_wf_def by (auto simp: strict_sorted_iff)

lemma length_sm_card: "sm_wf m \<Longrightarrow> length m = card (sm_keys m)"
  using distinct_card [of "map fst m"] sm_wf_distinct [of m] by (simp add: sm_keys_def)

lemma length_sm_put [sm_simps]:
  assumes "sm_wf m"
  shows "length (sm_put k v m) = (if k \<in> sm_keys m then length m else Suc (length m))"
  using assms sm_wf_put [OF assms, of k v]
  by (simp add: length_sm_card sm_keys_put insert_absorb)

lemma length_sm_erase [sm_simps]:
  assumes "sm_wf m"
  shows "length (sm_erase k m) = (if k \<in> sm_keys m then length m - 1 else length m)"
  using assms sm_wf_erase [OF assms, of k]
  by (simp add: length_sm_card sm_keys_erase)

end
