(* ===== verification/Lru_Set.thy ===== *)
theory Lru_Set
  imports Castan_Prelude
begin

text \<open>
  One associative set of a simulated cache: the ordered container of blocks that both cache
  models of \<open>src/lib/CASTAN\<close> keep per set, the search for the least recently used
  block and the access to one block with the eviction it may need. The abstract
  specification is a list of blocks, most recently used first, of bounded length; the last
  section shows that accesses to the container refine accesses to the list, and what the
  list does under cyclic workloads.
\<close>

section \<open>The container of a set\<close>

record cache_entry =
  useTime :: nat
  dirty :: bool

type_synonym cache_set = "(u64, cache_entry) smap"

text \<open>
  The loop that finds the oldest entry: it starts at the first entry of the container and
  moves on a strictly smaller use time. Taking \<open>begin()\<close> of an empty container is
  undefined, which is the \<open>None\<close> result.
\<close>

definition find_lru :: "cache_set \<Rightarrow> u64 option" where
  "find_lru s =
     (case s of [] \<Rightarrow> None
      | p # _ \<Rightarrow> Some (fold (\<lambda>(k, e) lruPtr.
          if useTime e < useTime (the (map_of s lruPtr)) then k else lruPtr) s (fst p)))"

text \<open>
  What happens to one set on an access: the new contents, whether the block was there, and
  whether a dirty entry was evicted. \<open>wb\<close> says whether the cache is write-back.
\<close>

definition access_set ::
  "bool \<Rightarrow> nat \<Rightarrow> nat \<Rightarrow> u64 \<Rightarrow> bool \<Rightarrow> cache_set \<Rightarrow> (cache_set \<times> bool \<times> bool) option" where
  "access_set wb associativity currentTime blockAddr isWrite s =
     (case map_of s blockAddr of
        Some e \<Rightarrow>
          Some (sm_put blockAddr
                  \<lparr>useTime = currentTime, dirty = (if isWrite then wb else dirty e)\<rparr> s,
                True, False)
      | None \<Rightarrow>
          (let new = \<lparr>useTime = currentTime, dirty = (isWrite \<and> wb)\<rparr> in
           if associativity \<le> length s then
             (case find_lru s of
                None \<Rightarrow> None
              | Some lruPtr \<Rightarrow>
                  Some (sm_put blockAddr new (sm_erase lruPtr s), False,
                        dirty (the (map_of s lruPtr))))
           else Some (sm_put blockAddr new s, False, False)))"

section \<open>The search for the oldest entry\<close>

abbreviation use_of :: "cache_set \<Rightarrow> u64 \<Rightarrow> nat" where
  "use_of s k \<equiv> useTime (the (map_of s k))"

lemma fold_lru_min:
  assumes "\<forall>(k, e) \<in> set xs. map_of s k = Some e"
  shows "let r = fold (\<lambda>(k, e) p. if useTime e < use_of s p then k else p) xs p0 in
     r \<in> insert p0 (fst ` set xs) \<and> use_of s r \<le> use_of s p0 \<and>
     (\<forall>k \<in> fst ` set xs. use_of s r \<le> use_of s k)"
  using assms
proof (induction xs arbitrary: p0)
  case Nil
  then show ?case by simp
next
  case (Cons x xs)
  obtain k e where x: "x = (k, e)" by (cases x)
  from Cons.prems have ke: "map_of s k = Some e" and rest: "\<forall>(k, e) \<in> set xs. map_of s k = Some e"
    by (auto simp: x)
  show ?case
    using Cons.IH [OF rest, of "if useTime e < use_of s p0 then k else p0"] ke
    by (auto simp: x Let_def split: if_splits)
qed

lemma find_lru_Some:
  assumes "sm_wf s" "s \<noteq> []"
  shows "\<exists>r. find_lru s = Some r \<and> r \<in> sm_keys s \<and> (\<forall>k \<in> sm_keys s. use_of s r \<le> use_of s k)"
proof -
  obtain p s' where s: "s = p # s'" using assms(2) by (cases s) auto
  have all: "\<forall>(k, e) \<in> set s. map_of s k = Some e"
    using sm_wf_distinct [OF assms(1)] by auto
  define r where "r = fold (\<lambda>(k, e) p. if useTime e < use_of s p then k else p) s (fst p)"
  have "find_lru s = Some r" by (simp add: find_lru_def s r_def)
  moreover have "r \<in> insert (fst p) (sm_keys s)" and "\<forall>k \<in> sm_keys s. use_of s r \<le> use_of s k"
    using fold_lru_min [OF all, of "fst p"] by (simp_all add: Let_def r_def sm_keys_def)
  moreover have "fst p \<in> sm_keys s" by (simp add: s)
  ultimately show ?thesis by (metis insert_absorb)
qed

lemma find_lru_None: "find_lru s = None \<longleftrightarrow> s = []"
  by (cases s) (simp_all add: find_lru_def)

section \<open>Accesses to the container\<close>

text \<open>The three cases of an access, as the proofs use them.\<close>

lemma access_set_cases:
  assumes "access_set wb a now b w s = Some (s', hit, dm)"
  obtains (hit) e where "map_of s b = Some e" "hit" "\<not> dm"
      "s' = sm_put b \<lparr>useTime = now, dirty = (if w then wb else dirty e)\<rparr> s"
  | (evict) r where "b \<notin> sm_keys s" "\<not> hit" "a \<le> length s" "find_lru s = Some r"
      "s' = sm_put b \<lparr>useTime = now, dirty = (w \<and> wb)\<rparr> (sm_erase r s)"
      "dm = dirty (the (map_of s r))"
  | (fill) "b \<notin> sm_keys s" "\<not> hit" "\<not> dm" "length s < a"
      "s' = sm_put b \<lparr>useTime = now, dirty = (w \<and> wb)\<rparr> s"
  using assms
  by (auto simp: access_set_def Let_def map_of_None_keys split: option.splits if_splits)

definition set_ok :: "nat \<Rightarrow> cache_set \<Rightarrow> bool" where
  "set_ok associativity s \<longleftrightarrow> sm_wf s \<and> length s \<le> associativity"

lemma set_ok_Nil [simp]: "set_ok a []"
  by (simp add: set_ok_def)

lemma access_set_defined:
  assumes "0 < a"
  shows "\<exists>s' hit dm. access_set wb a now b w s = Some (s', hit, dm)"
  using assms find_lru_None [of s] by (auto simp: access_set_def Let_def split: option.splits)

lemma access_set_hit:
  "access_set wb a now b w s = Some (s', hit, dm) \<Longrightarrow> hit \<longleftrightarrow> b \<in> sm_keys s"
  by (elim access_set_cases) (simp_all add: map_of_Some_keys)

lemma access_set_wf:
  "access_set wb a now b w s = Some (s', hit, dm) \<Longrightarrow> sm_wf s \<Longrightarrow> sm_wf s'"
  by (elim access_set_cases) (simp_all add: sm_simps)

lemma access_set_ok:
  assumes acc: "access_set wb a now b w s = Some (s', hit, dm)" and ok: "set_ok a s" and a: "0 < a"
  shows "set_ok a s'"
  using acc
proof (cases rule: access_set_cases)
  case (hit e)
  with ok show ?thesis by (simp add: set_ok_def sm_simps map_of_Some_keys)
next
  case (evict r)
  with ok a have "r \<in> sm_keys s" using find_lru_Some [of s] by (auto simp: set_ok_def)
  with evict ok a show ?thesis by (auto simp: set_ok_def sm_simps)
next
  case fill
  with ok show ?thesis by (simp add: set_ok_def sm_simps)
qed

lemma access_set_present:
  assumes "access_set wb a now b w s = Some (s', hit, dm)" "sm_wf s"
  shows "\<exists>e. map_of s' b = Some e \<and> useTime e = now"
  using assms by (elim access_set_cases) (simp_all add: sm_simps)

section \<open>The abstract set: blocks in order of recency\<close>

definition lru_access :: "nat \<Rightarrow> u64 \<Rightarrow> u64 list \<Rightarrow> u64 list" where
  "lru_access a b q = take a (b # removeAll b q)"

definition lru_rel :: "cache_set \<Rightarrow> u64 list \<Rightarrow> bool" where
  "lru_rel s q \<longleftrightarrow> sm_wf s \<and> distinct q \<and> set q = sm_keys s \<and>
     sorted_wrt (\<lambda>x y. use_of s y < use_of s x) q"

definition times_below :: "nat \<Rightarrow> cache_set \<Rightarrow> bool" where
  "times_below now s \<longleftrightarrow> (\<forall>k \<in> sm_keys s. use_of s k < now)"

lemma lru_rel_Nil [simp]: "lru_rel [] []"
  by (simp add: lru_rel_def)

lemma lru_rel_length: "lru_rel s q \<Longrightarrow> length q = length s"
  using distinct_card [of q] length_sm_card [of s] by (simp add: lru_rel_def)

lemma lru_rel_last:
  assumes rel: "lru_rel s q" and "s \<noteq> []"
  shows "find_lru s = Some (last q)"
proof -
  have wf: "sm_wf s" and keys: "set q = sm_keys s" and q: "q \<noteq> []"
    using assms by (auto simp: lru_rel_def simp flip: sm_keys_empty)
  obtain r where r: "find_lru s = Some r" "r \<in> set q" "\<forall>k \<in> set q. use_of s r \<le> use_of s k"
    using find_lru_Some [OF wf assms(2)] keys by auto
  obtain q' l where ql: "q = q' @ [l]" using q by (cases q rule: rev_cases) auto
  have "\<forall>x \<in> set q'. use_of s l < use_of s x"
    using rel by (simp add: lru_rel_def ql sorted_wrt_append)
  with r ql have "r = l" by force
  with r(1) ql show ?thesis by simp
qed

lemma lru_rel_put:
  assumes rel: "lru_rel s q" and t: "times_below now s" and e: "useTime e = now"
  shows "lru_rel (sm_put b e s) (b # removeAll b q)"
proof -
  from rel have wf: "sm_wf s" and d: "distinct q" and k: "set q = sm_keys s"
    and so: "sorted_wrt (\<lambda>x y. use_of s y < use_of s x) q" by (auto simp: lru_rel_def)
  have m: "map_of (sm_put b e s) = (map_of s)(b \<mapsto> e)" using wf by (simp add: sm_simps)
  have "sorted_wrt (\<lambda>x y. use_of s y < use_of s x) (removeAll b q)"
    using so by (simp add: removeAll_filter_not_eq sorted_wrt_filter)
  then have "sorted_wrt (\<lambda>x y. use_of (sm_put b e s) y < use_of (sm_put b e s) x) (removeAll b q)"
    by (rule sorted_wrt_mono_rel [rotated]) (simp add: m)
  then show ?thesis
    using wf d k t e by (auto simp: lru_rel_def sm_simps times_below_def distinct_removeAll)
qed

lemma lru_rel_erase_last:
  assumes rel: "lru_rel s (q @ [l])"
  shows "lru_rel (sm_erase l s) q"
proof -
  from rel have l: "l \<notin> set q" and so: "sorted_wrt (\<lambda>x y. use_of s y < use_of s x) q"
    by (auto simp: lru_rel_def sorted_wrt_append)
  have "sorted_wrt (\<lambda>x y. use_of (sm_erase l s) y < use_of (sm_erase l s) x) q"
    using so by (rule sorted_wrt_mono_rel [rotated]) (use l in \<open>auto simp: sm_simps\<close>)
  with rel l show ?thesis by (auto simp: lru_rel_def sm_simps)
qed

text \<open>An access to the container is an access to the recency list.\<close>

lemma access_set_refines:
  assumes acc: "access_set wb a now b w s = Some (s', hit, dm)"
    and rel: "lru_rel s q" and t: "times_below now s" and ok: "length s \<le> a" and a: "0 < a"
  shows "lru_rel s' (lru_access a b q) \<and> (hit \<longleftrightarrow> b \<in> set q)"
proof -
  from rel have wf: "sm_wf s" and d: "distinct q" and k: "set q = sm_keys s" by (auto simp: lru_rel_def)
  have len: "length q = length s" using rel by (rule lru_rel_length)
  have hit: "hit \<longleftrightarrow> b \<in> set q" using access_set_hit [OF acc] k by simp
  show ?thesis
    using acc
  proof (cases rule: access_set_cases)
    case (hit e)
    then have "b \<in> set q" using k by (simp add: map_of_Some_keys)
    moreover have "length (removeAll b q) = length q - 1"
      unfolding distinct_remove1_removeAll [OF d, symmetric] using \<open>b \<in> set q\<close>
      by (simp add: length_remove1)
    ultimately have "length (b # removeAll b q) = length q"
      using length_pos_if_in_set [of b q] by simp
    with ok len have "lru_access a b q = b # removeAll b q" by (simp add: lru_access_def)
    with hit \<open>b \<in> set q\<close> lru_rel_put [OF rel t] show ?thesis by simp
  next
    case (evict r)
    then have nb: "b \<notin> set q" using k by simp
    have full: "length q = a" and "s \<noteq> []" using evict(3) ok len a by auto
    then obtain q' where q: "q = q' @ [r]"
      using lru_rel_last [OF rel] evict(4) len a by (cases q rule: rev_cases) auto
    have rel': "lru_rel (sm_erase r s) q'" using rel q by (simp add: lru_rel_erase_last)
    have t': "times_below now (sm_erase r s)" using t by (simp add: times_below_def sm_simps)
    have "lru_access a b q = b # q'" using nb full a by (auto simp: lru_access_def q)
    moreover have "removeAll b q' = q'" using nb q by simp
    ultimately show ?thesis using lru_rel_put [OF rel' t', of _ b] evict hit by simp
  next
    case fill
    then have nb: "b \<notin> set q" using k by simp
    then have "lru_access a b q = b # q" using fill len by (simp add: lru_access_def)
    then show ?thesis using lru_rel_put [OF rel t, of _ b] fill nb hit by simp
  qed
qed

lemma access_set_times:
  assumes "access_set wb a now b w s = Some (s', hit, dm)" "sm_wf s" "times_below now s"
  shows "times_below (Suc now) s'"
  using assms
  by (elim access_set_cases) (auto simp: times_below_def sm_simps less_Suc_eq)

section \<open>Cyclic workloads on the abstract set\<close>

text \<open>How many of a sequence of accesses miss, and the set they leave.\<close>

fun lru_run :: "nat \<Rightarrow> u64 list \<Rightarrow> u64 list \<Rightarrow> nat \<times> u64 list" where
  "lru_run a [] q = (0, q)"
| "lru_run a (b # bs) q =
     (let (n, q') = lru_run a bs (lru_access a b q) in (if b \<in> set q then n else Suc n, q'))"

lemma lru_access_notin: "b \<notin> set q \<Longrightarrow> lru_access a b q = take a (b # q)"
  by (simp add: lru_access_def)

lemma lru_run_all_miss:
  assumes "\<forall>i < length xs. xs ! i \<notin> set (take a (rev (take i xs) @ q))"
  shows "lru_run a xs (take a q) = (length xs, take a (rev xs @ q))"
  using assms
proof (induction xs arbitrary: q)
  case Nil
  then show ?case by simp
next
  case (Cons x xs)
  have x: "x \<notin> set (take a q)" using Cons.prems by force
  have "\<forall>i < length xs. xs ! i \<notin> set (take a (rev (take i xs) @ x # q))"
  proof (intro allI impI)
    fix i assume "i < length xs"
    then show "xs ! i \<notin> set (take a (rev (take i xs) @ x # q))"
      using Cons.prems [rule_format, of "Suc i"] by simp
  qed
  from Cons.IH [OF this] x show ?case by (simp add: lru_access_notin)
qed

text \<open>
  The workload the tool looks for: more blocks of one set than it has ways, visited in a
  cycle, miss at every access, whatever other blocks the set held before.
\<close>

lemma concat_replicate_nth:
  "i < n * length bs \<Longrightarrow> concat (replicate n bs) ! i = bs ! (i mod length bs)"
proof (induction n arbitrary: i)
  case 0
  then show ?case by simp
next
  case (Suc n)
  show ?case
  proof (cases "i < length bs")
    case True
    then show ?thesis by (simp add: nth_append)
  next
    case False
    then have "i - length bs < n * length bs" using Suc.prems by simp
    then show ?thesis using Suc.IH False by (simp add: nth_append le_mod_geq)
  qed
qed

lemma length_concat_replicate: "length (concat (replicate n bs)) = n * length bs"
  by (induction n) auto

lemma lru_cyclic_misses:
  assumes d: "distinct bs" and a: "a < length bs" and q: "set q \<inter> set bs = {}"
  shows "lru_run a (concat (replicate n bs)) (take a q) =
    (n * length bs, take a (rev (concat (replicate n bs)) @ q))"
proof -
  let ?xs = "concat (replicate n bs)"
  have "?xs ! i \<notin> set (take a (rev (take i ?xs) @ q))" if i: "i < length ?xs" for i
  proof
    assume "?xs ! i \<in> set (take a (rev (take i ?xs) @ q))"
    moreover have xi: "?xs ! i \<in> set bs"
      using nth_mem [OF i] by (auto simp: set_replicate_conv_if split: if_splits)
    ultimately have "?xs ! i \<in> set (take a (rev (take i ?xs)))"
      using q by (auto dest: in_set_takeD)
    then obtain j where j: "j < a" "j < i" "?xs ! i = rev (take i ?xs) ! j"
      using i by (auto simp: in_set_conv_nth)
    then have eq: "?xs ! i = ?xs ! (i - Suc j)" using i by (simp add: rev_nth min_def)
    have "(i - Suc j) mod length bs \<noteq> i mod length bs"
      by (rule mod_neq_of_window) (use j a in auto)
    moreover have "bs ! (i mod length bs) = bs ! ((i - Suc j) mod length bs)"
      using eq i by (simp add: concat_replicate_nth length_concat_replicate less_imp_diff_less)
    moreover have "i mod length bs < length bs" "(i - Suc j) mod length bs < length bs"
      using a by (auto intro: mod_less_divisor)
    ultimately show False using nth_eq_iff_index_eq [OF d] by simp
  qed
  then show ?thesis using lru_run_all_miss [of ?xs a q] by (simp add: length_concat_replicate)
qed

end
