(* ===== verification/Contention_Sets.thy ===== *)
theory Contention_Sets
  imports Castan_Prelude
begin

text \<open>
  The contention sets of the last-level cache: the constructor of
  \<open>ContentionSetCacheModel\<close> reads them from a text file into two process-wide tables,
  the list of sets with their associativity and the index from an address to the sets it
  belongs to. A file is the list of its lines; reading is good as long as a line is left.
\<close>

section \<open>Decimal numbers as the standard library reads them\<close>

definition is_digit :: "char \<Rightarrow> bool" where
  "is_digit c \<longleftrightarrow> 48 \<le> (of_char c :: nat) \<and> (of_char c :: nat) \<le> 57"

definition is_space :: "char \<Rightarrow> bool" where
  "is_space c \<longleftrightarrow> c \<in> {CHR '' '', CHR 0x09, CHR 0x0A, CHR 0x0B, CHR 0x0C, CHR 0x0D}"

fun dec_value :: "int \<Rightarrow> string \<Rightarrow> int" where
  "dec_value acc [] = acc"
| "dec_value acc (c # cs) =
     (if is_digit c then dec_value (10 * acc + (of_char c - 48)) cs else acc)"

text \<open>
  \<open>std::stoi\<close> and \<open>std::stol\<close>: leading blanks, a sign, then digits up to the first
  other character. No digit, or a value outside the type, throws, which is \<open>None\<close>.
\<close>

definition std_sto :: "nat \<Rightarrow> string \<Rightarrow> int option" where
  "std_sto bits str =
     (let s = dropWhile is_space str;
          neg = (case s of c # _ \<Rightarrow> c = CHR ''-'' | [] \<Rightarrow> False);
          ds = (case s of c # cs \<Rightarrow> if c = CHR ''-'' \<or> c = CHR ''+'' then cs else s | [] \<Rightarrow> s);
          v = (if neg then - dec_value 0 ds else dec_value 0 ds)
      in case ds of [] \<Rightarrow> None
         | d # _ \<Rightarrow> if is_digit d \<and> - (2 ^ (bits - 1)) \<le> v \<and> v < 2 ^ (bits - 1)
                    then Some v else None)"

definition std_stoi :: "string \<Rightarrow> int option" where
  "std_stoi = std_sto 32"

definition std_stol :: "string \<Rightarrow> int option" where
  "std_stol = std_sto 64"

section \<open>The tables\<close>

text \<open>
  \<open>contentionSets\<close> lists the sets with their associativity; a \<open>std::set<long>\<close> is an
  increasing list. \<open>contentionSetIdxs\<close> maps an address to the indices of its sets.
\<close>

record contention =
  contentionSets :: "(int list \<times> nat) list"
  contentionSetIdxs :: "int \<rightharpoonup> int list"

definition no_contention :: contention where
  "no_contention = \<lparr>contentionSets = [], contentionSetIdxs = Map.empty\<rparr>"

section \<open>Loading\<close>

text \<open>The inner loop: the addresses of one set, up to an empty line or the end.\<close>

fun read_addresses :: "string list \<Rightarrow> int list \<Rightarrow> (int list \<times> string list) option" where
  "read_addresses [] addresses = Some (addresses, [])"
| "read_addresses (line # ls) addresses =
     (if line = [] then Some (addresses, ls)
      else case std_stol line of
          None \<Rightarrow> None
        | Some a \<Rightarrow> read_addresses ls (insort_insert a addresses))"

lemma read_addresses_shorter:
  "read_addresses ls acc = Some (addresses, rest) \<Longrightarrow> length rest \<le> length ls"
  by (induction ls acc rule: read_addresses.induct) (auto split: if_splits option.splits)

text \<open>The outer loop over the sets. The \<open>int\<close> associativity is stored as \<open>unsigned\<close>.\<close>

function load_sets :: "string list \<Rightarrow> (int list \<times> nat) list \<Rightarrow> (int list \<times> nat) list option" where
  "load_sets [] sets = Some sets"
| "load_sets (line # ls) sets =
     (if line = [] then load_sets ls sets
      else case std_stoi line of
          None \<Rightarrow> None
        | Some associativity \<Rightarrow>
            (case read_addresses ls [] of
               None \<Rightarrow> None
             | Some (addresses, rest) \<Rightarrow>
                 load_sets rest (sets @ [(addresses, nat (associativity mod 2 ^ 32))])))"
  by pat_completeness auto
termination
  by (relation "measure (\<lambda>(ls, _). length ls)") (auto dest: read_addresses_shorter)

definition idx_add :: "int \<Rightarrow> int \<Rightarrow> (int \<rightharpoonup> int list) \<Rightarrow> (int \<rightharpoonup> int list)" where
  "idx_add i address m =
     m(address \<mapsto> insort_insert i (case m address of None \<Rightarrow> [] | Some s \<Rightarrow> s))"

fun index_sets :: "nat \<Rightarrow> (int list \<times> nat) list \<Rightarrow> (int \<rightharpoonup> int list) \<Rightarrow> (int \<rightharpoonup> int list)" where
  "index_sets i [] m = m"
| "index_sets i (cset # sets) m = index_sets (Suc i) sets (fold (idx_add (int i)) (fst cset) m)"

text \<open>
  The constructor: the file has to open, its sets go to the end of the process-wide list,
  and the index is extended over the whole list.
\<close>

definition load_contention :: "string list option \<Rightarrow> contention \<Rightarrow> contention option" where
  "load_contention inFile g =
     (case inFile of
        None \<Rightarrow> None
      | Some ls \<Rightarrow>
          (case load_sets ls (contentionSets g) of
             None \<Rightarrow> None
           | Some sets \<Rightarrow>
               Some \<lparr>contentionSets = sets,
                     contentionSetIdxs = index_sets 0 sets (contentionSetIdxs g)\<rparr>))"

section \<open>What the index holds\<close>

definition idx_list :: "(int \<rightharpoonup> int list) \<Rightarrow> int \<Rightarrow> int list" where
  "idx_list m a = (case m a of None \<Rightarrow> [] | Some s \<Rightarrow> s)"

definition member_sets :: "(int list \<times> nat) list \<Rightarrow> int \<Rightarrow> int set" where
  "member_sets sets a = {int i |i. i < length sets \<and> a \<in> set (fst (sets ! i))}"

text \<open>
  The index agrees with the list of sets: a key is present exactly for an address of some
  set, and maps to the increasing list of the sets it is in.
\<close>

definition contention_ok :: "contention \<Rightarrow> bool" where
  "contention_ok g \<longleftrightarrow>
     (\<forall>a. set (idx_list (contentionSetIdxs g) a) = member_sets (contentionSets g) a) \<and>
     (\<forall>a s. contentionSetIdxs g a = Some s \<longrightarrow> s \<noteq> [] \<and> sorted s \<and> distinct s)"

definition idx_wf :: "(int \<rightharpoonup> int list) \<Rightarrow> bool" where
  "idx_wf m \<longleftrightarrow> (\<forall>a s. m a = Some s \<longrightarrow> s \<noteq> [] \<and> sorted s \<and> distinct s)"

lemma insort_insert_nonempty: "insort_insert x xs \<noteq> []"
  by (metis empty_iff empty_set insertI1 set_insort_insert)

lemma idx_wf_sorted: "idx_wf m \<Longrightarrow> sorted (idx_list m a) \<and> distinct (idx_list m a)"
  by (auto simp: idx_wf_def idx_list_def split: option.split)

lemma idx_wf_add: "idx_wf m \<Longrightarrow> idx_wf (idx_add i b m)"
  using idx_wf_sorted [of m b]
  by (auto simp: idx_wf_def idx_add_def idx_list_def insort_insert_nonempty
      sorted_insort_insert distinct_insort_insert)

lemma idx_list_add:
  "set (idx_list (idx_add i b m) a) = set (idx_list m a) \<union> (if a = b then {i} else {})"
  by (auto simp: idx_add_def idx_list_def set_insort_insert split: option.split)

lemma idx_wf_fold: "idx_wf m \<Longrightarrow> idx_wf (fold (idx_add i) bs m)"
  by (induction bs arbitrary: m) (auto simp: idx_wf_add)

lemma idx_list_fold:
  "set (idx_list (fold (idx_add i) bs m) a) = set (idx_list m a) \<union> (if a \<in> set bs then {i} else {})"
  by (induction bs arbitrary: m) (auto simp: idx_list_add)

lemma idx_wf_index_sets: "idx_wf m \<Longrightarrow> idx_wf (index_sets i sets m)"
  by (induction i sets m rule: index_sets.induct) (auto simp: idx_wf_fold)

lemma member_sets_Nil [simp]: "member_sets [] a = {}"
  by (simp add: member_sets_def)

lemma member_sets_Cons:
  "member_sets (p # sets) a = (if a \<in> set (fst p) then {0} else {}) \<union> (\<lambda>i. i + 1) ` member_sets sets a"
proof (rule set_eqI)
  fix x
  have "x \<in> member_sets (p # sets) a \<longleftrightarrow>
      (\<exists>i. x = int i \<and> i < Suc (length sets) \<and> a \<in> set (fst ((p # sets) ! i)))"
    by (simp add: member_sets_def)
  also have "\<dots> \<longleftrightarrow> x = 0 \<and> a \<in> set (fst p) \<or>
      (\<exists>i. x = int i + 1 \<and> i < length sets \<and> a \<in> set (fst (sets ! i)))"
    by (subst ex_nat_Suc_split) (simp add: add.commute)
  finally show "x \<in> member_sets (p # sets) a \<longleftrightarrow>
      x \<in> (if a \<in> set (fst p) then {0} else {}) \<union> (\<lambda>i. i + 1) ` member_sets sets a"
    by (auto simp: member_sets_def)
qed

lemma idx_list_index_sets:
  "set (idx_list (index_sets i sets m) a) =
     set (idx_list m a) \<union> (\<lambda>j. j + int i) ` member_sets sets a"
proof (induction i sets m rule: index_sets.induct)
  case (1 i m)
  then show ?case by simp
next
  case (2 i p sets m)
  show ?case
    unfolding index_sets.simps 2 member_sets_Cons idx_list_fold
    by (auto simp: image_Un image_image algebra_simps)
qed

lemma load_sets_prefix:
  "load_sets ls (pre @ sets) = map_option ((@) pre) (load_sets ls sets)"
  by (induction ls sets rule: load_sets.induct) (auto split: option.split)

lemma load_sets_appends:
  "load_sets ls sets = map_option ((@) sets) (load_sets ls [])"
  using load_sets_prefix [of ls sets "[]"] by simp

lemma contention_ok_alt:
  "contention_ok g \<longleftrightarrow>
     (\<forall>a. set (idx_list (contentionSetIdxs g) a) = member_sets (contentionSets g) a) \<and>
     idx_wf (contentionSetIdxs g)"
  by (auto simp: contention_ok_def idx_wf_def)

lemma contention_ok_none: "contention_ok no_contention"
  by (simp add: contention_ok_alt no_contention_def idx_list_def idx_wf_def)

lemma member_sets_mono: "member_sets sets a \<subseteq> member_sets (sets @ new) a"
  by (auto simp: member_sets_def nth_append)

lemma load_contention_cases:
  assumes "load_contention inFile g = Some g'"
  obtains ls new where "inFile = Some ls" "load_sets ls [] = Some new"
    "g' = \<lparr>contentionSets = contentionSets g @ new,
           contentionSetIdxs = index_sets 0 (contentionSets g @ new) (contentionSetIdxs g)\<rparr>"
proof -
  obtain ls sets where ls: "inFile = Some ls" "load_sets ls (contentionSets g) = Some sets"
    and g': "g' = \<lparr>contentionSets = sets,
                   contentionSetIdxs = index_sets 0 sets (contentionSetIdxs g)\<rparr>"
    using assms by (auto simp: load_contention_def split: option.splits)
  obtain new where "load_sets ls [] = Some new" "sets = contentionSets g @ new"
    using ls(2) unfolding load_sets_appends [of ls "contentionSets g"] by auto
  with ls(1) g' that show ?thesis by simp
qed

lemma load_contention_ok:
  assumes ok: "contention_ok g" and load: "load_contention inFile g = Some g'"
  shows "contention_ok g'"
  using load
proof (cases rule: load_contention_cases)
  case (1 ls new)
  have "set (idx_list (contentionSetIdxs g) a) = member_sets (contentionSets g) a" for a
    using ok by (simp add: contention_ok_alt)
  then show ?thesis
    using ok member_sets_mono [of "contentionSets g" _ new]
    by (auto simp: contention_ok_alt 1(3) idx_wf_index_sets idx_list_index_sets)
qed

lemma contention_ok_members:
  "contention_ok g \<Longrightarrow> set (idx_list (contentionSetIdxs g) a) = member_sets (contentionSets g) a"
  by (simp add: contention_ok_def)

lemma contention_ok_nonempty: "contention_ok g \<Longrightarrow> contentionSetIdxs g a = Some s \<Longrightarrow> s \<noteq> []"
  by (auto simp: contention_ok_def)

lemma contention_ok_distinct: "contention_ok g \<Longrightarrow> contentionSetIdxs g a = Some s \<Longrightarrow> distinct s"
  by (simp add: contention_ok_def)

lemma contention_ok_count:
  assumes "contention_ok g"
  shows "contentionSetIdxs g a = None \<longleftrightarrow> member_sets (contentionSets g) a = {}"
  using contention_ok_members [OF assms, of a] contention_ok_nonempty [OF assms, of a]
  by (cases "contentionSetIdxs g a") (auto simp: idx_list_def)

lemma contention_ok_index:
  assumes "contention_ok g" and "contentionSetIdxs g a = Some s" and "i \<in> set s"
  shows "0 \<le> i \<and> nat i < length (contentionSets g) \<and> a \<in> set (fst (contentionSets g ! nat i))"
proof -
  have "i \<in> member_sets (contentionSets g) a"
    using contention_ok_members [OF assms(1), of a] assms(2,3) by (simp add: idx_list_def)
  then show ?thesis by (auto simp: member_sets_def)
qed

section \<open>Correctness of the tables\<close>

text \<open>
  Loading a file keeps the index exact: an address has an entry if and only if it is
  in some set of the list, and the entry is the non-empty, increasing list of precisely the
  positions of the sets that contain it.
\<close>

theorem load_contention_exact:
  assumes "contention_ok g" "load_contention inFile g = Some g'"
  shows "(contentionSetIdxs g' a = None \<longleftrightarrow>
      (\<forall>p \<in> set (contentionSets g'). a \<notin> set (fst p))) \<and>
    (\<forall>s. contentionSetIdxs g' a = Some s \<longrightarrow> s \<noteq> [] \<and> sorted s \<and> distinct s \<and>
      set s = {int i |i. i < length (contentionSets g') \<and> a \<in> set (fst (contentionSets g' ! i))})"
proof -
  have ok: "contention_ok g'" using assms by (rule load_contention_ok)
  have "member_sets (contentionSets g') a = {} \<longleftrightarrow> (\<forall>p \<in> set (contentionSets g'). a \<notin> set (fst p))"
    by (simp add: member_sets_def all_set_conv_all_nth)
  moreover have "s \<noteq> [] \<and> sorted s \<and> distinct s \<and> set s = member_sets (contentionSets g') a"
    if m: "contentionSetIdxs g' a = Some s" for s
    using ok contention_ok_members [OF ok, of a] m by (auto simp: contention_ok_alt idx_wf_def idx_list_def)
  ultimately show ?thesis
    using contention_ok_count [OF ok, of a] unfolding member_sets_def by blast
qed

theorem load_contention_exact_witness:
  "\<exists>g'. load_contention (Some [''2'', ''64'', []]) no_contention = Some g' \<and> contentionSetIdxs g' 0 = None"
proof -
  have s: "std_stoi ''2'' = Some 2" "std_stol ''64'' = Some 64"
    by (simp_all add: std_stoi_def std_stol_def std_sto_def is_digit_def is_space_def Let_def)
  obtain g' where g': "load_contention (Some [''2'', ''64'', []]) no_contention = Some g'"
    and sets: "contentionSets g' = [([64], 2)]"
    by (simp add: load_contention_def no_contention_def s insort_insert_key_def)
  have "contentionSetIdxs g' 0 = None"
    using load_contention_exact [OF contention_ok_none g', of 0] by (simp add: sets)
  with g' show ?thesis by blast
qed

text \<open>
  The tables are shared by all models, and constructing a second model from the same
  file appends every set again: the list doubles, and each address indexed at position
  \<open>i\<close> is indexed at position \<open>i + n\<close> as well, so that one access touches two sets
  of the simulated cache.
\<close>

theorem second_model_doubles_sets:
  assumes "load_contention inFile no_contention = Some g1" "load_contention inFile g1 = Some g2"
  shows "contentionSets g2 = contentionSets g1 @ contentionSets g1 \<and>
    (\<forall>a. \<forall>i \<in> set (idx_list (contentionSetIdxs g1) a).
       i \<in> set (idx_list (contentionSetIdxs g2) a) \<and>
       i + int (length (contentionSets g1)) \<in> set (idx_list (contentionSetIdxs g2) a))"
proof -
  obtain ls new where ls: "inFile = Some ls" "load_sets ls [] = Some new" and s1: "contentionSets g1 = new"
    using assms(1) by (elim load_contention_cases) (auto simp: no_contention_def)
  have s2: "contentionSets g2 = new @ new"
    using assms(2) ls s1 by (elim load_contention_cases) auto
  have ok1: "contention_ok g1" using assms(1) contention_ok_none by (rule load_contention_ok [rotated])
  then have ok2: "contention_ok g2" using assms(2) by (rule load_contention_ok)
  have "i \<in> member_sets (new @ new) a \<and> i + int (length new) \<in> member_sets (new @ new) a"
    if m: "i \<in> member_sets new a" for i a
  proof -
    obtain j where j: "i = int j" "j < length new" "a \<in> set (fst (new ! j))"
      using m by (auto simp: member_sets_def)
    have "int (j + length new) \<in> member_sets (new @ new) a"
      unfolding member_sets_def using j(2,3)
      by (intro CollectI exI [of _ "j + length new"]) (simp add: nth_append)
    with j m show ?thesis using member_sets_mono [of new a new] by auto
  qed
  then show ?thesis
    using contention_ok_members [OF ok1] contention_ok_members [OF ok2] s1 s2 by simp
qed

theorem second_model_doubles_sets_witness:
  "\<exists>g1 g2. load_contention (Some [''2'', ''64'', []]) no_contention = Some g1 \<and>
     load_contention (Some [''2'', ''64'', []]) g1 = Some g2 \<and>
     contentionSets g2 = [([64], 2), ([64], 2)]"
proof -
  have s: "std_stoi ''2'' = Some 2" "std_stol ''64'' = Some 64"
    by (simp_all add: std_stoi_def std_stol_def std_sto_def is_digit_def is_space_def Let_def)
  obtain g1 where g1: "load_contention (Some [''2'', ''64'', []]) no_contention = Some g1"
    and sets: "contentionSets g1 = [([64], 2)]"
    by (simp add: load_contention_def no_contention_def s insort_insert_key_def)
  obtain g2 where g2: "load_contention (Some [''2'', ''64'', []]) g1 = Some g2"
    by (simp add: load_contention_def s insort_insert_key_def)
  from second_model_doubles_sets [OF g1 g2] have "contentionSets g2 = [([64], 2), ([64], 2)]"
    by (simp add: sets)
  with g1 g2 show ?thesis by blast
qed

end
