(* ===== verification/Contention_Cache.thy ===== *)
theory Contention_Cache
  imports Complex_Main Lru_Set Contention_Sets "HOL-Library.Product_Lexorder"
begin

text \<open>
  \<open>ContentionSetCacheModel\<close> of \<open>src/lib/CASTAN\<close>: the simulated last-level cache of
  one execution state, the accesses that update it, the choice of a bad concrete address
  for a symbolic pointer, and the per-iteration statistics.

  Undefined behaviour (\<open>begin()\<close> of an empty container, \<open>back()\<close> of an empty
  vector, an index out of range) and failed assertions are the result \<open>None\<close>.
  Floating-point costs are exact rationals.
\<close>

section \<open>Configuration and state\<close>

definition CACHE_SIZE :: nat where "CACHE_SIZE = 25600 * 1024"
definition CACHE_WRITEBACK :: bool where "CACHE_WRITEBACK = True"
definition CACHE_HIT_LATENCY :: rat where "CACHE_HIT_LATENCY = 30 * (23 / 100)"
definition CACHE_MISS_LATENCY :: nat where "CACHE_MISS_LATENCY = 62"
definition NS_PER_INSTRUCTION :: rat where "NS_PER_INSTRUCTION = 5 / 100"
definition FIXED_OVERHEAD_NS :: rat where "FIXED_OVERHEAD_NS = 0"
definition BLOCK_BITS :: nat where "BLOCK_BITS = 6"
definition PAGE_BITS :: nat where "PAGE_BITS = 30"

record loop_stats =
  instructionCount :: nat
  readCount :: nat
  writeCount :: nat
  hitCount :: nat
  missCount :: nat

definition new_stats :: loop_stats where
  "new_stats = \<lparr>instructionCount = 0, readCount = 0, writeCount = 0, hitCount = 0, missCount = 0\<rparr>"

record contention_cache =
  enabled :: bool
  cache :: "int \<Rightarrow> cache_set"
  currentTime :: nat
  loopStats :: "loop_stats list"

definition new_contention_cache :: contention_cache where
  "new_contention_cache = \<lparr>enabled = False, cache = (\<lambda>_. []), currentTime = 0, loopStats = []\<rparr>"

definition with_back :: "('a \<Rightarrow> 'a) \<Rightarrow> 'a list \<Rightarrow> 'a list option" where
  "with_back f xs = (if xs = [] then None else Some (butlast xs @ [f (last xs)]))"

section \<open>Updating the cache\<close>

definition block_addr :: "u64 \<Rightarrow> u64" where
  "block_addr address = address AND NOT (push_bit BLOCK_BITS 1 - 1)"

definition page_addr :: "u64 \<Rightarrow> u64" where
  "page_addr a = a AND (push_bit PAGE_BITS 1 - 1)"

definition set_ways :: "contention \<Rightarrow> int \<Rightarrow> nat option" where
  "set_ways g setIdx =
     (if 0 \<le> setIdx
      then (if nat setIdx < length (contentionSets g)
            then Some (snd (contentionSets g ! nat setIdx)) else None)
      else Some (CACHE_SIZE div 2 ^ BLOCK_BITS))"

definition sets_of :: "contention \<Rightarrow> u64 \<Rightarrow> int list" where
  "sets_of g address =
     (case contentionSetIdxs g (uint (page_addr (block_addr address))) of
        Some idxs \<Rightarrow> idxs | None \<Rightarrow> [-1])"

text \<open>The loop over the sets of the block, with the two flags it accumulates.\<close>

fun touch_sets ::
  "contention \<Rightarrow> nat \<Rightarrow> u64 \<Rightarrow> bool \<Rightarrow> int list \<Rightarrow> (int \<Rightarrow> cache_set) \<Rightarrow> bool \<Rightarrow> bool
   \<Rightarrow> ((int \<Rightarrow> cache_set) \<times> bool \<times> bool) option" where
  "touch_sets g now blockAddr isWrite [] c miss dirtyMiss = Some (c, miss, dirtyMiss)"
| "touch_sets g now blockAddr isWrite (setIdx # idxs) c miss dirtyMiss =
     do {
       associativity \<leftarrow> set_ways g setIdx;
       (s, hit, evictedDirty) \<leftarrow>
         access_set CACHE_WRITEBACK associativity now blockAddr isWrite (c setIdx);
       touch_sets g now blockAddr isWrite idxs (c(setIdx := s))
         (if hit \<and> \<not> (isWrite \<and> \<not> CACHE_WRITEBACK) then False else miss)
         (dirtyMiss \<or> evictedDirty)
     }"

definition updateCache :: "contention \<Rightarrow> u64 \<Rightarrow> bool \<Rightarrow> contention_cache \<Rightarrow> contention_cache option" where
  "updateCache g address isWrite m =
     do {
       let now = currentTime m + 1;
       (c, miss, dirtyMiss) \<leftarrow>
         touch_sets g now (block_addr address) isWrite (sets_of g address) (cache m) True False;
       stats \<leftarrow> with_back (\<lambda>s. if miss then s\<lparr>missCount := missCount s + 1\<rparr>
                                else s\<lparr>hitCount := hitCount s + 1\<rparr>) (loopStats m);
       stats \<leftarrow> with_back (\<lambda>s. if dirtyMiss then s\<lparr>missCount := missCount s + 1\<rparr> else s) stats;
       Some (m\<lparr>cache := c, currentTime := now, loopStats := stats\<rparr>)
     }"

section \<open>What a miss would cost\<close>

text \<open>\<open>cost += x\<close> on an \<open>unsigned long\<close> and a floating-point value truncates.\<close>

definition add_trunc :: "nat \<Rightarrow> rat \<Rightarrow> nat" where
  "add_trunc cost x = nat \<lfloor>of_nat cost + x\<rfloor>"

definition getMissCost :: "contention \<Rightarrow> contention_cache \<Rightarrow> nat \<Rightarrow> bool \<Rightarrow> nat option" where
  "getMissCost g m setIdx isWrite =
     do {
       associativity \<leftarrow> set_ways g (int setIdx);
       let s = cache m (int setIdx);
       cost \<leftarrow> (if associativity \<le> length s
                then (case find_lru s of
                        None \<Rightarrow> None
                      | Some lruPtr \<Rightarrow>
                          Some (if dirty (the (map_of s lruPtr)) then CACHE_MISS_LATENCY else 0))
                else Some 0);
       Some (if \<not> isWrite \<or> \<not> CACHE_WRITEBACK then cost + CACHE_MISS_LATENCY
             else add_trunc cost CACHE_HIT_LATENCY)
     }"

section \<open>Loads, stores, instructions, iterations\<close>

text \<open>
  The address of a memory operation is the set of values it may take under the path
  constraints, as a predicate. The engine's simplifier and solver are parameters:
  \<open>constantValue\<close> is the constant the simplified address folds to, if it does;
  \<open>trivially_false\<close> says that a constraint folds to false; \<open>getValue\<close> asks the
  solver for a value. \<open>rnd\<close> are the numbers \<open>rand()\<close> returns.
\<close>

type_synonym addr_pred = "u64 \<Rightarrow> bool"

record address_solver =
  constantValue :: "addr_pred \<Rightarrow> u64 option"
  trivially_false :: "addr_pred \<Rightarrow> bool"
  getValue :: "addr_pred \<Rightarrow> u64 option"

record sym_options =
  WorstCaseSymIndices :: bool
  GiveUpOnComplexSymIndices :: bool
  TerminateOnUNSAT :: bool

type_synonym set_cost = "(int \<times> int) \<times> int"

fun set_costs ::
  "contention \<Rightarrow> contention_cache \<Rightarrow> bool \<Rightarrow> (nat \<Rightarrow> int) \<Rightarrow> nat list \<Rightarrow> (set_cost, nat) smap
   \<Rightarrow> (set_cost, nat) smap option" where
  "set_costs g m isWrite rnd [] acc = Some acc"
| "set_costs g m isWrite rnd (setIdx # rest) acc =
     do {
       c \<leftarrow> getMissCost g m setIdx isWrite;
       associativity \<leftarrow> set_ways g (int setIdx);
       set_costs g m isWrite rnd rest
         (sm_put ((- int c, int associativity - int (length (cache m (int setIdx)))), rnd setIdx)
            setIdx acc)
     }"

text \<open>
  The search over one set, then over all of them in order of damage. \<open>Found\<close> carries
  the address that fills the set; the other outcome carries the best address so far, how
  many blocks of its set it would bring in, and whether the search is to stop.
\<close>

datatype search = Found u64 | Best "u64 option" nat bool

definition line_pred :: "addr_pred \<Rightarrow> int \<Rightarrow> addr_pred" where
  "line_pred F a = (\<lambda>v. F v \<and> of_int a =
     (((push_bit PAGE_BITS 1 - 1) AND NOT (push_bit BLOCK_BITS 1 - 1)) AND v))"

fun try_addresses ::
  "contention \<Rightarrow> contention_cache \<Rightarrow> address_solver \<Rightarrow> sym_options \<Rightarrow> addr_pred \<Rightarrow> nat
   \<Rightarrow> int list \<Rightarrow> nat \<Rightarrow> u64 option \<Rightarrow> nat \<Rightarrow> search" where
  "try_addresses g m sol opt F associativity [] hits backup backupHits = Best backup backupHits False"
| "try_addresses g m sol opt F associativity (a # as) hits backup backupHits =
     (let e = line_pred F a in
      if trivially_false sol e
      then try_addresses g m sol opt F associativity as hits backup backupHits
      else case getValue sol e of
          Some concrete \<Rightarrow>
            (if \<exists>idx \<in> set (idx_list (contentionSetIdxs g) a).
                  map_of (cache m idx) (block_addr concrete) \<noteq> None
             then try_addresses g m sol opt F associativity as hits backup backupHits
             else if associativity < hits + 1 then Found concrete
             else if backupHits < hits + 1
             then try_addresses g m sol opt F associativity as (hits + 1) (Some concrete) (hits + 1)
             else try_addresses g m sol opt F associativity as (hits + 1) backup backupHits)
        | None \<Rightarrow>
            (if GiveUpOnComplexSymIndices opt then Best backup backupHits True
             else try_addresses g m sol opt F associativity as hits backup backupHits))"

fun try_sets ::
  "contention \<Rightarrow> contention_cache \<Rightarrow> address_solver \<Rightarrow> sym_options \<Rightarrow> addr_pred
   \<Rightarrow> nat list \<Rightarrow> u64 option \<Rightarrow> nat \<Rightarrow> search" where
  "try_sets g m sol opt F [] backup backupHits = Best backup backupHits False"
| "try_sets g m sol opt F (setIdx # rest) backup backupHits =
     (case try_addresses g m sol opt F (snd (contentionSets g ! setIdx))
             (fst (contentionSets g ! setIdx)) (length (cache m (int setIdx))) backup backupHits of
        Found v \<Rightarrow> Found v
      | Best b bh giveup \<Rightarrow> if giveup then Best b bh True else try_sets g m sol opt F rest b bh)"

text \<open>
  A memory operation either ends the state or accesses one concrete address; the second
  component is then the set of values the address may still take.
\<close>

datatype mem_outcome = Terminated | Accessed u64 addr_pred contention_cache

definition access :: "contention \<Rightarrow> contention_cache \<Rightarrow> bool \<Rightarrow> addr_pred \<Rightarrow> u64 \<Rightarrow> mem_outcome option" where
  "access g m isWrite F v = map_option (Accessed v F) (updateCache g v isWrite m)"

definition pin :: "addr_pred \<Rightarrow> u64 \<Rightarrow> addr_pred" where
  "pin F concrete = (\<lambda>v. F v \<and> concrete = v)"

definition worst_case_search ::
  "contention \<Rightarrow> contention_cache \<Rightarrow> address_solver \<Rightarrow> sym_options \<Rightarrow> (nat \<Rightarrow> int) \<Rightarrow> addr_pred
   \<Rightarrow> bool \<Rightarrow> search option" where
  "worst_case_search g m sol opt rnd F isWrite =
     (if WorstCaseSymIndices opt then do {
        costs \<leftarrow> set_costs g m isWrite rnd [0..<length (contentionSets g)] [];
        (if costs = [] then None else Some (try_sets g m sol opt F (map snd costs) None 0))
      } else Some (Best None 0 False))"

definition memoryOperation ::
  "contention \<Rightarrow> address_solver \<Rightarrow> sym_options \<Rightarrow> (nat \<Rightarrow> int) \<Rightarrow> addr_pred \<Rightarrow> bool
   \<Rightarrow> contention_cache \<Rightarrow> mem_outcome option" where
  "memoryOperation g sol opt rnd F isWrite m =
     (case constantValue sol F of
        Some v \<Rightarrow> access g m isWrite F v
      | None \<Rightarrow> do {
          r \<leftarrow> worst_case_search g m sol opt rnd F isWrite;
          (case r of
             Found v \<Rightarrow> access g m isWrite (pin F v) v
           | Best backup _ _ \<Rightarrow>
               (if TerminateOnUNSAT opt then Some Terminated
                else case backup of
                    Some v \<Rightarrow> access g m isWrite (pin F v) v
                  | None \<Rightarrow> (case getValue sol F of
                        None \<Rightarrow> None
                      | Some v \<Rightarrow> access g m isWrite (pin F v) v)))
        })"

text \<open>A load or a store: counted, then performed, once the model is enabled.\<close>

datatype sym_outcome = Unchanged | Performed mem_outcome

definition load ::
  "contention \<Rightarrow> address_solver \<Rightarrow> sym_options \<Rightarrow> (nat \<Rightarrow> int) \<Rightarrow> addr_pred
   \<Rightarrow> contention_cache \<Rightarrow> sym_outcome option" where
  "load g sol opt rnd F m =
     (if enabled m then do {
        stats \<leftarrow> with_back (\<lambda>s. s\<lparr>readCount := readCount s + 1\<rparr>) (loopStats m);
        map_option Performed (memoryOperation g sol opt rnd F False (m\<lparr>loopStats := stats\<rparr>))
      } else Some Unchanged)"

definition store ::
  "contention \<Rightarrow> address_solver \<Rightarrow> sym_options \<Rightarrow> (nat \<Rightarrow> int) \<Rightarrow> addr_pred
   \<Rightarrow> contention_cache \<Rightarrow> sym_outcome option" where
  "store g sol opt rnd F m =
     (if enabled m then do {
        stats \<leftarrow> with_back (\<lambda>s. s\<lparr>writeCount := writeCount s + 1\<rparr>) (loopStats m);
        map_option Performed (memoryOperation g sol opt rnd F True (m\<lparr>loopStats := stats\<rparr>))
      } else Some Unchanged)"

definition exec :: "contention_cache \<Rightarrow> contention_cache option" where
  "exec m =
     (if enabled m
      then map_option (\<lambda>stats. m\<lparr>loopStats := stats\<rparr>)
             (with_back (\<lambda>s. s\<lparr>instructionCount := instructionCount s + 1\<rparr>) (loopStats m))
      else Some m)"

definition loop :: "nat \<Rightarrow> contention_cache \<Rightarrow> bool \<times> contention_cache" where
  "loop MaxLoops m =
     (if enabled m
      then (if MaxLoops \<le> length (loopStats m) then (False, m)
            else (True, m\<lparr>loopStats := loopStats m @ [new_stats]\<rparr>))
      else (True, m\<lparr>enabled := True, loopStats := loopStats m @ [new_stats]\<rparr>))"

definition iteration_ns :: "loop_stats \<Rightarrow> rat" where
  "iteration_ns it = FIXED_OVERHEAD_NS + of_nat (instructionCount it) * NS_PER_INSTRUCTION +
     of_nat (hitCount it) * CACHE_HIT_LATENCY + of_nat (missCount it * CACHE_MISS_LATENCY)"

definition getTotalTime :: "contention_cache \<Rightarrow> rat" where
  "getTotalTime m = fold (\<lambda>it ns. ns + iteration_ns it) (loopStats m) 0"

definition getNumIterations :: "contention_cache \<Rightarrow> nat" where
  "getNumIterations m = length (loopStats m)"

section \<open>One access\<close>

text \<open>Every set of the tables has at least one way.\<close>

definition ways_pos :: "contention \<Rightarrow> bool" where
  "ways_pos g \<longleftrightarrow> (\<forall>p \<in> set (contentionSets g). 0 < snd p)"

definition set_good :: "contention \<Rightarrow> nat \<Rightarrow> int \<Rightarrow> cache_set \<Rightarrow> bool" where
  "set_good g now i s \<longleftrightarrow> sm_wf s \<and> times_below now s \<and> (\<forall>a. set_ways g i = Some a \<longrightarrow> length s \<le> a)"

definition set_access :: "contention \<Rightarrow> nat \<Rightarrow> u64 \<Rightarrow> bool \<Rightarrow> int \<Rightarrow> cache_set \<Rightarrow> cache_set \<Rightarrow> bool \<Rightarrow> bool" where
  "set_access g now b w i s s' dm \<longleftrightarrow>
     access_set CACHE_WRITEBACK (the (set_ways g i)) now b w s = Some (s', b \<in> sm_keys s, dm)"

lemma set_good_Nil [simp]: "set_good g now i []"
  by (simp add: set_good_def times_below_def)

lemma set_good_Suc: "set_good g now i s \<Longrightarrow> set_good g (Suc now) i s"
  by (auto simp: set_good_def times_below_def less_Suc_eq)

lemma set_access_exists:
  assumes "set_ways g i = Some a" "0 < a"
  shows "\<exists>s' dm. set_access g now b w i s s' dm"
  using access_set_defined [OF assms(2), of CACHE_WRITEBACK now b w s] access_set_hit
  by (fastforce simp: set_access_def assms(1))

lemma set_access_good:
  assumes "set_access g now b w i s s' dm" "set_good g now i s" "set_ways g i = Some a" "0 < a"
  shows "set_good g (Suc now) i s'"
  using assms access_set_ok [of CACHE_WRITEBACK a now b w s s' _ dm]
  by (auto simp: set_good_def set_access_def set_ok_def intro: access_set_times)

lemma touch_sets_spec:
  assumes "distinct idxs" and "\<forall>i \<in> set idxs. \<exists>a > 0. set_ways g i = Some a"
  shows "\<exists>c' dm'. touch_sets g now b w idxs c miss dm =
      Some (c', miss \<and> (\<forall>i \<in> set idxs. b \<notin> sm_keys (c i)), dm') \<and>
    (\<forall>i. i \<notin> set idxs \<longrightarrow> c' i = c i) \<and>
    (\<forall>i \<in> set idxs. \<exists>d. set_access g now b w i (c i) (c' i) d)"
  using assms
proof (induction idxs arbitrary: c miss dm)
  case Nil
  then show ?case by simp
next
  case (Cons i idxs)
  then obtain a where a: "0 < a" "set_ways g i = Some a" by auto
  have rest: "distinct idxs" "\<forall>i \<in> set idxs. \<exists>a > 0. set_ways g i = Some a"
    using Cons.prems by auto
  obtain s' d where acc: "set_access g now b w i (c i) s' d"
    using set_access_exists [OF a(2,1)] by blast
  define miss1 where "miss1 = (if b \<in> sm_keys (c i) then False else miss)"
  obtain c' dm' where IH: "touch_sets g now b w idxs (c(i := s')) miss1 (dm \<or> d) =
      Some (c', miss1 \<and> (\<forall>j \<in> set idxs. b \<notin> sm_keys ((c(i := s')) j)), dm')"
      "\<forall>j. j \<notin> set idxs \<longrightarrow> c' j = (c(i := s')) j"
      "\<forall>j \<in> set idxs. \<exists>d. set_access g now b w j ((c(i := s')) j) (c' j) d"
    using Cons.IH [OF rest, of "c(i := s')" miss1 "dm \<or> d"] by blast
  have eq: "touch_sets g now b w (i # idxs) c miss dm = Some (c',
      miss1 \<and> (\<forall>j \<in> set idxs. b \<notin> sm_keys ((c(i := s')) j)), dm')"
    using acc IH(1) by (simp add: set_access_def a(2) miss1_def CACHE_WRITEBACK_def)
  have ni: "i \<notin> set idxs" using Cons.prems by simp
  then have keep: "(c(i := s')) j = c j" if "j \<in> set idxs" for j using that by auto
  have "c' i = s'" using IH(2) ni by simp
  then show ?case
    using eq acc IH(2,3) keep by (intro exI [of _ c'] exI [of _ dm']) (auto simp: miss1_def)
qed

lemma sets_of_valid:
  assumes "contention_ok g" "ways_pos g"
  shows "distinct (sets_of g v) \<and> sets_of g v \<noteq> [] \<and>
    (\<forall>i \<in> set (sets_of g v). \<exists>a > 0. set_ways g i = Some a)"
proof (cases "contentionSetIdxs g (uint (page_addr (block_addr v)))")
  case None
  then show ?thesis by (simp add: sets_of_def set_ways_def CACHE_SIZE_def BLOCK_BITS_def)
next
  case (Some idxs)
  have "\<exists>a > 0. set_ways g i = Some a" if "i \<in> set idxs" for i
    using contention_ok_index [OF assms(1) Some that] assms(2) nth_mem
    by (auto simp: set_ways_def ways_pos_def)
  then show ?thesis
    using Some contention_ok_distinct [OF assms(1)] contention_ok_nonempty [OF assms(1)]
    by (auto simp: sets_of_def)
qed

text \<open>The state invariant: well-formed bounded sets, and statistics to write to once enabled.\<close>

definition cache_ok :: "contention \<Rightarrow> contention_cache \<Rightarrow> bool" where
  "cache_ok g m \<longleftrightarrow> (\<forall>i. set_good g (Suc (currentTime m)) i (cache m i)) \<and>
     (enabled m \<longleftrightarrow> loopStats m \<noteq> [])"

definition is_miss :: "contention \<Rightarrow> contention_cache \<Rightarrow> u64 \<Rightarrow> bool" where
  "is_miss g m v \<longleftrightarrow> (\<forall>i \<in> set (sets_of g v). block_addr v \<notin> sm_keys (cache m i))"

definition count_access :: "bool \<Rightarrow> bool \<Rightarrow> loop_stats \<Rightarrow> loop_stats" where
  "count_access miss dirtyMiss s =
     (let s' = (if miss then s\<lparr>missCount := missCount s + 1\<rparr> else s\<lparr>hitCount := hitCount s + 1\<rparr>)
      in if dirtyMiss then s'\<lparr>missCount := missCount s' + 1\<rparr> else s')"

lemma with_back_Some: "with_back f xs = Some ys \<longleftrightarrow> xs \<noteq> [] \<and> ys = butlast xs @ [f (last xs)]"
  by (auto simp: with_back_def)

lemma updateCache_spec:
  assumes "contention_ok g" "ways_pos g" "loopStats m \<noteq> []"
  obtains m' dm where "updateCache g v w m = Some m'"
    "enabled m' = enabled m" "currentTime m' = Suc (currentTime m)"
    "loopStats m' = butlast (loopStats m) @ [count_access (is_miss g m v) dm (last (loopStats m))]"
    "\<forall>i. i \<notin> set (sets_of g v) \<longrightarrow> cache m' i = cache m i"
    "\<forall>i \<in> set (sets_of g v). \<exists>d. set_access g (Suc (currentTime m)) (block_addr v) w i
        (cache m i) (cache m' i) d"
proof -
  note v = sets_of_valid [OF assms(1,2), of v]
  obtain c' dm where t: "touch_sets g (Suc (currentTime m)) (block_addr v) w (sets_of g v) (cache m) True False =
      Some (c', is_miss g m v, dm)" "\<forall>i. i \<notin> set (sets_of g v) \<longrightarrow> c' i = cache m i"
      "\<forall>i \<in> set (sets_of g v). \<exists>d. set_access g (Suc (currentTime m)) (block_addr v) w i
        (cache m i) (c' i) d"
    using touch_sets_spec [of "sets_of g v" g "Suc (currentTime m)" "block_addr v" w "cache m" True False] v
    by (auto simp: is_miss_def)
  show ?thesis
    by (rule that [of "m\<lparr>cache := c', currentTime := Suc (currentTime m), loopStats :=
        butlast (loopStats m) @ [count_access (is_miss g m v) dm (last (loopStats m))]\<rparr>" dm])
      (use t assms(3) in \<open>auto simp: updateCache_def with_back_def count_access_def Let_def\<close>)
qed

lemma updateCache_stats:
  assumes g: "contention_ok g" "ways_pos g" and upd: "updateCache g v w m = Some m'"
  shows "loopStats m \<noteq> [] \<and> enabled m' = enabled m \<and> (\<exists>dm. loopStats m' =
    butlast (loopStats m) @ [count_access (is_miss g m v) dm (last (loopStats m))])"
proof -
  have ne: "loopStats m \<noteq> []"
    using upd by (auto simp: updateCache_def with_back_Some split: Option.bind_splits)
  show ?thesis
    by (rule updateCache_spec [OF g ne, where v = v and w = w]) (use upd ne in auto)
qed

lemma updateCache_ok:
  assumes g: "contention_ok g" "ways_pos g" and ok: "cache_ok g m"
    and upd: "updateCache g v w m = Some m'"
  shows "cache_ok g m'"
proof -
  have ne: "loopStats m \<noteq> []"
    using upd by (auto simp: updateCache_def with_back_Some split: Option.bind_splits)
  obtain dm where m': "enabled m' = enabled m" "currentTime m' = Suc (currentTime m)"
    "loopStats m' = butlast (loopStats m) @ [count_access (is_miss g m v) dm (last (loopStats m))]"
    "\<forall>i. i \<notin> set (sets_of g v) \<longrightarrow> cache m' i = cache m i"
    "\<forall>i \<in> set (sets_of g v). \<exists>d. set_access g (Suc (currentTime m)) (block_addr v) w i
        (cache m i) (cache m' i) d"
    using updateCache_spec [OF g ne, of v w] upd by (metis option.inject)
  have "set_good g (Suc (Suc (currentTime m))) i (cache m' i)" for i
  proof (cases "i \<in> set (sets_of g v)")
    case True
    then obtain a d where "0 < a" "set_ways g i = Some a"
      and "set_access g (Suc (currentTime m)) (block_addr v) w i (cache m i) (cache m' i) d"
      using sets_of_valid [OF g, of v] m'(5) by blast
    then show ?thesis using ok set_access_good by (auto simp: cache_ok_def)
  next
    case False
    then show ?thesis using ok m'(4) by (simp add: cache_ok_def set_good_Suc)
  qed
  then show ?thesis using ok ne m' by (simp add: cache_ok_def)
qed

section \<open>Sequences of accesses\<close>

fun updateCaches :: "contention \<Rightarrow> bool \<Rightarrow> u64 list \<Rightarrow> contention_cache \<Rightarrow> contention_cache option" where
  "updateCaches g w [] m = Some m"
| "updateCaches g w (v # vs) m = do { m' \<leftarrow> updateCache g v w m; updateCaches g w vs m' }"

text \<open>
  Accesses that all fall into one set: the statistics of the current iteration follow the
  recency list of that set.
\<close>

lemma updateCache_one_set:
  assumes g: "contention_ok g" "ways_pos g" and ok: "cache_ok g m" "enabled m"
    and one: "sets_of g v = [i]" "set_ways g i = Some a" and rel: "lru_rel (cache m i) q"
  obtains m' dm where "updateCache g v w m = Some m'" "cache_ok g m'" "enabled m'"
    "lru_rel (cache m' i) (lru_access a (block_addr v) q)"
    "loopStats m' = butlast (loopStats m) @
       [count_access (block_addr v \<notin> set q) dm (last (loopStats m))]"
proof -
  have ne: "loopStats m \<noteq> []" using ok by (simp add: cache_ok_def)
  obtain m' dm where upd: "updateCache g v w m = Some m'" and en: "enabled m' = enabled m"
    and st: "loopStats m' = butlast (loopStats m) @ [count_access (is_miss g m v) dm (last (loopStats m))]"
    and acc: "\<forall>j \<in> set (sets_of g v). \<exists>d. set_access g (Suc (currentTime m)) (block_addr v) w j
        (cache m j) (cache m' j) d"
    using updateCache_spec [OF g ne, of v w] by metis
  obtain d where d: "set_access g (Suc (currentTime m)) (block_addr v) w i (cache m i) (cache m' i) d"
    using acc one by auto
  have good: "set_good g (Suc (currentTime m)) i (cache m i)" using ok by (simp add: cache_ok_def)
  have a: "0 < a" using sets_of_valid [OF g, of v] one by auto
  have r: "lru_rel (cache m' i) (lru_access a (block_addr v) q)"
      "block_addr v \<in> sm_keys (cache m i) \<longleftrightarrow> block_addr v \<in> set q"
    using access_set_refines [of CACHE_WRITEBACK a "Suc (currentTime m)" "block_addr v" w "cache m i"
        "cache m' i" _ d q] d rel good a one(2)
    by (auto simp: set_access_def set_good_def)
  then have "is_miss g m v \<longleftrightarrow> block_addr v \<notin> set q" by (simp add: is_miss_def one(1))
  then show ?thesis
    using that [OF upd] updateCache_ok [OF g ok(1) upd] en ok r(1) st by simp
qed

lemma count_access_counts:
  "missCount s + (if miss then 1 else 0) \<le> missCount (count_access miss dm s)"
  "hitCount (count_access miss dm s) = hitCount s + (if miss then 0 else 1)"
  "readCount (count_access miss dm s) = readCount s"
  "writeCount (count_access miss dm s) = writeCount s"
  "instructionCount (count_access miss dm s) = instructionCount s"
  "missCount (count_access miss dm s) \<le> Suc (missCount s + (if miss then 1 else 0))"
  "missCount s \<le> missCount (count_access miss dm s)"
  by (simp_all add: count_access_def Let_def)

lemma updateCaches_one_set:
  assumes g: "contention_ok g" "ways_pos g" and way: "set_ways g i = Some a"
    and "cache_ok g m" "enabled m" "\<forall>v \<in> set vs. sets_of g v = [i]" "lru_rel (cache m i) q"
  shows "\<exists>m' n. updateCaches g w vs m = Some m' \<and> cache_ok g m' \<and> enabled m' \<and>
    fst (lru_run a (map block_addr vs) q) = n \<and> n \<le> length vs \<and>
    lru_rel (cache m' i) (snd (lru_run a (map block_addr vs) q)) \<and>
    missCount (last (loopStats m)) + n \<le> missCount (last (loopStats m')) \<and>
    hitCount (last (loopStats m')) = hitCount (last (loopStats m)) + (length vs - n)"
  using assms(4-)
proof (induction vs arbitrary: m q)
  case Nil
  then show ?case by simp
next
  case (Cons v vs)
  obtain m1 dm where m1: "updateCache g v w m = Some m1" "cache_ok g m1" "enabled m1"
    "lru_rel (cache m1 i) (lru_access a (block_addr v) q)"
    "loopStats m1 = butlast (loopStats m) @
       [count_access (block_addr v \<notin> set q) dm (last (loopStats m))]"
    by (rule updateCache_one_set [OF g Cons.prems(1,2) _ way Cons.prems(4), where v = v and w = w])
      (use Cons.prems(3) in auto)
  have vs: "\<forall>v \<in> set vs. sets_of g v = [i]" using Cons.prems(3) by simp
  from Cons.IH [OF m1(2,3) vs m1(4)] obtain m' n where m': "updateCaches g w vs m1 = Some m'"
    "cache_ok g m'" "enabled m'" "fst (lru_run a (map block_addr vs) (lru_access a (block_addr v) q)) = n"
    "n \<le> length vs"
    "lru_rel (cache m' i) (snd (lru_run a (map block_addr vs) (lru_access a (block_addr v) q)))"
    "missCount (last (loopStats m1)) + n \<le> missCount (last (loopStats m'))"
    "hitCount (last (loopStats m')) = hitCount (last (loopStats m1)) + (length vs - n)"
    by blast
  then show ?case
    using m1(1,5) count_access_counts(1) [of "last (loopStats m)" "block_addr v \<notin> set q" dm]
    by (auto simp: split_beta Let_def count_access_counts(2))
qed

section \<open>The choice of a concrete address\<close>

text \<open>
  What the code relies on: a constant the simplifier folds to and a value the solver
  returns satisfy the constraints, and a constraint folded to false has no solution.
\<close>

definition solver_sound :: "address_solver \<Rightarrow> bool" where
  "solver_sound sol \<longleftrightarrow>
     (\<forall>P v. (\<exists>x. P x) \<and> constantValue sol P = Some v \<longrightarrow> P v) \<and>
     (\<forall>P v. getValue sol P = Some v \<longrightarrow> P v) \<and>
     (\<forall>P v. trivially_false sol P \<longrightarrow> \<not> P v)"

lemma solver_sound_getValue: "solver_sound sol \<Longrightarrow> getValue sol P = Some v \<Longrightarrow> P v"
  by (auto simp: solver_sound_def)

lemma line_pred_page:
  assumes "line_pred F a v" "0 \<le> a" "a < 2 ^ 30"
  shows "uint (page_addr (block_addr v)) = a"
proof -
  have "page_addr (block_addr v) = of_int a"
    using assms(1) by (simp add: line_pred_def page_addr_def block_addr_def and.assoc and.commute and.left_commute)
  moreover have "uint (of_int a :: u64) = a"
    using assms(2,3) by (simp add: uint_word_of_int take_bit_int_eq_self)
  ultimately show ?thesis by simp
qed

definition search_ok :: "contention \<Rightarrow> contention_cache \<Rightarrow> addr_pred \<Rightarrow> search \<Rightarrow> bool" where
  "search_ok g m F r = (case r of
     Found v \<Rightarrow> F v \<and> is_miss g m v
   | Best b bh gu \<Rightarrow> (case b of None \<Rightarrow> True | Some v \<Rightarrow> F v \<and> is_miss g m v))"

text \<open>The addresses of the tables are block addresses within a page.\<close>

definition addresses_in_page :: "contention \<Rightarrow> bool" where
  "addresses_in_page g \<longleftrightarrow> (\<forall>p \<in> set (contentionSets g). \<forall>a \<in> set (fst p). 0 \<le> a \<and> a < 2 ^ PAGE_BITS)"

lemma miss_of_line:
  assumes "line_pred F a v" "0 \<le> a" "a < 2 ^ 30" and "contentionSetIdxs g a \<noteq> None"
    and "\<not> (\<exists>idx \<in> set (idx_list (contentionSetIdxs g) a). map_of (cache m idx) (block_addr v) \<noteq> None)"
  shows "is_miss g m v"
  using assms(4,5)
  by (auto simp: is_miss_def sets_of_def line_pred_page [OF assms(1-3)] idx_list_def map_of_None_keys)

lemma try_addresses_ok:
  assumes "solver_sound sol"
    and "\<forall>a \<in> set as. 0 \<le> a \<and> a < 2 ^ 30 \<and> contentionSetIdxs g a \<noteq> None"
    and "search_ok g m F (Best backup backupHits False)"
  shows "search_ok g m F (try_addresses g m sol opt F ways as hits backup backupHits)"
  using assms(2,3)
proof (induction as arbitrary: hits backup backupHits)
  case Nil
  then show ?case by simp
next
  case (Cons a as)
  show ?case
  proof (cases "getValue sol (line_pred F a)")
    case None
    then show ?thesis using Cons by (simp add: Let_def search_ok_def)
  next
    case (Some v)
    then have l: "line_pred F a v" using assms(1) by (rule solver_sound_getValue [rotated])
    then have "F v" by (simp add: line_pred_def)
    moreover have "is_miss g m v"
      if "\<not> (\<exists>idx \<in> set (idx_list (contentionSetIdxs g) a). map_of (cache m idx) (block_addr v) \<noteq> None)"
      using miss_of_line [OF l _ _ _ that] Cons.prems(1) by simp
    ultimately show ?thesis
      using Cons by (auto simp: Let_def Some search_ok_def)
  qed
qed

lemma contention_ok_some:
  assumes "contention_ok g" "i < length (contentionSets g)" "a \<in> set (fst (contentionSets g ! i))"
  shows "contentionSetIdxs g a \<noteq> None"
  using contention_ok_count [OF assms(1), of a] assms(2,3) by (auto simp: member_sets_def)

lemma try_sets_ok:
  assumes sound: "solver_sound sol" and g: "contention_ok g" "addresses_in_page g"
    and "\<forall>i \<in> set idxs. i < length (contentionSets g)"
    and "search_ok g m F (Best backup backupHits False)"
  shows "search_ok g m F (try_sets g m sol opt F idxs backup backupHits)"
  using assms(4,5)
proof (induction idxs arbitrary: backup backupHits)
  case Nil
  then show ?case by simp
next
  case (Cons i idxs)
  then have i: "i < length (contentionSets g)" by simp
  have "\<forall>a \<in> set (fst (contentionSets g ! i)). 0 \<le> a \<and> a < 2 ^ 30 \<and> contentionSetIdxs g a \<noteq> None"
    using g(2) nth_mem [OF i] contention_ok_some [OF g(1) i]
    by (auto simp: addresses_in_page_def PAGE_BITS_def)
  from try_addresses_ok [OF sound this Cons.prems(2)]
  have r: "search_ok g m F (try_addresses g m sol opt F (snd (contentionSets g ! i))
      (fst (contentionSets g ! i)) (length (cache m (int i))) backup backupHits)"
    (is "search_ok g m F ?r") .
  show ?case
  proof (cases ?r)
    case (Found v)
    then show ?thesis using r by simp
  next
    case (Best b bh giveup)
    then have "search_ok g m F (Best b bh False)" using r by (simp add: search_ok_def)
    with Cons.IH [of b bh] Cons.prems(1) r Best show ?thesis by (cases giveup) auto
  qed
qed

lemma set_sm_put: "set (sm_put k v m) \<subseteq> insert (k, v) (set m)"
  by (induction m) auto

lemma sm_put_nonempty [simp]: "sm_put k v m \<noteq> []"
  by (cases m) auto

lemma set_costs_range:
  "set_costs g m w rnd idxs acc = Some costs \<Longrightarrow> snd ` set costs \<subseteq> set idxs \<union> snd ` set acc"
proof (induction idxs arbitrary: acc)
  case Nil
  then show ?case by simp
next
  case (Cons i idxs)
  then obtain k where "set_costs g m w rnd idxs (sm_put k i acc) = Some costs"
    by (auto split: Option.bind_splits)
  note IH = Cons.IH [OF this]
  have "snd ` set (sm_put k i acc) \<subseteq> insert i (snd ` set acc)"
    using set_sm_put [of k i acc] by force
  with IH show ?case by (simp only: list.set) blast
qed

lemma worst_case_search_ok:
  assumes "solver_sound sol" "contention_ok g" "addresses_in_page g"
    and "worst_case_search g m sol opt rnd F w = Some r"
  shows "search_ok g m F r"
proof (cases "WorstCaseSymIndices opt")
  case True
  then obtain costs where c: "set_costs g m w rnd [0..<length (contentionSets g)] [] = Some costs"
    and r: "r = try_sets g m sol opt F (map snd costs) None 0"
    using assms(4) by (auto simp: worst_case_search_def split: Option.bind_splits if_splits)
  show ?thesis
    unfolding r using set_costs_range [OF c]
    by (intro try_sets_ok assms) (auto simp: search_ok_def)
next
  case False
  then show ?thesis using assms(4) by (auto simp: worst_case_search_def search_ok_def)
qed

lemma access_Some:
  "access g m w F v = Some r \<longleftrightarrow> (\<exists>m'. updateCache g v w m = Some m' \<and> r = Accessed v F m')"
  by (auto simp: access_def)

text \<open>A memory operation that continues accesses one value the address may take.\<close>

lemma memoryOperation_accessed:
  assumes sound: "solver_sound sol" and g: "contention_ok g" "addresses_in_page g"
    and op: "memoryOperation g sol opt rnd F w m = Some (Accessed v F' m')" and sat: "\<exists>x. F x"
  shows "updateCache g v w m = Some m' \<and> F v \<and> F' v \<and> (\<forall>x. F' x \<longrightarrow> F x)"
proof (cases "constantValue sol F")
  case (Some c)
  then have "F c" using sound sat by (auto simp: solver_sound_def)
  then show ?thesis using op Some by (auto simp: memoryOperation_def access_Some)
next
  case None
  then obtain r where r: "worst_case_search g m sol opt rnd F w = Some r"
    using op by (auto simp: memoryOperation_def split: Option.bind_splits)
  note ok = worst_case_search_ok [OF sound g r]
  have "\<exists>c. access g m w (pin F c) c = Some (Accessed v F' m') \<and> F c"
    using op None r ok solver_sound_getValue [OF sound]
    by (auto simp: memoryOperation_def search_ok_def split: search.splits if_splits option.splits)
  then show ?thesis by (auto simp: access_Some pin_def)
qed

lemma memoryOperation_updates:
  assumes "memoryOperation g sol opt rnd F w m = Some (Accessed v F' m')"
  shows "updateCache g v w m = Some m'"
  using assms
  by (auto simp: memoryOperation_def access_Some split: option.splits Option.bind_splits search.splits if_splits)

section \<open>Reachable states\<close>

text \<open>
  The steps of one state under the engine's hooks: an instruction, an iteration marker
  that lets the state go on, a load or a store that does not end the state.
\<close>

inductive cache_step ::
  "contention \<Rightarrow> address_solver \<Rightarrow> sym_options \<Rightarrow> nat \<Rightarrow> contention_cache \<Rightarrow> contention_cache \<Rightarrow> bool"
  for g sol opt MaxLoops where
  exec: "exec m = Some m' \<Longrightarrow> cache_step g sol opt MaxLoops m m'"
| loop: "loop MaxLoops m = (True, m') \<Longrightarrow> cache_step g sol opt MaxLoops m m'"
| load: "load g sol opt rnd F m = Some (Performed (Accessed v F' m')) \<Longrightarrow>
    cache_step g sol opt MaxLoops m m'"
| store: "store g sol opt rnd F m = Some (Performed (Accessed v F' m')) \<Longrightarrow>
    cache_step g sol opt MaxLoops m m'"

inductive_cases cache_step_elims: "cache_step g sol opt MaxLoops m m'"

definition stats_ok :: "loop_stats \<Rightarrow> bool" where
  "stats_ok s \<longleftrightarrow> readCount s + writeCount s \<le> hitCount s + missCount s \<and>
     hitCount s + missCount s \<le> 2 * (readCount s + writeCount s)"

definition model_inv :: "contention \<Rightarrow> nat \<Rightarrow> contention_cache \<Rightarrow> bool" where
  "model_inv g MaxLoops m \<longleftrightarrow> cache_ok g m \<and> (\<forall>s \<in> set (loopStats m). stats_ok s) \<and>
     getNumIterations m \<le> max 1 MaxLoops"

text \<open>How a step changes the statistics: the last entry grows, or a fresh one is added.\<close>

lemma set_butlast_snoc: "xs \<noteq> [] \<Longrightarrow> set (butlast xs @ [y]) \<subseteq> insert y (set xs)"
  by (auto dest: in_set_butlastD)

lemma cache_ok_stats:
  assumes "cache_ok g m" "stats \<noteq> []" "enabled m"
  shows "cache_ok g (m\<lparr>loopStats := stats\<rparr>)"
  using assms by (simp add: cache_ok_def)

lemma mem_step_inv:
  assumes g: "contention_ok g" "ways_pos g" and inv: "model_inv g MaxLoops m" and en: "enabled m"
    and stats: "with_back f (loopStats m) = Some stats"
    and f: "\<And>s. readCount (f s) + writeCount (f s) = Suc (readCount s + writeCount s)"
      "\<And>s. hitCount (f s) = hitCount s" "\<And>s. missCount (f s) = missCount s"
    and upd: "updateCache g v w (m\<lparr>loopStats := stats\<rparr>) = Some m'"
  shows "model_inv g MaxLoops m'"
proof -
  let ?m = "m\<lparr>loopStats := stats\<rparr>"
  have ne: "loopStats m \<noteq> []" and s: "stats = butlast (loopStats m) @ [f (last (loopStats m))]"
    using stats by (auto simp: with_back_Some)
  have ok: "cache_ok g ?m" using inv en s by (auto simp: model_inv_def intro: cache_ok_stats)
  have "cache_ok g m'" using updateCache_ok [OF g ok upd] .
  moreover obtain dm where st: "loopStats m' = butlast (loopStats ?m) @
      [count_access (is_miss g ?m v) dm (last (loopStats ?m))]"
    using updateCache_stats [OF g upd] by blast
  let ?new = "count_access (is_miss g ?m v) dm (f (last (loopStats m)))"
  have st': "loopStats m' = butlast (loopStats m) @ [?new]" using st s by simp
  have "stats_ok (last (loopStats m))" using inv ne by (simp add: model_inv_def)
  then have "stats_ok ?new"
    using f [of "last (loopStats m)"]
      count_access_counts [where s = "f (last (loopStats m))" and miss = "is_miss g ?m v" and dm = dm]
    by (auto simp: stats_ok_def split: if_splits)
  then have "\<forall>s \<in> set (loopStats m'). stats_ok s"
    using inv set_butlast_snoc [OF ne] unfolding st' model_inv_def by blast
  moreover have "getNumIterations m' \<le> max 1 MaxLoops"
    using inv ne by (simp add: model_inv_def getNumIterations_def st')
  ultimately show ?thesis by (simp add: model_inv_def)
qed

lemma with_back_set:
  assumes "with_back f xs = Some ys" "\<forall>x \<in> set xs. P x" "\<And>x. P x \<Longrightarrow> P (f x)"
  shows "\<forall>y \<in> set ys. P y"
proof -
  have "xs \<noteq> []" and ys: "ys = butlast xs @ [f (last xs)]" using assms(1) by (auto simp: with_back_Some)
  then have "P (f (last xs))" using assms(2,3) by simp
  with assms(2) show ?thesis using set_butlast_snoc [OF \<open>xs \<noteq> []\<close>] unfolding ys by blast
qed

lemma exec_inv:
  assumes "model_inv g MaxLoops m" "exec m = Some m'"
  shows "model_inv g MaxLoops m'"
proof (cases "enabled m")
  case True
  then obtain stats where stats: "with_back (\<lambda>s. s\<lparr>instructionCount := instructionCount s + 1\<rparr>) (loopStats m) = Some stats"
    and m': "m' = m\<lparr>loopStats := stats\<rparr>"
    using assms(2) by (auto simp: exec_def)
  have "\<forall>s \<in> set stats. stats_ok s"
    using assms(1) by (intro with_back_set [OF stats]) (auto simp: model_inv_def stats_ok_def)
  moreover have "stats \<noteq> []" "length stats = length (loopStats m)"
    using stats by (auto simp: with_back_Some)
  ultimately show ?thesis
    using assms(1) True by (auto simp: model_inv_def m' getNumIterations_def intro: cache_ok_stats)
next
  case False
  then show ?thesis using assms by (simp add: exec_def)
qed

lemma loop_inv:
  assumes "model_inv g MaxLoops m" "loop MaxLoops m = (True, m')"
  shows "model_inv g MaxLoops m'"
  using assms
  by (auto simp: loop_def model_inv_def cache_ok_def getNumIterations_def new_stats_def stats_ok_def
      split: if_splits)

lemma load_cases:
  assumes "load g sol opt rnd F m = Some (Performed (Accessed v F' m'))"
  shows "\<exists>stats. enabled m \<and>
    with_back (\<lambda>s. s\<lparr>readCount := readCount s + 1\<rparr>) (loopStats m) = Some stats \<and>
    updateCache g v False (m\<lparr>loopStats := stats\<rparr>) = Some m'"
  using assms by (auto simp: load_def split: if_splits Option.bind_splits dest!: memoryOperation_updates)

lemma load_inv:
  assumes g: "contention_ok g" "ways_pos g" and inv: "model_inv g MaxLoops m"
    and op: "load g sol opt rnd F m = Some (Performed (Accessed v F' m'))"
  shows "model_inv g MaxLoops m'"
proof -
  obtain stats where en: "enabled m"
    and stats: "with_back (\<lambda>s. s\<lparr>readCount := readCount s + 1\<rparr>) (loopStats m) = Some stats"
    and upd: "updateCache g v False (m\<lparr>loopStats := stats\<rparr>) = Some m'"
    using load_cases [OF op] by blast
  show ?thesis by (rule mem_step_inv [OF g inv en stats _ _ _ upd]) simp_all
qed

lemma store_cases:
  assumes "store g sol opt rnd F m = Some (Performed (Accessed v F' m'))"
  shows "\<exists>stats. enabled m \<and>
    with_back (\<lambda>s. s\<lparr>writeCount := writeCount s + 1\<rparr>) (loopStats m) = Some stats \<and>
    updateCache g v True (m\<lparr>loopStats := stats\<rparr>) = Some m'"
  using assms by (auto simp: store_def split: if_splits Option.bind_splits dest!: memoryOperation_updates)

lemma store_inv:
  assumes g: "contention_ok g" "ways_pos g" and inv: "model_inv g MaxLoops m"
    and op: "store g sol opt rnd F m = Some (Performed (Accessed v F' m'))"
  shows "model_inv g MaxLoops m'"
proof -
  obtain stats where en: "enabled m"
    and stats: "with_back (\<lambda>s. s\<lparr>writeCount := writeCount s + 1\<rparr>) (loopStats m) = Some stats"
    and upd: "updateCache g v True (m\<lparr>loopStats := stats\<rparr>) = Some m'"
    using store_cases [OF op] by blast
  show ?thesis by (rule mem_step_inv [OF g inv en stats _ _ _ upd]) simp_all
qed

lemma cache_step_inv:
  assumes "contention_ok g" "ways_pos g" "model_inv g MaxLoops m" "cache_step g sol opt MaxLoops m m'"
  shows "model_inv g MaxLoops m'"
  using assms(4) assms(1-3) by cases (auto intro: exec_inv loop_inv load_inv store_inv)

lemma new_model_inv: "model_inv g MaxLoops new_contention_cache"
  by (simp add: model_inv_def new_contention_cache_def cache_ok_def getNumIterations_def)

lemma reachable_inv:
  assumes "contention_ok g" "ways_pos g"
    and "(cache_step g sol opt MaxLoops)\<^sup>*\<^sup>* new_contention_cache m"
  shows "model_inv g MaxLoops m"
  using assms(3) by (induction) (auto intro: new_model_inv cache_step_inv [OF assms(1,2)])

lemma iteration_ns_mono:
  assumes "instructionCount s \<le> instructionCount t" "hitCount s \<le> hitCount t" "missCount s \<le> missCount t"
  shows "iteration_ns s \<le> iteration_ns t"
  using assms by (auto simp: iteration_ns_def NS_PER_INSTRUCTION_def CACHE_HIT_LATENCY_def
      CACHE_MISS_LATENCY_def intro!: add_mono mult_right_mono)

lemma iteration_ns_nonneg: "0 \<le> iteration_ns s"
  by (simp add: iteration_ns_def FIXED_OVERHEAD_NS_def NS_PER_INSTRUCTION_def CACHE_HIT_LATENCY_def)

lemma getTotalTime_sum: "getTotalTime m = sum_list (map iteration_ns (loopStats m))"
proof -
  have "fold (\<lambda>it ns. ns + iteration_ns it) xs t = t + sum_list (map iteration_ns xs)" for xs t
    by (induction xs arbitrary: t) (auto simp: algebra_simps)
  then show ?thesis by (simp add: getTotalTime_def)
qed

lemma sum_list_butlast_last: "xs \<noteq> [] \<Longrightarrow> sum_list (map f xs) = sum_list (map f (butlast xs)) + (f (last xs) :: rat)"
  by (cases xs rule: rev_cases) simp_all

lemma getTotalTime_back:
  assumes "loopStats m \<noteq> []" "loopStats m' = butlast (loopStats m) @ [s]"
    and "iteration_ns (last (loopStats m)) \<le> iteration_ns s"
  shows "getTotalTime m \<le> getTotalTime m'"
  using assms by (simp add: getTotalTime_sum sum_list_butlast_last [of "loopStats m"])

lemma mem_step_time:
  assumes g: "contention_ok g" "ways_pos g"
    and stats: "with_back f (loopStats m) = Some stats"
    and f: "\<And>s. iteration_ns (f s) = iteration_ns s"
    and upd: "updateCache g v w (m\<lparr>loopStats := stats\<rparr>) = Some m'"
  shows "getTotalTime m \<le> getTotalTime m'"
proof -
  have ne: "loopStats m \<noteq> []" and s: "stats = butlast (loopStats m) @ [f (last (loopStats m))]"
    using stats by (auto simp: with_back_Some)
  obtain miss dm where st: "loopStats m' = butlast (loopStats m) @
      [count_access miss dm (f (last (loopStats m)))]"
    using updateCache_stats [OF g upd] s by auto
  have "iteration_ns (f (last (loopStats m))) \<le> iteration_ns (count_access miss dm (f (last (loopStats m))))"
    by (rule iteration_ns_mono) (simp_all add: count_access_counts)
  then show ?thesis using getTotalTime_back [OF ne st] f by simp
qed

lemma cache_step_time:
  assumes g: "contention_ok g" "ways_pos g" and "cache_step g sol opt MaxLoops m m'"
  shows "getTotalTime m \<le> getTotalTime m'"
  using assms(3)
proof cases
  case exec
  show ?thesis
  proof (cases "enabled m")
    case True
    then have "loopStats m \<noteq> []" "loopStats m' = butlast (loopStats m) @
        [(last (loopStats m))\<lparr>instructionCount := instructionCount (last (loopStats m)) + 1\<rparr>]"
      using exec by (auto simp: exec_def with_back_Some)
    then show ?thesis by (rule getTotalTime_back) (rule iteration_ns_mono, simp_all)
  qed (use exec in \<open>simp add: exec_def\<close>)
next
  case loop
  then show ?thesis
    by (auto simp: loop_def getTotalTime_sum iteration_ns_nonneg split: if_splits)
next
  case (load rnd F v F')
  from load_cases [OF this] obtain stats
    where s: "with_back (\<lambda>s. s\<lparr>readCount := readCount s + 1\<rparr>) (loopStats m) = Some stats"
      "updateCache g v False (m\<lparr>loopStats := stats\<rparr>) = Some m'" by blast
  show ?thesis by (rule mem_step_time [OF g s(1) _ s(2)]) (simp add: iteration_ns_def)
next
  case (store rnd F v F')
  from store_cases [OF this] obtain stats
    where s: "with_back (\<lambda>s. s\<lparr>writeCount := writeCount s + 1\<rparr>) (loopStats m) = Some stats"
      "updateCache g v True (m\<lparr>loopStats := stats\<rparr>) = Some m'" by blast
  show ?thesis by (rule mem_step_time [OF g s(1) _ s(2)]) (simp add: iteration_ns_def)
qed

section \<open>Correctness of the model\<close>

text \<open>A table with one set of two ways, as a witness of the hypotheses below.\<close>

definition demo_file :: "string list" where
  "demo_file = [''2'', ''0'', ''64'', ''128'', []]"

definition demo_contention :: contention where
  "demo_contention = \<lparr>contentionSets = [([0, 64, 128], 2)],
     contentionSetIdxs = [0 \<mapsto> [0], 64 \<mapsto> [0], 128 \<mapsto> [0]]\<rparr>"

definition demo_solver :: address_solver where
  "demo_solver = \<lparr>constantValue = (\<lambda>_. None), trivially_false = (\<lambda>_. False),
     getValue = (\<lambda>P. find P [0, 64, 128])\<rparr>"

definition demo_options :: sym_options where
  "demo_options = \<lparr>WorstCaseSymIndices = True, GiveUpOnComplexSymIndices = False, TerminateOnUNSAT = False\<rparr>"

lemma demo_stoi: "std_stoi ''2'' = Some 2"
  by (simp add: std_stoi_def std_sto_def is_digit_def is_space_def Let_def)

lemma demo_stol: "std_stol ''0'' = Some 0" "std_stol ''64'' = Some 64" "std_stol ''128'' = Some 128"
  by (simp_all add: std_stol_def std_sto_def is_digit_def is_space_def Let_def)

lemma demo_loads: "load_contention (Some demo_file) no_contention = Some demo_contention"
  by (simp add: load_contention_def demo_file_def no_contention_def demo_contention_def demo_stoi demo_stol
      idx_add_def insort_insert_key_def fun_eq_iff)

lemma demo_ok: "contention_ok demo_contention" "ways_pos demo_contention" "addresses_in_page demo_contention"
  using load_contention_ok [OF contention_ok_none demo_loads]
  by (simp_all add: ways_pos_def addresses_in_page_def demo_contention_def PAGE_BITS_def)

lemma demo_sound: "solver_sound demo_solver"
  by (auto simp: solver_sound_def demo_solver_def split: if_splits)

lemma demo_const: "constantValue demo_solver P = None"
  by (simp add: demo_solver_def)

lemma demo_ways: "set_ways demo_contention 0 = Some 2"
  by (simp add: set_ways_def demo_contention_def)

lemma demo_sets_of: "sets_of demo_contention 0 = [0]" "sets_of demo_contention 64 = [0]"
  "sets_of demo_contention 128 = [0]" "block_addr 0 = 0" "block_addr 64 = 64" "block_addr 128 = 128"
  by (simp_all add: sets_of_def demo_contention_def page_addr_def block_addr_def BLOCK_BITS_def PAGE_BITS_def)

text \<open>
  C4: Thrashing, the behaviour the model exists to find: blocks of one contention set that
  are more than its ways, visited in a cycle any number of times, are charged one DRAM
  access each and never a hit, whatever other blocks the set held, and no access runs into
  undefined behaviour.
\<close>

theorem cyclic_accesses_all_miss:
  assumes "contention_ok g" "ways_pos g" "cache_ok g m" "enabled m"
    and "set_ways g i = Some a" "\<forall>v \<in> set vs. sets_of g v = [i]"
    and "distinct (map block_addr vs)" "a < length vs"
    and "lru_rel (cache m i) q" "set q \<inter> block_addr ` set vs = {}"
  shows "\<exists>m'. updateCaches g w (concat (replicate n vs)) m = Some m' \<and>
    missCount (last (loopStats m)) + n * length vs \<le> missCount (last (loopStats m')) \<and>
    hitCount (last (loopStats m')) = hitCount (last (loopStats m))"
proof -
  have "length q \<le> a"
    using assms(3,5) lru_rel_length [OF assms(9)] by (auto simp: cache_ok_def set_good_def)
  then have q: "take a q = q" by simp
  have "fst (lru_run a (concat (replicate n (map block_addr vs))) q) = n * length vs"
    using lru_cyclic_misses [of "map block_addr vs" a q n] assms(7,8,10) q by simp
  moreover have "map block_addr (concat (replicate n vs)) = concat (replicate n (map block_addr vs))"
    by (simp add: map_concat)
  moreover have "\<forall>v \<in> set (concat (replicate n vs)). sets_of g v = [i]" using assms(6) by auto
  ultimately show ?thesis
    using updateCaches_one_set [OF assms(1,2,5,3,4) _ assms(9), of "concat (replicate n vs)" w]
    by (auto simp: length_concat_replicate)
qed

definition demo_started :: contention_cache where
  "demo_started = snd (loop 5 new_contention_cache)"

lemma demo_started_ok: "cache_ok g demo_started" "enabled demo_started" "cache demo_started = (\<lambda>_. [])"
  "loopStats demo_started = [new_stats]"
  by (simp_all add: demo_started_def loop_def new_contention_cache_def cache_ok_def)

theorem cyclic_accesses_all_miss_witness:
  "\<exists>m'. updateCaches demo_contention False (concat (replicate 7 [0, 64, 128])) demo_started = Some m' \<and>
    21 \<le> missCount (last (loopStats m')) \<and> hitCount (last (loopStats m')) = 0"
  using cyclic_accesses_all_miss [OF demo_ok(1,2) demo_started_ok(1,2), of 0 2 "[0, 64, 128]" "[]" False 7]
  by (simp add: demo_sets_of demo_started_ok demo_ways new_stats_def)


lemma demo_reachable: "(cache_step g sol opt 5)\<^sup>*\<^sup>* new_contention_cache demo_started"
  by (rule r_into_rtranclp, rule cache_step.loop)
    (simp add: demo_started_def loop_def new_contention_cache_def)



lemma getMissCost_defined:
  assumes "ways_pos g" "i < length (contentionSets g)"
  shows "\<exists>c. getMissCost g m i w = Some c"
proof -
  have pos: "0 < snd (contentionSets g ! i)" using assms by (simp add: ways_pos_def)
  have w: "set_ways g (int i) = Some (snd (contentionSets g ! i))" using assms(2) by (simp add: set_ways_def)
  show ?thesis
  proof (cases "find_lru (cache m (int i))")
    case None
    then have "cache m (int i) = []" by (simp add: find_lru_None)
    with pos show ?thesis by (simp add: getMissCost_def w)
  next
    case (Some r)
    then show ?thesis by (simp add: getMissCost_def w Let_def)
  qed
qed

lemma set_costs_defined:
  assumes "ways_pos g" "\<forall>i \<in> set idxs. i < length (contentionSets g)"
  shows "\<exists>costs. set_costs g m w rnd idxs acc = Some costs \<and> (idxs \<noteq> [] \<or> acc \<noteq> [] \<longrightarrow> costs \<noteq> [])"
  using assms(2)
proof (induction idxs arbitrary: acc)
  case Nil
  then show ?case by simp
next
  case (Cons i idxs)
  then have i: "i < length (contentionSets g)" by simp
  obtain c where c: "getMissCost g m i w = Some c" using getMissCost_defined [OF assms(1) i] by blast
  have w: "set_ways g (int i) = Some (snd (contentionSets g ! i))" using i by (simp add: set_ways_def)
  obtain costs where "set_costs g m w rnd idxs (sm_put ((- int c, int (snd (contentionSets g ! i)) -
      int (length (cache m (int i)))), rnd i) i acc) = Some costs \<and> costs \<noteq> []"
    using Cons.IH Cons.prems by (metis list.set_intros(2) sm_put_nonempty)
  then show ?case by (simp add: c w)
qed

lemma memoryOperation_defined:
  assumes g: "contention_ok g" "ways_pos g" "contentionSets g \<noteq> []" and ne: "loopStats m \<noteq> []"
    and sol: "getValue sol F \<noteq> None"
  shows "\<exists>r. memoryOperation g sol opt rnd F w m = Some r"
proof -
  have acc: "\<exists>r. access g m w F' v = Some r" for F' v
    by (rule updateCache_spec [OF g(1,2) ne, of v w]) (simp add: access_def)
  obtain costs where "set_costs g m w rnd [0..<length (contentionSets g)] [] = Some costs" "costs \<noteq> []"
    using set_costs_defined [OF g(2), of "[0..<length (contentionSets g)]" m w rnd "[]"] g(3) by auto
  then have "\<exists>r. worst_case_search g m sol opt rnd F w = Some r" by (simp add: worst_case_search_def)
  then obtain r where r: "worst_case_search g m sol opt rnd F w = Some r" ..
  show ?thesis
    using acc sol
    by (cases "constantValue sol F"; cases r)
      (auto simp: memoryOperation_def r split: option.split)
qed



text \<open>
  C8: When the worst-case search finds an address that overflows a contention set, the
  operation accesses it, and the access is charged as a miss.
\<close>

theorem worst_case_access_misses:
  assumes "solver_sound sol" "contention_ok g" "ways_pos g" "addresses_in_page g"
    and "cache_ok g m" "enabled m" "constantValue sol F = None"
    and "worst_case_search g m sol opt rnd F w = Some (Found v)"
  shows "F v \<and> (\<exists>m'. memoryOperation g sol opt rnd F w m = Some (Accessed v (pin F v) m') \<and>
    missCount (last (loopStats m)) < missCount (last (loopStats m')) \<and>
    hitCount (last (loopStats m')) = hitCount (last (loopStats m)))"
proof -
  have s: "F v" "is_miss g m v"
    using worst_case_search_ok [OF assms(1,2,4,8)] by (simp_all add: search_ok_def)
  have ne: "loopStats m \<noteq> []" using assms(5,6) by (simp add: cache_ok_def)
  obtain m' dm where "updateCache g v w m = Some m'"
    "loopStats m' = butlast (loopStats m) @ [count_access (is_miss g m v) dm (last (loopStats m))]"
    using updateCache_spec [OF assms(2,3) ne, of v w] by metis
  then show ?thesis
    using s assms(7,8) count_access_counts(1) [of "last (loopStats m)" True dm]
    by (auto simp: memoryOperation_def access_def count_access_counts(2))
qed

definition demo_pred :: addr_pred where
  "demo_pred = (\<lambda>v. v = 0 \<or> v = 64 \<or> v = 128)"

lemma demo_search:
  "worst_case_search demo_contention demo_started demo_solver demo_options (\<lambda>_. 0) demo_pred False = Some (Found 128)"
  by (simp add: worst_case_search_def demo_contention_def demo_started_ok demo_solver_def demo_options_def
      demo_pred_def getMissCost_def set_ways_def line_pred_def idx_list_def PAGE_BITS_def BLOCK_BITS_def
      block_addr_def Let_def CACHE_WRITEBACK_def)

theorem worst_case_access_misses_witness:
  "demo_pred 128 \<and> (\<exists>m'. memoryOperation demo_contention demo_solver demo_options (\<lambda>_. 0) demo_pred False
      demo_started = Some (Accessed 128 (pin demo_pred 128) m') \<and>
    0 < missCount (last (loopStats m')) \<and> hitCount (last (loopStats m')) = 0)"
  using worst_case_access_misses [OF demo_sound demo_ok demo_started_ok(1,2) _ demo_search]
  by (simp add: demo_const demo_started_ok new_stats_def)


text \<open>
  With the default limit of the command line, zero, the second iteration marker already
  ends the state, although the option is documented as running until the cache state
  repeats.
\<close>

lemma default_limit_one_iteration: "enabled m \<Longrightarrow> loop 0 m = (False, m)"
  by (simp add: loop_def)

text \<open>
  The estimated time never decreases along the steps of a state, so the priority a
  searcher derives from it is that of the longest prefix seen.
\<close>

theorem getTotalTime_monotone:
  assumes "contention_ok g" "ways_pos g" "(cache_step g sol opt MaxLoops)\<^sup>*\<^sup>* m m'"
  shows "getTotalTime m \<le> getTotalTime m'"
  using assms(3) by (induction) (auto intro: order_trans cache_step_time [OF assms(1,2)])

theorem getTotalTime_monotone_witness: "0 \<le> getTotalTime demo_started"
  using getTotalTime_monotone [OF demo_ok(1,2) demo_reachable]
  by (simp add: getTotalTime_sum new_contention_cache_def)

end
