(* ===== verification/Flow_Table.thy ===== *)
theory Flow_Table
  imports Castan_Prelude
begin

text \<open>
  The tables the example network functions keep per flow, each with the two operations
  \<open>hash_set\<close> and \<open>hash_get\<close> of its source file: a ring with linear probing, an array
  of chains, an unbalanced binary tree, a \<open>std::map\<close> and a \<open>std::unordered_map\<close>. The
  locale \<open>flow_table\<close> is the interface the functions use; every table is an instance.

  \<open>hash_get\<close> takes the flag whether its \<open>value\<close> pointer is not null; its result is a
  failure, or the value found. Indices and sizes are natural numbers below the table size.
\<close>

section \<open>Failures of a network function\<close>

datatype nf_error = Null_Dereference | Rte_Exit | Undefined

section \<open>The interface\<close>

text \<open>
  \<open>abs\<close> is the finite map a table stands for; \<open>room t n\<close> promises that \<open>n\<close> further
  insertions fit. A lookup with a null pointer is only promised for an absent key.
\<close>

locale flow_table =
  fixes get :: "'t \<Rightarrow> 'k \<Rightarrow> bool \<Rightarrow> nf_error + 'v option"
    and put :: "'t \<Rightarrow> 'k \<Rightarrow> 'v \<Rightarrow> 't"
    and empty :: "'t"
    and inv :: "'t \<Rightarrow> bool"
    and abs :: "'t \<Rightarrow> 'k \<rightharpoonup> 'v"
    and room :: "'t \<Rightarrow> nat \<Rightarrow> bool"
  assumes inv_empty: "inv empty"
    and abs_empty: "abs empty = Map.empty"
    and get_abs: "inv t \<Longrightarrow> get t k True = Inr (abs t k)"
    and get_absent: "inv t \<Longrightarrow> abs t k = None \<Longrightarrow> get t k False = Inr None"
    and get_noneD: "inv t \<Longrightarrow> get t k False = Inr None \<Longrightarrow> abs t k = None"
    and put_inv: "inv t \<Longrightarrow> room t (Suc n) \<Longrightarrow> inv (put t k v)"
    and put_abs: "inv t \<Longrightarrow> room t (Suc n) \<Longrightarrow> abs (put t k v) = (abs t)(k \<mapsto> v)"
    and put_room: "inv t \<Longrightarrow> room t (Suc n) \<Longrightarrow> room (put t k v) n"
    and room_less: "room t (Suc n) \<Longrightarrow> room t n"
begin

lemma get_put_same: "inv t \<Longrightarrow> room t (Suc n) \<Longrightarrow> get (put t k v) k True = Inr (Some v)"
  using put_inv [of t n k v] put_abs [of t n k v] by (simp add: get_abs)

lemma get_put_other:
  "inv t \<Longrightarrow> room t (Suc n) \<Longrightarrow> k' \<noteq> k \<Longrightarrow> get (put t k v) k' True = get t k' True"
  using put_inv [of t n k v] put_abs [of t n k v] by (simp add: get_abs)

lemma get_empty: "get empty k True = Inr None"
  by (simp add: get_abs inv_empty abs_empty)

end

text \<open>Most tables check the pointer before they write through it.\<close>

locale null_safe_table = flow_table +
  assumes get_present: "inv t \<Longrightarrow> abs t k = Some v \<Longrightarrow> get t k False = Inr (Some v)"
begin

lemma get_any: "inv t \<Longrightarrow> get t k out = Inr (abs t k)"
  by (cases out; cases "abs t k") (simp_all add: get_abs get_absent get_present)

end

section \<open>The hash ring\<close>

record ('k, 'v) hash_entry =
  entry_key :: 'k
  entry_value :: 'v
  entry_used :: bool

type_synonym ('k, 'v) hash_ring = "nat \<Rightarrow> ('k, 'v) hash_entry"

text \<open>A zeroed ring: only the \<open>used\<close> field is ever read before it is written.\<close>

definition ring_hash_init :: "('k, 'v) hash_entry \<Rightarrow> ('k, 'v) hash_ring" where
  "ring_hash_init zero = (\<lambda>_. zero\<lparr>entry_used := False\<rparr>)"

function ring_hash_set ::
  "('k \<Rightarrow> 'k \<Rightarrow> bool) \<Rightarrow> nat \<Rightarrow> ('k, 'v) hash_ring \<Rightarrow> 'k \<Rightarrow> 'v \<Rightarrow> nat \<Rightarrow> nat \<Rightarrow> ('k, 'v) hash_ring" where
  "ring_hash_set eq tsize ring k v hash pos =
     (if pos < tsize then
        (let i = (hash + pos) mod tsize; entry = ring i in
         if \<not> entry_used entry then ring(i := \<lparr>entry_key = k, entry_value = v, entry_used = True\<rparr>)
         else if eq (entry_key entry) k then ring(i := entry\<lparr>entry_value := v\<rparr>)
         else ring_hash_set eq tsize ring k v hash (pos + 1))
      else ring)"
  by pat_completeness auto
termination
  by (relation "measure (\<lambda>(eq, tsize, ring, k, v, hash, pos). tsize - pos)") auto

function ring_hash_get ::
  "('k \<Rightarrow> 'k \<Rightarrow> bool) \<Rightarrow> nat \<Rightarrow> ('k, 'v) hash_ring \<Rightarrow> 'k \<Rightarrow> nat \<Rightarrow> nat \<Rightarrow> 'v option" where
  "ring_hash_get eq tsize ring k hash pos =
     (if pos < tsize then
        (let entry = ring ((hash + pos) mod tsize) in
         if \<not> entry_used entry then None
         else if eq (entry_key entry) k then Some (entry_value entry)
         else ring_hash_get eq tsize ring k hash (pos + 1))
      else None)"
  by pat_completeness auto
termination
  by (relation "measure (\<lambda>(eq, tsize, ring, k, hash, pos). tsize - pos)") auto

declare ring_hash_set.simps [simp del] ring_hash_get.simps [simp del]

text \<open>
  Where both loops stop: the first probe that is free or holds the key. The invariant says
  that every used slot is where a probe for its key stops.
\<close>

definition ring_stop :: "nat \<Rightarrow> ('k, 'v) hash_ring \<Rightarrow> 'k \<Rightarrow> nat \<Rightarrow> nat \<Rightarrow> bool" where
  "ring_stop tsize ring k hash p \<longleftrightarrow> p < tsize \<and>
     (\<not> entry_used (ring ((hash + p) mod tsize)) \<or> entry_key (ring ((hash + p) mod tsize)) = k) \<and>
     (\<forall>q < p. entry_used (ring ((hash + q) mod tsize)) \<and> entry_key (ring ((hash + q) mod tsize)) \<noteq> k)"

definition ring_inv :: "nat \<Rightarrow> ('k \<Rightarrow> nat) \<Rightarrow> ('k, 'v) hash_ring \<Rightarrow> bool" where
  "ring_inv tsize h ring \<longleftrightarrow> (\<forall>i < tsize. entry_used (ring i) \<longrightarrow>
     (\<exists>p. ring_stop tsize ring (entry_key (ring i)) (h (entry_key (ring i))) p \<and>
          i = (h (entry_key (ring i)) + p) mod tsize))"

definition ring_room :: "nat \<Rightarrow> ('k, 'v) hash_ring \<Rightarrow> nat \<Rightarrow> bool" where
  "ring_room tsize ring n \<longleftrightarrow> n \<le> card {i. i < tsize \<and> \<not> entry_used (ring i)}"

lemma ring_get_stop:
  assumes "ring_stop tsize ring k hash p" "pos \<le> p"
  shows "ring_hash_get (=) tsize ring k hash pos =
    (let e = ring ((hash + p) mod tsize) in if entry_used e then Some (entry_value e) else None)"
  using assms
proof (induction "p - pos" arbitrary: pos)
  case 0
  then show ?case
    by (subst ring_hash_get.simps) (auto simp: ring_stop_def Let_def)
next
  case (Suc n)
  then have "pos < p" by simp
  then show ?case
    using Suc by (subst ring_hash_get.simps) (auto simp: ring_stop_def Let_def)
qed

lemma ring_set_stop:
  assumes "ring_stop tsize ring k hash p" "pos \<le> p"
  shows "ring_hash_set (=) tsize ring k v hash pos =
    ring((hash + p) mod tsize := \<lparr>entry_key = k, entry_value = v, entry_used = True\<rparr>)"
  using assms
proof (induction "p - pos" arbitrary: pos)
  case 0
  then have "pos = p" by simp
  then show ?case
    using 0 by (subst ring_hash_set.simps) (auto simp: ring_stop_def Let_def fun_eq_iff)
next
  case (Suc n)
  then have "pos < p" by simp
  then show ?case
    using Suc by (subst ring_hash_set.simps) (auto simp: ring_stop_def Let_def)
qed

lemma ring_get_full:
  assumes "\<forall>q. pos \<le> q \<and> q < tsize \<longrightarrow>
    entry_used (ring ((hash + q) mod tsize)) \<and> entry_key (ring ((hash + q) mod tsize)) \<noteq> k"
  shows "ring_hash_get (=) tsize ring k hash pos = None"
  using assms
  by (induction "tsize - pos" arbitrary: pos) (subst ring_hash_get.simps; auto simp: Let_def)+

lemma ring_stop_unique:
  assumes "ring_stop tsize ring k hash p" "ring_stop tsize ring k hash q"
  shows "p = q"
  using assms by (metis linorder_neqE_nat ring_stop_def)

lemma ring_get_SomeD:
  "ring_hash_get (=) tsize ring k hash pos = Some v \<Longrightarrow>
     \<exists>i < tsize. entry_used (ring i) \<and> entry_key (ring i) = k \<and> entry_value (ring i) = v"
proof (induction "tsize - pos" arbitrary: pos)
  case 0
  then show ?case by (simp add: ring_hash_get.simps)
next
  case (Suc n)
  let ?i = "(hash + pos) mod tsize"
  have p: "pos < tsize" "?i < tsize" using Suc.hyps(2) by auto
  show ?case
  proof (cases "entry_used (ring ?i) \<and> entry_key (ring ?i) = k")
    case True
    then have "entry_value (ring ?i) = v"
      using Suc.prems p by (subst (asm) ring_hash_get.simps) (auto simp: Let_def)
    with True p show ?thesis by blast
  next
    case False
    then have "ring_hash_get (=) tsize ring k hash (pos + 1) = Some v"
      using Suc.prems p by (subst (asm) ring_hash_get.simps) (auto simp: Let_def split: if_splits)
    moreover have "n = tsize - (pos + 1)" using Suc.hyps(2) by simp
    ultimately show ?thesis by (rule Suc.hyps(1) [rotated])
  qed
qed

definition ring_abs :: "nat \<Rightarrow> ('k \<Rightarrow> nat) \<Rightarrow> ('k, 'v) hash_ring \<Rightarrow> 'k \<rightharpoonup> 'v" where
  "ring_abs tsize h ring k = ring_hash_get (=) tsize ring k (h k) 0"

lemma ring_abs_Some:
  assumes "ring_inv tsize h ring"
  shows "ring_abs tsize h ring k = Some v \<longleftrightarrow>
    (\<exists>i < tsize. entry_used (ring i) \<and> entry_key (ring i) = k \<and> entry_value (ring i) = v)"
proof
  assume "\<exists>i < tsize. entry_used (ring i) \<and> entry_key (ring i) = k \<and> entry_value (ring i) = v"
  then obtain i p where "entry_used (ring i)" "entry_value (ring i) = v"
    and "ring_stop tsize ring k (h k) p" "i = (h k + p) mod tsize"
    using assms unfolding ring_inv_def by blast
  then show "ring_abs tsize h ring k = Some v"
    using ring_get_stop [of tsize ring k "h k" p 0] by (simp add: ring_abs_def Let_def)
qed (auto simp: ring_abs_def dest: ring_get_SomeD)

lemma ring_slot_cover:
  fixes hash j tsize :: nat
  assumes "j < tsize"
  shows "\<exists>p < tsize. (hash + p) mod tsize = j"
proof (intro exI conjI)
  let ?p = "(j + tsize - hash mod tsize) mod tsize"
  show "?p < tsize" using assms by simp
  have "(hash + ?p) mod tsize = (hash mod tsize + (j + tsize - hash mod tsize)) mod tsize"
    by (simp add: mod_simps)
  also have "hash mod tsize + (j + tsize - hash mod tsize) = j + tsize"
    using assms mod_less_divisor [of tsize hash] by linarith
  finally show "(hash + ?p) mod tsize = j" using assms by simp
qed

lemma ring_stop_exists:
  assumes "ring_room tsize ring (Suc n)"
  shows "\<exists>p. ring_stop tsize ring k hash p"
proof -
  have "Suc n \<le> card {i. i < tsize \<and> \<not> entry_used (ring i)}"
    using assms unfolding ring_room_def .
  then have "{i. i < tsize \<and> \<not> entry_used (ring i)} \<noteq> {}" by (intro notI) simp
  then obtain j where j: "j < tsize" "\<not> entry_used (ring j)" by blast
  let ?P = "\<lambda>p. p < tsize \<and> (\<not> entry_used (ring ((hash + p) mod tsize)) \<or> entry_key (ring ((hash + p) mod tsize)) = k)"
  obtain p where "?P p" using ring_slot_cover [OF j(1), of hash] j(2) by blast
  then obtain p0 where p0: "?P p0" and least: "\<And>q. q < p0 \<Longrightarrow> \<not> ?P q"
    using exists_least_iff [of ?P] by blast
  have "q < tsize" if "q < p0" for q using that p0 by simp
  with p0 least have "ring_stop tsize ring k hash p0" unfolding ring_stop_def by blast
  then show ?thesis ..
qed

lemma ring_probe_neq:
  fixes p q tsize hash :: nat
  assumes "q < p" "p < tsize"
  shows "(hash + q) mod tsize \<noteq> (hash + p) mod tsize"
  by (rule mod_neq_of_window) (use assms in auto)

text \<open>Writing the slot where a probe stops keeps the invariant and updates the map.\<close>

lemma ring_put_inv:
  fixes ring :: "('k, 'v) hash_ring" and v :: 'v
  assumes inv: "ring_inv tsize h ring" and stop: "ring_stop tsize ring k (h k) p"
  defines "s \<equiv> (h k + p) mod tsize"
  defines "ring' \<equiv> ring(s := \<lparr>entry_key = k, entry_value = v, entry_used = True\<rparr>)"
  shows "ring_inv tsize h ring'"
  unfolding ring_inv_def
proof (intro allI impI)
  fix i assume i: "i < tsize" "entry_used (ring' i)"
  have p: "p < tsize" using stop by (simp add: ring_stop_def)
  show "\<exists>p. ring_stop tsize ring' (entry_key (ring' i)) (h (entry_key (ring' i))) p \<and>
      i = (h (entry_key (ring' i)) + p) mod tsize"
  proof (cases "i = s")
    case True
    have "ring_stop tsize ring' k (h k) p"
      using stop ring_probe_neq [OF _ p, of _ "h k"] by (auto simp: ring_stop_def ring'_def s_def)
    then show ?thesis using True by (auto simp: ring'_def s_def)
  next
    case False
    let ?k = "entry_key (ring i)"
    have e: "ring' i = ring i" using False by (simp add: ring'_def)
    obtain p' where p': "ring_stop tsize ring ?k (h ?k) p'" "i = (h ?k + p') mod tsize"
      using inv i e unfolding ring_inv_def by auto
    have "?k \<noteq> k" using p' stop ring_stop_unique False by (fastforce simp: s_def)
    then have "ring_stop tsize ring' ?k (h ?k) p'"
      using p' False by (auto simp: ring_stop_def ring'_def)
    then show ?thesis using p'(2) e by auto
  qed
qed

lemma ring_put_abs:
  fixes ring :: "('k, 'v) hash_ring" and v :: 'v
  assumes inv: "ring_inv tsize h ring" and stop: "ring_stop tsize ring k (h k) p"
  defines "s \<equiv> (h k + p) mod tsize"
  defines "ring' \<equiv> ring(s := \<lparr>entry_key = k, entry_value = v, entry_used = True\<rparr>)"
  shows "ring_abs tsize h ring' = (ring_abs tsize h ring)(k \<mapsto> v)"
proof
  fix k'
  have inv': "ring_inv tsize h ring'"
    using ring_put_inv [OF inv stop] by (simp add: ring'_def s_def)
  have s: "s < tsize" using stop by (auto simp: ring_stop_def s_def)
  have free: "entry_used (ring s) \<Longrightarrow> entry_key (ring s) = k"
    using stop by (auto simp: ring_stop_def s_def)
  show "ring_abs tsize h ring' k' = ((ring_abs tsize h ring)(k \<mapsto> v)) k'"
  proof (cases "k' = k")
    case True
    have "ring_abs tsize h ring' k = Some v"
      unfolding ring_abs_Some [OF inv'] using s by (auto simp: ring'_def)
    with True show ?thesis by simp
  next
    case False
    then have "entry_used (ring' i) \<and> entry_key (ring' i) = k' \<and> entry_value (ring' i) = w \<longleftrightarrow>
        entry_used (ring i) \<and> entry_key (ring i) = k' \<and> entry_value (ring i) = w" for i w
      using free by (cases "i = s") (auto simp: ring'_def)
    then have "ring_abs tsize h ring' k' = Some w \<longleftrightarrow> ring_abs tsize h ring k' = Some w" for w
      by (simp add: ring_abs_Some [OF inv'] ring_abs_Some [OF inv])
    then show ?thesis using False by (cases "ring_abs tsize h ring k'"; cases "ring_abs tsize h ring' k'") auto
  qed
qed

lemma ring_put_room:
  assumes "ring_room tsize ring (Suc n)"
  shows "ring_room tsize (ring(s := \<lparr>entry_key = k, entry_value = v, entry_used = True\<rparr>)) n"
proof -
  let ?F = "{i. i < tsize \<and> \<not> entry_used (ring i)}"
  have "{i. i < tsize \<and> \<not> entry_used ((ring(s := \<lparr>entry_key = k, entry_value = v, entry_used = True\<rparr>)) i)} = ?F - {s}"
    by auto
  then show ?thesis
    using assms card_Diff1_le [of ?F s] card_Diff_singleton_if [of ?F s]
    by (auto simp: ring_room_def split: if_splits)
qed

lemma ring_init_inv:
  "ring_inv tsize h (ring_hash_init z)" "ring_abs tsize h (ring_hash_init z) = Map.empty"
  "n \<le> tsize \<Longrightarrow> ring_room tsize (ring_hash_init z) n"
  by (simp_all add: ring_inv_def ring_hash_init_def ring_abs_def ring_hash_get.simps ring_room_def fun_eq_iff)

section \<open>The array of chains\<close>

type_synonym ('k, 'v) hash_chains = "nat \<Rightarrow> ('k \<times> 'v) list"

definition chain_hash_init :: "('k, 'v) hash_chains" where
  "chain_hash_init = (\<lambda>_. [])"

text \<open>The loop of \<open>hash_set\<close>: \<open>None\<close> when it runs off the end of the chain.\<close>

fun chain_replace :: "('k \<Rightarrow> 'k \<Rightarrow> bool) \<Rightarrow> 'k \<Rightarrow> 'v \<Rightarrow> ('k \<times> 'v) list \<Rightarrow> ('k \<times> 'v) list option" where
  "chain_replace eq k v [] = None"
| "chain_replace eq k v (entry # next) =
     (if eq (fst entry) k then Some ((fst entry, v) # next)
      else map_option (Cons entry) (chain_replace eq k v next))"

definition chain_hash_set ::
  "('k \<Rightarrow> 'k \<Rightarrow> bool) \<Rightarrow> ('k, 'v) hash_chains \<Rightarrow> 'k \<Rightarrow> 'v \<Rightarrow> nat \<Rightarrow> ('k, 'v) hash_chains" where
  "chain_hash_set eq table k v hash =
     (case chain_replace eq k v (table hash) of
        Some chain \<Rightarrow> table(hash := chain)
      | None \<Rightarrow> table(hash := (k, v) # table hash))"

fun chain_find :: "('k \<Rightarrow> 'k \<Rightarrow> bool) \<Rightarrow> 'k \<Rightarrow> ('k \<times> 'v) list \<Rightarrow> 'v option" where
  "chain_find eq k [] = None"
| "chain_find eq k (entry # next) =
     (if eq (fst entry) k then Some (snd entry) else chain_find eq k next)"

definition chain_hash_get :: "('k \<Rightarrow> 'k \<Rightarrow> bool) \<Rightarrow> ('k, 'v) hash_chains \<Rightarrow> 'k \<Rightarrow> nat \<Rightarrow> 'v option" where
  "chain_hash_get eq table k hash = chain_find eq k (table hash)"

lemma chain_find_map_of: "chain_find (=) k chain = map_of chain k"
  by (induction chain) (auto split: if_splits)

lemma chain_replace_Some:
  "chain_replace (=) k v chain = Some chain' \<Longrightarrow> map_of chain' = (map_of chain)(k \<mapsto> v)"
  by (induction chain arbitrary: chain') (auto split: if_splits)

lemma chain_get_set:
  "chain_hash_get (=) (chain_hash_set (=) t k v (h k)) k' (h k') =
     (if k' = k then Some v else chain_hash_get (=) t k' (h k'))"
  by (auto simp: chain_hash_get_def chain_hash_set_def chain_find_map_of chain_replace_Some split: option.splits)

section \<open>The unbalanced binary tree\<close>

datatype ('k, 'v) tree_node = Null | Node "('k, 'v) tree_node" "('k, 'v) tree_node" 'k 'v

fun tree_hash_set :: "('k::linorder, 'v) tree_node \<Rightarrow> 'k \<Rightarrow> 'v \<Rightarrow> ('k, 'v) tree_node" where
  "tree_hash_set Null k v = Node Null Null k v"
| "tree_hash_set (Node left right key val) k v =
     (if key \<noteq> k then
        (if key < k then Node left (tree_hash_set right k v) key val
         else Node (tree_hash_set left k v) right key val)
      else Node left right key v)"

text \<open>The search writes through the pointer without looking at it.\<close>

fun tree_hash_get :: "('k::linorder, 'v) tree_node \<Rightarrow> 'k \<Rightarrow> bool \<Rightarrow> nf_error + 'v option" where
  "tree_hash_get Null k out = Inr None"
| "tree_hash_get (Node left right key val) k out =
     (if key \<noteq> k then
        (if key < k then tree_hash_get right k out else tree_hash_get left k out)
      else if out then Inr (Some val) else Inl Null_Dereference)"

fun tree_keys :: "('k, 'v) tree_node \<Rightarrow> 'k set" where
  "tree_keys Null = {}"
| "tree_keys (Node left right key val) = insert key (tree_keys left \<union> tree_keys right)"

fun tree_inv :: "('k::linorder, 'v) tree_node \<Rightarrow> bool" where
  "tree_inv Null = True"
| "tree_inv (Node left right key val) =
     (tree_inv left \<and> tree_inv right \<and> (\<forall>k \<in> tree_keys left. k < key) \<and> (\<forall>k \<in> tree_keys right. key < k))"

fun tree_abs :: "('k::linorder, 'v) tree_node \<Rightarrow> 'k \<rightharpoonup> 'v" where
  "tree_abs Null k = None"
| "tree_abs (Node left right key val) k =
     (if k = key then Some val else if key < k then tree_abs right k else tree_abs left k)"

lemma tree_keys_set: "tree_keys (tree_hash_set t k v) = insert k (tree_keys t)"
  by (induction t) auto

lemma tree_inv_set: "tree_inv t \<Longrightarrow> tree_inv (tree_hash_set t k v)"
  by (induction t) (auto simp: tree_keys_set)

lemma tree_abs_set: "tree_abs (tree_hash_set t k v) = (tree_abs t)(k \<mapsto> v)"
  by (induction t) (auto simp: fun_eq_iff)

lemma tree_get_out: "tree_hash_get t k True = Inr (tree_abs t k)"
  by (induction t) auto

lemma tree_get_null:
  "tree_hash_get t k False = (case tree_abs t k of None \<Rightarrow> Inr None | Some _ \<Rightarrow> Inl Null_Dereference)"
  by (induction t) auto

lemma tree_abs_keys: "tree_inv t \<Longrightarrow> (\<exists>v. tree_abs t k = Some v) \<longleftrightarrow> k \<in> tree_keys t"
  by (induction t) auto

section \<open>The standard containers\<close>

definition map_hash_set :: "('k::linorder, 'v) smap \<Rightarrow> 'k \<Rightarrow> 'v \<Rightarrow> ('k, 'v) smap" where
  "map_hash_set m k v = sm_put k v m"

definition map_hash_get :: "('k, 'v) smap \<Rightarrow> 'k \<Rightarrow> bool \<Rightarrow> nf_error + 'v option" where
  "map_hash_get m k out = Inr (map_of m k)"

text \<open>
  A \<open>std::unordered_map\<close> is modelled by what it holds; only its hash function, which the
  standard library calls, is the program's.
\<close>

definition umap_hash_set :: "('k \<rightharpoonup> 'v) \<Rightarrow> 'k \<Rightarrow> 'v \<Rightarrow> ('k \<rightharpoonup> 'v)" where
  "umap_hash_set m k v = m(k \<mapsto> v)"

definition umap_hash_get :: "('k \<rightharpoonup> 'v) \<Rightarrow> 'k \<Rightarrow> bool \<Rightarrow> nf_error + 'v option" where
  "umap_hash_get m k out = Inr (m k)"

section \<open>The tables are instances\<close>

interpretation tree_table: flow_table tree_hash_get tree_hash_set Null tree_inv tree_abs "\<lambda>_ _. True"
  by unfold_locales (auto simp: tree_get_out tree_get_null tree_inv_set tree_abs_set fun_eq_iff
      split: option.splits)

interpretation std_map: null_safe_table map_hash_get map_hash_set "[]" sm_wf map_of "\<lambda>_ _. True"
  by unfold_locales (simp_all add: map_hash_get_def map_hash_set_def sm_simps)

interpretation std_umap: null_safe_table umap_hash_get umap_hash_set Map.empty "\<lambda>_. True" "\<lambda>m. m" "\<lambda>_ _. True"
  by unfold_locales (simp_all add: umap_hash_get_def umap_hash_set_def)

context flow_table
begin

lemma fill:
  "inv t \<Longrightarrow> room t (length ks) \<Longrightarrow> inv (fold (\<lambda>k t. put t k v) ks t) \<and>
     abs (fold (\<lambda>k t. put t k v) ks t) = (\<lambda>k. if k \<in> set ks then Some v else abs t k)"
proof (induction ks arbitrary: t)
  case Nil
  then show ?case by simp
next
  case (Cons k ks)
  then have "inv (put t k v)" "room (put t k v) (length ks)" "abs (put t k v) = (abs t)(k \<mapsto> v)"
    by (auto simp: put_inv put_room put_abs)
  with Cons.IH [of "put t k v"] show ?case by (auto simp: fun_eq_iff)
qed

end

end
