(* ===== verification/Lpm.thy ===== *)
theory Lpm
  imports Castan_Prelude Flow_Table
begin

text \<open>
  Longest-prefix matching as the example routers do it: the binary trie of
  \<open>dpdk-lpm-btrie\<close> and the directly indexed array of \<open>dpdk-lpm-da\<close>. Addresses are in
  host order. The specification is a finite map from prefixes, as lists of bits from the
  most significant one on, to ports.
\<close>

section \<open>The trie\<close>

definition NULL_PORT :: int where "NULL_PORT = -1"

datatype prefix_node = No_Node | Prefix_Node prefix_node prefix_node int

text \<open>
  \<open>lpm_set_prefix_port\<close>: nodes are created on the way down, and a prefix that has a port
  is refused, the created nodes staying behind. The result is the return value and the
  trie. Below depth 32 the shift of the source is undefined.
\<close>

function trie_set :: "u32 \<Rightarrow> nat \<Rightarrow> int \<Rightarrow> nat \<Rightarrow> prefix_node \<Rightarrow> int \<times> prefix_node" where
  "trie_set ip prefix_len pt pos node =
     (let (c0, c1, p) = (case node of No_Node \<Rightarrow> (No_Node, No_Node, NULL_PORT) | Prefix_Node c0 c1 p \<Rightarrow> (c0, c1, p)) in
      if pos < prefix_len then
        (if bit ip (32 - pos - 1)
         then (let (r, c1') = trie_set ip prefix_len pt (pos + 1) c1 in (r, Prefix_Node c0 c1' p))
         else (let (r, c0') = trie_set ip prefix_len pt (pos + 1) c0 in (r, Prefix_Node c0' c1 p)))
      else if p \<noteq> NULL_PORT then (-1, Prefix_Node c0 c1 p)
      else (0, Prefix_Node c0 c1 pt))"
  by pat_completeness auto
termination
  by (relation "measure (\<lambda>(ip, prefix_len, pt, pos, node). prefix_len - pos)") auto

declare trie_set.simps [simp del]

definition trie_set_prefix_port :: "prefix_node \<Rightarrow> u32 \<Rightarrow> nat \<Rightarrow> int \<Rightarrow> nf_error + (int \<times> prefix_node)" where
  "trie_set_prefix_port lpm ip prefix_len pt =
     (if 32 < prefix_len then Inl Undefined else Inr (trie_set ip prefix_len pt 0 lpm))"

text \<open>The loop of \<open>lpm_get_ip_port\<close>; the first argument counts the bits left.\<close>

fun trie_get :: "u32 \<Rightarrow> nat \<Rightarrow> prefix_node \<Rightarrow> int \<Rightarrow> int" where
  "trie_get ip 0 node pt = pt"
| "trie_get ip (Suc pos) No_Node pt = pt"
| "trie_get ip (Suc pos) (Prefix_Node c0 c1 p) pt =
     trie_get ip pos (if bit ip pos then c1 else c0) (if p \<noteq> NULL_PORT then p else pt)"

definition trie_get_ip_port :: "prefix_node \<Rightarrow> u32 \<Rightarrow> int option" where
  "trie_get_ip_port lpm ip =
     (let pt = trie_get ip 32 lpm NULL_PORT in if pt = NULL_PORT then None else Some pt)"

section \<open>The direct array\<close>

record array_node =
  an_port :: int
  an_prefix_len :: nat

definition LONGEST_PREFIX :: nat where "LONGEST_PREFIX = 27"

type_synonym lpm_array = "nat \<Rightarrow> array_node"

definition array_create :: lpm_array where
  "array_create = (\<lambda>_. \<lparr>an_port = 0, an_prefix_len = 0\<rparr>)"

text \<open>
  \<open>lpm_set_prefix_port\<close> in the native build. The shift by \<open>32 - prefix_len\<close> happens at
  type \<open>int\<close>, so that it is undefined, or its decrement overflows, for lengths 0 and 1.
\<close>

definition array_low :: "u32 \<Rightarrow> nat \<Rightarrow> nat" where
  "array_low ip prefix_len =
     unat (drop_bit (32 - LONGEST_PREFIX) (ip AND NOT (push_bit (32 - prefix_len) 1 - 1)))"

definition array_high :: "u32 \<Rightarrow> nat \<Rightarrow> nat" where
  "array_high ip prefix_len =
     unat (drop_bit (32 - LONGEST_PREFIX) (ip OR (push_bit (32 - prefix_len) 1 - 1)))"

function array_fill :: "nat \<Rightarrow> int \<Rightarrow> nat \<Rightarrow> nat \<Rightarrow> lpm_array \<Rightarrow> lpm_array" where
  "array_fill prefix_len pt i high lpm =
     (if i \<le> high then
        array_fill prefix_len pt (i + 1) high
          (if an_prefix_len (lpm i) \<le> prefix_len
           then lpm(i := \<lparr>an_port = pt, an_prefix_len = prefix_len\<rparr>) else lpm)
      else lpm)"
  by pat_completeness auto
termination
  by (relation "measure (\<lambda>(len, pt, i, high, lpm). Suc high - i)") auto

declare array_fill.simps [simp del]

definition array_set_prefix_port :: "lpm_array \<Rightarrow> u32 \<Rightarrow> nat \<Rightarrow> int \<Rightarrow> nf_error + (int \<times> lpm_array)" where
  "array_set_prefix_port lpm ip prefix_len pt =
     (if LONGEST_PREFIX < prefix_len then Inr (-1, lpm)
      else if prefix_len < 2 then Inl Undefined
      else Inr (0, array_fill prefix_len pt (array_low ip prefix_len) (array_high ip prefix_len) lpm))"

definition array_get_ip_port :: "lpm_array \<Rightarrow> u32 \<Rightarrow> int option" where
  "array_get_ip_port lpm ip = Some (an_port (lpm (unat (drop_bit (32 - LONGEST_PREFIX) ip))))"

section \<open>The specification\<close>

definition ip_bits :: "u32 \<Rightarrow> bool list" where
  "ip_bits ip = map (\<lambda>i. bit ip (31 - i)) [0..<32]"

text \<open>The port of the longest prefix shorter than the bound.\<close>

fun best_match :: "(bool list \<rightharpoonup> int) \<Rightarrow> bool list \<Rightarrow> nat \<Rightarrow> int option" where
  "best_match M bs 0 = None"
| "best_match M bs (Suc n) = (case M (take n bs) of Some p \<Rightarrow> Some p | None \<Rightarrow> best_match M bs n)"

lemma best_match_Some:
  "best_match M bs n = Some p \<longleftrightarrow>
     (\<exists>k < n. M (take k bs) = Some p \<and> (\<forall>j. k < j \<and> j < n \<longrightarrow> M (take j bs) = None))"
proof (induction n)
  case 0
  then show ?case by simp
next
  case (Suc n)
  show ?case
  proof (cases "M (take n bs)")
    case None
    then show ?thesis using Suc by (auto simp: less_Suc_eq)
  next
    case (Some q)
    then show ?thesis by (auto simp: less_Suc_eq)
  qed
qed

lemma best_match_None: "best_match M bs n = None \<longleftrightarrow> (\<forall>k < n. M (take k bs) = None)"
  by (induction n) (auto simp: less_Suc_eq split: option.splits)

section \<open>The trie implements the specification\<close>

fun trie_at :: "prefix_node \<Rightarrow> bool list \<Rightarrow> int option" where
  "trie_at No_Node bs = None"
| "trie_at (Prefix_Node c0 c1 p) [] = (if p = NULL_PORT then None else Some p)"
| "trie_at (Prefix_Node c0 c1 p) (b # bs) = trie_at (if b then c1 else c0) bs"

lemma length_ip_bits [simp]: "length (ip_bits ip) = 32"
  by (simp add: ip_bits_def)

lemma ip_bits_nth: "i < 32 \<Longrightarrow> ip_bits ip ! i = bit ip (31 - i)"
  by (simp add: ip_bits_def)

lemma drop_ip_bits: "pos < 32 \<Longrightarrow> drop pos (ip_bits ip) = bit ip (31 - pos) # drop (Suc pos) (ip_bits ip)"
  by (simp add: Cons_nth_drop_Suc [symmetric] ip_bits_nth)

text \<open>The bits between two depths.\<close>

definition seg :: "u32 \<Rightarrow> nat \<Rightarrow> nat \<Rightarrow> bool list" where
  "seg ip pos len = take (len - pos) (drop pos (ip_bits ip))"

lemma seg_step: "pos < len \<Longrightarrow> len \<le> 32 \<Longrightarrow> seg ip pos len = bit ip (31 - pos) # seg ip (Suc pos) len"
  by (simp add: seg_def drop_ip_bits Suc_diff_Suc [symmetric])

lemma seg_end [simp]: "seg ip len len = []"
  by (simp add: seg_def)

lemma seg_start: "seg ip 0 len = take len (ip_bits ip)"
  by (simp add: seg_def)

definition expand :: "prefix_node \<Rightarrow> prefix_node" where
  "expand node = (case node of No_Node \<Rightarrow> Prefix_Node No_Node No_Node NULL_PORT | _ \<Rightarrow> node)"

lemma trie_at_expand: "trie_at (expand t) = trie_at t"
proof
  fix bs show "trie_at (expand t) bs = trie_at t bs"
    by (cases t; cases bs) (simp_all add: expand_def)
qed

lemma trie_set_expand: "trie_set ip len pt pos (expand t) = trie_set ip len pt pos t"
  by (subst (1 2) trie_set.simps) (cases t; simp add: expand_def)

lemma expand_node: "\<exists>c0 c1 p. expand t = Prefix_Node c0 c1 p"
  by (cases t) (simp_all add: expand_def)

text \<open>The bits of a node's children, and updates below one of them.\<close>

lemma trie_at_child:
  "trie_at c' = (trie_at c)(bs \<mapsto> v) \<Longrightarrow>
     trie_at (if b then Prefix_Node c0 c' p else Prefix_Node c' c0 p) =
     (trie_at (if b then Prefix_Node c0 c p else Prefix_Node c c0 p))(b # bs \<mapsto> v)"
proof
  fix xs assume c: "trie_at c' = (trie_at c)(bs \<mapsto> v)"
  show "trie_at (if b then Prefix_Node c0 c' p else Prefix_Node c' c0 p) xs =
      ((trie_at (if b then Prefix_Node c0 c p else Prefix_Node c c0 p))(b # bs \<mapsto> v)) xs"
    by (cases xs) (auto simp: c)
qed

lemma trie_at_child_same:
  assumes "trie_at c' = trie_at c"
  shows "trie_at (if b then Prefix_Node c0 c' p else Prefix_Node c' c0 p) =
    trie_at (if b then Prefix_Node c0 c p else Prefix_Node c c0 p)"
proof
  fix xs
  show "trie_at (if b then Prefix_Node c0 c' p else Prefix_Node c' c0 p) xs =
      trie_at (if b then Prefix_Node c0 c p else Prefix_Node c c0 p) xs"
    by (cases xs) (auto simp: assms)
qed

lemma trie_at_port: "x \<noteq> [] \<Longrightarrow> trie_at (Prefix_Node c0 c1 p) x = trie_at (Prefix_Node c0 c1 q) x"
  by (cases x) simp_all

definition set_spec :: "prefix_node \<Rightarrow> bool list \<Rightarrow> int \<Rightarrow> int \<times> prefix_node \<Rightarrow> bool" where
  "set_spec t bs pt res = (case trie_at t bs of
      Some _ \<Rightarrow> fst res = -1 \<and> trie_at (snd res) = trie_at t
    | None \<Rightarrow> fst res = 0 \<and> trie_at (snd res) = (trie_at t)(bs \<mapsto> pt))"

lemma set_spec_expand: "set_spec (expand t) = set_spec t"
  unfolding set_spec_def [abs_def] trie_at_expand ..

lemma set_spec_child:
  assumes "set_spec c bs pt (r, c')"
  shows "set_spec (if b then Prefix_Node c0 c p else Prefix_Node c c0 p) (b # bs) pt
    (r, if b then Prefix_Node c0 c' p else Prefix_Node c' c0 p)"
proof -
  have at: "trie_at (if b then Prefix_Node c0 c p else Prefix_Node c c0 p) (b # bs) = trie_at c bs"
    by (cases b) simp_all
  show ?thesis
  proof (cases "trie_at c bs")
    case None
    then have c': "r = 0" "trie_at c' = (trie_at c)(bs \<mapsto> pt)" using assms by (simp_all add: set_spec_def)
    show ?thesis
      unfolding set_spec_def at None option.case fst_conv snd_conv trie_at_child [OF c'(2)] using c'(1) by simp
  next
    case (Some q)
    then have c': "r = -1" "trie_at c' = trie_at c" using assms by (simp_all add: set_spec_def)
    show ?thesis
      unfolding set_spec_def at Some option.case fst_conv snd_conv trie_at_child_same [OF c'(2)] using c'(1) by simp
  qed
qed

lemma trie_set_at:
  assumes "pos \<le> len" "len \<le> 32" "pt \<noteq> NULL_PORT"
  shows "set_spec t (seg ip pos len) pt (trie_set ip len pt pos t)"
  using assms(1)
proof (induction "len - pos" arbitrary: pos t)
  case 0
  then have pos: "pos = len" by simp
  obtain c0 c1 p where e: "expand t = Prefix_Node c0 c1 p" using expand_node by blast
  have "set_spec (expand t) [] pt (trie_set ip len pt pos (expand t))"
    unfolding e using assms(3) pos
    by (subst trie_set.simps) (auto simp: set_spec_def fun_eq_iff intro: trie_at_port)
  then show ?case by (simp add: set_spec_expand trie_set_expand pos)
next
  case (Suc n)
  then have pos: "pos < len" "n = len - (pos + 1)" "pos + 1 \<le> len" by simp_all
  obtain c0 c1 p where e: "expand t = Prefix_Node c0 c1 p" using expand_node by blast
  define b where "b = bit ip (31 - pos)"
  define c where "c = (if b then c1 else c0)"
  define o' where "o' = (if b then c0 else c1)"
  obtain r c' where rc: "trie_set ip len pt (pos + 1) c = (r, c')" by (cases "trie_set ip len pt (pos + 1) c")
  have IH: "set_spec c (seg ip (pos + 1) len) pt (r, c')" using Suc(1) [OF pos(2,3), of c] rc by simp
  have node: "expand t = (if b then Prefix_Node o' c p else Prefix_Node c o' p)" by (simp add: e c_def o'_def)
  have "trie_set ip len pt pos (expand t) = (r, if b then Prefix_Node o' c' p else Prefix_Node c' o' p)"
    unfolding e using pos(1) rc by (subst trie_set.simps) (auto simp: b_def [symmetric] c_def o'_def split: if_splits)
  moreover have "seg ip pos len = b # seg ip (pos + 1) len"
    using seg_step [OF pos(1) assms(2)] by (simp add: b_def)
  ultimately have "set_spec (expand t) (seg ip pos len) pt (trie_set ip len pt pos (expand t))"
    using set_spec_child [OF IH, of b o' p] node by simp
  then show ?case by (simp add: set_spec_expand trie_set_expand)
qed

text \<open>The search is the best match among the prefixes of up to 31 bits.\<close>

lemma best_match_child:
  "best_match (trie_at (Prefix_Node c0 c1 p)) (b # bs) (Suc n) =
     (case best_match (trie_at (if b then c1 else c0)) bs n of
        Some q \<Rightarrow> Some q | None \<Rightarrow> if p = NULL_PORT then None else Some p)"
  by (induction n) (auto split: option.split)

lemma best_match_empty: "best_match (trie_at No_Node) bs n = None"
  by (simp add: best_match_None)

lemma trie_get_best:
  assumes "n \<le> 32"
  shows "trie_get ip n t pt = (case best_match (trie_at t) (drop (32 - n) (ip_bits ip)) n of None \<Rightarrow> pt | Some p \<Rightarrow> p)"
  using assms
proof (induction n arbitrary: t pt)
  case 0
  then show ?case by simp
next
  case (Suc n)
  have bits: "drop (32 - Suc n) (ip_bits ip) = bit ip n # drop (32 - n) (ip_bits ip)"
    using drop_ip_bits [of "32 - Suc n" ip] Suc.prems Suc_diff_le [of n 31] by simp
  show ?case
  proof (cases t)
    case No_Node
    have "best_match (trie_at No_Node) (drop (32 - Suc n) (ip_bits ip)) (Suc n) = None" by (rule best_match_empty)
    then show ?thesis unfolding No_Node by (simp only: trie_get.simps option.case)
  next
    case (Prefix_Node c0 c1 p)
    show ?thesis
      unfolding Prefix_Node bits best_match_child trie_get.simps
      using Suc.IH Suc.prems by (auto split: option.split)
  qed
qed

lemma trie_at_not_null: "trie_at t bs \<noteq> Some NULL_PORT"
  by (induction t bs rule: trie_at.induct) auto

lemma best_match_not_null: "best_match (trie_at t) bs n \<noteq> Some NULL_PORT"
  using trie_at_not_null by (auto simp: best_match_Some)

lemma trie_lookup_best: "trie_get_ip_port t ip = best_match (trie_at t) (ip_bits ip) 32"
  using trie_get_best [of 32 ip t NULL_PORT] best_match_not_null [of t "ip_bits ip" 32]
  by (auto simp: trie_get_ip_port_def Let_def split: option.splits)

section \<open>The array implements the specification\<close>

text \<open>A rule of a route table, and when it covers an address.\<close>

record rule =
  r_ip :: u32
  r_len :: nat
  r_port :: int

definition covers :: "rule \<Rightarrow> u32 \<Rightarrow> bool" where
  "covers r ip \<longleftrightarrow> drop_bit (32 - r_len r) ip = drop_bit (32 - r_len r) (r_ip r)"

text \<open>Later rules win over earlier ones of the same length.\<close>

definition apply_rule :: "u32 \<Rightarrow> rule \<Rightarrow> array_node \<Rightarrow> array_node" where
  "apply_rule ip r e =
     (if covers r ip \<and> an_prefix_len e \<le> r_len r then \<lparr>an_port = r_port r, an_prefix_len = r_len r\<rparr> else e)"

lemma array_fill_at:
  "array_fill len pt i high lpm j =
     (if i \<le> j \<and> j \<le> high \<and> an_prefix_len (lpm j) \<le> len then \<lparr>an_port = pt, an_prefix_len = len\<rparr> else lpm j)"
proof (induction "Suc high - i" arbitrary: i lpm)
  case 0
  then show ?case by (subst array_fill.simps) auto
next
  case (Suc n)
  then have i: "i \<le> high" "n = Suc high - (i + 1)" by simp_all
  show ?case
    by (subst array_fill.simps) (use i Suc(1) [OF i(2)] in \<open>auto simp: le_Suc_eq Suc_le_eq\<close>)
qed

lemma mask_exp: "push_bit k 1 - 1 = (mask k :: u32)"
  by (simp add: mask_eq_exp_minus_1 push_bit_eq_mult)

lemma clear_low: "ip AND NOT (mask k) = push_bit k (drop_bit k (ip :: u32))"
  by (rule bit_word_eqI) (auto simp: bit_simps)

lemma unat_clear_low: "unat (ip AND NOT (mask k) :: u32) = unat ip div 2 ^ k * 2 ^ k"
proof -
  have "unat ip div 2 ^ k * 2 ^ k \<le> unat ip" by (rule div_times_less_eq_dividend)
  then have "unat ip div 2 ^ k * 2 ^ k < 2 ^ 32" using u32_less [of ip] by (rule le_less_trans)
  then have fits: "take_bit 32 (unat ip div 2 ^ k * 2 ^ k) = unat ip div 2 ^ k * 2 ^ k"
    by (simp add: take_bit_nat_eq_self)
  have "unat (push_bit k (drop_bit k ip)) = take_bit 32 (push_bit k (drop_bit k (unat ip)))"
    by (simp add: unsigned_push_bit_eq unat_drop_bit_eq)
  also have "push_bit k (drop_bit k (unat ip)) = unat ip div 2 ^ k * 2 ^ k"
    by (simp add: push_bit_eq_mult drop_bit_eq_div)
  finally show ?thesis using fits by (simp add: clear_low)
qed

lemma unat_set_low:
  assumes "k \<le> 32"
  shows "unat (ip OR mask k :: u32) = unat ip div 2 ^ k * 2 ^ k + (2 ^ k - 1)"
proof -
  have m: "unat (mask k :: u32) = 2 ^ k - 1" 
    using assms by (simp only: unat_eq_nat_uint uint_mask_eq) (simp add: mask_eq_exp_minus_1 nat_diff_distrib nat_power_eq)
  have "ip OR mask k = (ip AND NOT (mask k)) OR mask k" by (rule bit_word_eqI) (auto simp: bit_simps)
  also have "\<dots> = (ip AND NOT (mask k)) + mask k" by (rule disjunctive_add [symmetric]) (auto simp: bit_simps)
  finally have "unat (ip OR mask k) = unat ((ip AND NOT (mask k)) + mask k)" by simp
  also have "\<dots> = unat (ip AND NOT (mask k)) + unat (mask k :: u32)"
  proof (rule unat_add_lem [THEN iffD1])
    have "unat ip div 2 ^ k < 2 ^ (32 - k)"
      using u32_less [of ip] assms by (simp add: less_mult_imp_div_less power_add [symmetric])
    then have "Suc (unat ip div 2 ^ k) * 2 ^ k \<le> 2 ^ (32 - k) * 2 ^ k" by (intro mult_right_mono) simp_all
    also have "\<dots> = 2 ^ 32" using assms by (simp add: power_add [symmetric])
    finally have "unat ip div 2 ^ k * 2 ^ k + (2 ^ k - 1) < 2 ^ 32" by simp
    then show "unat (ip AND NOT (mask k)) + unat (mask k :: u32) < 2 ^ LENGTH(32)"
      using m by (simp add: unat_clear_low)
  qed
  finally show ?thesis using m by (simp add: unat_clear_low)
qed

lemma div_shift:
  fixes q :: nat
  assumes "5 \<le> k"
  shows "q * 2 ^ k div 2 ^ 5 = q * 2 ^ (k - 5)" "(q * 2 ^ k + (2 ^ k - 1)) div 2 ^ 5 = q * 2 ^ (k - 5) + (2 ^ (k - 5) - 1)"
proof -
  have k: "(2 :: nat) ^ k = 2 ^ (k - 5) * 2 ^ 5" using assms by (simp only: power_add [symmetric] le_add_diff_inverse2)
  show "q * 2 ^ k div 2 ^ 5 = q * 2 ^ (k - 5)" by (simp only: k mult.assoc [symmetric]) simp
  have "q * 2 ^ k + (2 ^ k - 1) = (2 ^ 5 - 1) + (q * 2 ^ (k - 5) + (2 ^ (k - 5) - 1)) * 2 ^ 5"
  proof -
    have "Suc 0 \<le> 2 ^ (k - 5)" by simp
    then obtain c where "2 ^ (k - 5) = Suc c" by (cases "(2 :: nat) ^ (k - 5)") auto
    then show ?thesis by (simp add: k algebra_simps)
  qed
  then show "(q * 2 ^ k + (2 ^ k - 1)) div 2 ^ 5 = q * 2 ^ (k - 5) + (2 ^ (k - 5) - 1)" by simp
qed

lemma div_eq_range:
  fixes i q d :: nat
  assumes "0 < d"
  shows "i div d = q \<longleftrightarrow> q * d \<le> i \<and> i < q * d + d"
proof
  assume q: "i div d = q"
  have "i = q * d + i mod d" using div_mult_mod_eq [of i d] q by simp
  moreover have "i mod d < d" using assms by simp
  ultimately show "q * d \<le> i \<and> i < q * d + d" by linarith
next
  assume "q * d \<le> i \<and> i < q * d + d"
  then show "i div d = q" by (intro div_nat_eqI) (simp_all add: mult.commute)
qed

text \<open>The slots the loop visits are those of the addresses the rule covers.\<close>

lemma array_range:
  assumes "2 \<le> len" "len \<le> 27"
  shows "array_low a len \<le> i \<and> i \<le> array_high a len \<longleftrightarrow> i div 2 ^ (27 - len) = unat a div 2 ^ (32 - len)"
proof -
  let ?k = "32 - len" and ?q = "unat a div 2 ^ (32 - len)"
  have k: "5 \<le> ?k" "?k \<le> 32" "?k - 5 = 27 - len" using assms by simp_all
  have low: "array_low a len = ?q * 2 ^ (27 - len)"
    using div_shift(1) [OF k(1), of ?q] k(3)
    by (simp only: array_low_def LONGEST_PREFIX_def mask_exp unat_drop_bit_eq unat_clear_low)
      (simp add: drop_bit_eq_div)
  have high: "array_high a len = ?q * 2 ^ (27 - len) + (2 ^ (27 - len) - 1)"
    using div_shift(2) [OF k(1), of ?q] k(3)
    by (simp only: array_high_def LONGEST_PREFIX_def mask_exp unat_drop_bit_eq unat_set_low [OF k(2)])
      (simp add: drop_bit_eq_div)
  have "?q * 2 ^ (27 - len) \<le> i \<and> i < ?q * 2 ^ (27 - len) + 2 ^ (27 - len) \<longleftrightarrow> i div 2 ^ (27 - len) = ?q"
    by (simp add: div_eq_range)
  moreover have "i \<le> ?q * 2 ^ (27 - len) + (2 ^ (27 - len) - 1) \<longleftrightarrow> i < ?q * 2 ^ (27 - len) + 2 ^ (27 - len)"
    using zero_less_power [of "2 :: nat" "27 - len"] by linarith
  ultimately show ?thesis unfolding low high by blast
qed

lemma array_set_at:
  assumes "2 \<le> r_len r" "r_len r \<le> 27"
    and "array_set_prefix_port lpm (r_ip r) (r_len r) (r_port r) = Inr (res, lpm')"
  shows "res = 0 \<and> lpm' (unat (drop_bit 5 ip)) = apply_rule ip r (lpm (unat (drop_bit 5 ip)))"
proof -
  let ?i = "unat (drop_bit 5 ip)"
  have lpm': "res = 0" "lpm' = array_fill (r_len r) (r_port r) (array_low (r_ip r) (r_len r)) (array_high (r_ip r) (r_len r)) lpm"
    using assms by (simp_all add: array_set_prefix_port_def LONGEST_PREFIX_def)
  have "?i div 2 ^ (27 - r_len r) = unat ip div 2 ^ (5 + (27 - r_len r))"
    by (simp only: unat_drop_bit_eq) (simp add: drop_bit_eq_div div_mult2_eq power_add)
  also have "5 + (27 - r_len r) = 32 - r_len r" using assms(2) by simp
  finally have "array_low (r_ip r) (r_len r) \<le> ?i \<and> ?i \<le> array_high (r_ip r) (r_len r) \<longleftrightarrow>
      unat ip div 2 ^ (32 - r_len r) = unat (r_ip r) div 2 ^ (32 - r_len r)"
    using array_range [OF assms(1,2)] by simp
  also have "\<dots> \<longleftrightarrow> covers r ip"
    by (simp only: covers_def word_unat_eq_iff unat_drop_bit_eq) (simp add: drop_bit_eq_div)
  finally show ?thesis unfolding lpm'(2) array_fill_at apply_rule_def using lpm'(1) by auto
qed

text \<open>A table is loaded rule by rule; both tables share the loop.\<close>

fun load_rules :: "('t \<Rightarrow> u32 \<Rightarrow> nat \<Rightarrow> int \<Rightarrow> nf_error + (int \<times> 't)) \<Rightarrow> rule list \<Rightarrow> 't \<Rightarrow> nf_error + 't" where
  "load_rules set_prefix [] lpm = Inr lpm"
| "load_rules set_prefix (r # rs) lpm =
     (case set_prefix lpm (r_ip r) (r_len r) (r_port r) of
        Inl e \<Rightarrow> Inl e
      | Inr (result, lpm') \<Rightarrow> if result < 0 then Inl Rte_Exit else load_rules set_prefix rs lpm')"

text \<open>The rule that decides: of the greatest length among those that cover, the last one.\<close>

definition decided_by :: "u32 \<Rightarrow> rule list \<Rightarrow> rule \<Rightarrow> bool" where
  "decided_by ip rs r \<longleftrightarrow> (\<exists>pre post. rs = pre @ r # post \<and> covers r ip \<and>
     (\<forall>r' \<in> set pre. covers r' ip \<longrightarrow> r_len r' \<le> r_len r) \<and> (\<forall>r' \<in> set post. covers r' ip \<longrightarrow> r_len r' < r_len r))"

lemma decided_by_last:
  "covers r ip \<Longrightarrow> \<forall>r' \<in> set rs. covers r' ip \<longrightarrow> r_len r' \<le> r_len r \<Longrightarrow> decided_by ip (rs @ [r]) r"
  unfolding decided_by_def by (rule exI [of _ rs], rule exI [of _ "[]"]) simp

lemma decided_by_snoc:
  assumes "decided_by ip rs r0" "covers r ip \<Longrightarrow> r_len r < r_len r0"
  shows "decided_by ip (rs @ [r]) r0"
proof -
  obtain pre post where "rs = pre @ r0 # post" "covers r0 ip"
    "\<forall>r' \<in> set pre. covers r' ip \<longrightarrow> r_len r' \<le> r_len r0" "\<forall>r' \<in> set post. covers r' ip \<longrightarrow> r_len r' < r_len r0"
    using assms(1) unfolding decided_by_def by blast
  then show ?thesis
    unfolding decided_by_def using assms(2) by (intro exI [of _ pre] exI [of _ "post @ [r]"]) auto
qed

lemma decided_by_longest: "decided_by ip rs r \<Longrightarrow> r' \<in> set rs \<Longrightarrow> covers r' ip \<Longrightarrow> r_len r' \<le> r_len r"
  unfolding decided_by_def by fastforce

lemma decided_by_rule: "decided_by ip rs r \<Longrightarrow> r \<in> set rs \<and> covers r ip"
  unfolding decided_by_def by auto

lemma apply_rules_decides:
  "let e = fold (apply_rule ip) rs \<lparr>an_port = 0, an_prefix_len = 0\<rparr> in
     (\<exists>r. decided_by ip rs r \<and> e = \<lparr>an_port = r_port r, an_prefix_len = r_len r\<rparr>) \<or>
     ((\<forall>r \<in> set rs. \<not> covers r ip) \<and> e = \<lparr>an_port = 0, an_prefix_len = 0\<rparr>)"
proof (induction rs rule: rev_induct)
  case Nil
  then show ?case by simp
next
  case (snoc r rs)
  define e where "e = fold (apply_rule ip) rs \<lparr>an_port = 0, an_prefix_len = 0\<rparr>"
  have fold: "fold (apply_rule ip) (rs @ [r]) \<lparr>an_port = 0, an_prefix_len = 0\<rparr> = apply_rule ip r e" by (simp add: e_def)
  consider r0 where "decided_by ip rs r0" "e = \<lparr>an_port = r_port r0, an_prefix_len = r_len r0\<rparr>"
    | "\<forall>r \<in> set rs. \<not> covers r ip" "e = \<lparr>an_port = 0, an_prefix_len = 0\<rparr>"
    using snoc by (auto simp: e_def Let_def)
  then show ?case
  proof cases
    case 1
    show ?thesis
    proof (cases "covers r ip \<and> r_len r0 \<le> r_len r")
      case True
      then have "decided_by ip (rs @ [r]) r"
        using decided_by_longest [OF 1(1)] by (intro decided_by_last) (auto intro: order_trans)
      then show ?thesis unfolding fold using True 1(2) by (auto simp: Let_def apply_rule_def)
    next
      case False
      then have "decided_by ip (rs @ [r]) r0" by (intro decided_by_snoc [OF 1(1)]) auto
      then show ?thesis unfolding fold using False 1(2) by (auto simp: Let_def apply_rule_def)
    qed
  next
    case 2
    show ?thesis
    proof (cases "covers r ip")
      case True
      then have "decided_by ip (rs @ [r]) r" using 2(1) by (intro decided_by_last) auto
      then show ?thesis unfolding fold using True 2(2) by (auto simp: Let_def apply_rule_def)
    next
      case False
      then show ?thesis unfolding fold using 2 by (simp add: Let_def apply_rule_def)
    qed
  qed
qed

lemma load_array_at:
  assumes "load_rules array_set_prefix_port rs lpm = Inr lpm'" "\<forall>r \<in> set rs. 2 \<le> r_len r \<and> r_len r \<le> 27"
  shows "lpm' (unat (drop_bit 5 ip)) = fold (apply_rule ip) rs (lpm (unat (drop_bit 5 ip)))"
  using assms
proof (induction rs arbitrary: lpm)
  case Nil
  then show ?case by simp
next
  case (Cons r rs)
  obtain res lpm1 where st: "array_set_prefix_port lpm (r_ip r) (r_len r) (r_port r) = Inr (res, lpm1)"
    and rest: "load_rules array_set_prefix_port rs lpm1 = Inr lpm'"
    using Cons.prems(1) by (auto split: sum.splits prod.splits if_splits)
  have "lpm1 (unat (drop_bit 5 ip)) = apply_rule ip r (lpm (unat (drop_bit 5 ip)))"
    using array_set_at [OF _ _ st] Cons.prems(2) by simp
  then show ?case using Cons.IH [OF rest] Cons.prems(2) by simp
qed

section \<open>Route tables loaded into a trie\<close>

definition rule_prefix :: "rule \<Rightarrow> bool list" where
  "rule_prefix r = take (r_len r) (ip_bits (r_ip r))"

lemma take_bits_eq:
  assumes "len \<le> 32"
  shows "take len (ip_bits a) = take len (ip_bits b) \<longleftrightarrow> drop_bit (32 - len) a = drop_bit (32 - len) b"
proof -
  have "take len (ip_bits a) = take len (ip_bits b) \<longleftrightarrow> (\<forall>i < len. bit a (31 - i) = bit b (31 - i))"
    using assms by (auto simp: list_eq_iff_nth_eq ip_bits_nth)
  also have "\<dots> \<longleftrightarrow> (\<forall>n. bit a (32 - len + n) = bit b (32 - len + n))"
  proof
    assume L: "\<forall>i < len. bit a (31 - i) = bit b (31 - i)"
    show "\<forall>n. bit a (32 - len + n) = bit b (32 - len + n)"
    proof
      fix n
      show "bit a (32 - len + n) = bit b (32 - len + n)"
      proof (cases "n < len")
        case True
        then have "31 - (len - 1 - n) = 32 - len + n" "len - 1 - n < len" using assms by simp_all
        with L show ?thesis by metis
      next
        case False
        then have "LENGTH(32) \<le> 32 - len + n" using assms by simp
        then have "\<not> bit a (32 - len + n)" "\<not> bit b (32 - len + n)" using bit_imp_le_length by (meson leD)+
        then show ?thesis by simp
      qed
    qed
  next
    assume R: "\<forall>n. bit a (32 - len + n) = bit b (32 - len + n)"
    show "\<forall>i < len. bit a (31 - i) = bit b (31 - i)"
    proof (intro allI impI)
      fix i assume "i < len"
      then have "31 - i = 32 - len + (len - 1 - i)" using assms by simp
      then show "bit a (31 - i) = bit b (31 - i)" using R by simp
    qed
  qed
  also have "\<dots> \<longleftrightarrow> (\<forall>n. bit (drop_bit (32 - len) a) n = bit (drop_bit (32 - len) b) n)"
    by (simp only: bit_drop_bit_eq comp_apply)
  also have "\<dots> \<longleftrightarrow> drop_bit (32 - len) a = drop_bit (32 - len) b"
    by (auto intro: bit_word_eqI)
  finally show ?thesis .
qed

lemma covers_prefix: "r_len r \<le> 32 \<Longrightarrow> covers r ip \<longleftrightarrow> take (r_len r) (ip_bits ip) = rule_prefix r"
  by (simp add: covers_def rule_prefix_def take_bits_eq)

lemma length_rule_prefix: "r_len r \<le> 32 \<Longrightarrow> length (rule_prefix r) = r_len r"
  by (simp add: rule_prefix_def)

lemma trie_insert:
  assumes "r_len r \<le> 32" "r_port r \<noteq> NULL_PORT"
    and "trie_set_prefix_port t (r_ip r) (r_len r) (r_port r) = Inr (res, t')"
  shows "if trie_at t (rule_prefix r) = None then res = 0 \<and> trie_at t' = (trie_at t)(rule_prefix r \<mapsto> r_port r)
    else res = -1 \<and> trie_at t' = trie_at t"
proof -
  have "trie_set (r_ip r) (r_len r) (r_port r) 0 t = (res, t')"
    using assms(1,3) by (simp add: trie_set_prefix_port_def)
  with trie_set_at [of 0 "r_len r" "r_port r" t "r_ip r"] assms(1,2) show ?thesis
    by (auto simp: seg_start rule_prefix_def set_spec_def split: option.splits)
qed

lemma trie_load:
  assumes "load_rules trie_set_prefix_port rs t = Inr t'"
    and "\<forall>r \<in> set rs. r_len r \<le> 32 \<and> r_port r \<noteq> NULL_PORT"
  shows "(\<forall>bs p. trie_at t' bs = Some p \<longleftrightarrow> trie_at t bs = Some p \<or> (\<exists>r \<in> set rs. rule_prefix r = bs \<and> r_port r = p))"
  using assms
proof (induction rs arbitrary: t)
  case Nil
  then show ?case by simp
next
  case (Cons r rs)
  obtain res t1 where st: "trie_set_prefix_port t (r_ip r) (r_len r) (r_port r) = Inr (res, t1)" "\<not> res < 0"
    and rest: "load_rules trie_set_prefix_port rs t1 = Inr t'"
    using Cons.prems(1) by (auto split: sum.splits prod.splits if_splits)
  then have t1: "trie_at t (rule_prefix r) = None" "trie_at t1 = (trie_at t)(rule_prefix r \<mapsto> r_port r)"
    using trie_insert [OF _ _ st(1)] Cons.prems(2) by (auto split: if_splits)
  from Cons.IH [OF rest] Cons.prems(2) t1 show ?case by (auto split: if_splits)
qed

lemma trie_load_best:
  assumes load: "load_rules trie_set_prefix_port rs No_Node = Inr t"
    and rs: "\<forall>r \<in> set rs. r_len r < 32 \<and> r_port r \<noteq> NULL_PORT"
  shows "decided_by ip rs r \<Longrightarrow> trie_get_ip_port t ip = Some (r_port r)"
    "\<forall>r \<in> set rs. \<not> covers r ip \<Longrightarrow> trie_get_ip_port t ip = None"
proof -
  have rs': "\<forall>r \<in> set rs. r_len r \<le> 32 \<and> r_port r \<noteq> NULL_PORT" using rs by auto
  have at: "trie_at t bs = Some p \<longleftrightarrow> (\<exists>r \<in> set rs. rule_prefix r = bs \<and> r_port r = p)" for bs p
    using trie_load [OF load rs'] by simp
  have cov: "covers r' ip \<and> r_len r' = j" if "r' \<in> set rs" "rule_prefix r' = take j (ip_bits ip)" "j < 32" for r' j
  proof -
    have "r_len r' = j" using that rs length_rule_prefix [of r'] by (auto simp: min_def)
    then show ?thesis using covers_prefix [of r' ip] that rs by auto
  qed
  show "trie_get_ip_port t ip = Some (r_port r)" if d: "decided_by ip rs r"
  proof -
    have r: "r \<in> set rs" "covers r ip" "r_len r < 32" using decided_by_rule [OF d] rs by auto
    have "trie_at t (take (r_len r) (ip_bits ip)) = Some (r_port r)"
      unfolding at using r covers_prefix [of r ip] by auto
    moreover have "trie_at t (take j (ip_bits ip)) = None" if "r_len r < j" "j < 32" for j
    proof (rule ccontr)
      assume "trie_at t (take j (ip_bits ip)) \<noteq> None"
      then obtain r' where "r' \<in> set rs" "rule_prefix r' = take j (ip_bits ip)" using at by blast
      then show False using cov [OF _ _ that(2)] decided_by_longest [OF d] that(1) by fastforce
    qed
    ultimately show ?thesis unfolding trie_lookup_best best_match_Some using r(3) by blast
  qed
  show "trie_get_ip_port t ip = None" if no: "\<forall>r \<in> set rs. \<not> covers r ip"
    unfolding trie_lookup_best best_match_None
  proof (intro allI impI, rule ccontr)
    fix k :: nat assume k: "k < 32" and "trie_at t (take k (ip_bits ip)) \<noteq> None"
    then obtain r' where "r' \<in> set rs" "rule_prefix r' = take k (ip_bits ip)" using at by blast
    then show False using cov [OF _ _ k] no by blast
  qed
qed

end
