(* ===== verification/Packet.thy ===== *)
theory Packet
  imports Castan_Prelude Flow_Table
begin

text \<open>
  Packets in memory. A packet buffer is a byte memory with its length; multi-byte fields
  are read and written little-endian at their offsets, so that header fields carry network
  byte order as they do in the sources. The parts of DPDK the functions call on a packet
  are a record of parameters. The parsing switch that all the NATs and load balancers
  share stands here.
\<close>

section \<open>Byte memories\<close>

type_synonym bytes = "nat \<Rightarrow> u8"

definition get16 :: "bytes \<Rightarrow> nat \<Rightarrow> u16" where
  "get16 m i = ucast (m i) OR push_bit 8 (ucast (m (i + 1)))"

definition put16 :: "bytes \<Rightarrow> nat \<Rightarrow> u16 \<Rightarrow> bytes" where
  "put16 m i v = m(i := ucast v, i + 1 := ucast (drop_bit 8 v))"

definition get32 :: "bytes \<Rightarrow> nat \<Rightarrow> u32" where
  "get32 m i = ucast (m i) OR push_bit 8 (ucast (m (i + 1))) OR
     push_bit 16 (ucast (m (i + 2))) OR push_bit 24 (ucast (m (i + 3)))"

definition put32 :: "bytes \<Rightarrow> nat \<Rightarrow> u32 \<Rightarrow> bytes" where
  "put32 m i v = m(i := ucast v, i + 1 := ucast (drop_bit 8 v),
     i + 2 := ucast (drop_bit 16 v), i + 3 := ucast (drop_bit 24 v))"

fun put_bytes :: "bytes \<Rightarrow> nat \<Rightarrow> u8 list \<Rightarrow> bytes" where
  "put_bytes m i [] = m"
| "put_bytes m i (b # bs) = put_bytes (m(i := b)) (i + 1) bs"

text \<open>\<open>ntohs\<close>, \<open>htons\<close> and their DPDK names on a little-endian host.\<close>

definition ntohs :: "u16 \<Rightarrow> u16" where
  "ntohs x = push_bit 8 x OR drop_bit 8 x"

lemma ntohs_ntohs [simp]: "ntohs (ntohs x) = x"
  by (rule bit_word_eqI) (auto simp: ntohs_def bit_simps)

lemma get16_put16_same [mem_simps]: "get16 (put16 m i v) i = v"
  by (rule bit_word_eqI) (auto simp: get16_def put16_def bit_simps)

lemma get16_put16_other [mem_simps]: "i + 1 < j \<or> j + 1 < i \<Longrightarrow> get16 (put16 m i v) j = get16 m j"
  by (auto simp: get16_def put16_def)

lemma get32_put32_same [mem_simps]: "get32 (put32 m i v) i = v"
proof (rule bit_word_eqI)
  fix n assume "n < LENGTH(32)"
  then show "bit (get32 (put32 m i v) i) n = bit v n"
    by (cases "n < 16"; cases "n < 24") (auto simp: get32_def put32_def bit_simps not_less)
qed

lemma get32_put32_other [mem_simps]: "i + 3 < j \<or> j + 3 < i \<Longrightarrow> get32 (put32 m i v) j = get32 m j"
  by (auto simp: get32_def put32_def)

lemma get32_put16 [mem_simps]: "i + 1 < j \<or> j + 3 < i \<Longrightarrow> get32 (put16 m i v) j = get32 m j"
  by (auto simp: get32_def put16_def)

lemma get16_put32 [mem_simps]: "i + 3 < j \<or> j + 1 < i \<Longrightarrow> get16 (put32 m i v) j = get16 m j"
  by (auto simp: get16_def put32_def)

lemma byte_put16 [mem_simps]: "j \<noteq> i \<Longrightarrow> j \<noteq> i + 1 \<Longrightarrow> put16 m i v j = m j"
  by (simp add: put16_def)

lemma byte_put32 [mem_simps]: "j < i \<or> i + 3 < j \<Longrightarrow> put32 m i v j = m j"
  by (auto simp: put32_def)

lemma get16_upd [mem_simps]: "j \<noteq> i \<Longrightarrow> j \<noteq> i + 1 \<Longrightarrow> get16 (m(j := b)) i = get16 m i"
  by (simp add: get16_def)

lemma get32_upd [mem_simps]: "j < i \<or> i + 3 < j \<Longrightarrow> get32 (m(j := b)) i = get32 m i"
  by (auto simp: get32_def)

lemma put_bytes_other: "j < i \<or> i + length bs \<le> j \<Longrightarrow> put_bytes m i bs j = m j"
  by (induction m i bs rule: put_bytes.induct) auto

lemma put_bytes_get [mem_simps]:
  "i + length bs \<le> j \<Longrightarrow> put_bytes m i bs j = m j"
  "i + length bs \<le> j \<Longrightarrow> get16 (put_bytes m i bs) j = get16 m j"
  "i + length bs \<le> j \<Longrightarrow> get32 (put_bytes m i bs) j = get32 m j"
  by (simp_all add: put_bytes_other get16_def get32_def)

section \<open>Packet buffers\<close>

record mbuf =
  packet_type :: u32
  pkt_len :: u32
  pkt_data :: bytes

text \<open>
  What DPDK provides: the packet-type test, the transport checksum of a packet given the
  offsets of its IPv4 and transport headers, and the IPv4 header checksum.
\<close>

record dpdk =
  is_ipv4_hdr :: "u32 \<Rightarrow> bool"
  ipv4_udptcp_cksum :: "bytes \<Rightarrow> nat \<Rightarrow> nat \<Rightarrow> u16"
  ipv4_cksum :: "bytes \<Rightarrow> nat \<Rightarrow> u16"

text \<open>Field offsets: Ethernet, then IPv4 at 14.\<close>

abbreviation (input) "off_dmac \<equiv> (0 :: nat)"
abbreviation (input) "off_smac \<equiv> (6 :: nat)"
abbreviation (input) "off_etype \<equiv> (12 :: nat)"
abbreviation (input) "off_ip \<equiv> (14 :: nat)"
abbreviation (input) "off_len \<equiv> (16 :: nat)"
abbreviation (input) "off_proto \<equiv> (23 :: nat)"
abbreviation (input) "off_cksum \<equiv> (24 :: nat)"
abbreviation (input) "off_src \<equiv> (26 :: nat)"
abbreviation (input) "off_dst \<equiv> (30 :: nat)"

definition IPPROTO_TCP :: u8 where "IPPROTO_TCP = 6"
definition IPPROTO_UDP :: u8 where "IPPROTO_UDP = 17"
definition ETHER_TYPE_IPv4 :: u16 where "ETHER_TYPE_IPv4 = 0x0800"

definition ihl_bytes :: "bytes \<Rightarrow> nat" where
  "ihl_bytes m = unat (m off_ip AND 0x0F) * 4"

definition off_l4 :: "bytes \<Rightarrow> nat" where
  "off_l4 m = off_ip + ihl_bytes m"

section \<open>Parsing\<close>

definition is_ipv4 :: "dpdk \<Rightarrow> mbuf \<Rightarrow> bool" where
  "is_ipv4 dp b \<longleftrightarrow> is_ipv4_hdr dp (packet_type b) \<or>
     (packet_type b = 0 \<and> get16 (pkt_data b) off_etype = ntohs ETHER_TYPE_IPv4)"

text \<open>The first switch of \<open>dispatch_packet\<close>: the two ports, or \<open>None\<close> for its early returns.\<close>

definition l4_ports :: "mbuf \<Rightarrow> (u16 \<times> u16) option" where
  "l4_ports b =
     (let m = pkt_data b; l4 = off_l4 m in
      if m off_proto = IPPROTO_TCP then
        (if unat (pkt_len b) < 14 + ihl_bytes m + 20 then None
         else if unat (get16 m off_len) < ihl_bytes m + 20 then None
         else if m (l4 + 12) < 5 then None
         else Some (get16 m l4, get16 m (l4 + 2)))
      else if m off_proto = IPPROTO_UDP then
        (if unat (pkt_len b) < 14 + ihl_bytes m + 8 then None
         else if unat (get16 m off_len) < ihl_bytes m + 8 then None
         else if ntohs (get16 m (l4 + 4)) < 8 then None
         else Some (get16 m l4, get16 m (l4 + 2)))
      else None)"

lemma l4_ports_proto: "l4_ports b = Some p \<Longrightarrow>
    pkt_data b off_proto = IPPROTO_TCP \<or> pkt_data b off_proto = IPPROTO_UDP"
  by (auto simp: l4_ports_def Let_def split: if_splits)

lemma l4_ports_values: "l4_ports b = Some (sport, dport) \<Longrightarrow>
    sport = get16 (pkt_data b) (off_l4 (pkt_data b)) \<and> dport = get16 (pkt_data b) (off_l4 (pkt_data b) + 2)"
  by (auto simp: l4_ports_def Let_def split: if_splits)

text \<open>A packet the switch accepts holds its whole transport header.\<close>

lemma l4_ports_in_bounds: "l4_ports b = Some p \<Longrightarrow> off_l4 (pkt_data b) + 8 \<le> unat (pkt_len b)"
  by (auto simp: l4_ports_def Let_def off_l4_def split: if_splits)

section \<open>Devices and the receive loop\<close>

text \<open>
  \<open>run\<close> polls the two devices in turn. A packet whose device does not change is dropped,
  any other is handed to the transmit queue of its new device.
\<close>

datatype sent = Dropped | Sent u32 mbuf

definition NUM_ETHPORTS :: nat where "NUM_ETHPORTS = 2"

definition next_device :: "u32 \<Rightarrow> u32" where
  "next_device device = (if unat device + 1 < NUM_ETHPORTS then device + 1 else 0)"

text \<open>
  One run over the packets the polls deliver; \<open>None\<close> is an empty poll. The state of the
  function is threaded through \<open>dispatch\<close>, whose result is \<open>None\<close> when it does not return.
\<close>

fun run ::
  "(u32 \<Rightarrow> 's \<Rightarrow> mbuf \<Rightarrow> (nf_error + (u32 \<times> 's \<times> mbuf)) option) \<Rightarrow> u32 \<Rightarrow> mbuf option list \<Rightarrow> 's
   \<Rightarrow> (nf_error + ('s \<times> sent list)) option" where
  "run dispatch device [] s = Some (Inr (s, []))"
| "run dispatch device (None # polls) s =
     run dispatch (next_device device) polls s"
| "run dispatch device (Some b # polls) s =
     do {
       r \<leftarrow> dispatch device s b;
       (case r of
          Inl e \<Rightarrow> Some (Inl e)
        | Inr (dst_device, s', b') \<Rightarrow>
            do {
              rest \<leftarrow> run dispatch (next_device device) polls s';
              Some (map_sum id (map_prod id
                (Cons (if dst_device = device then Dropped else Sent dst_device b'))) rest)
            })
     }"

lemma run_packet:
  assumes "run dispatch device (Some b # polls) s = Some (Inr (s', sent))"
  shows "\<exists>dst s1 b' sent'. dispatch device s b = Some (Inr (dst, s1, b')) \<and>
    run dispatch (next_device device) polls s1 = Some (Inr (s', sent')) \<and>
    sent = (if dst = device then Dropped else Sent dst b') # sent'"
proof -
  obtain r where r: "dispatch device s b = Some r" using assms by (cases "dispatch device s b") auto
  obtain dst s1 b' where r': "r = Inr (dst, s1, b')" using assms r by (cases r) (auto split: prod.splits)
  obtain rest where rest: "run dispatch (next_device device) polls s1 = Some rest"
    using assms r r' by (cases "run dispatch (next_device device) polls s1") auto
  show ?thesis using assms r r' rest by (cases rest) auto
qed

lemma next_device_less: "next_device device < 2"
proof (cases "unat device + 1 < NUM_ETHPORTS")
  case True
  then have "device = 0" by (simp add: NUM_ETHPORTS_def unat_eq_0)
  then show ?thesis by (simp add: next_device_def NUM_ETHPORTS_def)
qed (simp add: next_device_def)

text \<open>Invariants of a run; the index counts the polls that are still to come.\<close>

lemma run_invariant:
  assumes step: "\<And>device r s b d s' b'. device < 2 \<Longrightarrow> I (Suc r) s \<Longrightarrow>
      dispatch device s b = Some (Inr (d, s', b')) \<Longrightarrow> I r s' \<and> (d = device \<or> Q (Sent d b'))"
    and skip: "\<And>r s. I (Suc r) s \<Longrightarrow> I r s" and drop: "Q Dropped"
  shows "run dispatch device polls s = Some (Inr (s', sent)) \<Longrightarrow> I (length polls) s \<Longrightarrow> device < 2 \<Longrightarrow>
    I 0 s' \<and> (\<forall>x \<in> set sent. Q x)"
proof (induction polls arbitrary: device s sent)
  case Nil
  then show ?case by simp
next
  case (Cons poll polls)
  show ?case
  proof (cases poll)
    case None
    have r: "run dispatch (next_device device) polls s = Some (Inr (s', sent))" using Cons.prems(1) None by simp
    have "I (length polls) s" using Cons.prems(2) by (simp add: skip)
    from Cons.IH [OF r this next_device_less] show ?thesis .
  next
    case (Some b)
    obtain d s1 b' sent' where st: "dispatch device s b = Some (Inr (d, s1, b'))"
      and rest: "run dispatch (next_device device) polls s1 = Some (Inr (s', sent'))"
      and sent: "sent = (if d = device then Dropped else Sent d b') # sent'"
      using run_packet [OF Cons.prems(1) [unfolded Some]] by blast
    have "I (Suc (length polls)) s" using Cons.prems(2) by simp
    note s1 = step [OF Cons.prems(3) this st]
    from Cons.IH [OF rest _ next_device_less] s1 sent drop show ?thesis by auto
  qed
qed

end
