(* ===== verification/Nat_Function.thy ===== *)
theory Nat_Function
  imports Packet "HOL-Library.Product_Lexorder"
begin

text \<open>
  The network address translators of \<open>src/examples\<close>: the flow key with its order and its
  hash, \<open>dispatch_packet\<close> over an arbitrary flow table, and one instance per example. The
  build modelled is the native one, in which \<open>castan_havoc\<close> computes the hash.
\<close>

section \<open>Flow keys\<close>

datatype hash_key = Hash_Key (src_ip: u32) (dst_ip: u32) (proto: u8) (src_port: u16) (dst_port: u16)

definition hash_key_equals :: "hash_key \<Rightarrow> hash_key \<Rightarrow> bool" where
  "hash_key_equals a b \<longleftrightarrow> (src_ip a = src_ip b \<and> dst_ip a = dst_ip b \<and>
     proto a = proto b \<and> src_port a = src_port b \<and> dst_port a = dst_port b)"

definition key_less :: "hash_key \<Rightarrow> hash_key \<Rightarrow> bool" where
  "key_less a b =
     (if src_ip a \<noteq> src_ip b then src_ip a < src_ip b
      else if dst_ip a \<noteq> dst_ip b then dst_ip a < dst_ip b
      else if proto a \<noteq> proto b then proto a < proto b
      else if src_port a \<noteq> src_port b then src_port a < src_port b
      else dst_port a < dst_port b)"

lemma hash_key_equals_eq: "hash_key_equals = (=)"
  by (auto simp: hash_key_equals_def fun_eq_iff hash_key.expand)

definition key_tuple :: "hash_key \<Rightarrow> u32 \<times> u32 \<times> u8 \<times> u16 \<times> u16" where
  "key_tuple k = (src_ip k, dst_ip k, proto k, src_port k, dst_port k)"

lemma key_tuple_inject: "key_tuple a = key_tuple b \<longleftrightarrow> a = b"
  by (cases a; cases b) (simp add: key_tuple_def)

lemma key_less_tuple: "key_less a b \<longleftrightarrow> key_tuple a < key_tuple b"
  by (auto simp: key_less_def key_tuple_def less_prod_def')

text \<open>\<open>operator<\<close> is a linear order, so the tree and \<open>std::map\<close> are well defined on keys.\<close>

instantiation hash_key :: linorder
begin

definition less_hash_key :: "hash_key \<Rightarrow> hash_key \<Rightarrow> bool" where
  "less_hash_key a b = key_less a b"

definition less_eq_hash_key :: "hash_key \<Rightarrow> hash_key \<Rightarrow> bool" where
  "less_eq_hash_key a b = (\<not> key_less b a)"

instance
  by standard
    (auto simp: less_hash_key_def less_eq_hash_key_def key_less_tuple not_less simp flip: key_tuple_inject)

end

section \<open>Bob Jenkins' hash\<close>

definition hash_function_rot :: "u32 \<Rightarrow> nat \<Rightarrow> u32" where
  "hash_function_rot x k = push_bit k x OR drop_bit (32 - k) x"

definition hash_function_mix :: "u32 \<times> u32 \<times> u32 \<Rightarrow> u32 \<times> u32 \<times> u32" where
  "hash_function_mix = (\<lambda>(a, b, c).
     let a = a - c; a = a XOR hash_function_rot c 4; c = c + b;
         b = b - a; b = b XOR hash_function_rot a 6; a = a + c;
         c = c - b; c = c XOR hash_function_rot b 8; b = b + a;
         a = a - c; a = a XOR hash_function_rot c 16; c = c + b;
         b = b - a; b = b XOR hash_function_rot a 19; a = a + c;
         c = c - b; c = c XOR hash_function_rot b 4; b = b + a
     in (a, b, c))"

definition hash_function_final :: "u32 \<times> u32 \<times> u32 \<Rightarrow> u32 \<times> u32 \<times> u32" where
  "hash_function_final = (\<lambda>(a, b, c).
     let c = c XOR b; c = c - hash_function_rot b 14;
         a = a XOR c; a = a - hash_function_rot c 11;
         b = b XOR a; b = b - hash_function_rot a 25;
         c = c XOR b; c = c - hash_function_rot b 16;
         a = a XOR c; a = a - hash_function_rot c 4;
         b = b XOR a; b = b - hash_function_rot a 14;
         c = c XOR b; c = c - hash_function_rot b 24
     in (a, b, c))"

definition hash_function :: "hash_key \<Rightarrow> u32" where
  "hash_function key =
     (let init = 0xdeadbeef + 13;
          a = init + src_ip key;
          b = init + dst_ip key;
          c = init + (push_bit 16 (ucast (src_port key)) OR ucast (dst_port key));
          (a, b, c) = hash_function_mix (a, b, c);
          a = a + ucast (proto key);
          (a, b, c) = hash_function_final (a, b, c)
      in c)"

text \<open>The mixing steps lose nothing: both are permutations of the three words.\<close>

definition unmix :: "u32 \<times> u32 \<times> u32 \<Rightarrow> u32 \<times> u32 \<times> u32" where
  "unmix = (\<lambda>(a, b, c).
     let b = b - a; c = c XOR hash_function_rot b 4; c = c + b;
         a = a - c; b = b XOR hash_function_rot a 19; b = b + a;
         c = c - b; a = a XOR hash_function_rot c 16; a = a + c;
         b = b - a; c = c XOR hash_function_rot b 8; c = c + b;
         a = a - c; b = b XOR hash_function_rot a 6; b = b + a;
         c = c - b; a = a XOR hash_function_rot c 4; a = a + c
     in (a, b, c))"

definition unfinal :: "u32 \<times> u32 \<times> u32 \<Rightarrow> u32 \<times> u32 \<times> u32" where
  "unfinal = (\<lambda>(a, b, c).
     let c = c + hash_function_rot b 24; c = c XOR b;
         b = b + hash_function_rot a 14; b = b XOR a;
         a = a + hash_function_rot c 4; a = a XOR c;
         c = c + hash_function_rot b 16; c = c XOR b;
         b = b + hash_function_rot a 25; b = b XOR a;
         a = a + hash_function_rot c 11; a = a XOR c;
         c = c + hash_function_rot b 14; c = c XOR b
     in (a, b, c))"

lemma xor_cancel: "(x XOR y) XOR y = (x :: u32)"
  by (simp add: xor.assoc)

lemma unmix_mix: "unmix (hash_function_mix x) = x"
  by (cases x) (simp only: unmix_def hash_function_mix_def Let_def prod.case xor_cancel diff_add_cancel add_diff_cancel_right')

lemma unfinal_final: "unfinal (hash_function_final x) = x"
  by (cases x) (simp only: unfinal_def hash_function_final_def Let_def prod.case xor_cancel diff_add_cancel add_diff_cancel_right')

section \<open>Translating a packet\<close>

record nat_config =
  device_macs :: "u8 list list"
  endpoint_macs :: "u8 list list"
  nat_ip :: u32

definition packet_key :: "bytes \<Rightarrow> u16 \<Rightarrow> u16 \<Rightarrow> hash_key" where
  "packet_key m sport dport =
     Hash_Key (get32 m off_src) (get32 m off_dst) (m off_proto) sport dport"

text \<open>
  The loop for an unused port. It does not return when every port is taken, and it fails
  when the table does.
\<close>

definition next_port :: "hash_key \<Rightarrow> hash_key" where
  "next_port k = Hash_Key (src_ip k) (dst_ip k) (proto k) (src_port k) (dst_port k + 1)"

partial_function (option) find_port ::
  "('t \<Rightarrow> hash_key \<Rightarrow> bool \<Rightarrow> nf_error + hash_key option) \<Rightarrow> 't \<Rightarrow> hash_key \<Rightarrow> (nf_error + hash_key) option" where
  "find_port get t out_key =
     (case get t out_key False of
        Inl e \<Rightarrow> Some (Inl e)
      | Inr None \<Rightarrow> Some (Inr out_key)
      | Inr (Some _) \<Rightarrow> find_port get t (next_port out_key))"

text \<open>The second switch: addresses, protocol, ports and both checksums in place.\<close>

definition translate :: "dpdk \<Rightarrow> hash_key \<Rightarrow> bytes \<Rightarrow> bytes" where
  "translate dp translation m =
     (let m = put16 m off_cksum 0;
          l4 = off_l4 m;
          cks = (if m off_proto = IPPROTO_TCP then l4 + 16 else l4 + 6);
          m = put32 m off_src (src_ip translation);
          m = put32 m off_dst (dst_ip translation);
          m = m(off_proto := proto translation);
          m = put16 m l4 (src_port translation);
          m = put16 m (l4 + 2) (dst_port translation);
          m = put16 m cks 0;
          m = put16 m cks (ipv4_udptcp_cksum dp m off_ip l4)
      in put16 m off_cksum (ipv4_cksum dp m off_ip))"

definition set_macs :: "u8 list list \<Rightarrow> u8 list list \<Rightarrow> u32 \<Rightarrow> bytes \<Rightarrow> bytes" where
  "set_macs dev_macs end_macs dst_dev m =
     put_bytes (put_bytes m off_smac (dev_macs ! unat dst_dev)) off_dmac (end_macs ! unat dst_dev)"

text \<open>\<open>dispatch_packet\<close> over the table operations of an example.\<close>

definition nat_dispatch ::
  "('t \<Rightarrow> hash_key \<Rightarrow> bool \<Rightarrow> nf_error + hash_key option) \<Rightarrow> ('t \<Rightarrow> hash_key \<Rightarrow> hash_key \<Rightarrow> 't) \<Rightarrow> dpdk
   \<Rightarrow> nat_config \<Rightarrow> u32 \<Rightarrow> 't \<Rightarrow> mbuf \<Rightarrow> (nf_error + (u32 \<times> 't \<times> mbuf)) option" where
  "nat_dispatch get put dp config device t b =
     (if \<not> is_ipv4 dp b then Some (Inr (device, t, b))
      else case l4_ports b of
          None \<Rightarrow> Some (Inr (device, t, b))
        | Some (sport, dport) \<Rightarrow>
            (let m = pkt_data b;
                 key = packet_key m sport dport;
                 send = (\<lambda>translation t.
                   (device XOR 1, t,
                    b\<lparr>pkt_data := set_macs (device_macs config) (endpoint_macs config) (device XOR 1)
                        (translate dp translation m)\<rparr>))
             in case get t key True of
                 Inl e \<Rightarrow> Some (Inl e)
               | Inr (Some translation) \<Rightarrow> Some (Inr (send translation t))
               | Inr None \<Rightarrow>
                   if get32 m off_dst = nat_ip config then Some (Inr (device, t, b))
                   else do {
                     r \<leftarrow> find_port get t (Hash_Key (get32 m off_dst) (nat_ip config) (m off_proto) dport sport);
                     (case r of
                        Inl e \<Rightarrow> Some (Inl e)
                      | Inr out_key \<Rightarrow>
                          (let translation = Hash_Key (nat_ip config) (dst_ip key) (proto key) (dst_port out_key) (dst_port key);
                               t = put t key translation;
                               out_translation = Hash_Key (src_ip out_key) (get32 m off_src) (proto out_key) (src_port out_key) sport;
                               t = put t out_key out_translation
                           in Some (Inr (send translation t))))
                   }))"

section \<open>The translation table as a specification\<close>

text \<open>
  A flow seen from the other side, and what a table must satisfy: an entry and its
  reverse are both present, and each only replaces the address and port it is meant to.
\<close>

definition rev_key :: "hash_key \<Rightarrow> hash_key" where
  "rev_key k = Hash_Key (dst_ip k) (src_ip k) (proto k) (dst_port k) (src_port k)"

definition flow_ok :: "u32 \<Rightarrow> hash_key \<Rightarrow> hash_key \<Rightarrow> bool" where
  "flow_ok ext x y \<longleftrightarrow> proto y = proto x \<and>
     (if dst_ip x = ext then src_ip y = src_ip x \<and> src_port y = src_port x
      else src_ip y = ext \<and> dst_ip y = dst_ip x \<and> dst_port y = dst_port x)"

definition nat_map_ok :: "u32 \<Rightarrow> (hash_key \<rightharpoonup> hash_key) \<Rightarrow> bool" where
  "nat_map_ok ext M \<longleftrightarrow> (\<forall>x y. M x = Some y \<longrightarrow> M (rev_key y) = Some (rev_key x) \<and> flow_ok ext x y)"

text \<open>The specification of a new connection: both directions through a free external port.\<close>

definition open_flow :: "u32 \<Rightarrow> hash_key \<Rightarrow> u16 \<Rightarrow> (hash_key \<rightharpoonup> hash_key) \<Rightarrow> (hash_key \<rightharpoonup> hash_key)" where
  "open_flow ext key port M =
     (let out = Hash_Key ext (dst_ip key) (proto key) port (dst_port key)
      in M(key \<mapsto> out, rev_key out \<mapsto> rev_key key))"

lemma rev_rev_key [simp]: "rev_key (rev_key k) = k"
  by (simp add: rev_key_def)

lemma rev_key_inject [simp]: "rev_key a = rev_key b \<longleftrightarrow> a = b"
  by (metis rev_rev_key)

lemma nat_map_ok_empty: "nat_map_ok ext Map.empty"
  by (simp add: nat_map_ok_def)

lemma nat_map_okD: "nat_map_ok ext M \<Longrightarrow> M x = Some y \<Longrightarrow> M (rev_key y) = Some (rev_key x) \<and> flow_ok ext x y"
  unfolding nat_map_ok_def by (elim allE impE)

lemma nat_map_ok_open:
  assumes ok: "nat_map_ok ext M" and new: "M key = None" "dst_ip key \<noteq> ext"
    and out: "out = Hash_Key ext (dst_ip key) (proto key) port (dst_port key)"
    and free: "M (rev_key out) = None"
  shows "nat_map_ok ext (open_flow ext key port M)"
proof -
  let ?F = "open_flow ext key port M"
  have "dst_ip (rev_key out) = ext" by (simp add: rev_key_def out)
  with new(2) have ne: "key \<noteq> rev_key out" by auto
  have val: "?F x = (if x = rev_key out then Some (rev_key key) else if x = key then Some out else M x)" for x
    unfolding open_flow_def Let_def fun_upd_apply out ..
  have "?F (rev_key y) = Some (rev_key x) \<and> flow_ok ext x y" if xy: "?F x = Some y" for x y
  proof -
    have "x = rev_key out \<and> y = rev_key key \<or> x = key \<and> y = out \<or> M x = Some y"
      using xy unfolding val by (simp split: if_split_asm)
    then consider "x = rev_key out" "y = rev_key key" | "x = key" "y = out" | "M x = Some y"
      by blast
    then show ?thesis
    proof cases
      case 1
      then show ?thesis using ne by (simp add: val out) (simp add: flow_ok_def rev_key_def)
    next
      case 2
      then show ?thesis using new(2) by (simp add: val) (simp add: flow_ok_def out)
    next
      case 3
      note d = nat_map_okD [OF ok 3]
      then have "rev_key y \<noteq> key" "rev_key y \<noteq> rev_key out"
        using new(1) free by auto
      with d show ?thesis by (simp add: val)
    qed
  qed
  then show ?thesis unfolding nat_map_ok_def by (intro allI impI)
qed

lemma nat_map_ok_inj:
  assumes "nat_map_ok ext M" "M x = Some y" "M x' = Some y"
  shows "x = x'"
  using nat_map_okD [OF assms(1,2)] nat_map_okD [OF assms(1,3)] by simp

section \<open>The port search\<close>

lemma next_port_iter:
  "(next_port ^^ n) k = Hash_Key (src_ip k) (dst_ip k) (proto k) (src_port k) (dst_port k + of_nat n)"
  by (induction n) (auto simp: next_port_def)

definition port_found :: "('t \<Rightarrow> hash_key \<Rightarrow> bool \<Rightarrow> nf_error + hash_key option) \<Rightarrow> 't \<Rightarrow> hash_key
    \<Rightarrow> nf_error + hash_key \<Rightarrow> bool" where
  "port_found get t k r \<longleftrightarrow> (\<forall>k'. r = Inr k' \<longrightarrow>
     get t k' False = Inr None \<and> (\<exists>n. k' = (next_port ^^ n) k))"

lemma port_found_next: "port_found get t (next_port k) r \<Longrightarrow> port_found get t k r"
  unfolding port_found_def by (metis comp_apply funpow_Suc_right)

lemma port_found_here: "get t k False = Inr None \<Longrightarrow> port_found get t k (Inr k)"
  unfolding port_found_def by (auto intro: exI [of _ 0])

lemma find_port_found:
  assumes "find_port get t k = Some r"
  shows "port_found get t k r"
proof (rule find_port.raw_induct [where P = port_found, OF _ assms])
  fix find_port' and get :: "'a \<Rightarrow> hash_key \<Rightarrow> bool \<Rightarrow> nf_error + hash_key option" and t k r
  assume "\<And>get t k r. find_port' get t k = Some r \<Longrightarrow> port_found get t k r"
    and "(case get t k False of Inl e \<Rightarrow> Some (Inl e) | Inr None \<Rightarrow> Some (Inr k)
       | Inr (Some x) \<Rightarrow> find_port' get t (next_port k)) = Some r"
  then show "port_found get t k r"
    using port_found_next [of get t k r]
    by (auto split: sum.splits option.splits intro: port_found_here simp: port_found_def [of get t k "Inl _"])
qed

lemma find_port_range:
  assumes "find_port get t k = Some (Inr k')"
  shows "get t k' False = Inr None \<and> (\<exists>n. k' = (next_port ^^ n) k)"
  using find_port_found [OF assms] by (simp add: port_found_def)

text \<open>The search does not return if every port is taken.\<close>

definition all_taken :: "('t \<Rightarrow> hash_key \<Rightarrow> bool \<Rightarrow> nf_error + hash_key option) \<Rightarrow> 't \<Rightarrow> hash_key \<Rightarrow> bool" where
  "all_taken get t k \<longleftrightarrow> (\<forall>n. \<exists>v. get t ((next_port ^^ n) k) False = Inr (Some v))"

lemma all_taken_next: "all_taken get t k \<Longrightarrow> all_taken get t (next_port k)"
  unfolding all_taken_def by (metis comp_apply funpow_Suc_right)

lemma find_port_diverges:
  assumes "\<forall>n. \<exists>v. get t ((next_port ^^ n) k) False = Inr (Some v)"
  shows "find_port get t k = None"
proof (cases "find_port get t k")
  case (Some r)
  have "\<not> all_taken get t k"
  proof (rule find_port.raw_induct [where P = "\<lambda>get t k r. \<not> all_taken get t k", OF _ Some])
    fix find_port' and get :: "'a \<Rightarrow> hash_key \<Rightarrow> bool \<Rightarrow> nf_error + hash_key option" and t k r
    assume IH: "\<And>get t k r. find_port' get t k = Some r \<Longrightarrow> \<not> all_taken get t k"
      and eq: "(case get t k False of Inl e \<Rightarrow> Some (Inl e) | Inr None \<Rightarrow> Some (Inr k)
         | Inr (Some x) \<Rightarrow> find_port' get t (next_port k)) = Some r"
    show "\<not> all_taken get t k"
    proof
      assume all: "all_taken get t k"
      then obtain v where "get t k False = Inr (Some v)" unfolding all_taken_def by (metis funpow_0)
      then have "find_port' get t (next_port k) = Some r" using eq by simp
      from IH [OF this] all_taken_next [OF all] show False by simp
    qed
  qed
  with assms show ?thesis by (simp add: all_taken_def)
qed

text \<open>Packets of no supported kind pass by without a trace.\<close>

lemma nat_dispatch_ignored:
  assumes "\<not> is_ipv4 dp b \<or> l4_ports b = None"
  shows "nat_dispatch get put dp cfg device t b = Some (Inr (device, t, b))"
  using assms by (auto simp: nat_dispatch_def)

locale nat_flow = flow_table get put empty inv abs room
  for get :: "'t \<Rightarrow> hash_key \<Rightarrow> bool \<Rightarrow> nf_error + hash_key option"
    and put :: "'t \<Rightarrow> hash_key \<Rightarrow> hash_key \<Rightarrow> 't"
    and empty :: "'t"
    and inv :: "'t \<Rightarrow> bool"
    and abs :: "'t \<Rightarrow> hash_key \<rightharpoonup> hash_key"
    and room :: "'t \<Rightarrow> nat \<Rightarrow> bool"
begin

lemma find_port_sound:
  "inv t \<Longrightarrow> find_port get t k = Some (Inr k') \<Longrightarrow> abs t k' = None \<and> (\<exists>n. k' = (next_port ^^ n) k)"
  using find_port_range [of get t k k'] get_noneD [of t k'] by simp

lemma find_port_first: "inv t \<Longrightarrow> abs t k = None \<Longrightarrow> find_port get t k = Some (Inr k)"
  by (subst find_port.simps) (simp add: get_absent)

text \<open>Every result of \<open>dispatch_packet\<close>, by what the table says of the packet's flow.\<close>

lemma dispatch_known:
  assumes "inv t" "is_ipv4 dp b" "l4_ports b = Some (sport, dport)"
    and "abs t (packet_key (pkt_data b) sport dport) = Some tr"
  shows "nat_dispatch get put dp cfg device t b = Some (Inr (device XOR 1, t,
    b\<lparr>pkt_data := set_macs (device_macs cfg) (endpoint_macs cfg) (device XOR 1) (translate dp tr (pkt_data b))\<rparr>))"
  using assms by (simp add: nat_dispatch_def get_abs Let_def)

lemma dispatch_unknown_inbound:
  assumes "inv t" "is_ipv4 dp b" "l4_ports b = Some (sport, dport)"
    and "abs t (packet_key (pkt_data b) sport dport) = None" "get32 (pkt_data b) off_dst = nat_ip cfg"
  shows "nat_dispatch get put dp cfg device t b = Some (Inr (device, t, b))"
  using assms by (simp add: nat_dispatch_def get_abs Let_def)

lemma dispatch_new:
  assumes "inv t" "room t (Suc (Suc n))" "is_ipv4 dp b" "l4_ports b = Some (sport, dport)"
    and key: "key = packet_key (pkt_data b) sport dport" "abs t key = None" "dst_ip key \<noteq> nat_ip cfg"
    and port: "find_port get t (rev_key (Hash_Key (nat_ip cfg) (dst_ip key) (proto key) sport dport)) = Some (Inr out_key)"
  shows "\<exists>t' port. nat_dispatch get put dp cfg device t b = Some (Inr (device XOR 1, t',
      b\<lparr>pkt_data := set_macs (device_macs cfg) (endpoint_macs cfg) (device XOR 1)
          (translate dp (Hash_Key (nat_ip cfg) (dst_ip key) (proto key) port dport) (pkt_data b))\<rparr>)) \<and>
    inv t' \<and> room t' n \<and> port = dst_port out_key \<and> abs t' = open_flow (nat_ip cfg) key port (abs t) \<and>
    abs t (rev_key (Hash_Key (nat_ip cfg) (dst_ip key) (proto key) port dport)) = None"
proof -
  let ?ext = "nat_ip cfg"
  obtain k where "out_key = (next_port ^^ k) (rev_key (Hash_Key ?ext (dst_ip key) (proto key) sport dport))"
    and free: "abs t out_key = None"
    using find_port_sound [OF assms(1) port] by blast
  then have out: "out_key = rev_key (Hash_Key ?ext (dst_ip key) (proto key) (dst_port out_key) dport)"
    by (simp add: next_port_iter rev_key_def)
  have osel: "src_ip out_key = dst_ip key" "proto out_key = proto key" "src_port out_key = dport"
    by (subst out, simp add: rev_key_def)+
  define tr where "tr = Hash_Key ?ext (dst_ip key) (proto key) (dst_port out_key) dport"
  have out': "out_key = rev_key tr" using out by (simp add: tr_def)
  have free': "abs t (rev_key tr) = None" using free out' by simp
  define t1 where "t1 = put t key tr"
  define t2 where "t2 = put t1 out_key (rev_key key)"
  have t1: "inv t1" "room t1 (Suc n)" "abs t1 = (abs t)(key \<mapsto> tr)"
    using assms(1,2) by (auto simp: t1_def put_inv put_room put_abs)
  have t2: "inv t2" "room t2 n" "abs t2 = (abs t)(key \<mapsto> tr, rev_key tr \<mapsto> rev_key key)"
    using t1 by (auto simp: t2_def put_inv put_room put_abs out')
  have sel: "src_ip key = get32 (pkt_data b) off_src" "src_port key = sport" "dst_port key = dport"
    "dst_ip key = get32 (pkt_data b) off_dst" "proto key = pkt_data b off_proto"
    by (simp_all add: key(1) packet_key_def)
  have t2': "t2 = put (put t key (Hash_Key ?ext (dst_ip key) (proto key) (dst_port out_key) (dst_port key))) out_key
      (Hash_Key (src_ip out_key) (get32 (pkt_data b) off_src) (proto out_key) (src_port out_key) sport)"
    unfolding t2_def t1_def tr_def by (simp add: rev_key_def sel osel)
  have port': "find_port get t (Hash_Key (get32 (pkt_data b) off_dst) ?ext (pkt_data b off_proto) dport sport) =
      Some (Inr out_key)"
    using port by (simp add: rev_key_def sel)
  have "get32 (pkt_data b) off_dst \<noteq> ?ext" using key(3) sel(4) by simp
  then have "nat_dispatch get put dp cfg device t b = Some (Inr (device XOR 1, t2,
      b\<lparr>pkt_data := set_macs (device_macs cfg) (endpoint_macs cfg) (device XOR 1) (translate dp tr (pkt_data b))\<rparr>))"
    using assms(1,3,4) key(2) port'
    by (simp add: nat_dispatch_def Let_def get_abs key(1) [symmetric] t2' tr_def sel(3))
  then show ?thesis
    using t2 free' by (intro exI [of _ t2] exI [of _ "dst_port out_key"])
      (simp add: open_flow_def Let_def tr_def sel(3))
qed

end

context nat_flow
begin

lemma room_less2: "room t (Suc (Suc n)) \<Longrightarrow> room t n"
  by (blast intro: room_less)

text \<open>A packet of a new outbound flow is dispatched only after a port was found.\<close>

lemma new_port_found:
  assumes inv: "inv t" and p: "is_ipv4 dp b" "l4_ports b = Some (sport, dport)"
    and key: "key = packet_key (pkt_data b) sport dport" and new: "abs t key = None" "dst_ip key \<noteq> nat_ip cfg"
    and res: "nat_dispatch get put dp cfg device t b = Some (Inr r)"
  shows "\<exists>out. find_port get t (rev_key (Hash_Key (nat_ip cfg) (dst_ip key) (proto key) sport dport)) = Some (Inr out)"
proof -
  let ?h = "Hash_Key (get32 (pkt_data b) off_dst) (nat_ip cfg) (pkt_data b off_proto) dport sport"
  have okey: "rev_key (Hash_Key (nat_ip cfg) (dst_ip key) (proto key) sport dport) = ?h"
    by (simp add: rev_key_def key packet_key_def)
  have dst: "get32 (pkt_data b) off_dst \<noteq> nat_ip cfg" using new(2) by (simp add: key packet_key_def)
  have "\<exists>out. find_port get t ?h = Some (Inr out)"
  proof (cases "find_port get t ?h")
    case None
    then show ?thesis using res p new(1) inv dst
      by (simp add: nat_dispatch_def Let_def get_abs key [symmetric])
  next
    case (Some f)
    then show ?thesis using res p new(1) inv dst
      by (cases f) (auto simp: nat_dispatch_def Let_def get_abs key [symmetric])
  qed
  then show ?thesis unfolding okey .
qed

text \<open>
  One packet: the table keeps its invariant, stays consistent, and every flow it held is
  translated as before.
\<close>

lemma dispatch_step:
  assumes inv: "inv t" "room t (Suc (Suc n))"
    and res: "nat_dispatch get put dp cfg device t b = Some (Inr (device', t', b'))"
  shows "inv t' \<and> room t' n \<and> (t' = t \<or> (\<exists>key port. abs t key = None \<and> dst_ip key \<noteq> nat_ip cfg \<and>
    abs t (rev_key (Hash_Key (nat_ip cfg) (dst_ip key) (proto key) port (dst_port key))) = None \<and>
    abs t' = open_flow (nat_ip cfg) key port (abs t)))"
proof -
  have same: ?thesis if "t' = t" using that inv by (simp add: room_less2)
  show ?thesis
  proof (cases "is_ipv4 dp b \<and> l4_ports b \<noteq> None")
    case False
    then have "\<not> is_ipv4 dp b \<or> l4_ports b = None" by blast
    from nat_dispatch_ignored [OF this, of get put cfg device t] res show ?thesis by (intro same) simp
  next
    case True
    then obtain sport dport where p: "is_ipv4 dp b" "l4_ports b = Some (sport, dport)" by auto
    define key where "key = packet_key (pkt_data b) sport dport"
    have sel: "dst_ip key = get32 (pkt_data b) off_dst" "dst_port key = dport"
      by (simp_all add: key_def packet_key_def)
    consider (known) tr where "abs t key = Some tr" | (inbound) "abs t key = None" "dst_ip key = nat_ip cfg"
      | (new) "abs t key = None" "dst_ip key \<noteq> nat_ip cfg" by (cases "abs t key") auto
    then show ?thesis
    proof cases
      case known
      then show ?thesis using res same dispatch_known [OF inv(1) p] by (simp add: key_def)
    next
      case inbound
      then have "get32 (pkt_data b) off_dst = nat_ip cfg" using sel(1) by simp
      then show ?thesis
        using res same dispatch_unknown_inbound [OF inv(1) p, of cfg] inbound(1) by (simp add: key_def)
    next
      case new
      obtain out where out: "find_port get t (rev_key (Hash_Key (nat_ip cfg) (dst_ip key) (proto key) sport dport)) =
          Some (Inr out)"
        using new_port_found [OF inv(1) p key_def new res] by blast
      obtain port where "inv t'" "room t' n" "abs t' = open_flow (nat_ip cfg) key port (abs t)"
        and "abs t (rev_key (Hash_Key (nat_ip cfg) (dst_ip key) (proto key) port dport)) = None"
        using dispatch_new [OF inv p key_def new out, of device] res by auto
      with new sel(2) show ?thesis by blast
    qed
  qed
qed

lemma dispatch_keeps:
  assumes "inv t" "room t (Suc (Suc n))"
    and "nat_dispatch get put dp cfg device t b = Some (Inr (device', t', b'))"
  shows "inv t' \<and> room t' n"
  using dispatch_step [OF assms] by simp

lemma dispatch_ok:
  assumes inv: "inv t" "room t (Suc (Suc n))" and ok: "nat_map_ok (nat_ip cfg) (abs t)"
    and res: "nat_dispatch get put dp cfg device t b = Some (Inr (device', t', b'))"
  shows "inv t' \<and> room t' n \<and> nat_map_ok (nat_ip cfg) (abs t') \<and> abs t \<subseteq>\<^sub>m abs t'"
proof -
  note step = dispatch_step [OF inv res]
  then consider "t' = t" | key port where "abs t key = None" "dst_ip key \<noteq> nat_ip cfg"
    "abs t (rev_key (Hash_Key (nat_ip cfg) (dst_ip key) (proto key) port (dst_port key))) = None"
    "abs t' = open_flow (nat_ip cfg) key port (abs t)" by blast
  then have "nat_map_ok (nat_ip cfg) (abs t') \<and> abs t \<subseteq>\<^sub>m abs t'"
  proof cases
    case 2
    then have "abs t \<subseteq>\<^sub>m abs t'" by (auto simp: 2(4) open_flow_def map_le_def Let_def)
    moreover have "nat_map_ok (nat_ip cfg) (abs t')"
      unfolding 2(4) by (rule nat_map_ok_open [OF ok 2(1,2) refl 2(3)])
    ultimately show ?thesis by simp
  qed (use ok in simp)
  with step show ?thesis by simp
qed

lemma run_ok:
  assumes "inv t" "room t (2 * length polls)" "nat_map_ok (nat_ip cfg) (abs t)"
    and "run (nat_dispatch get put dp cfg) device polls t = Some (Inr (t', sent))"
  shows "inv t' \<and> nat_map_ok (nat_ip cfg) (abs t') \<and> abs t \<subseteq>\<^sub>m abs t'"
  using assms
proof (induction "nat_dispatch get put dp cfg" device polls t arbitrary: sent rule: run.induct)
  case (1 device t)
  then show ?case by simp
next
  case (2 device polls t)
  then show ?case by (simp add: room_less2)
next
  case (3 device b polls t)
  obtain device' t1 b' sent' where step: "nat_dispatch get put dp cfg device t b = Some (Inr (device', t1, b'))"
    and rest: "run (nat_dispatch get put dp cfg) (next_device device)
      polls t1 = Some (Inr (t', sent'))"
    using run_packet [OF 3(5)] by blast
  have "inv t1 \<and> room t1 (2 * length polls) \<and> nat_map_ok (nat_ip cfg) (abs t1) \<and> abs t \<subseteq>\<^sub>m abs t1"
    using dispatch_ok [OF 3(2) _ 3(4) step, of "2 * length polls"] 3(3) by simp
  then show ?case using 3(1) [OF step] rest by (metis map_le_trans)
qed

end

section \<open>When a packet is always dispatched\<close>

locale nat_safe = null_safe_table get put empty inv abs room + nat_flow get put empty inv abs room
  for get :: "'t \<Rightarrow> hash_key \<Rightarrow> bool \<Rightarrow> nf_error + hash_key option"
    and put :: "'t \<Rightarrow> hash_key \<Rightarrow> hash_key \<Rightarrow> 't"
    and empty :: "'t"
    and inv :: "'t \<Rightarrow> bool"
    and abs :: "'t \<Rightarrow> hash_key \<rightharpoonup> hash_key"
    and room :: "'t \<Rightarrow> nat \<Rightarrow> bool"
begin

lemma find_port_returns:
  assumes "inv t" "abs t ((next_port ^^ n) k) = None"
  shows "\<exists>k'. find_port get t k = Some (Inr k')"
  using assms(2)
proof (induction n arbitrary: k)
  case 0
  then show ?case using find_port_first [OF assms(1)] by simp
next
  case (Suc n)
  then have "\<exists>k'. find_port get t (next_port k) = Some (Inr k')"
    by (metis comp_apply funpow_Suc_right)
  then show ?case
    by (cases "abs t k") (subst find_port.simps, simp add: get_any [OF assms(1)])+
qed

lemma free_port:
  assumes "finite (dom (abs t))" "card (dom (abs t)) < 2 ^ 16"
  shows "\<exists>n. abs t ((next_port ^^ n) k) = None"
proof (rule ccontr)
  assume no: "\<nexists>n. abs t ((next_port ^^ n) k) = None"
  let ?f = "\<lambda>n. (next_port ^^ n) k"
  have "?f ` {..<2 ^ 16} \<subseteq> dom (abs t)" using no by auto
  moreover have "inj_on ?f {..<2 ^ 16}"
  proof (rule inj_onI)
    fix x y :: nat assume "x \<in> {..<2 ^ 16}" "y \<in> {..<2 ^ 16}" "?f x = ?f y"
    then have "x < 2 ^ 16" "y < 2 ^ 16" "(of_nat x :: u16) = of_nat y" by (simp_all add: next_port_iter)
    then show "x = y" by (simp add: of_nat_eq_iff word_of_nat_eq_iff take_bit_nat_eq_self)
  qed
  ultimately have "2 ^ 16 \<le> card (dom (abs t))"
    using card_mono [OF assms(1)] card_image by (metis card_lessThan)
  with assms(2) show False by simp
qed

lemma dispatch_returns:
  assumes "inv t" "room t (Suc (Suc n))" "finite (dom (abs t))" "card (dom (abs t)) < 2 ^ 16"
  shows "\<exists>r. nat_dispatch get put dp cfg device t b = Some (Inr r)"
proof (cases "is_ipv4 dp b \<and> l4_ports b \<noteq> None")
  case False
  then have "\<not> is_ipv4 dp b \<or> l4_ports b = None" by blast
  from nat_dispatch_ignored [OF this, of get put cfg device t] show ?thesis by simp
next
  case True
  then obtain sport dport where p: "is_ipv4 dp b" "l4_ports b = Some (sport, dport)" by auto
  obtain k where "abs t ((next_port ^^ k) (Hash_Key (get32 (pkt_data b) off_dst) (nat_ip cfg)
      (pkt_data b off_proto) dport sport)) = None" using free_port [OF assms(3,4)] by blast
  from find_port_returns [OF assms(1) this] show ?thesis
    using p assms(1) by (auto simp: nat_dispatch_def Let_def get_abs split: option.split)
qed

end

section \<open>The translated packet\<close>

lemma translate_fields:
  assumes "20 \<le> ihl_bytes m"
  shows "get32 (translate dp tr m) off_src = src_ip tr" "get32 (translate dp tr m) off_dst = dst_ip tr"
    "translate dp tr m off_proto = proto tr" "off_l4 (translate dp tr m) = off_l4 m"
    "get16 (translate dp tr m) (off_l4 m) = src_port tr" "get16 (translate dp tr m) (off_l4 m + 2) = dst_port tr"
proof -
  have l4: "off_l4 (put16 m off_cksum 0) = off_l4 m" "34 \<le> off_l4 m"
    using assms by (simp_all add: off_l4_def ihl_bytes_def mem_simps)
  note simps = translate_def Let_def mem_simps l4(1)
  show "get32 (translate dp tr m) off_src = src_ip tr" "get32 (translate dp tr m) off_dst = dst_ip tr"
    "translate dp tr m off_proto = proto tr"
    "get16 (translate dp tr m) (off_l4 m) = src_port tr" "get16 (translate dp tr m) (off_l4 m + 2) = dst_port tr"
    using l4(2) by (simp_all add: simps)
  show "off_l4 (translate dp tr m) = off_l4 m"
    using l4(2) by (simp add: off_l4_def ihl_bytes_def simps)
qed

definition pkt_key :: "bytes \<Rightarrow> hash_key" where
  "pkt_key m = packet_key m (get16 m (off_l4 m)) (get16 m (off_l4 m + 2))"

definition macs_ok :: "nat_config \<Rightarrow> bool" where
  "macs_ok cfg \<longleftrightarrow> length (device_macs cfg) = NUM_ETHPORTS \<and> length (endpoint_macs cfg) = NUM_ETHPORTS \<and>
     (\<forall>mac \<in> set (device_macs cfg) \<union> set (endpoint_macs cfg). length mac = 6)"

lemma l4_ports_pkt_key: "l4_ports b = Some (sport, dport) \<Longrightarrow> packet_key (pkt_data b) sport dport = pkt_key (pkt_data b)"
  using l4_ports_values [of b sport dport] by (simp add: pkt_key_def)

lemma other_device: "device < 2 \<Longrightarrow> device XOR 1 < (2 :: u32) \<and> device XOR 1 \<noteq> device \<and> (device XOR 1) XOR 1 = device"
proof -
  assume "device < 2"
  then have "unat device < 2" by (simp add: word_less_nat_alt)
  then have "device = 0 \<or> device = 1" by (auto simp: less_2_cases_iff word_unat_eq_iff)
  then show ?thesis by auto
qed

lemma set_macs_fields:
  assumes "macs_ok cfg" "d < (2 :: u32)"
  shows "off_l4 (set_macs (device_macs cfg) (endpoint_macs cfg) d m) = off_l4 m"
    "pkt_key (set_macs (device_macs cfg) (endpoint_macs cfg) d m) = pkt_key m"
proof -
  have "unat d < 2" using assms(2) by (simp add: word_less_nat_alt)
  then have len: "length (device_macs cfg ! unat d) = 6" "length (endpoint_macs cfg ! unat d) = 6"
    using assms(1) by (auto simp: macs_ok_def NUM_ETHPORTS_def)
  show l4: "off_l4 (set_macs (device_macs cfg) (endpoint_macs cfg) d m) = off_l4 m"
    using len by (simp add: off_l4_def ihl_bytes_def set_macs_def mem_simps)
  have "12 \<le> off_l4 m" by (simp add: off_l4_def)
  with len show "pkt_key (set_macs (device_macs cfg) (endpoint_macs cfg) d m) = pkt_key m"
    unfolding pkt_key_def l4 by (simp add: packet_key_def set_macs_def mem_simps)
qed

lemma pkt_key_translate:
  assumes "20 \<le> ihl_bytes m"
  shows "pkt_key (translate dp tr m) = tr"
  unfolding pkt_key_def packet_key_def using translate_fields [OF assms, of dp tr] by (cases tr) simp

lemma pkt_key_sent:
  assumes "macs_ok cfg" "device < 2" "20 \<le> ihl_bytes m"
  shows "pkt_key (set_macs (device_macs cfg) (endpoint_macs cfg) (device XOR 1) (translate dp tr m)) = tr"
  using set_macs_fields(2) [OF assms(1)] other_device [OF assms(2)] pkt_key_translate [OF assms(3)] by simp

context nat_flow
begin

text \<open>
  A packet that is sent carries the translation its table entry says; the reply to it is
  translated back to the sender of the packet.
\<close>

lemma dispatch_sent:
  assumes inv: "inv t" "room t (Suc (Suc n))" and p: "is_ipv4 dp b" "l4_ports b = Some (sport, dport)"
    and cfg: "macs_ok cfg" "device < 2" "20 \<le> ihl_bytes (pkt_data b)"
    and res: "nat_dispatch get put dp cfg device t b = Some (Inr (device', t', b'))" "device' \<noteq> device"
  shows "device' = device XOR 1 \<and> abs t' (pkt_key (pkt_data b)) = Some (pkt_key (pkt_data b'))"
proof -
  define key where "key = packet_key (pkt_data b) sport dport"
  have key: "key = pkt_key (pkt_data b)" by (simp add: key_def l4_ports_pkt_key [OF p(2)])
  have dst: "dst_ip key = get32 (pkt_data b) off_dst" by (simp add: key_def packet_key_def)
  consider (known) tr where "abs t key = Some tr" | (inbound) "abs t key = None" "dst_ip key = nat_ip cfg"
    | (new) "abs t key = None" "dst_ip key \<noteq> nat_ip cfg" by (cases "abs t key") auto
  then show ?thesis
  proof cases
    case known
    then show ?thesis
      using res dispatch_known [OF inv(1) p, of tr cfg device] pkt_key_sent [OF cfg, of dp tr]
      by (auto simp: key_def [symmetric] key [symmetric])
  next
    case inbound
    have "get32 (pkt_data b) off_dst = nat_ip cfg" using inbound dst by simp
    then show ?thesis
      using res dispatch_unknown_inbound [OF inv(1) p _, of cfg device] inbound(1)
      by (simp add: key_def [symmetric])
  next
    case new
    obtain out where out: "find_port get t (rev_key (Hash_Key (nat_ip cfg) (dst_ip key) (proto key) sport dport)) =
        Some (Inr out)"
      using new_port_found [OF inv(1) p key_def new res(1)] by blast
    obtain port where t': "device' = device XOR 1" "abs t' = open_flow (nat_ip cfg) key port (abs t)"
      "b' = b\<lparr>pkt_data := set_macs (device_macs cfg) (endpoint_macs cfg) (device XOR 1)
          (translate dp (Hash_Key (nat_ip cfg) (dst_ip key) (proto key) port dport) (pkt_data b))\<rparr>"
      using dispatch_new [OF inv p key_def new out, of device] res(1) by auto
    have dport: "dst_port key = dport" by (simp add: key_def packet_key_def)
    have "dst_ip (rev_key (Hash_Key (nat_ip cfg) (dst_ip key) (proto key) port dport)) = nat_ip cfg"
      by (simp add: rev_key_def)
    with new(2) have "key \<noteq> rev_key (Hash_Key (nat_ip cfg) (dst_ip key) (proto key) port dport)" by auto
    then have "abs t' key = Some (Hash_Key (nat_ip cfg) (dst_ip key) (proto key) port dport)"
      unfolding t'(2) by (simp add: open_flow_def Let_def dport)
    then show ?thesis using t' pkt_key_sent [OF cfg] by (simp add: key [symmetric])
  qed
qed

lemma reply_returns:
  assumes inv: "inv t" "room t (Suc (Suc n))" "nat_map_ok (nat_ip cfg) (abs t)"
    and b: "is_ipv4 dp b" "l4_ports b = Some ports" "20 \<le> ihl_bytes (pkt_data b)"
    and cfg: "macs_ok cfg" "device < 2"
    and res: "nat_dispatch get put dp cfg device t b = Some (Inr (device', t', b'))" "device' \<noteq> device"
    and r: "is_ipv4 dp r" "l4_ports r = Some ports'" "20 \<le> ihl_bytes (pkt_data r)"
      "pkt_key (pkt_data r) = rev_key (pkt_key (pkt_data b'))"
  shows "\<exists>r'. nat_dispatch get put dp cfg device' t' r = Some (Inr (device, t', r')) \<and>
    pkt_key (pkt_data r') = rev_key (pkt_key (pkt_data b))"
proof -
  obtain sport dport where b2: "l4_ports b = Some (sport, dport)" using b(2) by (cases ports) auto
  obtain sport' dport' where r2: "l4_ports r = Some (sport', dport')" using r(2) by (cases ports') auto
  have sent: "device' = device XOR 1" "abs t' (pkt_key (pkt_data b)) = Some (pkt_key (pkt_data b'))"
    using dispatch_sent [OF inv(1,2) b(1) b2 cfg b(3) res] by simp_all
  have ok: "inv t'" "nat_map_ok (nat_ip cfg) (abs t')" using dispatch_ok [OF inv res(1)] by simp_all
  have "abs t' (packet_key (pkt_data r) sport' dport') = Some (rev_key (pkt_key (pkt_data b)))"
    using nat_map_okD [OF ok(2) sent(2)] by (simp add: l4_ports_pkt_key [OF r2] r(4))
  note d = dispatch_known [OF ok(1) r(1) r2 this, of cfg device']
  have "device' < 2" "device' XOR 1 = device" using other_device [OF cfg(2)] sent(1) by simp_all
  with d show ?thesis using pkt_key_sent [OF cfg(1) _ r(3), of device'] by auto
qed

end

context nat_flow
begin

lemma run_consistent:
  assumes "room empty (2 * length polls)" "run (nat_dispatch get put dp cfg) device polls empty = Some (Inr (t, sent))"
    and "get t x True = Inr (Some y)"
  shows "get t (rev_key y) True = Inr (Some (rev_key x)) \<and> flow_ok (nat_ip cfg) x y \<and>
    (\<forall>x'. get t x' True = Inr (Some y) \<longrightarrow> x' = x)"
proof -
  have t: "inv t" "nat_map_ok (nat_ip cfg) (abs t)"
    using run_ok [OF inv_empty assms(1) _ assms(2)] by (simp_all add: abs_empty nat_map_ok_empty)
  then have xy: "abs t x = Some y" using assms(3) by (simp add: get_abs)
  show ?thesis
    using nat_map_okD [OF t(2) xy] nat_map_ok_inj [OF t(2) xy] by (simp add: get_abs [OF t(1)])
qed

text \<open>A flow that is in the table is translated the same way ever after.\<close>

lemma run_stable:
  assumes "inv t" "room t (2 * length polls)" "nat_map_ok (nat_ip cfg) (abs t)"
    and "run (nat_dispatch get put dp cfg) device polls t = Some (Inr (t', sent))"
    and "get t x True = Inr (Some y)"
  shows "get t' x True = Inr (Some y)"
proof -
  have "abs t x = Some y" using assms(1,5) by (simp add: get_abs)
  then show ?thesis using run_ok [OF assms(1-4)] by (auto simp: get_abs map_le_def dom_def)
qed

end

section \<open>A packet of a given flow\<close>

text \<open>A UDP packet that carries a flow key, to exercise the functions on.\<close>

definition udp_packet :: "hash_key \<Rightarrow> mbuf" where
  "udp_packet k = \<lparr>packet_type = 0, pkt_len = 60, pkt_data =
     put16 (put16 (put32 (put32 ((\<lambda>_. 0)(12 := 8, 14 := 0x45, 16 := 0xFF, 23 := 17, 39 := 8))
       off_src (src_ip k)) off_dst (dst_ip k)) 34 (src_port k)) 36 (dst_port k)\<rparr>"

lemma udp_packet_fields:
  "ihl_bytes (pkt_data (udp_packet k)) = 20" "off_l4 (pkt_data (udp_packet k)) = 34"
  "is_ipv4 dp (udp_packet k)" "l4_ports (udp_packet k) = Some (src_port k, dst_port k)"
  "proto k = 17 \<Longrightarrow> pkt_key (pkt_data (udp_packet k)) = k"
proof -
  show ihl: "ihl_bytes (pkt_data (udp_packet k)) = 20"
    by (simp add: ihl_bytes_def udp_packet_def mem_simps)
  then show l4: "off_l4 (pkt_data (udp_packet k)) = 34" by (simp add: off_l4_def)
  have "get16 (pkt_data (udp_packet k)) off_etype = ntohs ETHER_TYPE_IPv4"
    by (simp add: udp_packet_def mem_simps get16_def ntohs_def ETHER_TYPE_IPv4_def)
  then show "is_ipv4 dp (udp_packet k)" by (simp add: is_ipv4_def udp_packet_def)
  have "get16 (pkt_data (udp_packet k)) off_len = 255" "get16 (pkt_data (udp_packet k)) 38 = 0x0800"
    "pkt_data (udp_packet k) off_proto = 17" "pkt_len (udp_packet k) = 60"
    "get16 (pkt_data (udp_packet k)) 34 = src_port k" "get16 (pkt_data (udp_packet k)) 36 = dst_port k"
    "get32 (pkt_data (udp_packet k)) off_src = src_ip k" "get32 (pkt_data (udp_packet k)) off_dst = dst_ip k"
    by (simp_all add: udp_packet_def mem_simps) (simp_all add: get16_def)
  then show "l4_ports (udp_packet k) = Some (src_port k, dst_port k)"
      "proto k = 17 \<Longrightarrow> pkt_key (pkt_data (udp_packet k)) = k"
    by (simp_all add: l4_ports_def ihl l4 IPPROTO_TCP_def IPPROTO_UDP_def ntohs_def pkt_key_def packet_key_def
        hash_key.expand)
qed

lemma udp_packet_key: "proto k = 17 \<Longrightarrow> packet_key (pkt_data (udp_packet k)) (src_port k) (dst_port k) = k"
  using udp_packet_fields(5) [of k] l4_ports_pkt_key [OF udp_packet_fields(4), of k] by simp

lemma udp_packet_ip: "get32 (pkt_data (udp_packet k)) off_dst = dst_ip k" "pkt_data (udp_packet k) off_proto = 17"
  by (simp_all add: udp_packet_def mem_simps)

definition demo_dpdk :: dpdk where
  "demo_dpdk = \<lparr>is_ipv4_hdr = (\<lambda>_. False), ipv4_udptcp_cksum = (\<lambda>_ _ _. 0), ipv4_cksum = (\<lambda>_ _. 0)\<rparr>"

definition demo_nat :: nat_config where
  "demo_nat = \<lparr>device_macs = [replicate 6 1, replicate 6 2], endpoint_macs = [replicate 6 3, replicate 6 4],
     nat_ip = 0x0100A8C0\<rparr>"

definition demo_flow :: hash_key where
  "demo_flow = Hash_Key 10 8 17 1000 53"

lemma demo_flow_opened:
  "open_flow (nat_ip demo_nat) demo_flow 1000 Map.empty demo_flow = Some (Hash_Key (nat_ip demo_nat) 8 17 1000 53)"
  "open_flow (nat_ip demo_nat) demo_flow 1000 Map.empty (Hash_Key 8 (nat_ip demo_nat) 17 53 1000) = Some (rev_key demo_flow)"
  "open_flow (nat_ip demo_nat) demo_flow 1000 Map.empty (Hash_Key 11 8 17 1000 53) = None"
  by (simp_all add: open_flow_def Let_def rev_key_def demo_flow_def demo_nat_def)

lemma demo_nat_ok: "macs_ok demo_nat"
  by (simp add: macs_ok_def demo_nat_def NUM_ETHPORTS_def)

context nat_flow
begin

lemma udp_dispatch_new:
  assumes "inv t" "room t (Suc (Suc n))" "proto k = 17" "abs t k = None" "dst_ip k \<noteq> nat_ip cfg"
    and "abs t (rev_key (Hash_Key (nat_ip cfg) (dst_ip k) 17 (src_port k) (dst_port k))) = None"
  shows "\<exists>t' b'. nat_dispatch get put dp cfg device t (udp_packet k) = Some (Inr (device XOR 1, t', b')) \<and>
    inv t' \<and> room t' n \<and> abs t' = open_flow (nat_ip cfg) k (src_port k) (abs t)"
proof -
  let ?out = "rev_key (Hash_Key (nat_ip cfg) (dst_ip k) (proto k) (src_port k) (dst_port k))"
  have "find_port get t ?out = Some (Inr ?out)" using assms(3,6) by (simp add: find_port_first [OF assms(1)])
  moreover have "dst_port ?out = src_port k" by (simp add: rev_key_def)
  ultimately show ?thesis
    using dispatch_new [OF assms(1,2) udp_packet_fields(3,4) udp_packet_key [OF assms(3), symmetric] assms(4,5), where dp = dp and device = device and out_key = ?out]
    by auto
qed

lemma demo_dispatch:
  assumes "room empty (Suc (Suc 0))"
  shows "\<exists>t' b'. nat_dispatch get put dp demo_nat 0 empty (udp_packet demo_flow) = Some (Inr (1, t', b')) \<and>
    inv t' \<and> abs t' = open_flow (nat_ip demo_nat) demo_flow 1000 Map.empty"
proof -
  have "proto demo_flow = 17" "src_port demo_flow = 1000" "dst_ip demo_flow \<noteq> nat_ip demo_nat"
    by (simp_all add: demo_flow_def demo_nat_def)
  with udp_dispatch_new [OF inv_empty assms, of demo_flow demo_nat dp 0] show ?thesis
    by (auto simp: abs_empty)
qed

end

section \<open>Refinement of the map\<close>

text \<open>
  The reference translator keeps its flows in a plain map. Every table that checks its
  pointers refines it: both do the same to every packet, forever or not at all.
\<close>

definition map_nat_dispatch ::
  "dpdk \<Rightarrow> nat_config \<Rightarrow> u32 \<Rightarrow> (hash_key \<rightharpoonup> hash_key) \<Rightarrow> mbuf
   \<Rightarrow> (nf_error + (u32 \<times> (hash_key \<rightharpoonup> hash_key) \<times> mbuf)) option" where
  "map_nat_dispatch = nat_dispatch (\<lambda>M k out. Inr (M k)) (\<lambda>M k v. M(k \<mapsto> v))"

lemma find_port_cong_Some:
  fixes get :: "'a \<Rightarrow> hash_key \<Rightarrow> bool \<Rightarrow> nf_error + hash_key option"
    and get' :: "'b \<Rightarrow> hash_key \<Rightarrow> bool \<Rightarrow> nf_error + hash_key option"
  assumes "find_port get t k = Some r" "\<forall>k. get t k False = get' t' k False"
  shows "find_port get' t' k = Some r"
proof -
  let ?P = "\<lambda>get (t :: 'a) k r. (\<forall>k. get t k False = get' t' k False) \<longrightarrow> find_port get' t' k = Some r"
  have "?P get t k r"
  proof (rule find_port.raw_induct [where P = ?P, OF _ assms(1)], rule impI)
    fix find_port' and get :: "'a \<Rightarrow> hash_key \<Rightarrow> bool \<Rightarrow> nf_error + hash_key option" and t k r
    assume IH: "\<And>get t k r. find_port' get t k = Some r \<Longrightarrow> ?P get t k r"
      and eq: "(case get t k False of Inl e \<Rightarrow> Some (Inl e) | Inr None \<Rightarrow> Some (Inr k)
         | Inr (Some x) \<Rightarrow> find_port' get t (next_port k)) = Some r"
      and same: "\<forall>k. get t k False = get' t' k False"
    have k: "get t k False = get' t' k False" using same by blast
    show "find_port get' t' k = Some r"
    proof (subst find_port.simps, cases "get t k False")
      case (Inl e)
      then show "(case get' t' k False of Inl e \<Rightarrow> Some (Inl e) | Inr None \<Rightarrow> Some (Inr k)
          | Inr (Some x) \<Rightarrow> find_port get' t' (next_port k)) = Some r" using eq k by simp
    next
      case (Inr q)
      then show "(case get' t' k False of Inl e \<Rightarrow> Some (Inl e) | Inr None \<Rightarrow> Some (Inr k)
          | Inr (Some x) \<Rightarrow> find_port get' t' (next_port k)) = Some r"
        using eq k IH [of get t "next_port k" r] same by (cases q) simp_all
    qed
  qed
  with assms(2) show ?thesis by blast
qed

lemma find_port_cong:
  assumes "\<forall>k. get t k False = get' t' k False"
  shows "find_port get t k = find_port get' t' k"
proof (cases "find_port get t k")
  case None
  have "\<forall>k. get' t' k False = get t k False" using assms by simp
  with None show ?thesis
    using find_port_cong_Some [where get = get' and t = t' and get' = get and t' = t and k = k]
    by (cases "find_port get' t' k") simp_all
next
  case (Some r)
  then show ?thesis
    using find_port_cong_Some [where get = get and t = t and get' = get' and t' = t' and k = k] assms by simp
qed

definition abs_result :: "('t \<Rightarrow> 'm) \<Rightarrow> (nf_error + (u32 \<times> 't \<times> mbuf)) option \<Rightarrow> (nf_error + (u32 \<times> 'm \<times> mbuf)) option" where
  "abs_result f = map_option (map_sum id (\<lambda>(d, t, b). (d, f t, b)))"

context nat_safe
begin

lemma find_port_abs: "inv t \<Longrightarrow> find_port get t k = find_port (\<lambda>M k out. Inr (M k)) (abs t) k"
  by (rule find_port_cong) (simp add: get_any)

lemma dispatch_refines:
  assumes inv: "inv t" "room t (Suc (Suc n))"
  shows "map_nat_dispatch dp cfg device (abs t) b = abs_result abs (nat_dispatch get put dp cfg device t b)"
proof (cases "is_ipv4 dp b \<and> l4_ports b \<noteq> None")
  case False
  then have "\<not> is_ipv4 dp b \<or> l4_ports b = None" by blast
  then show ?thesis by (simp add: map_nat_dispatch_def nat_dispatch_ignored abs_result_def)
next
  case True
  then obtain sport dport where p: "is_ipv4 dp b" "l4_ports b = Some (sport, dport)" by auto
  have put2: "abs (put (put t k1 v1) k2 v2) = (abs t)(k1 \<mapsto> v1, k2 \<mapsto> v2)" for k1 v1 k2 v2
    using put_abs [OF put_inv [OF inv] put_room [OF inv]] put_abs [OF inv] by simp
  let ?h = "Hash_Key (get32 (pkt_data b) off_dst) (nat_ip cfg) (pkt_data b off_proto) dport sport"
  consider (known) tr where "abs t (packet_key (pkt_data b) sport dport) = Some tr"
    | (new) "abs t (packet_key (pkt_data b) sport dport) = None" by (cases "abs t (packet_key (pkt_data b) sport dport)") auto
  then show ?thesis
  proof cases
    case known
    then show ?thesis using p inv
      by (simp add: map_nat_dispatch_def nat_dispatch_def abs_result_def Let_def get_abs)
  next
    case new
    consider "find_port get t ?h = None" | e where "find_port get t ?h = Some (Inl e)"
      | out where "find_port get t ?h = Some (Inr out)" by (metis option.exhaust sum.exhaust)
    then show ?thesis
      by cases (use p inv new find_port_abs [OF inv(1), of ?h, symmetric] in
        \<open>simp_all add: map_nat_dispatch_def nat_dispatch_def abs_result_def Let_def get_abs put2\<close>)
  qed
qed

lemma run_refines:
  assumes "inv t" "room t (2 * length polls)"
  shows "run (map_nat_dispatch dp cfg) device polls (abs t) =
    map_option (map_sum id (map_prod abs id)) (run (nat_dispatch get put dp cfg) device polls t)"
  using assms
proof (induction "nat_dispatch get put dp cfg" device polls t rule: run.induct)
  case (1 device t)
  then show ?case by simp
next
  case (2 device polls t)
  then show ?case by (simp add: room_less2)
next
  case (3 device b polls t)
  have r2: "room t (Suc (Suc (2 * length polls)))" using 3(3) by simp
  note ref = dispatch_refines [OF 3(2) r2, of dp cfg device b]
  consider (no) "nat_dispatch get put dp cfg device t b = None"
    | (fail) e where "nat_dispatch get put dp cfg device t b = Some (Inl e)"
    | (ok) d' t1 b' where "nat_dispatch get put dp cfg device t b = Some (Inr (d', t1, b'))"
    by (metis option.exhaust sum.exhaust prod_cases3)
  then show ?case
  proof cases
    case ok
    have t1: "inv t1" "room t1 (2 * length polls)" using dispatch_keeps [OF 3(2) r2 ok] by simp_all
    note IH = 3(1) [OF ok refl refl refl t1]
    have m: "map_nat_dispatch dp cfg device (abs t) b = Some (Inr (d', abs t1, b'))"
      using ref ok by (simp add: abs_result_def)
    show ?thesis
    proof (cases "run (nat_dispatch get put dp cfg) (next_device device) polls t1")
      case None
      then show ?thesis using IH ok m by simp
    next
      case (Some r)
      then show ?thesis using IH ok m by (cases r) auto
    qed
  qed (use ref in \<open>simp_all add: abs_result_def\<close>)
qed

end

end
