(* ===== verification/Router.thy ===== *)
theory Router
  imports Lpm Packet Nat_Function
begin

text \<open>
  The routers of \<open>src/examples\<close>: loading the route table and dispatching a packet to the
  device of the best route. The loading loop is modelled from the entries on: the address
  as \<open>inet_pton\<close> leaves it (network order), the prefix length and the number that is
  taken for a device. The locale \<open>lpm_table\<close> is what a router needs of its table.
\<close>

section \<open>Route tables\<close>

definition ntohl :: "u32 \<Rightarrow> u32" where
  "ntohl x = push_bit 24 (x AND 0xFF) OR push_bit 8 (x AND 0xFF00) OR
     drop_bit 8 (x AND 0xFF0000) OR drop_bit 24 (x AND 0xFF000000)"

record route_entry =
  re_ip :: u32
  re_depth :: u8
  re_asn :: int

definition LPM_MAX_RULES :: nat where "LPM_MAX_RULES = 1000000"

text \<open>The body of the loop of \<open>init_lpm\<close>: skip the entry, or add it, or exit.\<close>

fun add_entries ::
  "('t \<Rightarrow> u32 \<Rightarrow> nat \<Rightarrow> int \<Rightarrow> nf_error + (int \<times> 't)) \<Rightarrow> nat \<Rightarrow> route_entry list \<Rightarrow> 't \<Rightarrow> nf_error + 't" where
  "add_entries set_prefix nb_devices [] lpm = Inr lpm"
| "add_entries set_prefix nb_devices (e # es) lpm =
     (if re_asn e < 0 \<or> int nb_devices < re_asn e then add_entries set_prefix nb_devices es lpm
      else case set_prefix lpm (ntohl (re_ip e)) (unat (re_depth e)) (re_asn e) of
          Inl err \<Rightarrow> Inl err
        | Inr (result, lpm') \<Rightarrow>
            if result < 0 then Inl Rte_Exit else add_entries set_prefix nb_devices es lpm')"

definition btrie_init_lpm :: "nat \<Rightarrow> route_entry list \<Rightarrow> nf_error + prefix_node" where
  "btrie_init_lpm nb_devices es =
     add_entries trie_set_prefix_port nb_devices (take LPM_MAX_RULES es) No_Node"

definition da_init_lpm :: "nat \<Rightarrow> route_entry list \<Rightarrow> nf_error + lpm_array" where
  "da_init_lpm nb_devices es =
     add_entries array_set_prefix_port nb_devices (take LPM_MAX_RULES es) array_create"

section \<open>Dispatching\<close>

record router_config =
  rt_device_macs :: "u8 list list"
  rt_endpoint_macs :: "u8 list list"

text \<open>\<open>lpm_get_dst_port\<close>: the port of the lookup, or the device itself when it fails.\<close>

definition lpm_get_dst_port :: "('t \<Rightarrow> u32 \<Rightarrow> int option) \<Rightarrow> 't \<Rightarrow> bytes \<Rightarrow> u32 \<Rightarrow> u32" where
  "lpm_get_dst_port lookup lpm m portid =
     (case lookup lpm (ntohl (get32 m off_dst)) of None \<Rightarrow> portid | Some next_hop \<Rightarrow> word_of_int next_hop)"

definition router_dispatch ::
  "('t \<Rightarrow> u32 \<Rightarrow> int option) \<Rightarrow> nat \<Rightarrow> dpdk \<Rightarrow> router_config \<Rightarrow> u32 \<Rightarrow> 't \<Rightarrow> mbuf \<Rightarrow> nf_error + (u32 \<times> mbuf)" where
  "router_dispatch lookup nb_devices dp config device lpm b =
     (if \<not> is_ipv4 dp b then Inr (device, b)
      else (let dst_dev = lpm_get_dst_port lookup lpm (pkt_data b) device in
        if dst_dev \<noteq> device then
          (if nb_devices \<le> unat dst_dev then Inl Rte_Exit
           else Inr (dst_dev, b\<lparr>pkt_data :=
             set_macs (rt_device_macs config) (rt_endpoint_macs config) dst_dev (pkt_data b)\<rparr>))
        else Inr (dst_dev, b)))"

definition btrie_dispatch ::
  "nat \<Rightarrow> dpdk \<Rightarrow> router_config \<Rightarrow> u32 \<Rightarrow> prefix_node \<Rightarrow> mbuf \<Rightarrow> nf_error + (u32 \<times> mbuf)" where
  "btrie_dispatch = router_dispatch trie_get_ip_port"

definition da_dispatch ::
  "nat \<Rightarrow> dpdk \<Rightarrow> router_config \<Rightarrow> u32 \<Rightarrow> lpm_array \<Rightarrow> mbuf \<Rightarrow> nf_error + (u32 \<times> mbuf)" where
  "da_dispatch = router_dispatch array_get_ip_port"

text \<open>The receive loop over all devices; \<open>None\<close> is a poll without a packet.\<close>

fun router_run ::
  "(u32 \<Rightarrow> mbuf \<Rightarrow> nf_error + (u32 \<times> mbuf)) \<Rightarrow> nat \<Rightarrow> u32 \<Rightarrow> mbuf option list \<Rightarrow> nf_error + sent list" where
  "router_run dispatch nb_devices device [] = Inr []"
| "router_run dispatch nb_devices device (None # polls) =
     router_run dispatch nb_devices (if unat device + 1 < nb_devices then device + 1 else 0) polls"
| "router_run dispatch nb_devices device (Some b # polls) =
     (case dispatch device b of
        Inl e \<Rightarrow> Inl e
      | Inr (dst_device, b') \<Rightarrow>
          map_sum id (Cons (if dst_device = device then Dropped else Sent dst_device b'))
            (router_run dispatch nb_devices (if unat device + 1 < nb_devices then device + 1 else 0) polls))"

definition btrie_run ::
  "nat \<Rightarrow> dpdk \<Rightarrow> router_config \<Rightarrow> prefix_node \<Rightarrow> mbuf option list \<Rightarrow> nf_error + sent list" where
  "btrie_run nb_devices dp config lpm polls =
     router_run (\<lambda>device b. btrie_dispatch nb_devices dp config device lpm b) nb_devices 0 polls"

definition da_run ::
  "nat \<Rightarrow> dpdk \<Rightarrow> router_config \<Rightarrow> lpm_array \<Rightarrow> mbuf option list \<Rightarrow> nf_error + sent list" where
  "da_run nb_devices dp config lpm polls =
     router_run (\<lambda>device b. da_dispatch nb_devices dp config device lpm b) nb_devices 0 polls"

section \<open>What a router needs of its table\<close>

text \<open>The rules the loading loop keeps of a list of entries.\<close>

definition entry_rule :: "route_entry \<Rightarrow> rule" where
  "entry_rule e = \<lparr>r_ip = ntohl (re_ip e), r_len = unat (re_depth e), r_port = re_asn e\<rparr>"

definition table_rules :: "nat \<Rightarrow> route_entry list \<Rightarrow> rule list" where
  "table_rules nb_devices es =
     map entry_rule (filter (\<lambda>e. 0 \<le> re_asn e \<and> re_asn e \<le> int nb_devices) (take LPM_MAX_RULES es))"

lemma add_entries_load:
  "add_entries set_prefix nb es lpm =
     load_rules set_prefix (map entry_rule (filter (\<lambda>e. 0 \<le> re_asn e \<and> re_asn e \<le> int nb) es)) lpm"
  by (induction set_prefix nb es lpm rule: add_entries.induct) (auto simp: entry_rule_def split: sum.split)

lemma decided_by_order:
  assumes "pre @ r # post = pre' @ r' # post'" "length pre < length pre'"
  shows "r' \<in> set post"
proof -
  have "length pre' = length pre + Suc (length pre' - length pre - 1)" using assms(2) by simp
  then have "r' = post ! (length pre' - length pre - 1)"
    using arg_cong [OF assms(1), of "\<lambda>xs. xs ! length pre'"] by (metis nth_append_length nth_append_length_plus nth_Cons_Suc)
  moreover have "length pre' - length pre - 1 < length post"
    using arg_cong [OF assms(1), of length] assms(2) by simp
  ultimately show ?thesis by simp
qed

lemma decided_by_unique:
  assumes "decided_by ip rs r" "decided_by ip rs r'"
  shows "r = r'"
proof -
  have len: "r_len r = r_len r'"
    using assms decided_by_longest decided_by_rule by (metis order_antisym)
  obtain pre post where rs: "rs = pre @ r # post" "\<forall>x \<in> set post. covers x ip \<longrightarrow> r_len x < r_len r"
    using assms(1) unfolding decided_by_def by blast
  obtain pre' post' where rs': "rs = pre' @ r' # post'" "\<forall>x \<in> set post'. covers x ip \<longrightarrow> r_len x < r_len r'"
    using assms(2) unfolding decided_by_def by blast
  have eq: "pre @ r # post = pre' @ r' # post'" using rs(1) rs'(1) by simp
  have "\<not> length pre < length pre'" "\<not> length pre' < length pre"
    using decided_by_order [OF eq] decided_by_order [OF eq [symmetric]] rs(2) rs'(2) len
      decided_by_rule [OF assms(1)] decided_by_rule [OF assms(2)] by force+
  then show ?thesis using eq by simp
qed

locale lpm_table =
  fixes set_prefix :: "'t \<Rightarrow> u32 \<Rightarrow> nat \<Rightarrow> int \<Rightarrow> nf_error + (int \<times> 't)"
    and lookup :: "'t \<Rightarrow> u32 \<Rightarrow> int option"
    and create :: "'t"
    and rule_ok :: "rule \<Rightarrow> bool"
    and unmatched :: "int option"
  assumes lookup_decided: "load_rules set_prefix rs create = Inr lpm \<Longrightarrow> \<forall>r \<in> set rs. rule_ok r \<Longrightarrow>
      decided_by ip rs r \<Longrightarrow> lookup lpm ip = Some (r_port r)"
    and lookup_unmatched: "load_rules set_prefix rs create = Inr lpm \<Longrightarrow> \<forall>r \<in> set rs. rule_ok r \<Longrightarrow>
      \<forall>r \<in> set rs. \<not> covers r ip \<Longrightarrow> lookup lpm ip = unmatched"
begin

lemma lookup_port_range:
  assumes "load_rules set_prefix rs create = Inr lpm" "\<forall>r \<in> set rs. rule_ok r" "lookup lpm ip = Some p"
  shows "Some p = unmatched \<or> (\<exists>r \<in> set rs. r_port r = p)"
proof -
  consider r where "decided_by ip rs r" | "\<forall>r \<in> set rs. \<not> covers r ip"
    using apply_rules_decides [of ip rs] by (auto simp: Let_def)
  then show ?thesis
  proof cases
    case 1
    then show ?thesis using lookup_decided [OF assms(1,2) 1] decided_by_rule [OF 1] assms(3) by auto
  next
    case 2
    then show ?thesis using lookup_unmatched [OF assms(1,2)] assms(3) by simp
  qed
qed

text \<open>A packet leaves on the device of the rule that decides its destination.\<close>

lemma dispatch_decided:
  assumes "load_rules set_prefix rs create = Inr lpm" "\<forall>r \<in> set rs. rule_ok r"
    and "decided_by (ntohl (get32 (pkt_data b) off_dst)) rs r" "is_ipv4 dp b"
    and "0 \<le> r_port r" "r_port r < int nb" "nb \<le> 2 ^ 32"
  shows "\<exists>b'. router_dispatch lookup nb dp config device lpm b = Inr (word_of_int (r_port r), b')"
proof -
  have "lookup lpm (ntohl (get32 (pkt_data b) off_dst)) = Some (r_port r)"
    by (rule lookup_decided [OF assms(1,2,3)])
  moreover have "unat (word_of_int (r_port r) :: u32) < nb"
    using assms(5-7) by (simp add: unat_eq_nat_uint uint_word_of_int take_bit_int_eq_self nat_less_iff)
  ultimately show ?thesis
    using assms(4) by (simp add: router_dispatch_def lpm_get_dst_port_def Let_def)
qed

end

interpretation btrie: lpm_table trie_set_prefix_port trie_get_ip_port No_Node
  "\<lambda>r. r_len r < 32 \<and> r_port r \<noteq> NULL_PORT" None
  by unfold_locales (auto dest: trie_load_best)

interpretation da: lpm_table array_set_prefix_port array_get_ip_port array_create
  "\<lambda>r. 2 \<le> r_len r \<and> r_len r \<le> 27" "Some 0"
proof unfold_locales
  fix rs lpm ip r
  assume load: "load_rules array_set_prefix_port rs array_create = Inr lpm" "\<forall>r \<in> set rs. 2 \<le> r_len r \<and> r_len r \<le> 27"
  have at: "lpm (unat (drop_bit 5 ip)) = fold (apply_rule ip) rs \<lparr>an_port = 0, an_prefix_len = 0\<rparr>"
    using load_array_at [OF load] by (simp add: array_create_def)
  show "array_get_ip_port lpm ip = Some 0" if "\<forall>r \<in> set rs. \<not> covers r ip"
    using apply_rules_decides [of ip rs] that decided_by_rule
    by (auto simp: Let_def array_get_ip_port_def LONGEST_PREFIX_def at)
  show "array_get_ip_port lpm ip = Some (r_port r)" if d: "decided_by ip rs r"
  proof -
    have "fold (apply_rule ip) rs \<lparr>an_port = 0, an_prefix_len = 0\<rparr> = \<lparr>an_port = r_port r, an_prefix_len = r_len r\<rparr>"
      using apply_rules_decides [of ip rs] decided_by_unique [OF d] decided_by_rule [OF d]
      unfolding Let_def by blast
    then show ?thesis by (simp add: array_get_ip_port_def LONGEST_PREFIX_def at)
  qed
qed

section \<open>Loading\<close>

lemma btrie_init_rules:
  "btrie_init_lpm nb es = load_rules trie_set_prefix_port (table_rules nb es) No_Node"
  by (simp add: btrie_init_lpm_def table_rules_def add_entries_load)

lemma da_init_rules:
  "da_init_lpm nb es = load_rules array_set_prefix_port (table_rules nb es) array_create"
  by (simp add: da_init_lpm_def table_rules_def add_entries_load)

lemma table_rules_port: "r \<in> set (table_rules nb es) \<Longrightarrow> 0 \<le> r_port r \<and> r_port r \<le> int nb"
  by (auto simp: table_rules_def entry_rule_def)

lemma table_rules_port_not_null: "r \<in> set (table_rules nb es) \<Longrightarrow> r_port r \<noteq> NULL_PORT"
  using table_rules_port [of r nb es] by (auto simp: NULL_PORT_def)

lemma trie_loads_iff:
  assumes "\<forall>r \<in> set rs. r_len r \<le> 32 \<and> r_port r \<noteq> NULL_PORT"
  shows "(\<exists>t'. load_rules trie_set_prefix_port rs t = Inr t') \<longleftrightarrow>
    distinct (map rule_prefix rs) \<and> (\<forall>r \<in> set rs. trie_at t (rule_prefix r) = None)"
  using assms
proof (induction rs arbitrary: t)
  case Nil
  then show ?case by simp
next
  case (Cons r rs)
  obtain res t1 where st: "trie_set_prefix_port t (r_ip r) (r_len r) (r_port r) = Inr (res, t1)"
    using Cons.prems by (auto simp: trie_set_prefix_port_def intro: prod.exhaust)
  note t1 = trie_insert [OF _ _ st]
  show ?case
  proof (cases "trie_at t (rule_prefix r) = None")
    case True
    then have "res = 0" "trie_at t1 = (trie_at t)(rule_prefix r \<mapsto> r_port r)" using t1 Cons.prems by auto
    then show ?thesis using Cons.IH [of t1] Cons.prems True st by (auto split: if_splits intro: rev_image_eqI)
  next
    case False
    then have "res = -1" using t1 Cons.prems by auto
    then show ?thesis using False st by simp
  qed
qed

lemma array_loads:
  assumes "\<forall>r \<in> set rs. 2 \<le> r_len r \<and> r_len r \<le> 27"
  shows "\<exists>lpm'. load_rules array_set_prefix_port rs lpm = Inr lpm'"
  using assms by (induction rs arbitrary: lpm) (auto simp: array_set_prefix_port_def LONGEST_PREFIX_def)

lemma isl_Inr: "\<not> isl x \<Longrightarrow> x = Inr (projr x)"
  by (cases x) auto

text \<open>Example entries: 10.0.0.0/8 to device 1, and 10.1.0.0/16 to device 0.\<close>

definition demo_routes :: "route_entry list" where
  "demo_routes = [\<lparr>re_ip = 0x0000000A, re_depth = 8, re_asn = 1\<rparr>, \<lparr>re_ip = 0x0000010A, re_depth = 16, re_asn = 0\<rparr>]"

lemma demo_rules: "table_rules 2 demo_routes =
  [\<lparr>r_ip = 0x0A000000, r_len = 8, r_port = 1\<rparr>, \<lparr>r_ip = 0x0A010000, r_len = 16, r_port = 0\<rparr>]"
  by (simp add: table_rules_def demo_routes_def entry_rule_def LPM_MAX_RULES_def ntohl_def)

lemma demo_loaded: "btrie_init_lpm 2 demo_routes = Inr (projr (btrie_init_lpm 2 demo_routes))"
  unfolding btrie_init_rules demo_rules by (rule isl_Inr) code_simp

lemma demo_decided:
  "decided_by 0x0A010203 (table_rules 2 demo_routes) \<lparr>r_ip = 0x0A010000, r_len = 16, r_port = 0\<rparr>"
  unfolding demo_rules decided_by_def
  by (rule exI [of _ "[\<lparr>r_ip = 0x0A000000, r_len = 8, r_port = 1\<rparr>]"], rule exI [of _ "[]"])
    (simp add: covers_def)

section \<open>Properties\<close>

text \<open>
  C15: once \<open>dpdk-lpm-btrie\<close> has loaded its route table, a lookup gives the port of the entry that has
  the longest prefix among those covering the address, and fails exactly when none covers it, for
  tables of prefixes of up to 31 bits.
\<close>

theorem btrie_routes_by_longest_prefix:
  assumes "btrie_init_lpm nb_devices es = Inr lpm" "\<forall>r \<in> set (table_rules nb_devices es). r_len r < 32"
  shows "(\<forall>r. decided_by ip (table_rules nb_devices es) r \<longrightarrow> trie_get_ip_port lpm ip = Some (r_port r)) \<and>
    (trie_get_ip_port lpm ip = None \<longleftrightarrow> (\<forall>r \<in> set (table_rules nb_devices es). \<not> covers r ip))"
proof -
  have load: "load_rules trie_set_prefix_port (table_rules nb_devices es) No_Node = Inr lpm"
    using assms(1) by (simp add: btrie_init_rules)
  have ok: "\<forall>r \<in> set (table_rules nb_devices es). r_len r < 32 \<and> r_port r \<noteq> NULL_PORT"
    using assms(2) table_rules_port_not_null by blast
  have dec: "trie_get_ip_port lpm ip = Some (r_port r)" if "decided_by ip (table_rules nb_devices es) r" for r
    by (rule btrie.lookup_decided [OF load ok that])
  moreover have "\<exists>r. decided_by ip (table_rules nb_devices es) r"
    if "\<not> (\<forall>r \<in> set (table_rules nb_devices es). \<not> covers r ip)"
    using that apply_rules_decides [of ip "table_rules nb_devices es"] by (auto simp: Let_def)
  ultimately show ?thesis using btrie.lookup_unmatched [OF load ok] by fastforce
qed

theorem btrie_routes_by_longest_prefix_witness:
  "btrie_init_lpm 2 demo_routes = Inr (projr (btrie_init_lpm 2 demo_routes)) \<and>
   trie_get_ip_port (projr (btrie_init_lpm 2 demo_routes)) 0x0A010203 = Some 0"
proof -
  have "\<forall>r \<in> set (table_rules 2 demo_routes). r_len r < 32" by (simp add: demo_rules)
  then show ?thesis
    using btrie_routes_by_longest_prefix [OF demo_loaded, of "0x0A010203"] demo_decided demo_loaded by auto
qed

text \<open>
  \<open>dpdk-lpm-btrie\<close> loads a route table of valid prefixes exactly when no two kept entries have
  the same prefix; a duplicate ends the program, even when both entries have the same device.
\<close>

theorem btrie_loads_iff_distinct:
  assumes "\<forall>r \<in> set (table_rules nb_devices es). r_len r \<le> 32"
  shows "(\<exists>lpm. btrie_init_lpm nb_devices es = Inr lpm) \<longleftrightarrow> distinct (map rule_prefix (table_rules nb_devices es))"
proof -
  have "\<forall>r \<in> set (table_rules nb_devices es). r_len r \<le> 32 \<and> r_port r \<noteq> NULL_PORT"
    using assms table_rules_port_not_null by blast
  from trie_loads_iff [OF this, of No_Node] show ?thesis by (simp add: btrie_init_rules)
qed

theorem btrie_loads_iff_distinct_witness:
  "\<not> (\<exists>lpm. btrie_init_lpm 2 (demo_routes @ demo_routes) = Inr lpm)"
proof -
  have "table_rules 2 (demo_routes @ demo_routes) = table_rules 2 demo_routes @ table_rules 2 demo_routes"
    by (simp add: table_rules_def demo_routes_def LPM_MAX_RULES_def)
  then show ?thesis using btrie_loads_iff_distinct [of 2 "demo_routes @ demo_routes"] by (simp add: demo_rules)
qed

text \<open>
  C16: \<open>dpdk-lpm-da\<close> loads every route table of prefixes of 2 to 27 bits, and a lookup gives the port of
  the entry with the longest covering prefix, the last such entry when there are several; an address
  that no entry covers gets port 0.
\<close>

theorem da_routes_by_longest_prefix:
  assumes "\<forall>r \<in> set (table_rules nb_devices es). 2 \<le> r_len r \<and> r_len r \<le> 27"
  shows "\<exists>lpm. da_init_lpm nb_devices es = Inr lpm \<and>
    (\<forall>ip r. decided_by ip (table_rules nb_devices es) r \<longrightarrow> array_get_ip_port lpm ip = Some (r_port r)) \<and>
    (\<forall>ip. (\<forall>r \<in> set (table_rules nb_devices es). \<not> covers r ip) \<longrightarrow> array_get_ip_port lpm ip = Some 0)"
  unfolding da_init_rules
  using array_loads [OF assms] da.lookup_decided [OF _ assms] da.lookup_unmatched [OF _ assms] by blast

theorem da_routes_by_longest_prefix_witness:
  "\<exists>lpm. da_init_lpm 2 demo_routes = Inr lpm \<and> array_get_ip_port lpm 0x0A010203 = Some 0"
proof -
  have "\<forall>r \<in> set (table_rules 2 demo_routes). 2 \<le> r_len r \<and> r_len r \<le> 27" by (simp add: demo_rules)
  from da_routes_by_longest_prefix [OF this] obtain lpm where lpm: "da_init_lpm 2 demo_routes = Inr lpm"
    "\<forall>ip r. decided_by ip (table_rules 2 demo_routes) r \<longrightarrow> array_get_ip_port lpm ip = Some (r_port r)"
    by blast
  then have "array_get_ip_port lpm 0x0A010203 = Some 0" using demo_decided by fastforce
  with lpm(1) show ?thesis by blast
qed

lemma router_run_ok:
  assumes "\<And>device b. \<exists>dst b'. dispatch device b = Inr (dst, b') \<and> (dst = device \<or> unat dst < nb)"
  shows "\<exists>outs. router_run dispatch nb device polls = Inr outs \<and> (\<forall>dst b. Sent dst b \<in> set outs \<longrightarrow> unat dst < nb)"
proof (induction polls arbitrary: device)
  case Nil
  then show ?case by simp
next
  case (Cons p polls)
  let ?next = "if unat device + 1 < nb then device + 1 else 0"
  obtain outs where outs: "router_run dispatch nb ?next polls = Inr outs" "\<forall>dst b. Sent dst b \<in> set outs \<longrightarrow> unat dst < nb"
    using Cons.IH by blast
  show ?case
  proof (cases p)
    case None
    then show ?thesis using outs by simp
  next
    case (Some b)
    obtain dst b' where "dispatch device b = Inr (dst, b')" "dst = device \<or> unat dst < nb" using assms by blast
    then show ?thesis using Some outs by auto
  qed
qed

lemma btrie_dispatch_ok:
  assumes "btrie_init_lpm nb es = Inr lpm" "\<forall>r \<in> set (table_rules nb es). r_len r < 32 \<and> r_port r < int nb" "nb \<le> 255"
  shows "\<exists>dst b'. btrie_dispatch nb dp config device lpm b = Inr (dst, b') \<and> (dst = device \<or> unat dst < nb)"
proof (cases "trie_get_ip_port lpm (ntohl (get32 (pkt_data b) off_dst))")
  case None
  then show ?thesis by (simp add: btrie_dispatch_def router_dispatch_def lpm_get_dst_port_def)
next
  case (Some p)
  have load: "load_rules trie_set_prefix_port (table_rules nb es) No_Node = Inr lpm" using assms(1) by (simp add: btrie_init_rules)
  have ok: "\<forall>r \<in> set (table_rules nb es). r_len r < 32 \<and> r_port r \<noteq> NULL_PORT"
    using assms(2) table_rules_port_not_null by blast
  obtain r where "r \<in> set (table_rules nb es)" "r_port r = p"
    using btrie.lookup_port_range [OF load ok Some] by auto
  then have "0 \<le> p" "p < int nb" using table_rules_port assms(2) by blast+
  then have "unat (word_of_int p :: u32) < nb"
    using assms(3) by (simp add: unat_eq_nat_uint uint_word_of_int take_bit_int_eq_self nat_less_iff)
  then show ?thesis using Some by (simp add: btrie_dispatch_def router_dispatch_def lpm_get_dst_port_def Let_def)
qed



text \<open>
  An entry whose number equals the number of devices is loaded although no such device exists; the
  first IPv4 packet that it decides ends the router.
\<close>

theorem route_past_last_device_exits:
  assumes "btrie_init_lpm nb_devices es = Inr lpm" "\<forall>r \<in> set (table_rules nb_devices es). r_len r < 32"
    and "decided_by (ntohl (get32 (pkt_data b) off_dst)) (table_rules nb_devices es) r" "r_port r = int nb_devices"
    and "is_ipv4 dp b" "nb_devices \<le> 255" "unat device < nb_devices"
  shows "btrie_dispatch nb_devices dp config device lpm b = Inl Rte_Exit"
proof -
  have load: "load_rules trie_set_prefix_port (table_rules nb_devices es) No_Node = Inr lpm"
    using assms(1) by (simp add: btrie_init_rules)
  have ok: "\<forall>r \<in> set (table_rules nb_devices es). r_len r < 32 \<and> r_port r \<noteq> NULL_PORT"
    using assms(2) table_rules_port_not_null by blast
  have "unat (word_of_nat nb_devices :: u32) = nb_devices"
    using assms(6) by (simp add: unat_of_nat take_bit_nat_eq_self)
  moreover from this have "word_of_nat nb_devices \<noteq> device" using assms(7) by auto
  ultimately show ?thesis
    using btrie.lookup_decided [OF load ok assms(3)] assms(4,5)
    by (simp add: btrie_dispatch_def router_dispatch_def lpm_get_dst_port_def Let_def)
qed

theorem route_past_last_device_exits_witness:
  "\<exists>lpm. btrie_init_lpm 1 demo_routes = Inr lpm \<and> btrie_dispatch 1 demo_dpdk
     \<lparr>rt_device_macs = [], rt_endpoint_macs = []\<rparr> 0 lpm (udp_packet (Hash_Key 1 0x0302020A 17 1 2)) = Inl Rte_Exit"
proof -
  let ?r = "\<lparr>r_ip = 0x0A000000, r_len = 8, r_port = 1\<rparr>" and ?r' = "\<lparr>r_ip = 0x0A010000, r_len = 16, r_port = 0\<rparr>"
  have rules: "table_rules 1 demo_routes = [?r, ?r']"
    by (simp add: table_rules_def demo_routes_def entry_rule_def LPM_MAX_RULES_def ntohl_def)
  have load: "btrie_init_lpm 1 demo_routes = Inr (projr (btrie_init_lpm 1 demo_routes))"
    unfolding btrie_init_rules rules by (rule isl_Inr) code_simp
  have "decided_by 0x0A020203 (table_rules 1 demo_routes) ?r"
    unfolding rules decided_by_def by (rule exI [of _ "[]"], rule exI [of _ "[?r']"]) (simp add: covers_def)
  moreover have "ntohl (get32 (pkt_data (udp_packet (Hash_Key 1 0x0302020A 17 1 2))) off_dst) = 0x0A020203"
    by (simp only: udp_packet_ip) (simp add: ntohl_def)
  ultimately have "btrie_dispatch 1 demo_dpdk \<lparr>rt_device_macs = [], rt_endpoint_macs = []\<rparr> 0
      (projr (btrie_init_lpm 1 demo_routes)) (udp_packet (Hash_Key 1 0x0302020A 17 1 2)) = Inl Rte_Exit"
    by (intro route_past_last_device_exits [OF load, where r = ?r])
      (simp_all add: rules [unfolded One_nat_def] udp_packet_fields(3))
  with load show ?thesis by blast
qed

text \<open>
  A 32-bit prefix never decides a lookup of \<open>dpdk-lpm-btrie\<close>: adding a host route leaves the result
  for every address as it was.
\<close>

theorem host_route_never_used:
  assumes "trie_set_prefix_port lpm ip 32 pt = Inr (0, lpm')" "pt \<noteq> NULL_PORT"
  shows "trie_get_ip_port lpm' x = trie_get_ip_port lpm x"
proof -
  let ?r = "\<lparr>r_ip = ip, r_len = 32, r_port = pt\<rparr>"
  have at: "trie_at lpm' = (trie_at lpm)(rule_prefix ?r \<mapsto> pt)"
    using trie_insert [of ?r lpm 0 lpm'] assms by (auto split: if_splits)
  have "best_match (trie_at lpm') (ip_bits x) n = best_match (trie_at lpm) (ip_bits x) n" if "n \<le> 32" for n
    using that
  proof (induction n)
    case 0
    then show ?case by simp
  next
    case (Suc n)
    have "length (rule_prefix ?r) = 32" by (simp add: length_rule_prefix)
    moreover have "length (take n (ip_bits x)) = n" using Suc.prems by simp
    ultimately have "take n (ip_bits x) \<noteq> rule_prefix ?r" using Suc.prems by (metis Suc_n_not_le_n)
    then have "trie_at lpm' (take n (ip_bits x)) = trie_at lpm (take n (ip_bits x))" unfolding at by (rule fun_upd_other)
    then show ?case using Suc by (simp only: best_match.simps)
  qed
  then show ?thesis by (simp add: trie_lookup_best)
qed

theorem host_route_never_used_witness:
  "\<exists>lpm'. trie_set_prefix_port No_Node 0x0A000001 32 1 = Inr (0, lpm') \<and> trie_get_ip_port lpm' 0x0A000001 = None"
proof -
  have fst: "fst (trie_set 0x0A000001 32 1 0 No_Node) = 0" by code_simp
  then have "trie_set_prefix_port No_Node 0x0A000001 32 1 = Inr (0, snd (trie_set 0x0A000001 32 1 0 No_Node))"
    by (simp add: trie_set_prefix_port_def prod_eq_iff)
  from host_route_never_used [OF this, of "0x0A000001"] this show ?thesis
    by (auto simp: NULL_PORT_def trie_get_ip_port_def numeral_eq_Suc)
qed

text \<open>
  C17: on a table of distinct prefixes of 2 to 27 bits the two routers agree: they load it, and send every
  packet whose destination some entry covers in the same way.
\<close>

theorem routers_agree:
  assumes "\<forall>r \<in> set (table_rules nb_devices es). 2 \<le> r_len r \<and> r_len r \<le> 27"
    and "distinct (map rule_prefix (table_rules nb_devices es))"
    and "r \<in> set (table_rules nb_devices es)" "covers r (ntohl (get32 (pkt_data b) off_dst))"
  shows "\<exists>trie arr. btrie_init_lpm nb_devices es = Inr trie \<and> da_init_lpm nb_devices es = Inr arr \<and>
    btrie_dispatch nb_devices dp config device trie b = da_dispatch nb_devices dp config device arr b"
proof -
  let ?rs = "table_rules nb_devices es" and ?ip = "ntohl (get32 (pkt_data b) off_dst)"
  have ok: "\<forall>r \<in> set ?rs. r_len r < 32 \<and> r_port r \<noteq> NULL_PORT" using assms(1) table_rules_port_not_null by fastforce
  then have "\<forall>r \<in> set ?rs. r_len r \<le> 32 \<and> r_port r \<noteq> NULL_PORT" by auto
  from trie_loads_iff [OF this, of No_Node] assms(2)
  obtain trie where t: "load_rules trie_set_prefix_port ?rs No_Node = Inr trie" by auto
  obtain arr where a: "load_rules array_set_prefix_port ?rs array_create = Inr arr" using array_loads [OF assms(1)] by blast
  obtain r0 where "decided_by ?ip ?rs r0" using apply_rules_decides [of ?ip ?rs] assms(3,4) by (auto simp: Let_def)
  then have "trie_get_ip_port trie ?ip = array_get_ip_port arr ?ip"
    using btrie.lookup_decided [OF t ok] da.lookup_decided [OF a assms(1)] by metis
  with t a show ?thesis
    by (simp add: btrie_init_rules da_init_rules btrie_dispatch_def da_dispatch_def router_dispatch_def lpm_get_dst_port_def)
qed

theorem routers_agree_witness:
  "\<exists>trie arr. btrie_init_lpm 2 demo_routes = Inr trie \<and> da_init_lpm 2 demo_routes = Inr arr \<and>
    btrie_dispatch 2 demo_dpdk \<lparr>rt_device_macs = [], rt_endpoint_macs = []\<rparr> 0 trie (udp_packet (Hash_Key 1 0x0302020A 17 1 2)) =
    da_dispatch 2 demo_dpdk \<lparr>rt_device_macs = [], rt_endpoint_macs = []\<rparr> 0 arr (udp_packet (Hash_Key 1 0x0302020A 17 1 2))"
proof (rule routers_agree [where r = "\<lparr>r_ip = 0x0A000000, r_len = 8, r_port = 1\<rparr>"])
  have "ntohl (get32 (pkt_data (udp_packet (Hash_Key 1 0x0302020A 17 1 2))) off_dst) = 0x0A020203"
    by (simp only: udp_packet_ip) (simp add: ntohl_def)
  then show "covers \<lparr>r_ip = 0x0A000000, r_len = 8, r_port = 1\<rparr> (ntohl (get32 (pkt_data (udp_packet (Hash_Key 1 0x0302020A 17 1 2))) off_dst))"
    by (simp add: covers_def)
  show "distinct (map rule_prefix (table_rules 2 demo_routes))"
    unfolding demo_rules by code_simp
qed (simp_all add: demo_rules)

end
