(* ===== verification/Nat_Examples.thy ===== *)
theory Nat_Examples
  imports Nat_Function
begin

text \<open>
  The network address translators themselves: each example is its flow table under
  \<open>nat_dispatch\<close> and the receive loop. \<open>dpdk-nat-hashring\<close> probes a ring of a gigabyte,
  \<open>dpdk-nat-basichash\<close> chains in 65,536 buckets, \<open>dpdk-nat-tree\<close> searches a binary tree,
  \<open>dpdk-nat-stlmap\<close> and \<open>dpdk-nat-stlumap\<close> use the standard containers.
\<close>

section \<open>dpdk-nat-hashring\<close>

definition RING_SIZE :: nat where "RING_SIZE = 2 ^ 30 div 64"

type_synonym nat_ring = "(hash_key, hash_key) hash_ring"

definition zero_key :: hash_key where "zero_key = Hash_Key 0 0 0 0 0"

definition hashring_init :: nat_ring where
  "hashring_init = ring_hash_init \<lparr>entry_key = zero_key, entry_value = zero_key, entry_used = False\<rparr>"

definition hashring_get :: "nat_ring \<Rightarrow> hash_key \<Rightarrow> bool \<Rightarrow> nf_error + hash_key option" where
  "hashring_get t key out =
     Inr (ring_hash_get hash_key_equals RING_SIZE t key (unat (hash_function key) mod RING_SIZE) 0)"

definition hashring_set :: "nat_ring \<Rightarrow> hash_key \<Rightarrow> hash_key \<Rightarrow> nat_ring" where
  "hashring_set t key val =
     ring_hash_set hash_key_equals RING_SIZE t key val (unat (hash_function key) mod RING_SIZE) 0"

definition hashring_dispatch ::
  "dpdk \<Rightarrow> nat_config \<Rightarrow> u32 \<Rightarrow> nat_ring \<Rightarrow> mbuf \<Rightarrow> (nf_error + (u32 \<times> nat_ring \<times> mbuf)) option" where
  "hashring_dispatch = nat_dispatch hashring_get hashring_set"

definition hashring_run ::
  "dpdk \<Rightarrow> nat_config \<Rightarrow> mbuf option list \<Rightarrow> (nf_error + (nat_ring \<times> sent list)) option" where
  "hashring_run dp config polls = run (hashring_dispatch dp config) 0 polls hashring_init"

section \<open>dpdk-nat-basichash\<close>

definition CHAIN_SIZE :: nat where "CHAIN_SIZE = 2 ^ 16"

type_synonym nat_chains = "(hash_key, hash_key) hash_chains"

definition basichash_get :: "nat_chains \<Rightarrow> hash_key \<Rightarrow> bool \<Rightarrow> nf_error + hash_key option" where
  "basichash_get t key out =
     Inr (chain_hash_get hash_key_equals t key (unat (hash_function key) mod CHAIN_SIZE))"

definition basichash_set :: "nat_chains \<Rightarrow> hash_key \<Rightarrow> hash_key \<Rightarrow> nat_chains" where
  "basichash_set t key val = chain_hash_set hash_key_equals t key val (unat (hash_function key) mod CHAIN_SIZE)"

definition basichash_dispatch ::
  "dpdk \<Rightarrow> nat_config \<Rightarrow> u32 \<Rightarrow> nat_chains \<Rightarrow> mbuf \<Rightarrow> (nf_error + (u32 \<times> nat_chains \<times> mbuf)) option" where
  "basichash_dispatch = nat_dispatch basichash_get basichash_set"

definition basichash_run ::
  "dpdk \<Rightarrow> nat_config \<Rightarrow> mbuf option list \<Rightarrow> (nf_error + (nat_chains \<times> sent list)) option" where
  "basichash_run dp config polls = run (basichash_dispatch dp config) 0 polls chain_hash_init"

section \<open>dpdk-nat-tree\<close>

type_synonym nat_tree = "(hash_key, hash_key) tree_node"

definition tree_dispatch ::
  "dpdk \<Rightarrow> nat_config \<Rightarrow> u32 \<Rightarrow> nat_tree \<Rightarrow> mbuf \<Rightarrow> (nf_error + (u32 \<times> nat_tree \<times> mbuf)) option" where
  "tree_dispatch = nat_dispatch tree_hash_get tree_hash_set"

definition tree_run ::
  "dpdk \<Rightarrow> nat_config \<Rightarrow> mbuf option list \<Rightarrow> (nf_error + (nat_tree \<times> sent list)) option" where
  "tree_run dp config polls = run (tree_dispatch dp config) 0 polls Null"

section \<open>dpdk-nat-stlmap and dpdk-nat-stlumap\<close>

definition stlmap_dispatch ::
  "dpdk \<Rightarrow> nat_config \<Rightarrow> u32 \<Rightarrow> (hash_key, hash_key) smap \<Rightarrow> mbuf
   \<Rightarrow> (nf_error + (u32 \<times> (hash_key, hash_key) smap \<times> mbuf)) option" where
  "stlmap_dispatch = nat_dispatch map_hash_get map_hash_set"

definition stlmap_run ::
  "dpdk \<Rightarrow> nat_config \<Rightarrow> mbuf option list \<Rightarrow> (nf_error + ((hash_key, hash_key) smap \<times> sent list)) option" where
  "stlmap_run dp config polls = run (stlmap_dispatch dp config) 0 polls []"

definition stlumap_dispatch ::
  "dpdk \<Rightarrow> nat_config \<Rightarrow> u32 \<Rightarrow> (hash_key \<rightharpoonup> hash_key) \<Rightarrow> mbuf
   \<Rightarrow> (nf_error + (u32 \<times> (hash_key \<rightharpoonup> hash_key) \<times> mbuf)) option" where
  "stlumap_dispatch = nat_dispatch umap_hash_get umap_hash_set"

definition stlumap_run ::
  "dpdk \<Rightarrow> nat_config \<Rightarrow> mbuf option list \<Rightarrow> (nf_error + ((hash_key \<rightharpoonup> hash_key) \<times> sent list)) option" where
  "stlumap_run dp config polls = run (stlumap_dispatch dp config) 0 polls Map.empty"

section \<open>Each table satisfies the interface\<close>

abbreviation ring_slot :: "hash_key \<Rightarrow> nat" where
  "ring_slot k \<equiv> unat (hash_function k) mod RING_SIZE"

abbreviation chain_slot :: "hash_key \<Rightarrow> nat" where
  "chain_slot k \<equiv> unat (hash_function k) mod CHAIN_SIZE"

definition chain_abs :: "nat_chains \<Rightarrow> hash_key \<rightharpoonup> hash_key" where
  "chain_abs t k = chain_hash_get (=) t k (chain_slot k)"

lemma hashring_get_abs: "hashring_get t k out = Inr (ring_abs RING_SIZE ring_slot t k)"
  by (simp add: hashring_get_def hash_key_equals_eq ring_abs_def)

interpretation nat_hashring: nat_safe hashring_get hashring_set hashring_init "ring_inv RING_SIZE ring_slot"
  "ring_abs RING_SIZE ring_slot" "ring_room RING_SIZE"
proof unfold_locales
  fix t :: nat_ring and k v n
  assume inv: "ring_inv RING_SIZE ring_slot t" and room: "ring_room RING_SIZE t (Suc n)"
  obtain p where p: "ring_stop RING_SIZE t k (ring_slot k) p" using ring_stop_exists [OF room] by blast
  have set: "hashring_set t k v = t((ring_slot k + p) mod RING_SIZE :=
      \<lparr>entry_key = k, entry_value = v, entry_used = True\<rparr>)"
    by (simp add: hashring_set_def hash_key_equals_eq ring_set_stop [OF p])
  show "ring_inv RING_SIZE ring_slot (hashring_set t k v)"
    unfolding set by (rule ring_put_inv [where h = ring_slot, OF inv p])
  show "ring_abs RING_SIZE ring_slot (hashring_set t k v) = (ring_abs RING_SIZE ring_slot t)(k \<mapsto> v)"
    unfolding set by (rule ring_put_abs [where h = ring_slot, OF inv p])
  show "ring_room RING_SIZE (hashring_set t k v) n" unfolding set by (rule ring_put_room [OF room])
qed (simp_all add: hashring_get_abs hashring_init_def ring_init_inv ring_room_def)

interpretation nat_basichash: nat_safe basichash_get basichash_set chain_hash_init "\<lambda>_. True" chain_abs "\<lambda>_ _. True"
proof unfold_locales
  fix t :: nat_chains and k v
  show "chain_abs (basichash_set t k v) = (chain_abs t)(k \<mapsto> v)"
    by (rule ext) (simp add: chain_abs_def basichash_set_def hash_key_equals_eq chain_get_set [where h = chain_slot])
qed (simp_all add: basichash_get_def hash_key_equals_eq chain_abs_def chain_hash_init_def fun_eq_iff chain_hash_get_def)

interpretation nat_tree: nat_flow tree_hash_get tree_hash_set Null tree_inv tree_abs "\<lambda>_ _. True"
  by unfold_locales

interpretation nat_stlmap: nat_safe map_hash_get map_hash_set "[]" sm_wf map_of "\<lambda>_ _. True"
  by unfold_locales

interpretation nat_stlumap: nat_safe umap_hash_get umap_hash_set Map.empty "\<lambda>_. True" "\<lambda>m. m" "\<lambda>_ _. True"
  by unfold_locales

section \<open>Correctness of the translators\<close>

text \<open>
  C1: Whatever packets the hash-ring translator has received, up to half the ring's
  capacity, its table is consistent: an entry and its reverse are both present, an entry
  replaces only the address and port on the inside of the flow, and no two flows share a
  translation.
\<close>

theorem hashring_consistent:
  assumes "2 * length polls \<le> RING_SIZE" "hashring_run dp cfg polls = Some (Inr (t, sent))"
    and "hashring_get t x True = Inr (Some y)"
  shows "hashring_get t (rev_key y) True = Inr (Some (rev_key x)) \<and> flow_ok (nat_ip cfg) x y \<and>
    (\<forall>x'. hashring_get t x' True = Inr (Some y) \<longrightarrow> x' = x)"
proof -
  have "ring_room RING_SIZE hashring_init (2 * length polls)"
    using assms(1) by (simp add: hashring_init_def ring_init_inv)
  from nat_hashring.run_consistent [OF this] assms(2,3) show ?thesis
    unfolding hashring_run_def hashring_dispatch_def by blast
qed

lemma demo_ring_room: "ring_room RING_SIZE hashring_init (Suc (Suc 0))"
  by (simp add: hashring_init_def ring_init_inv RING_SIZE_def)

lemma demo_hashring_run:
  "\<exists>t sent y. hashring_run demo_dpdk demo_nat [Some (udp_packet demo_flow)] = Some (Inr (t, sent)) \<and>
     hashring_get t demo_flow True = Inr (Some y)"
proof -
  obtain t b' where "hashring_dispatch demo_dpdk demo_nat 0 hashring_init (udp_packet demo_flow) = Some (Inr (1, t, b'))"
    and "ring_abs RING_SIZE ring_slot t = open_flow (nat_ip demo_nat) demo_flow 1000 Map.empty"
    using nat_hashring.demo_dispatch [OF demo_ring_room] unfolding hashring_dispatch_def by blast
  then show ?thesis by (auto simp: hashring_run_def hashring_get_abs demo_flow_opened)
qed

theorem hashring_consistent_witness:
  "\<exists>t sent y. hashring_run demo_dpdk demo_nat [Some (udp_packet demo_flow)] = Some (Inr (t, sent)) \<and>
     hashring_get t (rev_key y) True = Inr (Some (rev_key demo_flow))"
proof -
  obtain t sent y where r: "hashring_run demo_dpdk demo_nat [Some (udp_packet demo_flow)] = Some (Inr (t, sent))"
    and g: "hashring_get t demo_flow True = Inr (Some y)"
    using demo_hashring_run by blast
  have "2 * length [Some (udp_packet demo_flow)] \<le> RING_SIZE" by (simp add: RING_SIZE_def)
  from hashring_consistent [OF this r g] r show ?thesis by blast
qed



text \<open>
  C35: The hash-ring translator handles every packet, well-formed or not, in finite time as
  long as its table holds fewer than 65,536 flows and two slots are free: the port search
  then finds a free port.
\<close>

theorem hashring_dispatch_returns:
  assumes "ring_inv RING_SIZE ring_slot t" "ring_room RING_SIZE t (Suc (Suc n))"
    and "finite (dom (ring_abs RING_SIZE ring_slot t))" "card (dom (ring_abs RING_SIZE ring_slot t)) < 2 ^ 16"
  shows "\<exists>r. hashring_dispatch dp cfg device t b = Some (Inr r)"
  unfolding hashring_dispatch_def using assms by (rule nat_hashring.dispatch_returns)

theorem hashring_dispatch_returns_witness:
  "\<exists>r. hashring_dispatch demo_dpdk demo_nat 0 hashring_init (udp_packet demo_flow) = Some (Inr r)"
  by (rule hashring_dispatch_returns [OF nat_hashring.inv_empty demo_ring_room])
    (simp_all add: nat_hashring.abs_empty)

text \<open>
  C36: The bound is sharp: when all 65,536 ports towards a destination are taken, a packet
  of a new flow to it never leaves the port search.
\<close>

theorem hashring_ports_exhausted_hangs:
  assumes "is_ipv4 dp b" "l4_ports b = Some (sport, dport)"
    and "hashring_get t (packet_key (pkt_data b) sport dport) True = Inr None"
    and "get32 (pkt_data b) off_dst \<noteq> nat_ip cfg"
    and "\<forall>port. \<exists>v. hashring_get t (Hash_Key (get32 (pkt_data b) off_dst) (nat_ip cfg) (pkt_data b off_proto) dport port)
      False = Inr (Some v)"
  shows "hashring_dispatch dp cfg device t b = None"
proof -
  have "find_port hashring_get t (Hash_Key (get32 (pkt_data b) off_dst) (nat_ip cfg) (pkt_data b off_proto) dport sport) = None"
    by (rule find_port_diverges) (simp add: next_port_iter assms(5))
  then show ?thesis using assms(1-4) by (simp add: hashring_dispatch_def nat_dispatch_def Let_def)
qed

definition all_ports_taken :: nat_ring where
  "all_ports_taken = fold (\<lambda>k t. hashring_set t k zero_key)
     (map (\<lambda>p. Hash_Key 8 (nat_ip demo_nat) 17 53 (of_nat p)) [0..<2 ^ 16]) hashring_init"

lemma all_ports_taken_abs:
  "ring_abs RING_SIZE ring_slot all_ports_taken k =
     (if \<exists>p. k = Hash_Key 8 (nat_ip demo_nat) 17 53 p then Some zero_key else None)"
proof -
  let ?ks = "map (\<lambda>p. Hash_Key 8 (nat_ip demo_nat) 17 53 (of_nat p)) [0..<2 ^ 16]"
  have "ring_room RING_SIZE hashring_init (length ?ks)"
    by (simp add: hashring_init_def ring_init_inv RING_SIZE_def)
  note f = nat_hashring.fill [OF nat_hashring.inv_empty this, of zero_key]
  have "k \<in> set ?ks \<longleftrightarrow> (\<exists>p. k = Hash_Key 8 (nat_ip demo_nat) 17 53 p)"
  proof
    assume "\<exists>p. k = Hash_Key 8 (nat_ip demo_nat) 17 53 p"
    then obtain p where "k = Hash_Key 8 (nat_ip demo_nat) 17 53 p" ..
    moreover have "p = of_nat (unat p)" "unat p < 2 ^ 16" using unsigned_less [of p] by simp_all
    ultimately show "k \<in> set ?ks" by (metis (mono_tags, lifting) atLeast0LessThan image_eqI lessThan_iff set_map set_upt)
  qed auto
  with f show ?thesis unfolding all_ports_taken_def by (simp add: nat_hashring.abs_empty)
qed

theorem hashring_ports_exhausted_hangs_witness:
  "hashring_dispatch demo_dpdk demo_nat 0 all_ports_taken (udp_packet demo_flow) = None"
proof (rule hashring_ports_exhausted_hangs [OF udp_packet_fields(3,4)])
  have k: "packet_key (pkt_data (udp_packet demo_flow)) (src_port demo_flow) (dst_port demo_flow) = demo_flow"
    by (rule udp_packet_key) (simp add: demo_flow_def)
  have f: "get32 (pkt_data (udp_packet demo_flow)) off_dst = 8" "pkt_data (udp_packet demo_flow) off_proto = 17"
    by (simp_all add: udp_packet_ip demo_flow_def)
  show "hashring_get all_ports_taken (packet_key (pkt_data (udp_packet demo_flow)) (src_port demo_flow) (dst_port demo_flow))
      True = Inr None"
    unfolding k by (simp add: hashring_get_abs all_ports_taken_abs demo_flow_def demo_nat_def)
  show "get32 (pkt_data (udp_packet demo_flow)) off_dst \<noteq> nat_ip demo_nat" by (simp add: f demo_nat_def)
  show "\<forall>port. \<exists>v. hashring_get all_ports_taken (Hash_Key (get32 (pkt_data (udp_packet demo_flow)) off_dst)
      (nat_ip demo_nat) (pkt_data (udp_packet demo_flow) off_proto) (dst_port demo_flow) port) False = Inr (Some v)"
    by (simp add: udp_packet_ip hashring_get_abs all_ports_taken_abs demo_flow_def)
qed

text \<open>
  C37: The tree translator is consistent in the same sense after any run that does not
  fail, with no bound on the number of flows.
\<close>

theorem tree_consistent:
  assumes "tree_run dp cfg polls = Some (Inr (t, sent))" "tree_hash_get t x True = Inr (Some y)"
  shows "tree_hash_get t (rev_key y) True = Inr (Some (rev_key x)) \<and> flow_ok (nat_ip cfg) x y \<and>
    (\<forall>x'. tree_hash_get t x' True = Inr (Some y) \<longrightarrow> x' = x)"
  using nat_tree.run_consistent [OF _ assms(1) [unfolded tree_run_def tree_dispatch_def] assms(2)] by simp

theorem tree_consistent_witness:
  "\<exists>t sent y. tree_run demo_dpdk demo_nat [Some (udp_packet demo_flow)] = Some (Inr (t, sent)) \<and>
     tree_hash_get t (rev_key y) True = Inr (Some (rev_key demo_flow))"
proof -
  obtain t b' where d: "tree_dispatch demo_dpdk demo_nat 0 Null (udp_packet demo_flow) = Some (Inr (1, t, b'))"
    and "tree_abs t = open_flow (nat_ip demo_nat) demo_flow 1000 Map.empty"
    using nat_tree.demo_dispatch [of demo_dpdk] unfolding tree_dispatch_def by auto
  then obtain y where y: "tree_hash_get t demo_flow True = Inr (Some y)" by (auto simp: tree_get_out demo_flow_opened)
  have r: "\<exists>sent. tree_run demo_dpdk demo_nat [Some (udp_packet demo_flow)] = Some (Inr (t, sent))"
    using d by (simp add: tree_run_def)
  with tree_consistent [OF _ y] show ?thesis by blast
qed

text \<open>
  C38: A second internal host that uses the same port towards the same destination crashes
  the tree translator: the port search looks the taken key up with a null pointer, and
  \<open>hash_get\<close> writes through it.
\<close>

theorem tree_port_conflict_crashes:
  assumes "is_ipv4 dp b" "l4_ports b = Some (sport, dport)"
    and "tree_hash_get t (packet_key (pkt_data b) sport dport) True = Inr None"
    and "get32 (pkt_data b) off_dst \<noteq> nat_ip cfg"
    and "tree_hash_get t (Hash_Key (get32 (pkt_data b) off_dst) (nat_ip cfg) (pkt_data b off_proto) dport sport)
      True = Inr (Some v)"
  shows "tree_dispatch dp cfg device t b = Some (Inl Null_Dereference)"
proof -
  have "tree_hash_get t (Hash_Key (get32 (pkt_data b) off_dst) (nat_ip cfg) (pkt_data b off_proto) dport sport)
      False = Inl Null_Dereference"
    using assms(5) by (simp add: tree_get_out tree_get_null)
  then show ?thesis
    using assms(1-4) by (simp add: tree_dispatch_def nat_dispatch_def Let_def find_port.simps)
qed

theorem tree_port_conflict_crashes_witness:
  "\<exists>t b'. tree_dispatch demo_dpdk demo_nat 0 Null (udp_packet (Hash_Key 10 8 17 1000 53)) = Some (Inr (1, t, b')) \<and>
     tree_dispatch demo_dpdk demo_nat 0 t (udp_packet (Hash_Key 11 8 17 1000 53)) = Some (Inl Null_Dereference)"
proof -
  let ?k = "Hash_Key 11 8 17 1000 53"
  obtain t b' where d: "tree_dispatch demo_dpdk demo_nat 0 Null (udp_packet demo_flow) = Some (Inr (1, t, b'))"
    and t: "tree_abs t = open_flow (nat_ip demo_nat) demo_flow 1000 Map.empty"
    using nat_tree.demo_dispatch [of demo_dpdk] unfolding tree_dispatch_def by auto
  have "tree_dispatch demo_dpdk demo_nat 0 t (udp_packet ?k) = Some (Inl Null_Dereference)"
  proof (rule tree_port_conflict_crashes [OF udp_packet_fields(3,4)])
    show "tree_hash_get t (packet_key (pkt_data (udp_packet ?k)) (src_port ?k) (dst_port ?k)) True = Inr None"
      unfolding udp_packet_key [of ?k, simplified hash_key.sel, OF refl] hash_key.sel
      by (simp add: tree_get_out t demo_flow_opened)
    show "get32 (pkt_data (udp_packet ?k)) off_dst \<noteq> nat_ip demo_nat" by (simp add: udp_packet_ip demo_nat_def)
    show "tree_hash_get t (Hash_Key (get32 (pkt_data (udp_packet ?k)) off_dst) (nat_ip demo_nat)
        (pkt_data (udp_packet ?k) off_proto) (dst_port ?k) (src_port ?k)) True = Inr (Some (rev_key demo_flow))"
      by (simp add: udp_packet_ip tree_get_out t demo_flow_opened)
  qed
  with d show ?thesis by (auto simp: demo_flow_def)
qed

text \<open>
  C3: The hash-ring translator refines the translator that keeps its flows in a plain map:
  on any sequence of polls that fits half the ring, both send the same packets to the same
  devices, drop the same ones, and hang or finish together; the final ring stands for the
  final map.
\<close>

theorem hashring_refines_map:
  assumes "2 * length polls \<le> RING_SIZE"
  shows "run (map_nat_dispatch dp cfg) 0 polls Map.empty =
    map_option (map_sum id (map_prod (ring_abs RING_SIZE ring_slot) id)) (hashring_run dp cfg polls)"
proof -
  have "ring_room RING_SIZE hashring_init (2 * length polls)"
    using assms by (simp add: hashring_init_def ring_init_inv)
  from nat_hashring.run_refines [OF nat_hashring.inv_empty this, of dp cfg 0] show ?thesis
    by (simp add: nat_hashring.abs_empty hashring_run_def hashring_dispatch_def)
qed

theorem hashring_refines_map_witness:
  "run (map_nat_dispatch demo_dpdk demo_nat) 0 [Some (udp_packet demo_flow), None] Map.empty =
    map_option (map_sum id (map_prod (ring_abs RING_SIZE ring_slot) id))
      (hashring_run demo_dpdk demo_nat [Some (udp_packet demo_flow), None])"
  by (rule hashring_refines_map) (simp add: RING_SIZE_def)

text \<open>
  C39: The chained-hash translator refines the same map translator on every sequence of
  polls, without a bound.
\<close>

theorem basichash_refines_map:
  "run (map_nat_dispatch dp cfg) 0 polls Map.empty =
    map_option (map_sum id (map_prod chain_abs id)) (basichash_run dp cfg polls)"
  using nat_basichash.run_refines [where t = chain_hash_init and polls = polls and dp = dp and cfg = cfg and device = 0]
  by (simp add: nat_basichash.abs_empty basichash_run_def basichash_dispatch_def)

text \<open>
  So do the two translators over the standard containers, whose final containers hold
  the final map.
\<close>

theorem stl_refines_map:
  "run (map_nat_dispatch dp cfg) 0 polls Map.empty =
     map_option (map_sum id (map_prod map_of id)) (stlmap_run dp cfg polls) \<and>
   run (map_nat_dispatch dp cfg) 0 polls Map.empty = stlumap_run dp cfg polls"
proof
  show "run (map_nat_dispatch dp cfg) 0 polls Map.empty =
      map_option (map_sum id (map_prod map_of id)) (stlmap_run dp cfg polls)"
    using nat_stlmap.run_refines [where t = "[]" and polls = polls and dp = dp and cfg = cfg and device = 0] by (simp add: stlmap_run_def stlmap_dispatch_def)
  have "map_nat_dispatch = stlumap_dispatch"
    by (simp add: map_nat_dispatch_def stlumap_dispatch_def umap_hash_get_def [abs_def] umap_hash_set_def [abs_def])
  then show "run (map_nat_dispatch dp cfg) 0 polls Map.empty = stlumap_run dp cfg polls"
    by (simp add: stlumap_run_def)
qed

text \<open>
  A full ring swallows insertions: the loop ends without storing, and the flow stays
  unknown.
\<close>

lemma full_ring_drops:
  assumes "\<forall>i < RING_SIZE. entry_used (t i) \<and> entry_key (t i) \<noteq> k"
  shows "hashring_set t k v = t" "hashring_get (hashring_set t k v) k True = Inr None"
proof -
  have all: "\<forall>q. entry_used (t ((ring_slot k + q) mod RING_SIZE)) \<and> entry_key (t ((ring_slot k + q) mod RING_SIZE)) \<noteq> k"
    using assms by (simp add: RING_SIZE_def)
  have "ring_hash_set (=) RING_SIZE t k v (ring_slot k) pos = t" for pos
    by (induction "RING_SIZE - pos" arbitrary: pos) (subst ring_hash_set.simps; use all in \<open>auto simp: Let_def\<close>)+
  then show set: "hashring_set t k v = t" by (simp add: hashring_set_def hash_key_equals_eq)
  show "hashring_get (hashring_set t k v) k True = Inr None"
    unfolding set using all by (simp add: hashring_get_def hash_key_equals_eq ring_get_full)
qed

end
