(* ===== verification/Load_Balancer.thy ===== *)
theory Load_Balancer
  imports Packet Nat_Function
begin

text \<open>
  The load balancers of \<open>src/examples\<close>: packets to the virtual address are spread over
  the servers, one server per flow, packets from a server leave under the virtual address.
  \<open>lb_dispatch\<close> is \<open>dispatch_packet\<close> over an arbitrary flow table; the state is the
  table and the static variable \<open>next_dip\<close>.
\<close>

section \<open>Keys\<close>

datatype lb_key = Lb_Key (lb_src_ip: u32) (lb_proto: u8) (lb_src_port: u16)

definition lb_key_equals :: "lb_key \<Rightarrow> lb_key \<Rightarrow> bool" where
  "lb_key_equals a b \<longleftrightarrow> lb_src_ip a = lb_src_ip b \<and> lb_proto a = lb_proto b \<and> lb_src_port a = lb_src_port b"

definition lb_key_less :: "lb_key \<Rightarrow> lb_key \<Rightarrow> bool" where
  "lb_key_less a b =
     (if lb_src_ip a \<noteq> lb_src_ip b then lb_src_ip a < lb_src_ip b
      else if lb_proto a \<noteq> lb_proto b then lb_proto a < lb_proto b
      else lb_src_port a < lb_src_port b)"

definition lb_hash_function :: "lb_key \<Rightarrow> u32" where
  "lb_hash_function key =
     (let init = 0xdeadbeef + 7;
          a = init + lb_src_ip key;
          b = init + ucast (lb_proto key);
          c = init + ucast (lb_src_port key);
          (a, b, c) = hash_function_final (a, b, c)
      in c)"

text \<open>The chained variant keys on the source address only.\<close>

datatype lb_ip_key = Lb_Ip_Key (ip_key: u32)

definition lb_ip_key_equals :: "lb_ip_key \<Rightarrow> lb_ip_key \<Rightarrow> bool" where
  "lb_ip_key_equals a b \<longleftrightarrow> ip_key a = ip_key b"

definition lb_ip_hash_function :: "lb_ip_key \<Rightarrow> u32" where
  "lb_ip_hash_function key =
     (let init = 0xdeadbeef + 4;
          (a, b, c) = hash_function_final (init + ip_key key, init, init)
      in c)"

lemma lb_key_equals_eq: "lb_key_equals = (=)"
  by (auto simp: lb_key_equals_def fun_eq_iff lb_key.expand)

lemma lb_ip_key_equals_eq: "lb_ip_key_equals = (=)"
  by (auto simp: lb_ip_key_equals_def fun_eq_iff lb_ip_key.expand)

definition lb_key_tuple :: "lb_key \<Rightarrow> u32 \<times> u8 \<times> u16" where
  "lb_key_tuple k = (lb_src_ip k, lb_proto k, lb_src_port k)"

lemma lb_key_tuple_inject: "lb_key_tuple a = lb_key_tuple b \<longleftrightarrow> a = b"
  by (cases a; cases b) (simp add: lb_key_tuple_def)

lemma lb_key_less_tuple: "lb_key_less a b \<longleftrightarrow> lb_key_tuple a < lb_key_tuple b"
  by (auto simp: lb_key_less_def lb_key_tuple_def less_prod_def')

instantiation lb_key :: linorder
begin

definition less_lb_key :: "lb_key \<Rightarrow> lb_key \<Rightarrow> bool" where
  "less_lb_key a b = lb_key_less a b"

definition less_eq_lb_key :: "lb_key \<Rightarrow> lb_key \<Rightarrow> bool" where
  "less_eq_lb_key a b = (\<not> lb_key_less b a)"

instance
  by standard
    (auto simp: less_lb_key_def less_eq_lb_key_def lb_key_less_tuple not_less simp flip: lb_key_tuple_inject)

end

section \<open>Dispatching a packet\<close>

definition NUM_DIPS :: nat where "NUM_DIPS = 2"

record lb_config =
  lb_device_macs :: "u8 list list"
  lb_endpoint_macs :: "u8 list list"
  vip :: u32
  dips :: "u32 list"

text \<open>The round robin over the servers: an address of zero ends the list.\<close>

definition advance_dip :: "u32 list \<Rightarrow> nat \<Rightarrow> nat" where
  "advance_dip ds next_dip =
     (if NUM_DIPS \<le> next_dip + 1 \<or> ds ! (next_dip + 1) = 0 then 0 else next_dip + 1)"

function find_dip :: "u32 list \<Rightarrow> u32 \<Rightarrow> nat \<Rightarrow> bool" where
  "find_dip ds addr i =
     (if i < NUM_DIPS \<and> ds ! i \<noteq> 0 then (if addr = ds ! i then True else find_dip ds addr (i + 1)) else False)"
  by pat_completeness auto
termination
  by (relation "measure (\<lambda>(ds, addr, i). NUM_DIPS - i)") auto

declare find_dip.simps [simp del]

definition lb_finish :: "dpdk \<Rightarrow> lb_config \<Rightarrow> u32 \<Rightarrow> bytes \<Rightarrow> bytes" where
  "lb_finish dp config dst_dev m =
     set_macs (lb_device_macs config) (lb_endpoint_macs config) dst_dev
       (put16 m off_cksum (ipv4_cksum dp m off_ip))"

definition lb_dispatch ::
  "('t \<Rightarrow> 'k \<Rightarrow> bool \<Rightarrow> nf_error + u32 option) \<Rightarrow> ('t \<Rightarrow> 'k \<Rightarrow> u32 \<Rightarrow> 't) \<Rightarrow> (lb_key \<Rightarrow> 'k) \<Rightarrow> dpdk
   \<Rightarrow> lb_config \<Rightarrow> u32 \<Rightarrow> 't \<times> nat \<Rightarrow> mbuf \<Rightarrow> (nf_error + (u32 \<times> ('t \<times> nat) \<times> mbuf)) option" where
  "lb_dispatch get put mk dp config device s b =
     (if \<not> is_ipv4 dp b then Some (Inr (device, s, b))
      else case l4_ports b of
          None \<Rightarrow> Some (Inr (device, s, b))
        | Some (sport, _) \<Rightarrow>
            (let dst_dev = device XOR 1;
                 (t, next_dip) = s;
                 m = put16 (pkt_data b) off_cksum 0
             in if get32 m off_dst = vip config then
                  (let key = mk (Lb_Key (get32 m off_src) (m off_proto) sport) in
                   case get t key True of
                     Inl e \<Rightarrow> Some (Inl e)
                   | Inr (Some dip) \<Rightarrow>
                       Some (Inr (dst_dev, (t, next_dip),
                         b\<lparr>pkt_data := lb_finish dp config dst_dev (put32 m off_dst dip)\<rparr>))
                   | Inr None \<Rightarrow>
                       (let dip = dips config ! next_dip in
                        Some (Inr (dst_dev, (put t key dip, advance_dip (dips config) next_dip),
                          b\<lparr>pkt_data := lb_finish dp config dst_dev (put32 m off_dst dip)\<rparr>))))
                else if \<not> find_dip (dips config) (get32 m off_src) 0
                then Some (Inr (device, s, b\<lparr>pkt_data := m\<rparr>))
                else Some (Inr (dst_dev, s,
                       b\<lparr>pkt_data := lb_finish dp config dst_dev (put32 m off_src (vip config))\<rparr>))))"

section \<open>The examples\<close>

definition lb_tree_dispatch ::
  "dpdk \<Rightarrow> lb_config \<Rightarrow> u32 \<Rightarrow> (lb_key, u32) tree_node \<times> nat \<Rightarrow> mbuf
   \<Rightarrow> (nf_error + (u32 \<times> ((lb_key, u32) tree_node \<times> nat) \<times> mbuf)) option" where
  "lb_tree_dispatch = lb_dispatch tree_hash_get tree_hash_set (\<lambda>k. k)"

definition lb_tree_run ::
  "dpdk \<Rightarrow> lb_config \<Rightarrow> mbuf option list \<Rightarrow> (nf_error + (((lb_key, u32) tree_node \<times> nat) \<times> sent list)) option" where
  "lb_tree_run dp config polls = run (lb_tree_dispatch dp config) 0 polls (Null, 0)"

definition lb_stlmap_dispatch ::
  "dpdk \<Rightarrow> lb_config \<Rightarrow> u32 \<Rightarrow> (lb_key, u32) smap \<times> nat \<Rightarrow> mbuf
   \<Rightarrow> (nf_error + (u32 \<times> ((lb_key, u32) smap \<times> nat) \<times> mbuf)) option" where
  "lb_stlmap_dispatch = lb_dispatch map_hash_get map_hash_set (\<lambda>k. k)"

definition lb_stlmap_run ::
  "dpdk \<Rightarrow> lb_config \<Rightarrow> mbuf option list \<Rightarrow> (nf_error + (((lb_key, u32) smap \<times> nat) \<times> sent list)) option" where
  "lb_stlmap_run dp config polls = run (lb_stlmap_dispatch dp config) 0 polls ([], 0)"

definition LB_RING_SIZE :: nat where "LB_RING_SIZE = 2 ^ 30 div 64"

type_synonym lb_ring = "(lb_key, u32) hash_ring"

definition lb_hashring_init :: lb_ring where
  "lb_hashring_init = ring_hash_init \<lparr>entry_key = Lb_Key 0 0 0, entry_value = 0, entry_used = False\<rparr>"

definition lb_hashring_get :: "lb_ring \<Rightarrow> lb_key \<Rightarrow> bool \<Rightarrow> nf_error + u32 option" where
  "lb_hashring_get t key out =
     Inr (ring_hash_get lb_key_equals LB_RING_SIZE t key (unat (lb_hash_function key) mod LB_RING_SIZE) 0)"

definition lb_hashring_set :: "lb_ring \<Rightarrow> lb_key \<Rightarrow> u32 \<Rightarrow> lb_ring" where
  "lb_hashring_set t key val =
     ring_hash_set lb_key_equals LB_RING_SIZE t key val (unat (lb_hash_function key) mod LB_RING_SIZE) 0"

definition lb_hashring_dispatch ::
  "dpdk \<Rightarrow> lb_config \<Rightarrow> u32 \<Rightarrow> lb_ring \<times> nat \<Rightarrow> mbuf \<Rightarrow> (nf_error + (u32 \<times> (lb_ring \<times> nat) \<times> mbuf)) option" where
  "lb_hashring_dispatch = lb_dispatch lb_hashring_get lb_hashring_set (\<lambda>k. k)"

definition lb_hashring_run ::
  "dpdk \<Rightarrow> lb_config \<Rightarrow> mbuf option list \<Rightarrow> (nf_error + ((lb_ring \<times> nat) \<times> sent list)) option" where
  "lb_hashring_run dp config polls = run (lb_hashring_dispatch dp config) 0 polls (lb_hashring_init, 0)"

definition LB_CHAIN_SIZE :: nat where "LB_CHAIN_SIZE = 2 ^ 16"

type_synonym lb_chains = "(lb_ip_key, u32) hash_chains"

definition lb_basichash_get :: "lb_chains \<Rightarrow> lb_ip_key \<Rightarrow> bool \<Rightarrow> nf_error + u32 option" where
  "lb_basichash_get t key out =
     Inr (chain_hash_get lb_ip_key_equals t key (unat (lb_ip_hash_function key) mod LB_CHAIN_SIZE))"

definition lb_basichash_set :: "lb_chains \<Rightarrow> lb_ip_key \<Rightarrow> u32 \<Rightarrow> lb_chains" where
  "lb_basichash_set t key val =
     chain_hash_set lb_ip_key_equals t key val (unat (lb_ip_hash_function key) mod LB_CHAIN_SIZE)"

definition lb_basichash_dispatch ::
  "dpdk \<Rightarrow> lb_config \<Rightarrow> u32 \<Rightarrow> lb_chains \<times> nat \<Rightarrow> mbuf \<Rightarrow> (nf_error + (u32 \<times> (lb_chains \<times> nat) \<times> mbuf)) option" where
  "lb_basichash_dispatch = lb_dispatch lb_basichash_get lb_basichash_set (\<lambda>k. Lb_Ip_Key (lb_src_ip k))"

definition lb_basichash_run ::
  "dpdk \<Rightarrow> lb_config \<Rightarrow> mbuf option list \<Rightarrow> (nf_error + ((lb_chains \<times> nat) \<times> sent list)) option" where
  "lb_basichash_run dp config polls = run (lb_basichash_dispatch dp config) 0 polls (chain_hash_init, 0)"

section \<open>What a balancer promises\<close>

text \<open>The servers, and the states in which the round robin points at one of them.\<close>

definition is_server :: "lb_config \<Rightarrow> u32 \<Rightarrow> bool" where
  "is_server config a \<longleftrightarrow> (\<exists>j < NUM_DIPS. a = dips config ! j \<and> (\<forall>k \<le> j. dips config ! k \<noteq> 0))"

definition next_ok :: "lb_config \<Rightarrow> nat \<Rightarrow> bool" where
  "next_ok config n \<longleftrightarrow> n < NUM_DIPS \<and> (\<forall>k \<le> n. dips config ! k \<noteq> 0)"

definition lb_map_ok :: "lb_config \<Rightarrow> ('k \<rightharpoonup> u32) \<Rightarrow> bool" where
  "lb_map_ok config M \<longleftrightarrow> (\<forall>k a. M k = Some a \<longrightarrow> is_server config a)"

lemma find_dip_from:
  assumes "i \<le> NUM_DIPS"
  shows "find_dip ds a i \<longleftrightarrow> (\<exists>j < NUM_DIPS. i \<le> j \<and> a = ds ! j \<and> (\<forall>k. i \<le> k \<and> k \<le> j \<longrightarrow> ds ! k \<noteq> 0))"
  using assms
proof (induction "NUM_DIPS - i" arbitrary: i)
  case 0
  then show ?case by (subst find_dip.simps) auto
next
  case (Suc n)
  then have i: "i < NUM_DIPS" "n = NUM_DIPS - (i + 1)" by simp_all
  have IH: "find_dip ds a (i + 1) \<longleftrightarrow>
      (\<exists>j < NUM_DIPS. i + 1 \<le> j \<and> a = ds ! j \<and> (\<forall>k. i + 1 \<le> k \<and> k \<le> j \<longrightarrow> ds ! k \<noteq> 0))"
    using Suc(1) [OF i(2)] i(1) by simp
  have split: "(\<exists>j < NUM_DIPS. i \<le> j \<and> a = ds ! j \<and> (\<forall>k. i \<le> k \<and> k \<le> j \<longrightarrow> ds ! k \<noteq> 0)) \<longleftrightarrow>
      ds ! i \<noteq> 0 \<and> (a = ds ! i \<or>
      (\<exists>j < NUM_DIPS. i + 1 \<le> j \<and> a = ds ! j \<and> (\<forall>k. i + 1 \<le> k \<and> k \<le> j \<longrightarrow> ds ! k \<noteq> 0)))"
    (is "?L \<longleftrightarrow> ?R")
  proof
    assume ?L
    then obtain j where j: "j < NUM_DIPS" "i \<le> j" "a = ds ! j" "\<forall>k. i \<le> k \<and> k \<le> j \<longrightarrow> ds ! k \<noteq> 0" by blast
    then have "ds ! i \<noteq> 0" by simp
    moreover have "a = ds ! i \<or> i + 1 \<le> j" using j(2,3) by (cases "i = j") auto
    ultimately show ?R using j by auto
  next
    assume R: ?R
    have "ds ! k \<noteq> 0" if "i \<le> k" "\<forall>k. i + 1 \<le> k \<and> k \<le> j \<longrightarrow> ds ! k \<noteq> 0" "k \<le> j" for j k
      using that R by (cases "k = i") auto
    with R i(1) show ?L by (metis Suc_eq_plus1 Suc_leD dual_order.refl le_antisym)
  qed
  show ?case using i(1) unfolding split IH [symmetric] by (subst find_dip.simps) auto
qed

lemma find_dip_server: "find_dip (dips config) a 0 \<longleftrightarrow> is_server config a"
  by (simp add: find_dip_from is_server_def)

lemma next_ok_server: "next_ok config n \<Longrightarrow> is_server config (dips config ! n)"
  by (auto simp: next_ok_def is_server_def)

lemma next_ok_advance: "next_ok config n \<Longrightarrow> next_ok config (advance_dip (dips config) n)"
  by (auto simp: next_ok_def advance_dip_def le_Suc_eq)

section \<open>Packets after balancing\<close>

definition lb_macs_ok :: "lb_config \<Rightarrow> bool" where
  "lb_macs_ok config \<longleftrightarrow> length (lb_device_macs config) = NUM_ETHPORTS \<and> length (lb_endpoint_macs config) = NUM_ETHPORTS \<and>
     (\<forall>mac \<in> set (lb_device_macs config) \<union> set (lb_endpoint_macs config). length mac = 6)"

lemma lb_finish_fields:
  assumes "lb_macs_ok config" "d < (2 :: u32)"
  shows "get32 (lb_finish dp config d m) off_src = get32 m off_src"
    "get32 (lb_finish dp config d m) off_dst = get32 m off_dst"
    "34 \<le> i \<Longrightarrow> lb_finish dp config d m i = m i"
proof -
  have "unat d < 2" using assms(2) by (simp add: word_less_nat_alt)
  then have len: "length (lb_device_macs config ! unat d) = 6" "length (lb_endpoint_macs config ! unat d) = 6"
    using assms(1) by (auto simp: lb_macs_ok_def NUM_ETHPORTS_def)
  show "get32 (lb_finish dp config d m) off_src = get32 m off_src"
    "get32 (lb_finish dp config d m) off_dst = get32 m off_dst"
    "34 \<le> i \<Longrightarrow> lb_finish dp config d m i = m i"
    using len by (simp_all add: lb_finish_def set_macs_def mem_simps)
qed

text \<open>What a sent packet says: it goes to a server, or it comes from the virtual address.\<close>

definition lb_sent_ok :: "lb_config \<Rightarrow> sent \<Rightarrow> bool" where
  "lb_sent_ok config x = (case x of Dropped \<Rightarrow> True
     | Sent d b \<Rightarrow> is_server config (get32 (pkt_data b) off_dst) \<or> get32 (pkt_data b) off_src = vip config)"

locale lb_table = flow_table get put empty inv abs room
  for get :: "'t \<Rightarrow> 'k \<Rightarrow> bool \<Rightarrow> nf_error + u32 option"
    and put :: "'t \<Rightarrow> 'k \<Rightarrow> u32 \<Rightarrow> 't"
    and empty :: "'t"
    and inv :: "'t \<Rightarrow> bool"
    and abs :: "'t \<Rightarrow> 'k \<rightharpoonup> u32"
    and room :: "'t \<Rightarrow> nat \<Rightarrow> bool"
begin

text \<open>
  One packet. The state changes only when the first packet of a flow arrives, and then by
  assigning the next server to the flow.
\<close>

lemma lb_dispatch_step:
  assumes "inv t" "room t (Suc r)" "next_ok config n" "lb_map_ok config (abs t)"
    and cfg: "lb_macs_ok config" "device < 2"
    and res: "lb_dispatch get put mk dp config device (t, n) b = Some (Inr (device', (t', n'), b'))"
  shows "inv t' \<and> room t' r \<and> next_ok config n' \<and> lb_map_ok config (abs t') \<and>
    (t' = t \<and> n' = n \<or> (\<exists>key. abs t key = None \<and> abs t' = (abs t)(key \<mapsto> dips config ! n) \<and>
       n' = advance_dip (dips config) n)) \<and>
    (device' = device \<or> lb_sent_ok config (Sent device' b'))"
proof -
  note d = other_device [OF cfg(2)]
  have same: ?thesis if "t' = t" "n' = n" "device' = device \<or> lb_sent_ok config (Sent device' b')"
    using that assms(1-4) by (simp add: room_less)
  show ?thesis
  proof (cases "is_ipv4 dp b \<and> l4_ports b \<noteq> None")
    case False
    then have "\<not> is_ipv4 dp b \<or> l4_ports b = None" by blast
    then show ?thesis using res same by (auto simp: lb_dispatch_def split: if_splits)
  next
    case True
    then obtain sport dport where p: "is_ipv4 dp b" "l4_ports b = Some (sport, dport)" by auto
    define m where "m = put16 (pkt_data b) off_cksum 0"
    define key where "key = mk (Lb_Key (get32 m off_src) (m off_proto) sport)"
    have dst: "get32 (lb_finish dp config (device XOR 1) (put32 m off_dst a)) off_dst = a" for a
      using d by (simp add: lb_finish_fields [OF cfg(1)] mem_simps)
    have src: "get32 (lb_finish dp config (device XOR 1) (put32 m off_src a)) off_src = a" for a
      using d by (simp add: lb_finish_fields [OF cfg(1)] mem_simps)
    show ?thesis
    proof (cases "get32 m off_dst = vip config")
      case to_vip: True
      show ?thesis
      proof (cases "abs t key")
        case None
        then have r: "t' = put t key (dips config ! n)" "n' = advance_dip (dips config) n"
          "b' = b\<lparr>pkt_data := lb_finish dp config (device XOR 1) (put32 m off_dst (dips config ! n))\<rparr>"
          using res p to_vip assms(1)
          by (auto simp: lb_dispatch_def m_def [symmetric] key_def [symmetric] get_abs Let_def)
        have srv: "is_server config (dips config ! n)" using assms(3) by (rule next_ok_server)
        then have "lb_map_ok config ((abs t)(key \<mapsto> dips config ! n))"
          using assms(4) by (simp add: lb_map_ok_def)
        then show ?thesis
          using None srv assms(1-3) dst by (auto simp: r put_inv put_room put_abs next_ok_advance lb_sent_ok_def)
      next
        case (Some a)
        then have "is_server config a" using assms(4) by (simp add: lb_map_ok_def)
        with Some show ?thesis
          using res p to_vip assms(1) dst same
          by (auto simp: lb_dispatch_def m_def [symmetric] key_def [symmetric] get_abs Let_def lb_sent_ok_def)
      qed
    next
      case False
      then show ?thesis
        using res p src same
        by (auto simp: lb_dispatch_def m_def [symmetric] Let_def lb_sent_ok_def split: if_splits)
    qed
  qed
qed

end

section \<open>Runs\<close>

text \<open>How many flows a map sends to an address.\<close>

definition load_of :: "('k \<rightharpoonup> u32) \<Rightarrow> u32 \<Rightarrow> nat" where
  "load_of M a = card {k. M k = Some a}"

definition balanced :: "lb_config \<Rightarrow> ('k \<rightharpoonup> u32) \<Rightarrow> nat \<Rightarrow> bool" where
  "balanced config M n \<longleftrightarrow> finite (dom M) \<and> load_of M (dips config ! 0) = load_of M (dips config ! 1) + n"

lemma load_of_put:
  assumes "finite (dom M)" "M k = None"
  shows "load_of (M(k \<mapsto> a)) a' = (if a' = a then Suc (load_of M a') else load_of M a')"
proof -
  have fin: "finite {k. M k = Some a'}" by (rule finite_subset [OF _ assms(1)]) auto
  have "{x. (M(k \<mapsto> a)) x = Some a'} = (if a' = a then insert k {k. M k = Some a'} else {k. M k = Some a'})"
    using assms(2) by auto
  moreover have "k \<notin> {k. M k = Some a'}" using assms(2) by simp
  ultimately show ?thesis
    using fin card_insert_disjoint by (cases "a' = a") (simp_all add: load_of_def del: fun_upd_apply mem_Collect_eq)
qed

lemma balanced_put:
  assumes "balanced config M n" "n < NUM_DIPS" "M k = None"
    and "dips config ! 0 \<noteq> dips config ! 1" "dips config ! 1 \<noteq> 0"
  shows "balanced config (M(k \<mapsto> dips config ! n)) (advance_dip (dips config) n)"
proof -
  have "n = 0 \<or> n = 1" using assms(2) by (auto simp: NUM_DIPS_def)
  then show ?thesis
    using assms load_of_put [where M = M and k = k] by (auto simp: balanced_def advance_dip_def NUM_DIPS_def)
qed

definition map_lb_dispatch ::
  "(lb_key \<Rightarrow> 'k) \<Rightarrow> dpdk \<Rightarrow> lb_config \<Rightarrow> u32 \<Rightarrow> ('k \<rightharpoonup> u32) \<times> nat \<Rightarrow> mbuf
   \<Rightarrow> (nf_error + (u32 \<times> (('k \<rightharpoonup> u32) \<times> nat) \<times> mbuf)) option" where
  "map_lb_dispatch = lb_dispatch (\<lambda>M k out. Inr (M k)) (\<lambda>M k v. M(k \<mapsto> v))"

context lb_table
begin

lemma lb_run_ok:
  assumes "lb_macs_ok config" "device < 2"
    and "inv t" "room t (length polls)" "next_ok config n" "lb_map_ok config (abs t)"
    and "run (lb_dispatch get put mk dp config) device polls (t, n) = Some (Inr ((t', n'), sent))"
  shows "inv t' \<and> lb_map_ok config (abs t') \<and> abs t \<subseteq>\<^sub>m abs t' \<and> (\<forall>x \<in> set sent. lb_sent_ok config x)"
proof -
  let ?I = "\<lambda>r s. inv (fst s) \<and> room (fst s) r \<and> next_ok config (snd s) \<and> lb_map_ok config (abs (fst s)) \<and>
    abs t \<subseteq>\<^sub>m abs (fst s)"
  have "?I 0 (t', n') \<and> (\<forall>x \<in> set sent. lb_sent_ok config x)"
  proof (rule run_invariant [where I = ?I and Q = "lb_sent_ok config", OF _ _ _ assms(7)])
    fix device r s b d s' b'
    assume dev: "device < (2 :: u32)" and I: "?I (Suc r) s"
      and st: "lb_dispatch get put mk dp config device s b = Some (Inr (d, s', b'))"
    have step: "inv (fst s') \<and> room (fst s') r \<and> next_ok config (snd s') \<and> lb_map_ok config (abs (fst s')) \<and>
        (fst s' = fst s \<and> snd s' = snd s \<or> (\<exists>key. abs (fst s) key = None \<and>
          abs (fst s') = (abs (fst s))(key \<mapsto> dips config ! snd s) \<and> snd s' = advance_dip (dips config) (snd s))) \<and>
        (d = device \<or> lb_sent_ok config (Sent d b'))"
      by (rule lb_dispatch_step [OF _ _ _ _ assms(1) dev, of "fst s" r "snd s"]) (use I st in auto)
    moreover have "abs (fst s) \<subseteq>\<^sub>m abs (fst s')" using step by (auto simp: map_le_def)
    ultimately show "?I r s' \<and> (d = device \<or> lb_sent_ok config (Sent d b'))"
      using I map_le_trans by blast
  qed (use assms in \<open>auto simp: lb_sent_ok_def room_less\<close>)
  then show ?thesis by simp
qed

lemma lb_run_balanced:
  assumes "lb_macs_ok config" "device < 2" "dips config ! 0 \<noteq> dips config ! 1" "dips config ! 1 \<noteq> 0"
    and "inv t" "room t (length polls)" "next_ok config n" "lb_map_ok config (abs t)" "balanced config (abs t) n"
    and "run (lb_dispatch get put mk dp config) device polls (t, n) = Some (Inr ((t', n'), sent))"
  shows "balanced config (abs t') n' \<and> n' < NUM_DIPS"
proof -
  let ?I = "\<lambda>r s. inv (fst s) \<and> room (fst s) r \<and> next_ok config (snd s) \<and> lb_map_ok config (abs (fst s)) \<and>
    balanced config (abs (fst s)) (snd s)"
  have "?I 0 (t', n') \<and> (\<forall>x \<in> set sent. True)"
  proof (rule run_invariant [where I = ?I and Q = "\<lambda>_. True", OF _ _ _ assms(10)])
    fix device r s b d s' b'
    assume dev: "device < (2 :: u32)" and I: "?I (Suc r) s"
      and st: "lb_dispatch get put mk dp config device s b = Some (Inr (d, s', b'))"
    have step: "inv (fst s') \<and> room (fst s') r \<and> next_ok config (snd s') \<and> lb_map_ok config (abs (fst s')) \<and>
        (fst s' = fst s \<and> snd s' = snd s \<or> (\<exists>key. abs (fst s) key = None \<and>
          abs (fst s') = (abs (fst s))(key \<mapsto> dips config ! snd s) \<and> snd s' = advance_dip (dips config) (snd s))) \<and>
        (d = device \<or> lb_sent_ok config (Sent d b'))"
      by (rule lb_dispatch_step [OF _ _ _ _ assms(1) dev, of "fst s" r "snd s"]) (use I st in auto)
    moreover have "balanced config (abs (fst s')) (snd s')"
      using step I balanced_put [OF _ _ _ assms(3,4), of "abs (fst s)" "snd s"] by (auto simp: next_ok_def)
    ultimately show "?I r s' \<and> (d = device \<or> True)" by blast
  qed (use assms in \<open>auto simp: room_less\<close>)
  then show ?thesis by (simp add: next_ok_def)
qed

lemma lb_dispatch_refines:
  assumes inv: "inv t" "room t (Suc r)"
  shows "map_lb_dispatch mk dp config device (abs t, n) b =
    abs_result (map_prod abs id) (lb_dispatch get put mk dp config device (t, n) b)"
  using put_abs [OF inv]
  by (auto simp: map_lb_dispatch_def lb_dispatch_def abs_result_def Let_def get_abs [OF inv(1)] split: option.split)

lemma lb_dispatch_returns:
  assumes inv: "inv t" "room t (Suc r)"
  shows "\<exists>d t' n' b'. lb_dispatch get put mk dp config device (t, n) b = Some (Inr (d, (t', n'), b')) \<and>
    inv t' \<and> room t' r"
  using put_inv [OF inv] put_room [OF inv] inv room_less
  by (auto simp: lb_dispatch_def Let_def get_abs [OF inv(1)] split: option.split)

lemma lb_run_refines:
  assumes "inv t" "room t (length polls)"
  shows "run (map_lb_dispatch mk dp config) device polls (abs t, n) =
    map_option (map_sum id (map_prod (map_prod abs id) id)) (run (lb_dispatch get put mk dp config) device polls (t, n))
    \<and> (\<exists>r. run (lb_dispatch get put mk dp config) device polls (t, n) = Some (Inr r))"
  using assms
proof (induction polls arbitrary: device t n)
  case Nil
  then show ?case by simp
next
  case (Cons poll polls)
  show ?case
  proof (cases poll)
    case None
    then show ?thesis using Cons.IH [of t "next_device device" n] Cons.prems room_less by simp
  next
    case (Some b)
    have room: "room t (Suc (length polls))" using Cons.prems(2) by simp
    obtain d t1 n1 b' where st: "lb_dispatch get put mk dp config device (t, n) b = Some (Inr (d, (t1, n1), b'))"
      and t1: "inv t1" "room t1 (length polls)"
      using lb_dispatch_returns [OF Cons.prems(1) room] by blast
    have m: "map_lb_dispatch mk dp config device (abs t, n) b = Some (Inr (d, (abs t1, n1), b'))"
      using lb_dispatch_refines [OF Cons.prems(1) room, of mk dp config device n b] st by (simp add: abs_result_def)
    from Cons.IH [OF t1, of "next_device device" n1] show ?thesis
      by (auto simp: Some st m)
  qed
qed

end

section \<open>The tables of the balancers\<close>

abbreviation lb_ring_slot :: "lb_key \<Rightarrow> nat" where
  "lb_ring_slot k \<equiv> unat (lb_hash_function k) mod LB_RING_SIZE"

abbreviation lb_chain_slot :: "lb_ip_key \<Rightarrow> nat" where
  "lb_chain_slot k \<equiv> unat (lb_ip_hash_function k) mod LB_CHAIN_SIZE"

definition lb_chain_abs :: "lb_chains \<Rightarrow> lb_ip_key \<rightharpoonup> u32" where
  "lb_chain_abs t k = chain_hash_get (=) t k (lb_chain_slot k)"

lemma lb_hashring_get_abs: "lb_hashring_get t k out = Inr (ring_abs LB_RING_SIZE lb_ring_slot t k)"
  by (simp add: lb_hashring_get_def lb_key_equals_eq ring_abs_def)

interpretation lb_tree: lb_table tree_hash_get tree_hash_set Null tree_inv tree_abs "\<lambda>_ _. True"
  by unfold_locales

interpretation lb_stlmap: lb_table map_hash_get map_hash_set "[]" sm_wf map_of "\<lambda>_ _. True"
  by unfold_locales

interpretation lb_hashring: lb_table lb_hashring_get lb_hashring_set lb_hashring_init
  "ring_inv LB_RING_SIZE lb_ring_slot" "ring_abs LB_RING_SIZE lb_ring_slot" "ring_room LB_RING_SIZE"
proof unfold_locales
  fix t :: lb_ring and k v n
  assume inv: "ring_inv LB_RING_SIZE lb_ring_slot t" and room: "ring_room LB_RING_SIZE t (Suc n)"
  obtain p where p: "ring_stop LB_RING_SIZE t k (lb_ring_slot k) p" using ring_stop_exists [OF room] by blast
  have set: "lb_hashring_set t k v = t((lb_ring_slot k + p) mod LB_RING_SIZE :=
      \<lparr>entry_key = k, entry_value = v, entry_used = True\<rparr>)"
    by (simp add: lb_hashring_set_def lb_key_equals_eq ring_set_stop [OF p])
  show "ring_inv LB_RING_SIZE lb_ring_slot (lb_hashring_set t k v)"
    unfolding set by (rule ring_put_inv [where h = lb_ring_slot, OF inv p])
  show "ring_abs LB_RING_SIZE lb_ring_slot (lb_hashring_set t k v) = (ring_abs LB_RING_SIZE lb_ring_slot t)(k \<mapsto> v)"
    unfolding set by (rule ring_put_abs [where h = lb_ring_slot, OF inv p])
  show "ring_room LB_RING_SIZE (lb_hashring_set t k v) n" unfolding set by (rule ring_put_room [OF room])
qed (simp_all add: lb_hashring_get_abs lb_hashring_init_def ring_init_inv ring_room_def)

interpretation lb_basichash: lb_table lb_basichash_get lb_basichash_set chain_hash_init "\<lambda>_. True" lb_chain_abs "\<lambda>_ _. True"
proof unfold_locales
  fix t :: lb_chains and k v
  show "lb_chain_abs (lb_basichash_set t k v) = (lb_chain_abs t)(k \<mapsto> v)"
    by (rule ext) (simp add: lb_chain_abs_def lb_basichash_set_def lb_ip_key_equals_eq chain_get_set [where h = lb_chain_slot])
qed (simp_all add: lb_basichash_get_def lb_ip_key_equals_eq lb_chain_abs_def chain_hash_init_def fun_eq_iff chain_hash_get_def)

section \<open>Correctness of the balancers\<close>

definition demo_lb :: lb_config where
  "demo_lb = \<lparr>lb_device_macs = [replicate 6 1, replicate 6 2], lb_endpoint_macs = [replicate 6 3, replicate 6 4],
     vip = 0x0100A8C0, dips = [0x0100000A, 0x0200000A]\<rparr>"

lemma demo_lb_ok: "lb_macs_ok demo_lb" "dips demo_lb ! 0 \<noteq> 0" "dips demo_lb ! 0 \<noteq> dips demo_lb ! 1" "dips demo_lb ! 1 \<noteq> 0"
  by (simp_all add: lb_macs_ok_def demo_lb_def NUM_ETHPORTS_def)

lemma lb_start: "dips config ! 0 \<noteq> 0 \<Longrightarrow> next_ok config 0" "lb_map_ok config Map.empty" "balanced config Map.empty 0"
  by (simp_all add: next_ok_def NUM_DIPS_def lb_map_ok_def balanced_def load_of_def)

lemma lb_ring_start: "length polls \<le> LB_RING_SIZE \<Longrightarrow> ring_room LB_RING_SIZE lb_hashring_init (length polls)"
  by (simp add: lb_hashring_init_def ring_init_inv)



text \<open>A first packet to the virtual address, on the empty ring.\<close>

definition demo_client :: hash_key where
  "demo_client = Hash_Key 10 (vip demo_lb) 17 1000 53"

lemma demo_lb_packet:
  "get32 (put16 (pkt_data (udp_packet demo_client)) off_cksum 0) off_dst = vip demo_lb"
  by (simp add: mem_simps udp_packet_ip demo_client_def)

lemma demo_lb_run:
  "\<exists>t b k. lb_hashring_run demo_dpdk demo_lb [Some (udp_packet demo_client)] = Some (Inr ((t, 1), [Sent 1 b])) \<and>
     lb_hashring_get t k True = Inr (Some (dips demo_lb ! 0))"
proof -
  define m where "m = put16 (pkt_data (udp_packet demo_client)) off_cksum 0"
  define k where "k = Lb_Key (get32 m off_src) (m off_proto) (src_port demo_client)"
  have none: "lb_hashring_get lb_hashring_init k True = Inr None"
    by (simp add: lb_hashring.get_empty)
  have "lb_hashring_get (lb_hashring_set lb_hashring_init k (dips demo_lb ! 0)) k True = Inr (Some (dips demo_lb ! 0))"
    using lb_ring_start [of "[()]"] lb_hashring.get_put_same [OF lb_hashring.inv_empty, of 0]
    by (simp add: LB_RING_SIZE_def)
  moreover have "advance_dip (dips demo_lb) 0 = 1" by (simp add: advance_dip_def NUM_DIPS_def demo_lb_def)
  ultimately show ?thesis
    using none demo_lb_packet
    by (auto simp: lb_hashring_run_def lb_hashring_dispatch_def lb_dispatch_def udp_packet_fields
        m_def [symmetric] k_def [symmetric] Let_def)
qed







text \<open>
  The balancers rewrite an address that the transport checksum covers, and leave the
  transport header as it was, checksum included.
\<close>

lemma lb_keeps_transport_header:
  assumes "lb_macs_ok config" "device < 2" "inv_l4 = off_l4 (pkt_data b)" "20 \<le> ihl_bytes (pkt_data b)"
    and "lb_tree_dispatch dp config device s b = Some (Inr (device', s', b'))"
  shows "\<forall>i \<ge> inv_l4. pkt_data b' i = pkt_data b i"
proof (intro allI impI)
  fix i assume "inv_l4 \<le> i"
  then have i: "34 \<le> i" using assms(3,4) by (simp add: off_l4_def)
  have d: "device XOR 1 < 2" using other_device [OF assms(2)] by simp
  have m: "put16 (pkt_data b) off_cksum 0 i = pkt_data b i" using i by (simp add: mem_simps)
  have p: "put32 m' off_dst a i = m' i" "put32 m' off_src a i = m' i" for m' a using i by (simp_all add: mem_simps)
  show "pkt_data b' i = pkt_data b i"
    using assms(5) m i p lb_finish_fields(3) [OF assms(1) d i]
    by (cases s) (auto simp: lb_tree_dispatch_def lb_dispatch_def Let_def split: if_splits option.splits sum.splits prod.splits)
qed

end
