(* ===== verification/Rainbow_Table.thy ===== *)
theory Rainbow_Table
  imports Nat_Examples Load_Balancer "HOL-Library.Multiset" "HOL-Library.Char_ord" "HOL-Library.List_Lexorder"
begin

text \<open>
  Rainbow tables: text files of hash values with inputs that have them, sorted by value. The
  programs \<open>make-rainbow-table.c\<close> beside the examples print them, and
  \<open>src/lib/CASTAN/RainbowTable.cpp\<close> finds the inputs of a value by binary search. A file is
  its string; formatted input is modelled after the C++ library: leading white space, a sign,
  a prefix, digits, and a stream that fails stays failed. A failed assertion and the use of a
  variable that was never assigned are the result \<open>None\<close>.
\<close>

section \<open>Printing a table\<close>

definition hex_char :: "nat \<Rightarrow> char" where
  "hex_char d = ''0123456789ABCDEF'' ! d"

text \<open>The conversions \<open>%08X\<close> and \<open>%02hhX\<close> of values that fit.\<close>

fun print_hex :: "nat \<Rightarrow> nat \<Rightarrow> string" where
  "print_hex 0 n = []"
| "print_hex (Suc w) n = print_hex w (n div 16) @ [hex_char (n mod 16)]"

definition entry_line :: "nat \<Rightarrow> u8 list \<Rightarrow> string" where
  "entry_line hash key = print_hex 8 hash @ concat (map (\<lambda>b. CHR '' '' # print_hex 2 (unat b)) key) @ [CHR 0x0A]"

definition le_bytes :: "nat \<Rightarrow> nat \<Rightarrow> u8 list" where
  "le_bytes n v = map (\<lambda>i. word_of_nat (v div 256 ^ i)) [0..<n]"

text \<open>The keys as the compiler lays them out: packed, little-endian.\<close>

definition key_bytes :: "hash_key \<Rightarrow> u8 list" where
  "key_bytes k = le_bytes 4 (unat (src_ip k)) @ le_bytes 4 (unat (dst_ip k)) @ [proto k] @
     le_bytes 2 (unat (src_port k)) @ le_bytes 2 (unat (dst_port k))"

definition lb_key_bytes :: "lb_key \<Rightarrow> u8 list" where
  "lb_key_bytes k = le_bytes 4 (unat (lb_src_ip k)) @ [lb_proto k] @ le_bytes 2 (unat (lb_src_port k))"

definition generate_entry :: "hash_key \<Rightarrow> string" where
  "generate_entry key = entry_line (unat (hash_function key) mod RING_SIZE) (key_bytes key)"

definition chain_generate_entry :: "hash_key \<Rightarrow> string" where
  "chain_generate_entry key = entry_line (unat (hash_function key) mod CHAIN_SIZE) (key_bytes key)"

definition lb_generate_entry :: "lb_key \<Rightarrow> string" where
  "lb_generate_entry key = entry_line (unat (lb_hash_function key) mod LB_RING_SIZE) (lb_key_bytes key)"

text \<open>
  The main loop: the random bytes of each round are an argument. Each round prints a UDP flow
  and the reply to its translation.
\<close>

definition random_key :: "u8 list \<Rightarrow> hash_key" where
  "random_key rnd =
     (let m = (\<lambda>i. rnd ! i) in Hash_Key (get32 m 0) (get32 m 4) 0x11 (get16 m 9) (get16 m 11))"

definition nat_reply_key :: "u32 \<Rightarrow> hash_key \<Rightarrow> hash_key" where
  "nat_reply_key ext_ip k = Hash_Key (dst_ip k) ext_ip (proto k) (dst_port k) (src_port k)"

fun make_rainbow_table :: "(hash_key \<Rightarrow> string) \<Rightarrow> u32 \<Rightarrow> u8 list list \<Rightarrow> string" where
  "make_rainbow_table entry ext_ip [] = []"
| "make_rainbow_table entry ext_ip (rnd # rnds) =
     entry (random_key rnd) @ entry (nat_reply_key ext_ip (random_key rnd)) @ make_rainbow_table entry ext_ip rnds"

section \<open>Formatted input\<close>

definition is_space :: "char \<Rightarrow> bool" where
  "is_space c \<longleftrightarrow> c \<in> {CHR '' '', CHR 0x09, CHR 0x0A, CHR 0x0B, CHR 0x0C, CHR 0x0D}"

definition hex_value :: "char \<Rightarrow> nat option" where
  "hex_value c =
     (let n = of_char c in
      if 48 \<le> n \<and> n \<le> 57 then Some (n - 48)
      else if 65 \<le> n \<and> n \<le> 70 then Some (n - 55)
      else if 97 \<le> n \<and> n \<le> 102 then Some (n - 87)
      else None)"

definition hex_number :: "string \<Rightarrow> nat" where
  "hex_number ds = fold (\<lambda>c n. 16 * n + the (hex_value c)) ds 0"

definition skip_prefix :: "string \<Rightarrow> string" where
  "skip_prefix s = (case s of c # x # r \<Rightarrow> if c = CHR ''0'' \<and> (x = CHR ''x'' \<or> x = CHR ''X'') then r else s | _ \<Rightarrow> s)"

text \<open>The sign, the magnitude and the rest of the input, if there is a number.\<close>

definition read_number :: "string \<Rightarrow> (bool \<times> nat \<times> string) option" where
  "read_number s =
     (let s = dropWhile is_space s;
          neg = (s \<noteq> [] \<and> hd s = CHR ''-'');
          s = (if s \<noteq> [] \<and> (hd s = CHR ''-'' \<or> hd s = CHR ''+'') then tl s else s);
          s = skip_prefix s;
          ds = takeWhile (\<lambda>c. hex_value c \<noteq> None) s
      in if ds = [] then None else Some (neg, hex_number ds, drop (length ds) s))"

text \<open>
  \<open>>> std::hex >> lineValue\<close>: the value, whether the stream failed, and the rest. At the
  end of the input nothing is assigned.
\<close>

definition read_u64 :: "string \<Rightarrow> (u64 \<times> bool \<times> string) option" where
  "read_u64 s =
     (if dropWhile is_space s = [] then None
      else case read_number s of
          None \<Rightarrow> Some (0, True, [])
        | Some (neg, n, r) \<Rightarrow>
            (if 2 ^ 64 \<le> n then Some (-1, True, [])
             else Some (if neg then - word_of_nat n else word_of_nat n, False, r)))"

text \<open>The loop \<open>while (ss >> b)\<close> with \<open>int b\<close>, in the same base.\<close>

lemma read_number_shorter: "read_number s = Some (neg, n, r) \<Longrightarrow> length r < length s"
proof -
  assume a: "read_number s = Some (neg, n, r)"
  define s1 where "s1 = dropWhile is_space s"
  define s2 where "s2 = (if s1 \<noteq> [] \<and> (hd s1 = CHR ''-'' \<or> hd s1 = CHR ''+'') then tl s1 else s1)"
  define s3 where "s3 = skip_prefix s2"
  have "length s3 \<le> length s2" by (auto simp: s3_def skip_prefix_def split: list.splits)
  moreover have "length s2 \<le> length s1" by (simp add: s2_def)
  moreover have "length s1 \<le> length s" by (simp add: s1_def length_dropWhile_le)
  moreover have "r = drop (length (takeWhile (\<lambda>c. hex_value c \<noteq> None) s3)) s3" "takeWhile (\<lambda>c. hex_value c \<noteq> None) s3 \<noteq> []"
    using a unfolding read_number_def Let_def s1_def [symmetric] s2_def [symmetric] s3_def [symmetric]
    by (auto split: if_splits)
  ultimately show ?thesis by (cases s3) auto
qed

function read_bytes :: "string \<Rightarrow> u8 list" where
  "read_bytes s =
     (case read_number s of
        None \<Rightarrow> []
      | Some (neg, n, r) \<Rightarrow>
          (if n < 2 ^ 31 \<or> neg \<and> n = 2 ^ 31
           then word_of_int (if neg then - int n else int n) # read_bytes r else []))"
  by pat_completeness auto
termination by (relation "measure length") (auto dest: read_number_shorter)

declare read_bytes.simps [simp del]

section \<open>Searching a table\<close>

record rainbow_table =
  contents :: string
  rt_pos :: nat
  rt_good :: bool
  lineLength :: nat
  rt_value :: u64

function search_record :: "string \<Rightarrow> nat \<Rightarrow> u64 \<Rightarrow> nat \<Rightarrow> nat \<Rightarrow> bool \<Rightarrow> (nat \<times> bool) option" where
  "search_record file len val minRecord maxRecord good =
     (if minRecord < maxRecord \<and> 0 < len then
        (let midRecord = minRecord + (maxRecord - minRecord) div 2 div len * len in
         if \<not> good then None
         else case read_u64 (drop midRecord file) of
             None \<Rightarrow> None
           | Some (lineValue, failed, _) \<Rightarrow>
               (if lineValue < val
                then search_record file len val (if minRecord = midRecord then midRecord + len else midRecord) maxRecord (\<not> failed)
                else search_record file len val minRecord midRecord (\<not> failed)))
      else Some (maxRecord, good))"
  by pat_completeness auto
termination
proof (relation "measure (\<lambda>(file, len, val, minRecord, maxRecord, good). maxRecord - minRecord)", goal_cases)
  case (3 f len val lo hi good mid p x a b y)
  have "(hi - lo) div 2 div len * len \<le> (hi - lo) div 2" by simp
  also have "\<dots> < hi - lo" using 3(1) by simp
  finally show ?case using 3(1,2) by simp
qed (auto intro!: diff_less_mono2)

text \<open>
  The constructor. Reading the first line of an empty file makes the stream fail, and the
  positions it reports afterwards leave nothing to search.
\<close>

definition new_rainbow_table :: "string \<Rightarrow> u64 \<Rightarrow> rainbow_table option" where
  "new_rainbow_table file val =
     (let len = length (takeWhile (\<lambda>c. c \<noteq> CHR 0x0A) file) + 1 in
      if file = [] then Some \<lparr>contents = file, rt_pos = 0, rt_good = False, lineLength = len, rt_value = val\<rparr>
      else if length file mod len \<noteq> 0 then None
      else do {
        (record, good) \<leftarrow> search_record file len val 0 (length file) True;
        Some \<lparr>contents = file, rt_pos = record, rt_good = good, lineLength = len, rt_value = val\<rparr>
      })"

text \<open>The next line that is not empty; the stream is good until a read reaches the end.\<close>

function next_line :: "rainbow_table \<Rightarrow> (string \<times> rainbow_table) option" where
  "next_line t =
     (if \<not> rt_good t then None
      else (let rest = drop (rt_pos t) (contents t);
                line = takeWhile (\<lambda>c. c \<noteq> CHR 0x0A) rest;
                t' = (if length line < length rest then t\<lparr>rt_pos := rt_pos t + length line + 1\<rparr>
                      else t\<lparr>rt_pos := length (contents t), rt_good := False\<rparr>)
            in if line = [] then next_line t' else Some (line, t')))"
  by pat_completeness auto
termination
  by (relation "measure (\<lambda>t. if rt_good t then Suc (length (contents t) - rt_pos t) else 0)") auto

declare next_line.simps [simp del]

text \<open>\<open>getValue\<close>: the next input with the value of the table, or nothing.\<close>

definition getValue_rt :: "rainbow_table \<Rightarrow> (u8 list \<times> rainbow_table) option" where
  "getValue_rt t =
     (case next_line t of
        None \<Rightarrow> Some ([], t\<lparr>rt_good := False\<rparr>)
      | Some (line, t') \<Rightarrow>
          (if length line + 1 \<noteq> lineLength t then None
           else do {
             (lineValue, failed, r) \<leftarrow> read_u64 line;
             Some (if lineValue = rt_value t \<and> \<not> failed then read_bytes r else [], t')
           }))"

declare search_record.simps [simp del]

section \<open>Reading what was printed\<close>

lemma hex_value_char: "d < 16 \<Longrightarrow> hex_value (hex_char d) = Some d"
proof -
  assume "d < 16"
  then have "d = 0 \<or> d = 1 \<or> d = 2 \<or> d = 3 \<or> d = 4 \<or> d = 5 \<or> d = 6 \<or> d = 7 \<or> d = 8 \<or> d = 9 \<or> d = 10 \<or>
    d = 11 \<or> d = 12 \<or> d = 13 \<or> d = 14 \<or> d = 15" by arith
  then show ?thesis by (elim disjE) (simp_all add: hex_char_def hex_value_def Let_def)
qed

lemma hex_value_space: "is_space c \<Longrightarrow> hex_value c = None"
  by (auto simp: is_space_def hex_value_def Let_def)

lemma print_hex_digits: "c \<in> set (print_hex w n) \<Longrightarrow> hex_value c \<noteq> None"
  by (induction w arbitrary: n) (auto simp: hex_value_char)

lemma length_print_hex [simp]: "length (print_hex w n) = w"
  by (induction w arbitrary: n) auto

lemma hex_number_print: "n < 16 ^ w \<Longrightarrow> hex_number (print_hex w n) = n"
proof (induction w arbitrary: n)
  case (Suc w)
  then have "hex_number (print_hex w (n div 16)) = n div 16" by (intro Suc.IH) (simp add: less_mult_imp_div_less)
  then show ?case by (simp add: hex_number_def hex_value_char)
qed (simp add: hex_number_def)

lemma hex_char_upper: "hex_value c \<noteq> None \<Longrightarrow> c \<noteq> CHR ''x'' \<and> c \<noteq> CHR ''X'' \<and> c \<noteq> CHR ''-'' \<and> c \<noteq> CHR ''+'' \<and> \<not> is_space c"
  by (auto simp: hex_value_def Let_def is_space_def)

text \<open>A number of at least two digits, after one blank at most, is read back.\<close>

lemma read_number_print:
  assumes "n < 16 ^ w" "2 \<le> w" "r = [] \<or> hex_value (hd r) = None" "b = [] \<or> b = [CHR '' '']"
  shows "read_number (b @ print_hex w n @ r) = Some (False, n, r)"
proof -
  let ?p = "print_hex w n"
  obtain c d p where p: "?p = c # d # p" using assms(2)
    by (metis Suc_le_length_iff length_print_hex numeral_2_eq_2)
  have digits: "hex_value x \<noteq> None" if "x \<in> set ?p" for x using print_hex_digits that by blast
  have cd: "c \<noteq> CHR ''-''" "c \<noteq> CHR ''+''" "\<not> is_space c" "d \<noteq> CHR ''x''" "d \<noteq> CHR ''X''"
    using hex_char_upper [OF digits, of c] hex_char_upper [OF digits, of d] by (simp_all add: p)
  have 1: "dropWhile is_space (b @ ?p @ r) = ?p @ r" using assms(4) cd by (auto simp: p is_space_def)
  have 2: "skip_prefix (?p @ r) = ?p @ r" using cd by (simp add: p skip_prefix_def)
  have 3: "takeWhile (\<lambda>c. hex_value c \<noteq> None) (?p @ r) = ?p"
    using digits assms(3) by (cases r) (auto simp: takeWhile_append)
  show ?thesis
    unfolding read_number_def Let_def 1 using cd p 2 3 hex_number_print [OF assms(1)] by simp
qed

lemma read_bytes_print:
  "read_bytes (concat (map (\<lambda>b. CHR '' '' # print_hex 2 (unat b)) key)) = key"
proof (induction key)
  case Nil
  then show ?case by (simp add: read_bytes.simps read_number_def skip_prefix_def)
next
  case (Cons b key)
  let ?r = "concat (map (\<lambda>b. CHR '' '' # print_hex 2 (unat b)) key)"
  have lt: "unat b < 16 ^ 2" using unsigned_less [of b] by simp
  have "read_number ([CHR '' ''] @ print_hex 2 (unat b) @ ?r) = Some (False, unat b, ?r)"
    by (rule read_number_print [OF lt]) (cases key; simp add: hex_value_space is_space_def)+
  moreover have "unat b < 2 ^ 31" using lt by simp
  ultimately show ?case using Cons by (subst read_bytes.simps) simp
qed

lemma print_hex_no_newline: "CHR 0x0A \<notin> set (print_hex w n)"
  using print_hex_digits [of "CHR 0x0A" w n] hex_value_space [of "CHR 0x0A"] by (auto simp: is_space_def)

lemma entry_line_no_newline:
  "CHR 0x0A \<notin> set (print_hex 8 v @ concat (map (\<lambda>b. CHR '' '' # print_hex 2 (unat b)) key))"
  by (induction key) (auto simp: print_hex_no_newline)

abbreviation entry_text :: "nat \<Rightarrow> u8 list \<Rightarrow> string" where
  "entry_text v key \<equiv> print_hex 8 v @ concat (map (\<lambda>b. CHR '' '' # print_hex 2 (unat b)) key)"

lemma entry_line_text: "entry_line v key = entry_text v key @ [CHR 0x0A]"
  by (simp add: entry_line_def)

lemma length_entry_text [simp]: "length (entry_text v key) = 8 + 3 * length key"
  by (induction key) auto

lemma read_u64_entry:
  assumes "v < 2 ^ 32" "s = concat (map (\<lambda>b. CHR '' '' # print_hex 2 (unat b)) key) @ r" "r = [] \<or> hd r = CHR 0x0A"
  shows "read_u64 (print_hex 8 v @ s) = Some (word_of_nat v, False, s)"
proof -
  have lt: "v < 16 ^ 8" using assms(1) by simp
  have "s = [] \<or> hex_value (hd s) = None"
    using assms(2,3) by (cases key; cases r) (auto simp: hex_value_space is_space_def)
  then have "read_number (print_hex 8 v @ s) = Some (False, v, s)"
    using read_number_print [OF lt, of s "[]"] by simp
  moreover have "dropWhile is_space (print_hex 8 v @ s) \<noteq> []"
    using read_number_shorter calculation by (metis (no_types, lifting) dropWhile_eq_Nil_conv hex_char_upper
      length_0_conv length_print_hex list.set_sel(1) print_hex_digits UnCI set_append zero_neq_numeral)
  ultimately show ?thesis using assms(1) by (simp add: read_u64_def)
qed
section \<open>Tables of equal lines\<close>

type_synonym rainbow_record = "nat \<times> u8 list"

definition table_of :: "rainbow_record list \<Rightarrow> string" where
  "table_of recs = concat (map (\<lambda>r. entry_line (fst r) (snd r)) recs)"

definition records_ok :: "nat \<Rightarrow> rainbow_record list \<Rightarrow> bool" where
  "records_ok w recs \<longleftrightarrow> sorted (map fst recs) \<and> (\<forall>r \<in> set recs. fst r < 2 ^ 32 \<and> length (snd r) = w)"

definition record_size :: "nat \<Rightarrow> nat" where "record_size w = 9 + 3 * w"

lemma record_size_pos [simp]: "0 < record_size w"
  by (simp add: record_size_def)

lemma length_entry_line [simp]: "length (entry_line v key) = record_size (length key)"
  using length_entry_text [of v key] unfolding entry_line_text record_size_def by (simp only: length_append) simp

lemma table_of_simps [simp]:
  "table_of [] = []" "table_of (r # recs) = entry_line (fst r) (snd r) @ table_of recs"
  by (simp_all add: table_of_def)

lemma length_table: "records_ok w recs \<Longrightarrow> length (table_of recs) = length recs * record_size w"
  by (induction recs) (auto simp: records_ok_def)

lemma records_ok_tl: "records_ok w (r # recs) \<Longrightarrow> records_ok w recs"
  by (simp add: records_ok_def)

lemma drop_table: "records_ok w recs \<Longrightarrow> drop (k * record_size w) (table_of recs) = table_of (drop k recs)"
proof (induction k arbitrary: recs)
  case (Suc k)
  show ?case
  proof (cases recs)
    case (Cons r rs)
    have ok: "records_ok w rs" "length (entry_line (fst r) (snd r)) = record_size w"
      using Suc.prems by (auto simp: Cons records_ok_def)
    have "drop (Suc k * record_size w) (table_of recs) = drop (k * record_size w) (table_of rs)"
      using ok(2) by (simp add: Cons add.commute)
    then show ?thesis using Suc.IH [OF ok(1)] by (simp add: Cons)
  qed simp
qed simp

lemma first_line_table:
  assumes "recs \<noteq> []"
  shows "takeWhile (\<lambda>c. c \<noteq> CHR 0x0A) (table_of recs) = entry_text (fst (hd recs)) (snd (hd recs))"
proof (cases recs)
  case (Cons r rs)
  have "takeWhile (\<lambda>c. c \<noteq> CHR 0x0A) (entry_text (fst r) (snd r) @ CHR 0x0A # table_of rs) = entry_text (fst r) (snd r)"
    using entry_line_no_newline [of "fst r" "snd r"] by (subst takeWhile_append2) auto
  then show ?thesis by (simp add: Cons entry_line_text)
qed (use assms in simp)

lemma read_u64_table:
  assumes "records_ok w recs" "recs \<noteq> []"
  shows "\<exists>s. read_u64 (table_of recs) = Some (word_of_nat (fst (hd recs)), False, s)"
proof (cases recs)
  case (Cons r rs)
  have "fst r < 2 ^ 32" using assms(1) by (simp add: Cons records_ok_def)
  then show ?thesis
    using read_u64_entry [of "fst r" _ "snd r" "CHR 0x0A # table_of rs", OF _ refl] by (simp add: Cons entry_line_def)
qed (use assms in simp)

lemma read_u64_line:
  "v < 2 ^ 32 \<Longrightarrow> read_u64 (entry_text v key) = Some (word_of_nat v, False, concat (map (\<lambda>b. CHR '' '' # print_hex 2 (unat b)) key))"
  using read_u64_entry [of v _ key "[]"] by simp

section \<open>The binary search\<close>

definition first_record :: "nat \<Rightarrow> rainbow_record list \<Rightarrow> nat" where
  "first_record v recs = length (takeWhile (\<lambda>r. fst r < v) recs)"

lemma first_recordI:
  assumes "k \<le> length recs" "\<forall>i < k. fst (recs ! i) < v" "k < length recs \<Longrightarrow> v \<le> fst (recs ! k)"
  shows "first_record v recs = k"
proof -
  have "takeWhile (\<lambda>r. fst r < v) recs = take k recs"
    by (rule takeWhile_eq_take_P_nth) (use assms in auto)
  then show ?thesis using assms(1) by (simp add: first_record_def)
qed

lemma word_of_nat_less_u64: "n < 2 ^ 32 \<Longrightarrow> (word_of_nat n :: u64) < v \<longleftrightarrow> n < unat v"
  by (simp add: word_less_nat_alt unat_of_nat take_bit_nat_eq_self)

lemma word_of_nat_eq_u64: "n < 2 ^ 32 \<Longrightarrow> (word_of_nat n :: u64) = v \<longleftrightarrow> n = unat v"
  by (auto simp: unat_of_nat take_bit_nat_eq_self)

lemma search_table:
  assumes ok: "records_ok w recs"
    and "i \<le> j" "j \<le> length recs" "\<forall>k < i. fst (recs ! k) < unat v" "j < length recs \<Longrightarrow> unat v \<le> fst (recs ! j)"
  shows "search_record (table_of recs) (record_size w) v (i * record_size w) (j * record_size w) True =
    Some (first_record (unat v) recs * record_size w, True)"
  using assms(2-)
proof (induction "j - i" arbitrary: i j rule: less_induct)
  case less
  let ?L = "record_size w"
  show ?case
  proof (cases "i = j")
    case True
    then have "first_record (unat v) recs = i" using less.prems by (intro first_recordI) auto
    then show ?thesis by (subst search_record.simps) (simp add: True)
  next
    case False
    then have ij: "i < j" using less.prems by simp
    define m where "m = i + (j - i) div 2"
    have m: "i \<le> m" "m < j" "m < length recs" using ij less.prems(2) by (auto simp: m_def)
    have "(j * ?L - i * ?L) div 2 div ?L = (j - i) * ?L div (2 * ?L)" by (simp add: div_mult2_eq diff_mult_distrib)
    also have "\<dots> = (j - i) div 2" by (simp add: div_mult_mult2)
    finally have mid: "i * ?L + (j * ?L - i * ?L) div 2 div ?L * ?L = m * ?L" by (simp add: m_def add_mult_distrib)
    have okm: "records_ok w (drop m recs)" using ok by (auto simp: records_ok_def sorted_map drop_map sorted_wrt_drop dest: in_set_dropD)
    obtain s where s: "read_u64 (drop (m * ?L) (table_of recs)) = Some (word_of_nat (fst (recs ! m)), False, s)"
      using read_u64_table [OF okm] m(3) drop_table [OF ok, of m] by (auto simp: hd_drop_conv_nth)
    have lt: "fst (recs ! m) < 2 ^ 32" using ok m(3) by (auto simp: records_ok_def)
    have sorted: "fst (recs ! a) \<le> fst (recs ! b)" if "a \<le> b" "b < length recs" for a b
      using ok that by (auto simp: records_ok_def sorted_iff_nth_mono)
    have step: "search_record (table_of recs) ?L v (i * ?L) (j * ?L) True =
      (if fst (recs ! m) < unat v
       then search_record (table_of recs) ?L v ((if i = m then m + 1 else m) * ?L) (j * ?L) True
       else search_record (table_of recs) ?L v (i * ?L) (m * ?L) True)"
      using ij by (subst search_record.simps) (simp add: Let_def mid s word_of_nat_less_u64 [OF lt] add.commute)
    show ?thesis
    proof (cases "fst (recs ! m) < unat v")
      case True
      have "fst (recs ! k) < unat v" if "k < (if i = m then m + 1 else m)" for k
        using sorted [of k m] that m(3) True by (auto split: if_splits)
      moreover have "j - (if i = m then m + 1 else m) < j - i" "(if i = m then m + 1 else m) \<le> j" using m ij by auto
      ultimately show ?thesis unfolding step using True less.hyps [of j "if i = m then m + 1 else m"] less.prems(2,4)
        by (simp only: if_True simp_thms) blast
    next
      case False
      then show ?thesis unfolding step using m ij less.prems by (auto intro!: less.hyps)
    qed
  qed
qed

section \<open>Looking a value up\<close>

lemma new_rainbow_table_ok:
  assumes ok: "records_ok w recs" and ne: "recs \<noteq> []"
  shows "new_rainbow_table (table_of recs) v =
    Some \<lparr>contents = table_of recs, rt_pos = first_record (unat v) recs * record_size w, rt_good = True,
      lineLength = record_size w, rt_value = v\<rparr>"
proof -
  have ne2: "table_of recs \<noteq> []" "length (table_of recs) mod record_size w = 0"
    using length_table [OF ok] ne by (auto simp: record_size_def)
  have "length (snd (hd recs)) = w" using ok ne by (auto simp: records_ok_def)
  then have len: "length (takeWhile (\<lambda>c. c \<noteq> CHR 0x0A) (table_of recs)) + 1 = record_size w"
    unfolding first_line_table [OF ne] length_entry_text by (simp add: record_size_def)
  have "search_record (table_of recs) (record_size w) v 0 (length (table_of recs)) True =
    Some (first_record (unat v) recs * record_size w, True)"
    using search_table [OF ok, of 0 "length recs" v] length_table [OF ok] by simp
  then show ?thesis using ne2 by (simp add: new_rainbow_table_def Let_def len del: One_nat_def add_Suc_right)
qed

definition table_at :: "nat \<Rightarrow> rainbow_record list \<Rightarrow> u64 \<Rightarrow> nat \<Rightarrow> rainbow_table" where
  "table_at w recs v k = \<lparr>contents = table_of recs, rt_pos = k * record_size w, rt_good = True,
     lineLength = record_size w, rt_value = v\<rparr>"

lemma next_line_end:
  assumes "records_ok w recs"
  shows "next_line (table_at w recs v (length recs)) = None"
  using length_table [OF assms] by (subst next_line.simps) (subst next_line.simps, simp add: table_at_def Let_def)

lemma next_line_record:
  assumes ok: "records_ok w recs" and k: "k < length recs"
  shows "next_line (table_at w recs v k) = Some (entry_text (fst (recs ! k)) (snd (recs ! k)), table_at w recs v (Suc k))"
proof -
  let ?line = "entry_text (fst (recs ! k)) (snd (recs ! k))"
  have ne: "drop k recs \<noteq> []" "hd (drop k recs) = recs ! k" using k by (auto simp: hd_drop_conv_nth)
  have rest: "drop (k * record_size w) (table_of recs) = table_of (drop k recs)" by (rule drop_table [OF ok])
  have line: "takeWhile (\<lambda>c. c \<noteq> CHR 0x0A) (table_of (drop k recs)) = ?line" using first_line_table [OF ne(1)] ne(2) by simp
  have "length (snd (recs ! k)) = w" using ok k by (auto simp: records_ok_def)
  then have len: "Suc (length ?line) = record_size w" by (simp only: length_entry_text) (simp add: record_size_def)
  have "table_of (drop k recs) = ?line @ CHR 0x0A # table_of (drop (Suc k) recs)"
    using k by (simp add: Cons_nth_drop_Suc [symmetric] entry_line_text)
  then have lt: "length ?line < length (table_of (drop k recs))" by (simp only: length_append) simp
  have "?line \<noteq> []" by (cases "print_hex 8 (fst (recs ! k))") (auto dest: arg_cong [of _ _ length])
  then show ?thesis
    by (subst next_line.simps)
      (use lt len in \<open>simp add: table_at_def Let_def rest line del: length_append append_is_Nil_conv\<close>)
qed

lemma getValue_end:
  "records_ok w recs \<Longrightarrow> getValue_rt (table_at w recs v (length recs)) = Some ([], (table_at w recs v (length recs))\<lparr>rt_good := False\<rparr>)"
  by (simp add: getValue_rt_def next_line_end)

lemma getValue_record:
  assumes ok: "records_ok w recs" and k: "k < length recs"
  shows "getValue_rt (table_at w recs v k) =
    Some (if fst (recs ! k) = unat v then snd (recs ! k) else [], table_at w recs v (Suc k))"
proof -
  have r: "fst (recs ! k) < 2 ^ 32" "length (snd (recs ! k)) = w" using ok k by (auto simp: records_ok_def)
  have "length (entry_text (fst (recs ! k)) (snd (recs ! k))) + 1 = record_size w"
    using r(2) by (simp only: length_entry_text) (simp add: record_size_def)
  then show ?thesis
    using next_line_record [OF ok k, of v] read_u64_line [OF r(1), of "snd (recs ! k)"]
    by (simp add: getValue_rt_def table_at_def word_of_nat_eq_u64 [OF r(1)] read_bytes_print del: length_append)
qed

text \<open>What \<open>n\<close> calls of \<open>getValue\<close> return.\<close>

fun lookups :: "nat \<Rightarrow> rainbow_table \<Rightarrow> u8 list list option" where
  "lookups 0 t = Some []"
| "lookups (Suc n) t = do { (x, t') \<leftarrow> getValue_rt t; xs \<leftarrow> lookups n t'; Some (x # xs) }"

lemma lookups_Suc: "getValue_rt t = Some (x, t') \<Longrightarrow> lookups n t' = Some xs \<Longrightarrow> lookups (Suc n) t = Some (x # xs)"
  by simp

lemma lookups_from:
  assumes ok: "records_ok w recs" and "k \<le> length recs"
  shows "lookups (Suc (length (takeWhile (\<lambda>r. fst r = unat v) (drop k recs)))) (table_at w recs v k) =
    Some (map snd (takeWhile (\<lambda>r. fst r = unat v) (drop k recs)) @ [[]])"
  using assms(2)
proof (induction "length recs - k" arbitrary: k)
  case 0
  then have "k = length recs" by simp
  then show ?case by (simp add: getValue_end [OF ok])
next
  case (Suc n)
  then have k: "k < length recs" by simp
  then have d: "drop k recs = recs ! k # drop (Suc k) recs" by (simp add: Cons_nth_drop_Suc)
  show ?case
  proof (cases "fst (recs ! k) = unat v")
    case True
    have "lookups (Suc (length (takeWhile (\<lambda>r. fst r = unat v) (drop (Suc k) recs)))) (table_at w recs v (Suc k)) =
      Some (map snd (takeWhile (\<lambda>r. fst r = unat v) (drop (Suc k) recs)) @ [[]])"
      using Suc.hyps(2) k by (intro Suc.hyps(1)) auto
    then show ?thesis using True getValue_record [OF ok k, of v] lookups_Suc by (simp add: d del: lookups.simps(2))
  next
    case False
    then show ?thesis using getValue_record [OF ok k, of v] by (simp add: d)
  qed
qed

lemma filter_sorted_records:
  assumes "sorted (map fst recs)"
  shows "filter (\<lambda>r. fst r = v) recs = takeWhile (\<lambda>r. fst r = v) (drop (first_record v recs) recs)"
  using assms
proof (induction recs)
  case (Cons r recs)
  show ?case
  proof (cases "fst r < v")
    case True
    then show ?thesis using Cons by (simp add: first_record_def)
  next
    case ge: False
    show ?thesis
    proof (cases "fst r = v")
      case True
      moreover have "takeWhile (\<lambda>r. fst r < v) recs = []" using Cons.prems True by (cases recs) auto
      ultimately show ?thesis using Cons by (simp add: first_record_def)
    next
      case False
      then have "\<forall>x \<in> set recs. fst x \<noteq> v" using Cons.prems ge by auto
      then have "filter (\<lambda>r. fst r = v) recs = []" by (simp add: filter_empty_conv)
      then show ?thesis using False ge by (simp add: first_record_def)
    qed
  qed
qed simp

lemma rainbow_lookup:
  assumes "records_ok w recs"
  shows "\<exists>t. new_rainbow_table (table_of recs) v = Some t \<and>
    lookups (Suc (length (filter (\<lambda>r. fst r = unat v) recs))) t = Some (map snd (filter (\<lambda>r. fst r = unat v) recs) @ [[]])"
proof (cases "recs = []")
  case True
  have "next_line t = None" if "\<not> rt_good t" for t using that by (subst next_line.simps) simp
  then show ?thesis by (simp add: True new_rainbow_table_def Let_def getValue_rt_def)
next
  case False
  have "first_record (unat v) recs \<le> length recs" by (simp add: first_record_def length_takeWhile_le)
  from lookups_from [OF assms this, of v] show ?thesis
    using new_rainbow_table_ok [OF assms False, of v] filter_sorted_records [of recs "unat v"] assms
    by (simp add: records_ok_def table_at_def)
qed

lemma lookups_not_good: "\<not> rt_good t \<Longrightarrow> lookups n t = Some xs \<Longrightarrow> x \<in> set xs \<Longrightarrow> x = []"
proof (induction n arbitrary: t xs)
  case (Suc n)
  have "next_line t = None" using Suc.prems(1) by (subst next_line.simps) simp
  then have "getValue_rt t = Some ([], t\<lparr>rt_good := False\<rparr>)" by (simp add: getValue_rt_def)
  then show ?case using Suc.prems Suc.IH [of "t\<lparr>rt_good := False\<rparr>"] by (auto split: bind_splits)
qed simp

lemma lookups_records:
  assumes ok: "records_ok w recs"
  shows "k \<le> length recs \<Longrightarrow> lookups n (table_at w recs v k) = Some xs \<Longrightarrow> x \<in> set xs \<Longrightarrow> x \<noteq> [] \<Longrightarrow>
    (unat v, x) \<in> set recs"
proof (induction n arbitrary: k xs)
  case (Suc n)
  show ?case
  proof (cases "k = length recs")
    case True
    then show ?thesis
      using Suc.prems getValue_end [OF ok, of v] lookups_not_good [of "(table_at w recs v k)\<lparr>rt_good := False\<rparr>" n]
      by (auto split: bind_splits)
  next
    case False
    then have k: "k < length recs" using Suc.prems(1) by simp
    from Suc.prems(2) obtain ys where ys: "lookups n (table_at w recs v (Suc k)) = Some ys"
      "xs = (if fst (recs ! k) = unat v then snd (recs ! k) else []) # ys"
      using getValue_record [OF ok k, of v] by (auto split: bind_splits)
    have "(unat v, snd (recs ! k)) \<in> set recs" if "fst (recs ! k) = unat v"
      using k that by (metis nth_mem prod.collapse)
    then show ?thesis using Suc.IH [OF _ ys(1)] k Suc.prems(3,4) ys(2) by (auto split: if_splits)
  qed
qed simp

lemma table_lookups_sound:
  assumes ok: "records_ok w recs" and t: "new_rainbow_table (table_of recs) v = Some t"
    and xs: "lookups n t = Some xs" "x \<in> set xs" "x \<noteq> []"
  shows "(unat v, x) \<in> set recs"
proof (cases "recs = []")
  case True
  then have "\<not> rt_good t" using t by (auto simp: new_rainbow_table_def Let_def)
  then show ?thesis using lookups_not_good xs by blast
next
  case False
  have "first_record (unat v) recs \<le> length recs" by (simp add: first_record_def length_takeWhile_le)
  moreover have "t = table_at w recs v (first_record (unat v) recs)"
    using t new_rainbow_table_ok [OF ok False, of v] by (simp add: table_at_def)
  ultimately show ?thesis using lookups_records [OF ok] xs by blast
qed

section \<open>Generated tables\<close>

text \<open>The keys that the lines of a generated table print, and their records.\<close>

fun table_keys :: "u32 \<Rightarrow> u8 list list \<Rightarrow> hash_key list" where
  "table_keys ext_ip [] = []"
| "table_keys ext_ip (rnd # rnds) = random_key rnd # nat_reply_key ext_ip (random_key rnd) # table_keys ext_ip rnds"

definition nat_record :: "nat \<Rightarrow> hash_key \<Rightarrow> rainbow_record" where
  "nat_record n key = (unat (hash_function key) mod n, key_bytes key)"

fun split_lines :: "string \<Rightarrow> string list" where
  "split_lines [] = []"
| "split_lines (c # s) =
     (if c = CHR 0x0A then [c] # split_lines s
      else case split_lines s of [] \<Rightarrow> [[c]] | l # ls \<Rightarrow> (c # l) # ls)"

definition first_field :: "string \<Rightarrow> string" where
  "first_field l = takeWhile (\<lambda>c. c \<noteq> CHR '' '') l"

lemma split_lines_line: "CHR 0x0A \<notin> set l \<Longrightarrow> split_lines (l @ CHR 0x0A # s) = (l @ [CHR 0x0A]) # split_lines s"
  by (induction l) auto

lemma split_entry: "split_lines (entry_line v key @ s) = entry_line v key # split_lines s"
  using split_lines_line [OF entry_line_no_newline, of v key s] by (simp add: entry_line_text)

lemma split_lines_table: "split_lines (table_of recs) = map (\<lambda>r. entry_line (fst r) (snd r)) recs"
  by (induction recs) (simp_all add: split_entry)

lemma make_rainbow_table_lines:
  "make_rainbow_table generate_entry ext_ip rnds = table_of (map (nat_record RING_SIZE) (table_keys ext_ip rnds))"
  by (induction rnds) (simp_all add: generate_entry_def nat_record_def)

lemma length_le_bytes [simp]: "length (le_bytes n v) = n"
  by (simp add: le_bytes_def)

lemma length_key_bytes [simp]: "length (key_bytes k) = 13"
  by (simp add: key_bytes_def)

lemma first_field_entry:
  assumes "key \<noteq> []"
  shows "first_field (entry_line v key) = print_hex 8 v"
proof (cases key)
  case (Cons b bs)
  have "CHR '' '' \<notin> set (print_hex 8 v)"
    using print_hex_digits [of "CHR '' ''" 8 v] hex_value_space [of "CHR '' ''"] by (auto simp: is_space_def)
  then show ?thesis unfolding first_field_def entry_line_def Cons by (subst takeWhile_append2) auto
qed (use assms in simp)

lemma of_hex_char: "d < 16 \<Longrightarrow> of_char (hex_char d) = (if d < 10 then 48 + d else 55 + d)"
proof -
  assume "d < 16"
  then have "d = 0 \<or> d = 1 \<or> d = 2 \<or> d = 3 \<or> d = 4 \<or> d = 5 \<or> d = 6 \<or> d = 7 \<or> d = 8 \<or> d = 9 \<or> d = 10 \<or>
    d = 11 \<or> d = 12 \<or> d = 13 \<or> d = 14 \<or> d = 15" by arith
  then show ?thesis by (elim disjE) (simp_all add: hex_char_def)
qed

lemma hex_char_le: "a < 16 \<Longrightarrow> b < 16 \<Longrightarrow> hex_char a \<le> hex_char b \<longleftrightarrow> a \<le> b"
  by (auto simp: less_eq_char_def of_hex_char)

lemma snoc_le: "length xs = length ys \<Longrightarrow> xs @ [x] \<le> ys @ [y] \<longleftrightarrow> xs < ys \<or> xs = ys \<and> x \<le> (y :: char)"
  by (induction xs ys rule: list_induct2) (auto simp: order_le_less)

text \<open>The order of the texts is the order of the numbers.\<close>

lemma print_hex_le: "a < 16 ^ w \<Longrightarrow> b < 16 ^ w \<Longrightarrow> print_hex w a \<le> print_hex w b \<longleftrightarrow> a \<le> b"
proof (induction w arbitrary: a b)
  case (Suc w)
  have lt: "a div 16 < 16 ^ w" "b div 16 < 16 ^ w" using Suc.prems by (simp_all add: less_mult_imp_div_less)
  have IH: "print_hex w (a div 16) \<le> print_hex w (b div 16) \<longleftrightarrow> a div 16 \<le> b div 16"
    "print_hex w (b div 16) \<le> print_hex w (a div 16) \<longleftrightarrow> b div 16 \<le> a div 16"
    using Suc.IH lt by blast+
  have "print_hex (Suc w) a \<le> print_hex (Suc w) b \<longleftrightarrow> a div 16 < b div 16 \<or> a div 16 = b div 16 \<and> a mod 16 \<le> b mod 16"
    using IH by (simp add: snoc_le hex_char_le) (metis antisym less_le_not_le order_refl)
  also have "\<dots> \<longleftrightarrow> a \<le> b"
    using div_mult_mod_eq [of a 16] div_mult_mod_eq [of b 16] mod_less_divisor [of 16 a] mod_less_divisor [of 16 b]
    by (cases "a div 16" "b div 16" rule: linorder_cases) linarith+
  finally show ?case .
qed simp

lemma mset_map_preimage: "mset xs = image_mset f (mset ys) \<Longrightarrow> \<exists>zs. xs = map f zs \<and> mset zs = mset ys"
proof (induction xs arbitrary: ys)
  case (Cons x xs)
  then have "x \<in># image_mset f (mset ys)" by (metis list.set_intros(1) set_mset_mset)
  then obtain y where y: "y \<in> set ys" "x = f y" by auto
  then have ys: "mset ys = add_mset y (mset (remove1 y ys))" by simp
  have "mset (x # xs) = image_mset f (add_mset y (mset (remove1 y ys)))" using Cons.prems ys by metis
  then have "mset xs = image_mset f (mset (remove1 y ys))" using y(2) by (simp del: mset_remove1)
  then obtain zs where "xs = map f zs" "mset zs = mset (remove1 y ys)" using Cons.IH by blast
  then have "x # xs = map f (y # zs) \<and> mset (y # zs) = mset ys" using y(2) ys by (metis list.simps(9) mset.simps(2))
  then show ?case by (rule exI [of _ "y # zs"])
qed simp

lemma generated_records:
  fixes sort_lines :: "string list \<Rightarrow> string list"
  assumes "\<And>ls. mset (sort_lines ls) = mset ls" "\<And>ls. sorted (map first_field (sort_lines ls))"
  shows "\<exists>ks. concat (sort_lines (split_lines (make_rainbow_table generate_entry ext_ip rnds))) = table_of (map (nat_record RING_SIZE) ks) \<and>
    records_ok 13 (map (nat_record RING_SIZE) ks) \<and> mset ks = mset (table_keys ext_ip rnds)"
proof -
  let ?ls = "split_lines (make_rainbow_table generate_entry ext_ip rnds)"
  have "?ls = map generate_entry (table_keys ext_ip rnds)"
    by (simp add: make_rainbow_table_lines split_lines_table generate_entry_def nat_record_def)
  then have "mset (sort_lines ?ls) = image_mset generate_entry (mset (table_keys ext_ip rnds))" using assms(1) by simp
  then obtain ks where ks: "sort_lines ?ls = map generate_entry ks" "mset ks = mset (table_keys ext_ip rnds)"
    using mset_map_preimage by blast
  let ?recs = "map (nat_record RING_SIZE) ks"
  have size: "unat (hash_function k) mod RING_SIZE < 2 ^ 32" for k
    using mod_less_divisor [of RING_SIZE "unat (hash_function k)"] by (simp add: RING_SIZE_def del: mod_less_divisor)
  have le: "(print_hex 8 (unat (hash_function a) mod RING_SIZE) \<le> print_hex 8 (unat (hash_function b) mod RING_SIZE)) =
    (unat (hash_function a) mod RING_SIZE \<le> unat (hash_function b) mod RING_SIZE)" for a b
    using size [of a] size [of b] by (intro print_hex_le) simp_all
  have ne: "key_bytes k \<noteq> []" for k by (auto dest: arg_cong [of _ _ length])
  have "sorted (map (\<lambda>k. first_field (generate_entry k)) ks)" using assms(2) [of ?ls] ks(1) by (simp add: comp_def)
  then have "sorted (map fst ?recs)"
    by (simp add: generate_entry_def first_field_entry ne nat_record_def sorted_map le comp_def)
  then have "records_ok 13 ?recs" using size by (auto simp: records_ok_def nat_record_def)
  moreover have "concat (sort_lines ?ls) = table_of ?recs"
    unfolding ks(1) by (simp add: table_of_def generate_entry_def [abs_def] nat_record_def comp_def)
  ultimately show ?thesis using ks(2) by blast
qed

lemma rainbow_lookup_keys:
  fixes sort_lines :: "string list \<Rightarrow> string list"
  assumes "\<And>ls. mset (sort_lines ls) = mset ls" "\<And>ls. sorted (map first_field (sort_lines ls))"
  shows "\<exists>t keys. new_rainbow_table (concat (sort_lines (split_lines (make_rainbow_table generate_entry ext_ip rnds)))) v = Some t \<and>
    lookups (Suc (length keys)) t = Some (map key_bytes keys @ [[]]) \<and>
    mset keys = filter_mset (\<lambda>k. unat (hash_function k) mod RING_SIZE = unat v) (mset (table_keys ext_ip rnds))"
proof -
  obtain ks where ks: "concat (sort_lines (split_lines (make_rainbow_table generate_entry ext_ip rnds))) = table_of (map (nat_record RING_SIZE) ks)"
    "records_ok 13 (map (nat_record RING_SIZE) ks)" "mset ks = mset (table_keys ext_ip rnds)"
    using generated_records [OF assms] by blast
  have "filter (\<lambda>r. fst r = unat v) (map (nat_record RING_SIZE) ks) =
    map (nat_record RING_SIZE) (filter (\<lambda>k. unat (hash_function k) mod RING_SIZE = unat v) ks)"
    by (simp add: filter_map comp_def nat_record_def)
  then obtain t where "new_rainbow_table (table_of (map (nat_record RING_SIZE) ks)) v = Some t"
    "lookups (Suc (length (filter (\<lambda>k. unat (hash_function k) mod RING_SIZE = unat v) ks))) t =
      Some (map key_bytes (filter (\<lambda>k. unat (hash_function k) mod RING_SIZE = unat v) ks) @ [[]])"
    using rainbow_lookup [OF ks(2), of v] by (auto simp: comp_def nat_record_def)
  then show ?thesis using ks(1,3) mset_filter by (metis (no_types, lifting))
qed

text \<open>
  C29: The whole way of a rainbow table. The generator of the hash ring prints its lines, and a tool
  brings them in the order of their first field. In the resulting file the search for any value
  ends, and the calls of \<open>getValue\<close> return the keys that the generator printed for exactly
  this value, and after them nothing.
\<close>

theorem rainbow_table_round_trip:
  fixes sort_lines :: "string list \<Rightarrow> string list"
  assumes "\<And>ls. mset (sort_lines ls) = mset ls" "\<And>ls. sorted (map first_field (sort_lines ls))"
  shows "\<exists>t keys. new_rainbow_table (concat (sort_lines (split_lines (make_rainbow_table generate_entry ext_ip rnds)))) v = Some t \<and>
    lookups (Suc (length keys)) t = Some (map key_bytes keys @ [[]]) \<and>
    mset keys = filter_mset (\<lambda>k. unat (hash_function k) mod RING_SIZE = unat v) (mset (table_keys ext_ip rnds))"
  by (rule rainbow_lookup_keys [OF assms])

theorem rainbow_table_round_trip_witness:
  "\<exists>t keys. new_rainbow_table (concat (sort_key first_field (split_lines
      (make_rainbow_table generate_entry 0xC0A80001 [[10, 0, 0, 1, 8, 8, 8, 8, 0, 1, 2, 3, 4]])))) 7 = Some t \<and>
    lookups (Suc (length keys)) t = Some (map key_bytes keys @ [[]])"
  using rainbow_table_round_trip [where sort_lines = "sort_key first_field" and ext_ip = "0xC0A80001"
    and rnds = "[[10, 0, 0, 1, 8, 8, 8, 8, 0, 1, 2, 3, 4]]" and v = 7]
  by auto

end
