(* ===== verification/Reconciliation.thy ===== *)
theory Reconciliation
  imports Rainbow_Table
begin

text \<open>
  Havoc reconciliation, the first part of \<open>KleeHandler::processTestCase\<close> in
  \<open>src/tools/castan/castan.cpp\<close>. Symbolic execution replaces each hash by a fresh symbolic
  value, a havoc; at the end of a path the tool looks for inputs of the network function that
  really hash to the values the path needs. An expression of one byte is a function of the
  assignment, the path constraint a predicate on assignments; the solver and the simplifier of
  constraints are parameters. A failed assertion and a null pointer are the result \<open>None\<close>.
\<close>

type_synonym 'a byte_expr = "'a \<Rightarrow> u8"

type_synonym 'a path_constraint = "'a \<Rightarrow> bool"

record 'a sym_array =
  array_size :: nat
  array_bytes :: "'a \<Rightarrow> u8 list"

text \<open>A symbolic object: its name, its bytes if the address space still has it, its array.\<close>

record 'a symbolic =
  sym_name :: string
  sym_object :: "'a byte_expr list option"
  sym_array :: "'a sym_array"

record 'a havoc_solver =
  getInitialValues :: "'a path_constraint \<Rightarrow> 'a sym_array list \<Rightarrow> u8 list list option"
  mayBeTrue :: "'a path_constraint \<Rightarrow> 'a path_constraint \<Rightarrow> bool option"
  simplifyExpr :: "'a path_constraint \<Rightarrow> 'a byte_expr \<Rightarrow> 'a byte_expr"

type_synonym 'a havoc = "'a byte_expr list \<times> 'a sym_array option"

type_synonym 'a havoc_packet = "'a sym_array \<times> 'a havoc list"

section \<open>Collecting the havocs\<close>

fun collect_havocs ::
  "'a havoc_solver \<Rightarrow> 'a path_constraint \<Rightarrow> 'a symbolic list \<Rightarrow> 'a havoc_packet list \<Rightarrow> 'a havoc_packet list option" where
  "collect_havocs sol C [] havocs = Some havocs"
| "collect_havocs sol C (s # symbolics) havocs =
     (if sym_name s = ''castan_packet'' then collect_havocs sol C symbolics (havocs @ [(sym_array s, [])])
      else if sym_name s = ''castan_havoc_in'' then
        (case sym_object s of
           None \<Rightarrow> None
         | Some os \<Rightarrow>
             (if havocs = [] then None
              else collect_havocs sol C symbolics (butlast havocs @
                [(fst (last havocs), snd (last havocs) @ [(map (simplifyExpr sol C) os, None)])])))
      else if sym_name s = ''castan_havoc_out'' then
        (if havocs = [] \<or> snd (last havocs) = [] then None
         else collect_havocs sol C symbolics (butlast havocs @
           [(fst (last havocs), butlast (snd (last havocs)) @ [(fst (last (snd (last havocs))), Some (sym_array s))])]))
      else collect_havocs sol C symbolics havocs)"

section \<open>One packet\<close>

text \<open>The value of a havoc, least significant byte first.\<close>

definition havoc_value :: "u8 list \<Rightarrow> u64" where
  "havoc_value bytes = foldr (\<lambda>b val. push_bit 8 val OR ucast b) bytes 0"

text \<open>\<open>Expr::createTempRead\<close> of a whole array; other widths fail an assertion.\<close>

definition temp_read :: "u8 list \<Rightarrow> nat" where
  "temp_read bytes = foldr (\<lambda>b val. 256 * val + unat b) bytes 0"

fun fix_values ::
  "'a sym_array list \<Rightarrow> u8 list list \<Rightarrow> 'a path_constraint \<Rightarrow> (u64 list \<times> 'a path_constraint) option" where
  "fix_values (arr # arrs) (bytes # valueBytes) C =
     (let val = havoc_value bytes in
      if array_size arr \<notin> {1, 2, 4, 8} then None
      else do {
        (vs, C') \<leftarrow> fix_values arrs valueBytes (\<lambda>a. C a \<and> unat val = temp_read (array_bytes arr a));
        Some (val # vs, C')
      })"
| "fix_values (arr # arrs) [] C = None"
| "fix_values [] valueBytes C = Some ([], C)"

definition input_query :: "u8 list \<Rightarrow> 'a byte_expr list \<Rightarrow> 'a path_constraint \<Rightarrow> 'a path_constraint" where
  "input_query havocInput exprs query = (\<lambda>a. list_all2 (\<lambda>x e. e a = x) havocInput exprs \<and> query a)"

definition table_left :: "rainbow_table \<Rightarrow> nat" where
  "table_left t = (if rt_good t then Suc (length (contents t) - rt_pos t) else 0)"

lemma next_line_left: "next_line t = Some (line, t') \<Longrightarrow> table_left t' < table_left t"
proof (induction "table_left t" arbitrary: t rule: less_induct)
  case (less t)
  let ?rest = "drop (rt_pos t) (contents t)"
  let ?line = "takeWhile (\<lambda>c. c \<noteq> CHR 0x0A) ?rest"
  define u where "u = (if length ?line < length ?rest then t\<lparr>rt_pos := rt_pos t + length ?line + 1\<rparr>
    else t\<lparr>rt_pos := length (contents t), rt_good := False\<rparr>)"
  have good: "rt_good t" using less.prems by (subst (asm) next_line.simps) (auto split: if_splits)
  have u: "table_left u < table_left t" using good by (auto simp: u_def table_left_def)
  have eq: "next_line t = (if ?line = [] then next_line u else Some (?line, u))"
    by (subst next_line.simps) (simp only: good Let_def u_def not_True_eq_False if_False)
  show ?case
  proof (cases "?line = []")
    case True
    then show ?thesis using less.hyps [OF u] less.prems eq u by simp
  next
    case False
    then show ?thesis using less.prems eq u by simp
  qed
qed

lemma getValue_left: "getValue_rt t = Some (x, t') \<Longrightarrow> x \<noteq> [] \<Longrightarrow> table_left t' < table_left t"
  by (auto simp: getValue_rt_def dest: next_line_left split: option.splits if_splits bind_splits)

text \<open>
  The loop over the inputs of one value: the query with the first input that the constraint
  allows, or \<open>None\<close> inside when the table has no more inputs.
\<close>

function try_inputs ::
  "'a havoc_solver \<Rightarrow> 'a path_constraint \<Rightarrow> 'a byte_expr list \<Rightarrow> 'a path_constraint \<Rightarrow> rainbow_table
   \<Rightarrow> 'a path_constraint option option" where
  "try_inputs sol C exprs query rt =
     (case getValue_rt rt of
        None \<Rightarrow> None
      | Some (havocInput, rt') \<Rightarrow>
          (if havocInput = [] then Some None
           else if length havocInput \<noteq> length exprs then None
           else if mayBeTrue sol C (input_query havocInput exprs query) = Some True
           then Some (Some (input_query havocInput exprs query))
           else try_inputs sol C exprs query rt'))"
  by pat_completeness auto
termination
  by (relation "measure (\<lambda>(sol, C, exprs, query, rt). table_left rt)") (auto dest: getValue_left)

declare try_inputs.simps [simp del]

fun reconcile_havocs ::
  "string \<Rightarrow> 'a havoc_solver \<Rightarrow> 'a path_constraint \<Rightarrow> 'a havoc list \<Rightarrow> u64 list \<Rightarrow> 'a path_constraint \<Rightarrow> nat
   \<Rightarrow> ('a path_constraint \<times> nat) option" where
  "reconcile_havocs RainbowTableFile sol C (havoc # havocs) (val # vs) query reconciled_havocs =
     do {
       rt \<leftarrow> new_rainbow_table RainbowTableFile val;
       r \<leftarrow> try_inputs sol C (fst havoc) query rt;
       (case r of
          Some new_query \<Rightarrow> reconcile_havocs RainbowTableFile sol C havocs vs new_query (reconciled_havocs + 1)
        | None \<Rightarrow> reconcile_havocs RainbowTableFile sol C havocs vs query reconciled_havocs)
     }"
| "reconcile_havocs RainbowTableFile sol C (havoc # havocs) [] query reconciled_havocs = None"
| "reconcile_havocs RainbowTableFile sol C [] vs query reconciled_havocs = Some (query, reconciled_havocs)"

text \<open>The constraint after a packet, and whether all its havocs are reconciled.\<close>

definition reconcile_packet ::
  "string \<Rightarrow> 'a havoc_solver \<Rightarrow> 'a path_constraint \<Rightarrow> 'a havoc list \<Rightarrow> ('a path_constraint \<times> bool) option" where
  "reconcile_packet RainbowTableFile sol C havocs =
     (if havocs = [] then Some (C, True)
      else do {
        objs \<leftarrow> those (map snd havocs);
        valueBytes \<leftarrow> getInitialValues sol C objs;
        (vs, C') \<leftarrow> fix_values objs valueBytes C;
        (query, reconciled_havocs) \<leftarrow> reconcile_havocs RainbowTableFile sol C' havocs vs (\<lambda>_. True) 0;
        Some (\<lambda>a. C' a \<and> query a, \<not> reconciled_havocs < length objs)
      })"

fun reconcile_packets ::
  "string \<Rightarrow> 'a havoc_solver \<Rightarrow> 'a havoc_packet list \<Rightarrow> 'a path_constraint \<Rightarrow> nat \<Rightarrow> ('a path_constraint \<times> nat) option" where
  "reconcile_packets RainbowTableFile sol [] C reconciled_packets = Some (C, reconciled_packets)"
| "reconcile_packets RainbowTableFile sol (packet # packets) C reconciled_packets =
     do {
       (C', done) \<leftarrow> reconcile_packet RainbowTableFile sol C (snd packet);
       reconcile_packets RainbowTableFile sol packets C' (if done then reconciled_packets + 1 else reconciled_packets)
     }"

section \<open>A whole path\<close>

datatype 'a test_case = Exited | Ignored | Emitted "'a path_constraint"

definition processTestCase ::
  "string \<Rightarrow> 'a havoc_solver \<Rightarrow> bool \<Rightarrow> bool \<Rightarrow> bool \<Rightarrow> 'a symbolic list \<Rightarrow> 'a path_constraint \<Rightarrow> 'a test_case option" where
  "processTestCase RainbowTableFile sol errorMessage ExitOnError OutputUnreconciled symbolics C =
     (if errorMessage \<and> ExitOnError then Some Exited
      else do {
        havocs \<leftarrow> collect_havocs sol C symbolics [];
        (C', reconciled_packets) \<leftarrow> reconcile_packets RainbowTableFile sol havocs C 0;
        Some (if reconciled_packets < length havocs \<and> \<not> OutputUnreconciled then Ignored else Emitted C')
      })"

section \<open>Values of bytes\<close>

lemma temp_read_bound: "temp_read bytes < 256 ^ length bytes"
proof (induction bytes)
  case (Cons b bytes)
  have "unat b < 256" using unsigned_less [of b] by simp
  then have "256 * temp_read bytes + unat b < 256 * (temp_read bytes + 1)" by simp
  also have "\<dots> \<le> 256 * 256 ^ length bytes" using Cons by simp
  finally show ?case by (simp add: temp_read_def)
qed (simp add: temp_read_def)

lemma unat_shift_byte:
  fixes v :: u64 and b :: u8
  assumes "unat v < 2 ^ 56"
  shows "unat (push_bit 8 v OR ucast b) = 256 * unat v + unat b"
proof -
  have b: "unat b < 256" using unsigned_less [of b] by simp
  have "push_bit 8 v OR ucast b = push_bit 8 v + ucast b"
    by (rule disjunctive_add [symmetric]) (auto simp: bit_simps dest: bit_imp_le_length)
  also have "\<dots> = word_of_nat (256 * unat v + unat b)" by (simp add: push_bit_eq_mult unsigned_ucast_eq mult.commute)
  finally have w: "push_bit 8 v OR ucast b = word_of_nat (256 * unat v + unat b)" .
  have "256 * unat v + unat b < 2 ^ LENGTH(64)" using assms b by simp
  then show ?thesis unfolding w by (simp only: unat_of_nat mod_less)
qed

lemma havoc_value_read: "length bytes \<le> 8 \<Longrightarrow> unat (havoc_value bytes) = temp_read bytes"
proof (induction bytes)
  case (Cons b bytes)
  then have IH: "unat (havoc_value bytes) = temp_read bytes" by simp
  have "temp_read bytes < 256 ^ length bytes" by (rule temp_read_bound)
  also have "\<dots> \<le> 256 ^ 7" using Cons.prems by (intro power_increasing) auto
  finally have "unat (havoc_value bytes) < 2 ^ 56" using IH by simp
  then show ?case using unat_shift_byte [of "havoc_value bytes" b] IH by (simp add: havoc_value_def temp_read_def)
qed (simp add: havoc_value_def temp_read_def)

section \<open>What a sound solver and a sound table give\<close>

definition array_ok :: "'a sym_array \<Rightarrow> bool" where
  "array_ok arr \<longleftrightarrow> (\<forall>a. length (array_bytes arr a) = array_size arr)"

text \<open>
  The solver answers for some assignment that satisfies the constraint; the simplifier keeps
  values under the constraint.
\<close>

definition havoc_solver_ok :: "'a havoc_solver \<Rightarrow> bool" where
  "havoc_solver_ok sol \<longleftrightarrow>
     (\<forall>C arrs vs. getInitialValues sol C arrs = Some vs \<longrightarrow> (\<exists>a. C a \<and> vs = map (\<lambda>arr. array_bytes arr a) arrs)) \<and>
     (\<forall>C q. mayBeTrue sol C q = Some True \<longrightarrow> (\<exists>a. C a \<and> q a)) \<and>
     (\<forall>C e a. C a \<longrightarrow> simplifyExpr sol C e a = e a)"

lemma fix_values_ok:
  assumes "fix_values arrs (map (\<lambda>arr. array_bytes arr a) arrs) C = Some (vs, C')" "\<forall>arr \<in> set arrs. array_ok arr" "C a"
  shows "C' a \<and> length vs = length arrs \<and>
    (\<forall>b. C' b \<longrightarrow> C b \<and> (\<forall>i < length arrs. unat (vs ! i) = temp_read (array_bytes (arrs ! i) b)))"
  using assms
proof (induction arrs arbitrary: C vs)
  case (Cons arr arrs)
  let ?v = "havoc_value (array_bytes arr a)"
  let ?C = "\<lambda>b. C b \<and> unat ?v = temp_read (array_bytes arr b)"
  obtain ws where ws: "fix_values arrs (map (\<lambda>arr. array_bytes arr a) arrs) ?C = Some (ws, C')" "vs = ?v # ws"
    and size: "array_size arr \<in> {1, 2, 4, 8}"
    using Cons.prems(1) by (auto simp: Let_def split: if_splits bind_splits)
  have "length (array_bytes arr a) \<le> 8" using size Cons.prems(2) by (auto simp: array_ok_def)
  then have "?C a" using Cons.prems(3) havoc_value_read by simp
  moreover have "\<forall>arr \<in> set arrs. array_ok arr" using Cons.prems(2) by simp
  ultimately have IH: "C' a \<and> length ws = length arrs \<and>
    (\<forall>b. C' b \<longrightarrow> ?C b \<and> (\<forall>i < length arrs. unat (ws ! i) = temp_read (array_bytes (arrs ! i) b)))"
    using Cons.IH [OF ws(1)] by blast
  have "C b \<and> (\<forall>i < length (arr # arrs). unat (vs ! i) = temp_read (array_bytes ((arr # arrs) ! i) b))" if "C' b" for b
    using IH that ws(2) less_Suc_eq_0_disj by auto
  then show ?case using ws(2) IH by simp
qed simp

lemma try_inputs_lookup:
  "try_inputs sol C exprs query rt = Some (Some q) \<Longrightarrow>
    \<exists>n xs x. lookups n rt = Some xs \<and> x \<in> set xs \<and> x \<noteq> [] \<and> q = input_query x exprs query \<and> mayBeTrue sol C q = Some True"
proof (induction sol C exprs query rt rule: try_inputs.induct)
  case (1 sol C exprs query rt)
  obtain x rt' where x: "getValue_rt rt = Some (x, rt')" "x \<noteq> []" "length x = length exprs"
    using 1(2) by (subst (asm) try_inputs.simps) (auto split: option.splits if_splits)
  show ?case
  proof (cases "mayBeTrue sol C (input_query x exprs query) = Some True")
    case True
    then have "q = input_query x exprs query" using 1(2) x by (subst (asm) try_inputs.simps) simp
    moreover have "lookups 1 rt = Some [x]" using x(1) by simp
    ultimately show ?thesis using True x(2) by (metis list.set_intros(1))
  next
    case False
    then have "try_inputs sol C exprs query rt' = Some (Some q)" using 1(2) x by (subst (asm) try_inputs.simps) simp
    then obtain n xs y where y: "lookups n rt' = Some xs" "y \<in> set xs" "y \<noteq> []" "q = input_query y exprs query"
      "mayBeTrue sol C q = Some True"
      using 1(1) [OF x(1) refl] x False by blast
    then show ?thesis using lookups_Suc [OF x(1) y(1)] by (metis list.set_intros(2))
  qed
qed

lemma input_query_values: "input_query x exprs query a \<Longrightarrow> map (\<lambda>e. e a) exprs = x \<and> query a"
  by (auto simp: input_query_def list_all2_conv_all_nth intro: nth_equalityI)

text \<open>A table all of whose entries are what they say; \<open>P v x\<close> means that the input \<open>x\<close> has the value \<open>v\<close>.\<close>

locale sound_table =
  fixes RainbowTableFile :: string and P :: "nat \<Rightarrow> u8 list \<Rightarrow> bool"
  assumes table_sound: "new_rainbow_table RainbowTableFile v = Some rt \<Longrightarrow> lookups n rt = Some xs \<Longrightarrow>
    x \<in> set xs \<Longrightarrow> x \<noteq> [] \<Longrightarrow> P (unat v) x"
begin

lemma reconcile_havocs_ok:
  assumes "reconcile_havocs RainbowTableFile sol C havocs vs query n = Some (query', n')"
    and "havoc_solver_ok sol" "length vs = length havocs" "C a" "query a"
  shows "n' \<le> n + length havocs \<and> (\<exists>b. C b \<and> query' b) \<and> (\<forall>b. query' b \<longrightarrow> query b) \<and>
    (n' = n + length havocs \<longrightarrow> (\<forall>b. query' b \<longrightarrow>
       (\<forall>i < length havocs. P (unat (vs ! i)) (map (\<lambda>e. e b) (fst (havocs ! i))))))"
  using assms
proof (induction havocs arbitrary: vs query n a)
  case Nil
  then show ?case by auto
next
  case (Cons h hs)
  obtain v ws where vs: "vs = v # ws" using Cons.prems(3) by (cases vs) auto
  obtain rt r where rt: "new_rainbow_table RainbowTableFile v = Some rt" "try_inputs sol C (fst h) query rt = Some r"
    using Cons.prems(1) by (auto simp: vs split: bind_splits)
  show ?case
  proof (cases r)
    case None
    then have "reconcile_havocs RainbowTableFile sol C hs ws query n = Some (query', n')"
      using Cons.prems(1) rt by (simp add: vs)
    from Cons.IH [OF this Cons.prems(2) _ Cons.prems(4,5)] show ?thesis using Cons.prems(3) by (auto simp: vs)
  next
    case (Some q)
    then have rec: "reconcile_havocs RainbowTableFile sol C hs ws q (n + 1) = Some (query', n')"
      using Cons.prems(1) rt by (simp add: vs)
    obtain m xs x where x: "lookups m rt = Some xs" "x \<in> set xs" "x \<noteq> []" "q = input_query x (fst h) query"
      "mayBeTrue sol C q = Some True"
      using try_inputs_lookup rt(2) Some by blast
    obtain b where b: "C b" "q b" using Cons.prems(2) x(5) unfolding havoc_solver_ok_def by blast
    have P: "P (unat v) (map (\<lambda>e. e c) (fst h)) \<and> query c" if "q c" for c
      using table_sound [OF rt(1) x(1-3)] input_query_values [of x "fst h" query c] that x(4) by simp
    have IH: "n' \<le> (n + 1) + length hs" "\<exists>b. C b \<and> query' b" "\<forall>b. query' b \<longrightarrow> q b"
      "n' = (n + 1) + length hs \<longrightarrow> (\<forall>b. query' b \<longrightarrow> (\<forall>i < length hs. P (unat (ws ! i)) (map (\<lambda>e. e b) (fst (hs ! i)))))"
      using Cons.IH [OF rec Cons.prems(2) _ b] Cons.prems(3) by (simp_all add: vs)
    have "P (unat (vs ! i)) (map (\<lambda>e. e c) (fst ((h # hs) ! i)))"
      if "n' = n + length (h # hs)" "query' c" "i < length (h # hs)" for c i
    proof (cases i)
      case 0
      then show ?thesis using P IH(3) that(2) by (simp add: vs)
    next
      case (Suc j)
      then show ?thesis using IH(4) that by (simp add: vs)
    qed
    then show ?thesis using IH(1,2,3) P by auto
  qed
qed

end

text \<open>The havocs of a packet agree with the table under an assignment.\<close>

definition havocs_agree :: "(nat \<Rightarrow> u8 list \<Rightarrow> bool) \<Rightarrow> 'a havoc list \<Rightarrow> 'a \<Rightarrow> bool" where
  "havocs_agree P havocs a \<longleftrightarrow> (\<forall>h \<in> set havocs. \<exists>arr. snd h = Some arr \<and>
     P (temp_read (array_bytes arr a)) (map (\<lambda>e. e a) (fst h)))"

definition havoc_arrays_ok :: "'a havoc list \<Rightarrow> bool" where
  "havoc_arrays_ok havocs \<longleftrightarrow> (\<forall>h \<in> set havocs. \<forall>arr. snd h = Some arr \<longrightarrow> array_ok arr)"

lemma those_map_snd: "those (map snd havocs) = Some arrs \<Longrightarrow>
  length arrs = length havocs \<and> (\<forall>i < length havocs. snd (havocs ! i) = Some (arrs ! i))"
proof (induction havocs arbitrary: arrs)
  case (Cons h hs)
  then obtain a as where a: "snd h = Some a" "those (map snd hs) = Some as" "arrs = a # as"
    by (auto split: option.splits)
  then show ?case using Cons.IH [OF a(2)] less_Suc_eq_0_disj by auto
qed simp

context sound_table
begin

lemma reconcile_packet_ok:
  assumes "reconcile_packet RainbowTableFile sol C havocs = Some (C', all_done)"
    and sol: "havoc_solver_ok sol" and arr: "havoc_arrays_ok havocs" and sat: "\<exists>a. C a"
  shows "(\<exists>a. C' a) \<and> (\<forall>a. C' a \<longrightarrow> C a \<and> (all_done \<longrightarrow> havocs_agree P havocs a))"
proof (cases "havocs = []")
  case True
  then show ?thesis using assms(1) sat by (simp add: reconcile_packet_def havocs_agree_def)
next
  case False
  obtain arrs valueBytes where r12: "those (map snd havocs) = Some arrs" "getInitialValues sol C arrs = Some valueBytes"
    using assms(1) False by (auto simp: reconcile_packet_def split: bind_splits)
  obtain vs D where r3: "fix_values arrs valueBytes C = Some (vs, D)"
    using assms(1) False r12 by (auto simp: reconcile_packet_def split: bind_splits)
  obtain query n where r4: "reconcile_havocs RainbowTableFile sol D havocs vs (\<lambda>_. True) 0 = Some (query, n)"
    using assms(1) False r12 r3 by (auto simp: reconcile_packet_def split: bind_splits)
  have r56: "C' = (\<lambda>a. D a \<and> query a)" "all_done \<longleftrightarrow> \<not> n < length arrs"
    using assms(1) False r12 r3 r4 by (auto simp: reconcile_packet_def)
  note r = r12 r3 r4 r56
  have arrs: "length arrs = length havocs" "\<forall>i < length havocs. snd (havocs ! i) = Some (arrs ! i)"
    using those_map_snd [OF r(1)] by auto
  have ok: "\<forall>arr \<in> set arrs. array_ok arr"
    using arrs arr by (metis havoc_arrays_ok_def in_set_conv_nth nth_mem)
  obtain a where a: "C a" "valueBytes = map (\<lambda>arr. array_bytes arr a) arrs"
    using sol r(2) unfolding havoc_solver_ok_def by blast
  have D: "D a" "length vs = length havocs" "\<forall>b. D b \<longrightarrow> C b"
    "\<forall>b. D b \<longrightarrow> (\<forall>i < length arrs. unat (vs ! i) = temp_read (array_bytes (arrs ! i) b))"
    using fix_values_ok [OF r(3) [unfolded a(2)] ok a(1)] arrs(1) by auto
  have q: "n \<le> length havocs" "\<exists>b. D b \<and> query b"
    "n = length havocs \<longrightarrow> (\<forall>b. query b \<longrightarrow> (\<forall>i < length havocs. P (unat (vs ! i)) (map (\<lambda>e. e b) (fst (havocs ! i)))))"
    using reconcile_havocs_ok [OF r(4) sol D(2,1)] by simp_all
  have "havocs_agree P havocs b" if b: "D b" "query b" "all_done" for b
    unfolding havocs_agree_def
  proof
    fix h assume "h \<in> set havocs"
    then obtain i where i: "i < length havocs" "h = havocs ! i" by (auto simp: in_set_conv_nth)
    have "n = length havocs" using b(3) r(6) q(1) arrs(1) by simp
    then have "P (unat (vs ! i)) (map (\<lambda>e. e b) (fst h))" using q(3) b(2) i by simp
    moreover have "unat (vs ! i) = temp_read (array_bytes (arrs ! i) b)" using D(4) b(1) i(1) arrs(1) by simp
    ultimately show "\<exists>arr. snd h = Some arr \<and> P (temp_read (array_bytes arr b)) (map (\<lambda>e. e b) (fst h))"
      using arrs(2) i by simp
  qed
  then show ?thesis using q(2) D(3) r(5) by auto
qed

lemma reconcile_packets_ok:
  assumes "reconcile_packets RainbowTableFile sol packets C n = Some (C', n')"
    and "havoc_solver_ok sol" "\<forall>p \<in> set packets. havoc_arrays_ok (snd p)" "\<exists>a. C a"
  shows "n' \<le> n + length packets \<and> (\<exists>a. C' a) \<and> (\<forall>a. C' a \<longrightarrow> C a) \<and>
    (n' = n + length packets \<longrightarrow> (\<forall>a. C' a \<longrightarrow> (\<forall>p \<in> set packets. havocs_agree P (snd p) a)))"
  using assms
proof (induction packets arbitrary: C n)
  case (Cons p packets)
  obtain D d where d: "reconcile_packet RainbowTableFile sol C (snd p) = Some (D, d)"
    "reconcile_packets RainbowTableFile sol packets D (if d then n + 1 else n) = Some (C', n')"
    using Cons.prems(1) by (auto split: bind_splits)
  have D: "\<exists>a. D a" "\<And>a. D a \<Longrightarrow> C a \<and> (d \<longrightarrow> havocs_agree P (snd p) a)"
    using reconcile_packet_ok [OF d(1) Cons.prems(2) _ Cons.prems(4)] Cons.prems(3) by auto
  have ok: "\<forall>p \<in> set packets. havoc_arrays_ok (snd p)" using Cons.prems(3) by simp
  have IH: "n' \<le> (if d then n + 1 else n) + length packets" "\<exists>a. C' a" "\<And>a. C' a \<Longrightarrow> D a"
    "n' = (if d then n + 1 else n) + length packets \<Longrightarrow> C' a \<Longrightarrow> p' \<in> set packets \<Longrightarrow> havocs_agree P (snd p') a" for a p'
    using Cons.IH [OF d(2) Cons.prems(2) ok D(1)] by blast+
  have "havocs_agree P (snd p') a" if "n' = n + length (p # packets)" "C' a" "p' \<in> set (p # packets)" for a p'
  proof -
    have "d" using that(1) IH(1) by (auto split: if_splits)
    then show ?thesis using that IH(3) [of a] IH(4) [of a p'] D(2) [of a] by auto
  qed
  then show ?case using IH(1,2,3) D(2) by (auto split: if_splits)
qed auto

end

section \<open>The havocs of a path\<close>

text \<open>
  What a run leaves in its list of symbolic objects: packets, other objects, and for each use
  of the macro \<open>castan_havoc\<close> (\<open>src/include/castan/castan.h\<close>) the bytes it hashes and the
  fresh value it returns.
\<close>

datatype 'a event =
    Packet "'a byte_expr list option" "'a sym_array"
  | Castan_Havoc "'a byte_expr list" "'a sym_array" "'a byte_expr list option" "'a sym_array"

fun event_symbolics :: "'a event \<Rightarrow> 'a symbolic list" where
  "event_symbolics (Packet os arr) = [\<lparr>sym_name = ''castan_packet'', sym_object = os, sym_array = arr\<rparr>]"
| "event_symbolics (Castan_Havoc input in_arr os out_arr) =
     [\<lparr>sym_name = ''castan_havoc_in'', sym_object = Some input, sym_array = in_arr\<rparr>,
      \<lparr>sym_name = ''castan_havoc_out'', sym_object = os, sym_array = out_arr\<rparr>]"

definition path_symbolics :: "'a event list \<Rightarrow> 'a symbolic list" where
  "path_symbolics events = concat (map event_symbolics events)"

fun event_havocs :: "'a havoc_solver \<Rightarrow> 'a path_constraint \<Rightarrow> 'a event \<Rightarrow> 'a havoc list" where
  "event_havocs sol C (Packet os arr) = []"
| "event_havocs sol C (Castan_Havoc input in_arr os out_arr) = [(map (simplifyExpr sol C) input, Some out_arr)]"

lemma collect_path:
  "collect_havocs sol C (path_symbolics events) havocs = Some packets \<Longrightarrow>
    concat (map snd packets) = concat (map snd havocs) @ concat (map (event_havocs sol C) events)"
proof (induction events arbitrary: havocs)
  case (Cons e events)
  show ?case
  proof (cases e)
    case (Packet os arr)
    then show ?thesis using Cons by (auto simp: path_symbolics_def)
  next
    case (Castan_Havoc input in_arr os out_arr)
    have ne: "havocs \<noteq> []" using Cons.prems by (auto simp: Castan_Havoc path_symbolics_def split: if_splits)
    let ?h = "butlast havocs @ [(fst (last havocs), snd (last havocs) @ [(map (simplifyExpr sol C) input, Some out_arr)])]"
    have "collect_havocs sol C (path_symbolics events) ?h = Some packets"
      using Cons.prems ne by (simp add: Castan_Havoc path_symbolics_def butlast_append)
    moreover have "concat (map snd ?h) = concat (map snd havocs) @ [(map (simplifyExpr sol C) input, Some out_arr)]"
      using arg_cong [OF append_butlast_last_id [OF ne], of "\<lambda>hs. concat (map snd hs)"] by simp
    ultimately show ?thesis using Cons.IH [of ?h] by (simp add: Castan_Havoc)
  qed
qed (simp add: path_symbolics_def)

context sound_table
begin

lemma emitted_path_ok:
  assumes emitted: "processTestCase RainbowTableFile sol err ExitOnError False (path_symbolics events) C = Some (Emitted C')"
    and sol: "havoc_solver_ok sol" and sat: "\<exists>a. C a"
    and arrs: "\<And>input in_arr os out_arr. Castan_Havoc input in_arr os out_arr \<in> set events \<Longrightarrow> array_ok out_arr"
  shows "(\<exists>a. C' a) \<and> (\<forall>a. C' a \<longrightarrow> C a \<and> (\<forall>input in_arr os out_arr. Castan_Havoc input in_arr os out_arr \<in> set events \<longrightarrow>
    P (temp_read (array_bytes out_arr a)) (map (\<lambda>e. e a) input)))"
proof -
  obtain packets n where r: "collect_havocs sol C (path_symbolics events) [] = Some packets"
    "reconcile_packets RainbowTableFile sol packets C 0 = Some (C', n)" "\<not> n < length packets"
    using emitted by (auto simp: processTestCase_def split: if_splits bind_splits)
  have all: "concat (map snd packets) = concat (map (event_havocs sol C) events)" using collect_path [OF r(1)] by simp
  have mem: "(\<exists>p \<in> set packets. h \<in> set (snd p)) \<longleftrightarrow> (\<exists>e \<in> set events. h \<in> set (event_havocs sol C e))" for h
    using arg_cong [OF all, of set] by auto
  have "havoc_arrays_ok (snd p)" if p: "p \<in> set packets" for p
    unfolding havoc_arrays_ok_def
  proof (intro ballI allI impI)
    fix h arr assume h: "h \<in> set (snd p)" "snd h = Some arr"
    then obtain e where e: "e \<in> set events" "h \<in> set (event_havocs sol C e)" using mem [of h] p by blast
    then show "array_ok arr" using arrs h(2) by (cases e rule: event.exhaust) auto
  qed
  then have ok: "\<exists>a. C' a" "\<forall>a. C' a \<longrightarrow> C a" "n \<le> length packets"
    "n = length packets \<longrightarrow> (\<forall>a. C' a \<longrightarrow> (\<forall>p \<in> set packets. havocs_agree P (snd p) a))"
    using reconcile_packets_ok [OF r(2) sol _ sat] by auto
  have "P (temp_read (array_bytes out_arr a)) (map (\<lambda>e. e a) input)"
    if "C' a" "Castan_Havoc input in_arr os out_arr \<in> set events" for a input in_arr os out_arr
  proof -
    note havoc = that(2) and C' = that(1)
    have "(map (simplifyExpr sol C) input, Some out_arr) \<in> set (event_havocs sol C (Castan_Havoc input in_arr os out_arr))" by simp
    then obtain p where p: "p \<in> set packets" "(map (simplifyExpr sol C) input, Some out_arr) \<in> set (snd p)"
      using mem havoc by blast
    have "havocs_agree P (snd p) a" using ok(3,4) r(3) C' p(1) by simp
    then have "P (temp_read (array_bytes out_arr a)) (map (\<lambda>e. e a) (map (simplifyExpr sol C) input))"
      using p(2) by (auto simp: havocs_agree_def)
    moreover have "map (\<lambda>e. e a) (map (simplifyExpr sol C) input) = map (\<lambda>e. e a) input"
      using sol ok(2) C' by (simp add: havoc_solver_ok_def comp_def)
    ultimately show ?thesis by (simp only:)
  qed
  then show ?thesis using ok(1,2) by blast
qed

end

section \<open>Tables of the hash ring\<close>

text \<open>The file the build makes: the generator's lines in the order of their first field.\<close>

abbreviation sorted_table :: "(string list \<Rightarrow> string list) \<Rightarrow> u32 \<Rightarrow> u8 list list \<Rightarrow> string" where
  "sorted_table sort_lines ext_ip rnds \<equiv> concat (sort_lines (split_lines (make_rainbow_table generate_entry ext_ip rnds)))"

definition ring_input :: "nat \<Rightarrow> u8 list \<Rightarrow> bool" where
  "ring_input v x \<longleftrightarrow> (\<exists>key. x = key_bytes key \<and> unat (hash_function key) mod RING_SIZE = v)"

lemma sorted_table_sound:
  assumes "\<And>ls. mset (sort_lines ls) = mset ls" "\<And>ls. sorted (map first_field (sort_lines ls))"
  shows "sound_table (sorted_table sort_lines ext_ip rnds) ring_input"
proof
  fix v rt n xs x
  assume t: "new_rainbow_table (sorted_table sort_lines ext_ip rnds) v = Some rt" and xs: "lookups n rt = Some xs" "x \<in> set xs" "x \<noteq> []"
  obtain ks where ks: "sorted_table sort_lines ext_ip rnds = table_of (map (nat_record RING_SIZE) ks)"
    "records_ok 13 (map (nat_record RING_SIZE) ks)"
    using generated_records [of sort_lines ext_ip rnds, OF assms] by blast
  have "(unat v, x) \<in> set (map (nat_record RING_SIZE) ks)"
    using table_lookups_sound [OF ks(2) t [unfolded ks(1)] xs] .
  then show "ring_input (unat v) x" by (auto simp: ring_input_def nat_record_def)
qed

interpretation ring_table: sound_table "sorted_table (sort_key first_field) ext_ip rnds" ring_input for ext_ip rnds
  by (rule sorted_table_sound) simp_all


lemma try_inputs_complete:
  assumes "lookups n rt = Some xs" "\<forall>x \<in> set xs. x \<noteq> [] \<and> length x = length exprs"
    and "x \<in> set xs" "mayBeTrue sol C (input_query x exprs query) = Some True"
  shows "\<exists>q. try_inputs sol C exprs query rt = Some (Some q)"
  using assms(1-3)
proof (induction n arbitrary: rt xs)
  case (Suc n)
  then obtain y rt' ys where y: "getValue_rt rt = Some (y, rt')" "lookups n rt' = Some ys" "xs = y # ys"
    by (auto split: bind_splits)
  then have y2: "y \<noteq> []" "length y = length exprs" using Suc.prems(2) by auto
  show ?case
  proof (cases "mayBeTrue sol C (input_query y exprs query) = Some True")
    case True
    then show ?thesis using y y2 by (subst try_inputs.simps) simp
  next
    case False
    then have "x \<in> set ys" using Suc.prems(3) assms(4) y(3) by auto
    then have "\<exists>q. try_inputs sol C exprs query rt' = Some (Some q)" using Suc.IH [OF y(2)] Suc.prems(2) y(3) by simp
    then show ?thesis using y y2 False by (subst try_inputs.simps) simp
  qed
qed simp

lemma lookups_SucE:
  "lookups (Suc n) rt = Some xs \<Longrightarrow> \<exists>x rt' ys. getValue_rt rt = Some (x, rt') \<and> lookups n rt' = Some ys \<and> xs = x # ys"
  by (auto split: bind_splits)

lemma lookups_prefix: "lookups (Suc n) rt = Some (xs @ [x]) \<Longrightarrow> lookups n rt = Some xs"
proof (induction n arbitrary: rt xs)
  case 0
  then show ?case using lookups_SucE [OF 0] by simp
next
  case (Suc n)
  obtain y rt' ys where y: "getValue_rt rt = Some (y, rt')" "lookups (Suc n) rt' = Some ys" "xs @ [x] = y # ys"
    using lookups_SucE [OF Suc.prems] by blast
  have "ys \<noteq> []" using lookups_SucE [OF y(2)] by blast
  then obtain zs where zs: "ys = zs @ [x]" "xs = y # zs" using y(3) by (cases xs) auto
  show ?case unfolding zs(2) by (rule lookups_Suc [OF y(1)]) (use Suc.IH y(2) zs(1) in blast)
qed

lemma one_havoc_emitted:
  fixes sort_lines :: "string list \<Rightarrow> string list"
  assumes "\<And>ls. mset (sort_lines ls) = mset ls" "\<And>ls. sorted (map first_field (sort_lines ls))"
    and "length input = 13" "array_size out_arr \<in> {1, 2, 4, 8}"
    and "getInitialValues sol C [out_arr] = Some [bytes]"
    and "key \<in> set (table_keys ext_ip rnds)" "unat (hash_function key) mod RING_SIZE = unat (havoc_value bytes)"
    and "mayBeTrue sol (\<lambda>a. C a \<and> unat (havoc_value bytes) = temp_read (array_bytes out_arr a))
      (input_query (key_bytes key) (map (simplifyExpr sol C) input) (\<lambda>_. True)) = Some True"
  shows "\<exists>C'. processTestCase (sorted_table sort_lines ext_ip rnds) sol False ExitOnError False
    (path_symbolics [Packet os arr, Castan_Havoc input in_arr os' out_arr]) C = Some (Emitted C')"
proof -
  let ?D = "\<lambda>a. C a \<and> unat (havoc_value bytes) = temp_read (array_bytes out_arr a)"
  let ?exprs = "map (simplifyExpr sol C) input"
  obtain t keys where t: "new_rainbow_table (sorted_table sort_lines ext_ip rnds) (havoc_value bytes) = Some t"
    "lookups (Suc (length keys)) t = Some (map key_bytes keys @ [[]])"
    "mset keys = filter_mset (\<lambda>k. unat (hash_function k) mod RING_SIZE = unat (havoc_value bytes)) (mset (table_keys ext_ip rnds))"
    using rainbow_lookup_keys [of sort_lines ext_ip rnds "havoc_value bytes", OF assms(1,2)] by blast
  have "key \<in># mset keys" using assms(6,7) by (simp add: t(3))
  then have mem: "key_bytes key \<in> set (map key_bytes keys)" by simp
  have ne: "k \<noteq> [] \<and> length k = length ?exprs" if "k \<in> set (map key_bytes keys)" for k
    using that assms(3) by (auto dest: arg_cong [of _ _ length])
  obtain q where q: "try_inputs sol ?D ?exprs (\<lambda>_. True) t = Some (Some q)"
    using try_inputs_complete [OF lookups_prefix [OF t(2)] _ mem, of ?exprs sol ?D "\<lambda>_. True"] ne assms(8) by blast
  have "collect_havocs sol C (path_symbolics [Packet os arr, Castan_Havoc input in_arr os' out_arr]) [] =
    Some [(arr, [(?exprs, Some out_arr)])]" by (simp add: path_symbolics_def)
  moreover have "reconcile_packet (sorted_table sort_lines ext_ip rnds) sol C [(?exprs, Some out_arr)] =
    Some (\<lambda>a. ?D a \<and> q a, True)"
    using assms(4,5) t(1) q by (simp add: reconcile_packet_def Let_def)
  ultimately show ?thesis by (simp add: processTestCase_def)
qed

text \<open>
  C28: Reconciliation finds what there is: a path with one havoc is emitted when, for the value the solver picks,
  the generator printed some key with that hash that the solver accepts as the input.
\<close>

theorem reconciliation_finds_input:
  fixes sort_lines :: "string list \<Rightarrow> string list"
  assumes "\<And>ls. mset (sort_lines ls) = mset ls" "\<And>ls. sorted (map first_field (sort_lines ls))"
    and "length input = 13" "array_size out_arr \<in> {1, 2, 4, 8}"
    and "getInitialValues sol C [out_arr] = Some [bytes]"
    and "key \<in> set (table_keys ext_ip rnds)" "unat (hash_function key) mod RING_SIZE = unat (havoc_value bytes)"
    and "mayBeTrue sol (\<lambda>a. C a \<and> unat (havoc_value bytes) = temp_read (array_bytes out_arr a))
      (input_query (key_bytes key) (map (simplifyExpr sol C) input) (\<lambda>_. True)) = Some True"
  shows "\<exists>C'. processTestCase (sorted_table sort_lines ext_ip rnds) sol False ExitOnError False
    (path_symbolics [Packet os arr, Castan_Havoc input in_arr os' out_arr]) C = Some (Emitted C')"
  by (rule one_havoc_emitted [OF assms])

section \<open>A path on a concrete table\<close>

text \<open>A program without inputs: its havoc hashes one fixed key.\<close>

definition closed_solver :: "unit havoc_solver" where
  "closed_solver = \<lparr>getInitialValues = (\<lambda>C arrs. if C () then Some (map (\<lambda>arr. array_bytes arr ()) arrs) else None),
     mayBeTrue = (\<lambda>C q. Some (C () \<and> q ())), simplifyExpr = (\<lambda>_ e. e)\<rparr>"

lemma closed_solver_ok: "havoc_solver_ok closed_solver"
  by (auto simp: havoc_solver_ok_def closed_solver_def split: if_splits)

definition sample_random :: "u8 list" where "sample_random = [10, 0, 0, 1, 8, 8, 8, 8, 0, 1, 2, 3, 4]"

definition sample_key :: hash_key where "sample_key = random_key sample_random"

definition sample_value :: nat where "sample_value = unat (hash_function sample_key) mod RING_SIZE"

definition hash_array :: "unit sym_array" where
  "hash_array = \<lparr>array_size = 4, array_bytes = (\<lambda>_. le_bytes 4 sample_value)\<rparr>"

definition sample_input :: "unit byte_expr list" where "sample_input = map (\<lambda>b _. b) (key_bytes sample_key)"

lemma le_bytes_Suc: "le_bytes (Suc n) v = word_of_nat v # le_bytes n (v div 256)"
  by (simp add: le_bytes_def upt_rec [of 0] map_Suc_upt [symmetric] div_mult2_eq del: upt_Suc)

lemma temp_read_le_bytes: "temp_read (le_bytes n v) = v mod 256 ^ n"
proof (induction n arbitrary: v)
  case (Suc n)
  have "unat (word_of_nat v :: u8) = v mod 256" by (simp add: unat_of_nat)
  then show ?case using Suc [of "v div 256"]
    by (simp add: le_bytes_Suc temp_read_def mod_mult2_eq)
qed (simp add: temp_read_def le_bytes_def)

lemma sample_value_read: "temp_read (le_bytes 4 sample_value) = sample_value"
proof -
  have "sample_value < 256 ^ 4"
    using mod_less_divisor [of RING_SIZE "unat (hash_function sample_key)"]
    by (simp add: sample_value_def RING_SIZE_def del: mod_less_divisor)
  then show ?thesis by (simp add: temp_read_le_bytes)
qed

lemma sample_havoc_value: "unat (havoc_value (le_bytes 4 sample_value)) = sample_value"
  by (simp add: havoc_value_read sample_value_read)

lemmas sample_havoc = closed_solver_def hash_array_def sample_input_def sample_value_read sample_havoc_value
  input_query_def list_all2_conv_all_nth

lemma sample_accepts:
  "mayBeTrue closed_solver (\<lambda>a. True \<and> unat (havoc_value (array_bytes hash_array ())) = temp_read (array_bytes hash_array a))
     (input_query (key_bytes sample_key) (map (simplifyExpr closed_solver (\<lambda>_. True)) sample_input) (\<lambda>_. True)) = Some True"
  by (simp add: sample_havoc)

lemma sample_in_table: "sample_key \<in> set (table_keys ext_ip [sample_random])"
  by (simp add: sample_key_def)

lemma sample_sizes: "length sample_input = 13" "array_size hash_array \<in> {1, 2, 4, 8}"
  by (simp_all add: sample_input_def hash_array_def)

lemma sample_initial: "getInitialValues closed_solver (\<lambda>_. True) [hash_array] = Some [array_bytes hash_array ()]"
  by (simp add: closed_solver_def)

lemma sample_hash: "unat (hash_function sample_key) mod RING_SIZE = unat (havoc_value (array_bytes hash_array ()))"
  unfolding sample_value_def [symmetric] by (simp add: sample_havoc)

lemmas sample_facts = mset_sort sorted_sort_key sample_sizes sample_initial sample_in_table sample_hash sample_accepts

theorem reconciliation_finds_input_witness:
  "\<exists>C'. processTestCase (sorted_table (sort_key first_field) 0xC0A80001 [sample_random]) closed_solver False True False
    (path_symbolics [Packet None hash_array, Castan_Havoc sample_input hash_array None hash_array]) (\<lambda>_. True) = Some (Emitted C')"
  by (rule reconciliation_finds_input [where sort_lines = "sort_key first_field" and C = "\<lambda>_. True", OF sample_facts])

lemma sample_emitted:
  "\<exists>C'. processTestCase (sorted_table (sort_key first_field) 0xC0A80001 [sample_random]) closed_solver False True False
    (path_symbolics [Packet None hash_array, Castan_Havoc sample_input hash_array None hash_array]) (\<lambda>_. True) = Some (Emitted C')"
  by (rule one_havoc_emitted [where sort_lines = "sort_key first_field" and C = "\<lambda>_. True", OF sample_facts])


end
