(* ===== verification/Ktest_File.thy ===== *)
theory Ktest_File
  imports Castan_Prelude
begin

text \<open>
  Test-case files, \<open>src/lib/Basic/KTest.cpp\<close>: the format in which the tool stores the
  packets it found and from which \<open>ktest2pcap\<close> and the replay tools read them. A file is
  its list of bytes. \<open>fread\<close> and \<open>fwrite\<close> of one item fail for an item of size 0, as the
  C library specifies; writing fails for no other reason here. Allocation is a parameter.
  Writing past a buffer and reading into a null pointer are the error \<open>Corrupted\<close>.
\<close>

datatype ktest_error = Failed | Corrupted

record ktest_object =
  object_name :: "u8 list"
  object_bytes :: "u8 list"

record ktest =
  version :: u32
  args :: "u8 list list"
  symArgvs :: u32
  symArgvLen :: u32
  objects :: "ktest_object list"

section \<open>Reading\<close>

type_synonym 'a reading = "ktest_error + 'a \<times> u8 list"

definition read_then :: "'a reading \<Rightarrow> ('a \<Rightarrow> u8 list \<Rightarrow> 'b reading) \<Rightarrow> 'b reading" where
  "read_then r f = (case r of Inl e \<Rightarrow> Inl e | Inr (x, file) \<Rightarrow> f x file)"

definition fread :: "nat \<Rightarrow> u8 list \<Rightarrow> u8 list reading" where
  "fread n file = (if n = 0 \<or> length file < n then Inl Failed else Inr (take n file, drop n file))"

definition read_uint32 :: "u8 list \<Rightarrow> u32 reading" where
  "read_uint32 file =
     read_then (fread 4 file) (\<lambda>data file.
       Inr (push_bit 8 (push_bit 8 (push_bit 8 (ucast (data ! 0)) + ucast (data ! 1)) + ucast (data ! 2)) + ucast (data ! 3),
         file))"

text \<open>
  The size of the buffer is computed in 32 bits, so for the largest length it is 0, and
  whatever the file still holds is read past its end.
\<close>

definition read_string :: "(nat \<Rightarrow> bool) \<Rightarrow> u8 list \<Rightarrow> u8 list reading" where
  "read_string malloc file =
     read_then (read_uint32 file) (\<lambda>len file.
       if \<not> malloc (unat (len + 1)) then Inl Failed
       else if unat (len + 1) < min (unat len) (length file) then Inl Corrupted
       else fread (unat len) file)"

definition KTEST_VERSION :: u32 where "KTEST_VERSION = 3"

definition KTEST_MAGIC :: "u8 list" where "KTEST_MAGIC = [0x4B, 0x54, 0x45, 0x53, 0x54]"

definition BOUT_MAGIC :: "u8 list" where "BOUT_MAGIC = [0x42, 0x4F, 0x55, 0x54, 0x0A]"

definition kTest_checkHeader :: "u8 list \<Rightarrow> unit reading" where
  "kTest_checkHeader file =
     read_then (fread 5 file) (\<lambda>header file.
       if header \<noteq> KTEST_MAGIC \<and> header \<noteq> BOUT_MAGIC then Inl Failed else Inr ((), file))"

text \<open>\<open>kTest_isKTestFile\<close>: the contents of the file, if it can be opened.\<close>

definition kTest_isKTestFile :: "u8 list option \<Rightarrow> bool" where
  "kTest_isKTestFile path = (case path of None \<Rightarrow> False | Some file \<Rightarrow> \<not> isl (kTest_checkHeader file))"

fun read_args :: "(nat \<Rightarrow> bool) \<Rightarrow> nat \<Rightarrow> u8 list \<Rightarrow> u8 list list reading" where
  "read_args malloc 0 file = Inr ([], file)"
| "read_args malloc (Suc n) file =
     read_then (read_string malloc file) (\<lambda>a file.
     read_then (read_args malloc n file) (\<lambda>as file. Inr (a # as, file)))"

definition read_object :: "(nat \<Rightarrow> bool) \<Rightarrow> u8 list \<Rightarrow> ktest_object reading" where
  "read_object malloc file =
     read_then (read_string malloc file) (\<lambda>name file.
     read_then (read_uint32 file) (\<lambda>numBytes file.
       if \<not> malloc (unat numBytes) \<and> numBytes \<noteq> 0 \<and> file \<noteq> [] then Inl Corrupted
       else read_then (fread (unat numBytes) file) (\<lambda>bytes file.
         Inr (\<lparr>object_name = name, object_bytes = bytes\<rparr>, file))))"

fun read_objects :: "(nat \<Rightarrow> bool) \<Rightarrow> nat \<Rightarrow> u8 list \<Rightarrow> ktest_object list reading" where
  "read_objects malloc 0 file = Inr ([], file)"
| "read_objects malloc (Suc n) file =
     read_then (read_object malloc file) (\<lambda>ob file.
     read_then (read_objects malloc n file) (\<lambda>obs file. Inr (ob # obs, file)))"

text \<open>
  \<open>kTest_fromFile\<close> after the file is open; the sizes of the three structures it allocates
  are those of the 64-bit ABI. A file of version 1 has no symbolic arguments, and the fields
  stay as \<open>calloc\<close> left them.
\<close>

definition kTest_fromFile :: "(nat \<Rightarrow> bool) \<Rightarrow> u8 list \<Rightarrow> ktest_error + ktest" where
  "kTest_fromFile malloc file =
     map_sum id fst
       (read_then (kTest_checkHeader file) (\<lambda>_ file.
        if \<not> malloc 40 then Inl Failed
        else read_then (read_uint32 file) (\<lambda>version file.
        if version > KTEST_VERSION then Inl Failed
        else read_then (read_uint32 file) (\<lambda>numArgs file.
        if \<not> malloc (8 * unat numArgs) then Inl Failed
        else read_then (read_args malloc (unat numArgs) file) (\<lambda>args file.
        read_then (if version \<ge> 2 then read_uint32 file else Inr (0, file)) (\<lambda>symArgvs file.
        read_then (if version \<ge> 2 then read_uint32 file else Inr (0, file)) (\<lambda>symArgvLen file.
        read_then (read_uint32 file) (\<lambda>numObjects file.
        if \<not> malloc (24 * unat numObjects) then Inl Failed
        else read_then (read_objects malloc (unat numObjects) file) (\<lambda>objects file.
        Inr (\<lparr>version = version, args = args, symArgvs = symArgvs, symArgvLen = symArgvLen, objects = objects\<rparr>,
          file))))))))))"

section \<open>Writing\<close>

definition fwrite :: "u8 list \<Rightarrow> u8 list option" where
  "fwrite data = (if data = [] then None else Some data)"

definition write_uint32 :: "u32 \<Rightarrow> u8 list option" where
  "write_uint32 val =
     Some [ucast (drop_bit 24 val), ucast (drop_bit 16 val), ucast (drop_bit 8 val), ucast val]"

text \<open>A C string ends before its first zero byte.\<close>

definition write_string :: "u8 list \<Rightarrow> u8 list option" where
  "write_string val =
     (let str = takeWhile (\<lambda>b. b \<noteq> 0) val; len = word_of_nat (length str) in
      do {
        l \<leftarrow> write_uint32 len;
        s \<leftarrow> fwrite (take (unat len) str);
        Some (l @ s)
      })"

fun write_args :: "u8 list list \<Rightarrow> u8 list option" where
  "write_args [] = Some []"
| "write_args (a # as) = do { f \<leftarrow> write_string a; g \<leftarrow> write_args as; Some (f @ g) }"

definition write_object :: "ktest_object \<Rightarrow> u8 list option" where
  "write_object ob =
     do {
       n \<leftarrow> write_string (object_name ob);
       l \<leftarrow> write_uint32 (word_of_nat (length (object_bytes ob)));
       b \<leftarrow> fwrite (object_bytes ob);
       Some (n @ l @ b)
     }"

fun write_objects :: "ktest_object list \<Rightarrow> u8 list option" where
  "write_objects [] = Some []"
| "write_objects (ob # obs) = do { f \<leftarrow> write_object ob; g \<leftarrow> write_objects obs; Some (f @ g) }"

definition kTest_toFile :: "ktest \<Rightarrow> u8 list option" where
  "kTest_toFile bo =
     do {
       magic \<leftarrow> fwrite KTEST_MAGIC;
       v \<leftarrow> write_uint32 KTEST_VERSION;
       na \<leftarrow> write_uint32 (word_of_nat (length (args bo)));
       as \<leftarrow> write_args (args bo);
       sa \<leftarrow> write_uint32 (symArgvs bo);
       sl \<leftarrow> write_uint32 (symArgvLen bo);
       no \<leftarrow> write_uint32 (word_of_nat (length (objects bo)));
       os \<leftarrow> write_objects (objects bo);
       Some (magic @ v @ na @ as @ sa @ sl @ no @ os)
     }"

definition kTest_numBytes :: "ktest \<Rightarrow> u32" where
  "kTest_numBytes bo = fold (\<lambda>ob res. res + word_of_nat (length (object_bytes ob))) (objects bo) 0"

section \<open>Round trip\<close>

lemma read_then_simps [simp]:
  "read_then (Inr (x, file)) f = f x file" "read_then (Inl e) f = Inl e"
  by (simp_all add: read_then_def)

lemma fread_append [simp]: "xs \<noteq> [] \<Longrightarrow> fread (length xs) (xs @ file) = Inr (xs, file)"
  by (simp add: fread_def)

lemma word32_of_bytes:
  fixes v :: u32
  shows "push_bit 8 (push_bit 8 (push_bit 8 (ucast (ucast (drop_bit 24 v) :: u8)) + ucast (ucast (drop_bit 16 v) :: u8)) +
    ucast (ucast (drop_bit 8 v) :: u8)) + ucast (ucast v :: u8) = v"
proof -
  have a: "push_bit 8 w + ucast (b :: u8) = push_bit 8 w OR ucast b" for w :: u32 and b
    by (rule disjunctive_add) (auto simp: bit_simps dest: bit_imp_le_length)
  show ?thesis unfolding a
  proof (rule bit_word_eqI)
    fix n assume "n < LENGTH(32)"
    then have n: "n < 32" by simp
    consider "n < 8" | "8 \<le> n" "n < 16" | "16 \<le> n" "n < 24" | "24 \<le> n" using n by linarith
    then show "bit (push_bit 8 (push_bit 8 (push_bit 8 (ucast (ucast (drop_bit 24 v) :: u8) :: u32) OR ucast (ucast (drop_bit 16 v) :: u8)) OR
      ucast (ucast (drop_bit 8 v) :: u8)) OR ucast (ucast v :: u8)) n = bit v n"
      using n by cases (auto simp: bit_simps)
  qed
qed

lemma read_write_uint32:
  assumes "write_uint32 v = Some f"
  shows "read_uint32 (f @ file) = Inr (v, file)"
proof -
  have f: "f = [ucast (drop_bit 24 v), ucast (drop_bit 16 v), ucast (drop_bit 8 v), ucast v]"
    using assms by (simp add: write_uint32_def)
  have "fread 4 (f @ file) = Inr (f, file)" by (simp add: fread_def f)
  then show ?thesis using word32_of_bytes [of v] by (simp add: read_uint32_def f)
qed

lemma unat_len [simp]: "n < 2 ^ 32 \<Longrightarrow> unat (word_of_nat n :: u32) = n"
  by (simp add: unat_of_nat take_bit_nat_eq_self)

text \<open>What a test case is made of: strings without zero byte, and sizes that 32 bits hold.\<close>

definition string_ok :: "u8 list \<Rightarrow> bool" where
  "string_ok s \<longleftrightarrow> 0 \<notin> set s \<and> length s < 2 ^ 32 - 1"

definition object_ok :: "ktest_object \<Rightarrow> bool" where
  "object_ok ob \<longleftrightarrow> string_ok (object_name ob) \<and> length (object_bytes ob) < 2 ^ 32"

definition ktest_ok :: "ktest \<Rightarrow> bool" where
  "ktest_ok bo \<longleftrightarrow> length (args bo) < 2 ^ 32 \<and> (\<forall>a \<in> set (args bo). string_ok a) \<and>
     length (objects bo) < 2 ^ 32 \<and> (\<forall>ob \<in> set (objects bo). object_ok ob)"

definition nothing_empty :: "ktest \<Rightarrow> bool" where
  "nothing_empty bo \<longleftrightarrow> [] \<notin> set (args bo) \<and>
     (\<forall>ob \<in> set (objects bo). object_name ob \<noteq> [] \<and> object_bytes ob \<noteq> [])"

lemma write_string_ok:
  assumes "string_ok s"
  shows "write_string s = (if s = [] then None else map_option (\<lambda>l. l @ s) (write_uint32 (word_of_nat (length s))))"
proof -
  have "takeWhile (\<lambda>b. b \<noteq> 0) s = s" using assms by (auto simp: string_ok_def takeWhile_eq_all_conv)
  moreover have "length s < 2 ^ 32" using assms by (simp add: string_ok_def)
  ultimately show ?thesis by (simp only: write_string_def Let_def) (simp add: fwrite_def write_uint32_def)
qed

lemma read_write_string:
  assumes "string_ok s" "write_string s = Some f"
  shows "read_string (\<lambda>_. True) (f @ file) = Inr (s, file)"
proof -
  obtain l where f: "write_uint32 (word_of_nat (length s)) = Some l" "f = l @ s" and ne: "s \<noteq> []"
    using assms(2) by (auto simp: write_string_ok [OF assms(1)] split: if_splits)
  have len: "length s < 2 ^ 32 - 1" using assms(1) by (simp add: string_ok_def)
  have "(word_of_nat (length s) :: u32) + 1 = word_of_nat (length s + 1)" by simp
  then have "unat ((word_of_nat (length s) :: u32) + 1) = length s + 1" using len by (simp del: of_nat_Suc of_nat_add)
  then show ?thesis using len ne by (simp add: read_string_def f read_write_uint32 [OF f(1)])
qed

lemma write_args_None: "\<forall>a \<in> set as. string_ok a \<Longrightarrow> write_args as = None \<longleftrightarrow> [] \<in> set as"
  by (induction as) (auto simp: write_string_ok write_uint32_def)

lemma read_write_args:
  assumes "\<forall>a \<in> set as. string_ok a" "write_args as = Some f"
  shows "read_args (\<lambda>_. True) (length as) (f @ file) = Inr (as, file)"
  using assms
proof (induction as arbitrary: f)
  case (Cons a as)
  then obtain g h where gh: "write_string a = Some g" "write_args as = Some h" "f = g @ h" by (auto split: bind_splits)
  then show ?case using Cons read_write_string [of a g] by simp
qed simp

lemma write_object_None:
  "object_ok ob \<Longrightarrow> write_object ob = None \<longleftrightarrow> object_name ob = [] \<or> object_bytes ob = []"
  by (auto simp: write_object_def object_ok_def write_string_ok write_uint32_def fwrite_def)

lemma read_write_object:
  assumes "object_ok ob" "write_object ob = Some f"
  shows "read_object (\<lambda>_. True) (f @ file) = Inr (ob, file)"
proof -
  obtain n l where f: "write_string (object_name ob) = Some n" "write_uint32 (word_of_nat (length (object_bytes ob))) = Some l"
    "f = n @ l @ object_bytes ob" "object_bytes ob \<noteq> []"
    using assms(2) by (auto simp: write_object_def fwrite_def split: bind_splits if_splits)
  then show ?thesis using assms(1) read_write_string [OF _ f(1)] read_write_uint32 [OF f(2)]
    by (simp add: read_object_def object_ok_def)
qed

lemma write_objects_None:
  "\<forall>ob \<in> set obs. object_ok ob \<Longrightarrow>
    write_objects obs = None \<longleftrightarrow> (\<exists>ob \<in> set obs. object_name ob = [] \<or> object_bytes ob = [])"
proof (induction obs)
  case (Cons ob obs)
  then show ?case using write_object_None [of ob] by (cases "write_object ob"; cases "write_objects obs") auto
qed simp

lemma read_write_objects:
  assumes "\<forall>ob \<in> set obs. object_ok ob" "write_objects obs = Some f"
  shows "read_objects (\<lambda>_. True) (length obs) (f @ file) = Inr (obs, file)"
  using assms
proof (induction obs arbitrary: f)
  case (Cons ob obs)
  then obtain g h where gh: "write_object ob = Some g" "write_objects obs = Some h" "f = g @ h" by (auto split: bind_splits)
  then show ?case using Cons read_write_object [of ob g] by simp
qed simp

lemma read_write_header: "kTest_checkHeader (KTEST_MAGIC @ file) = Inr ((), file)"
proof -
  have "fread 5 (KTEST_MAGIC @ file) = Inr (KTEST_MAGIC, file)" by (simp add: fread_def KTEST_MAGIC_def)
  then show ?thesis by (simp add: kTest_checkHeader_def)
qed

text \<open>
  C30: A test case can be stored exactly when none of its strings and objects is empty (writing
  an item of no bytes counts as a failed write); a stored file, whatever
  follows it, is recognised, and reading it gives the test case back, with the version of the format.
\<close>

theorem ktest_round_trip:
  assumes ok: "ktest_ok bo"
  shows "(kTest_toFile bo \<noteq> None \<longleftrightarrow> nothing_empty bo) \<and>
    (\<forall>f. kTest_toFile bo = Some f \<longrightarrow>
       kTest_isKTestFile (Some (f @ rest)) \<and>
       kTest_fromFile (\<lambda>_. True) (f @ rest) = Inr (bo\<lparr>version := KTEST_VERSION\<rparr>))"
proof (intro conjI allI impI)
  show "kTest_toFile bo \<noteq> None \<longleftrightarrow> nothing_empty bo"
    using write_args_None [of "args bo"] write_objects_None [of "objects bo"] ok
    by (cases "write_args (args bo)"; cases "write_objects (objects bo)")
      (auto simp: kTest_toFile_def fwrite_def KTEST_MAGIC_def write_uint32_def ktest_ok_def nothing_empty_def)
next
  fix f assume f: "kTest_toFile bo = Some f"
  obtain v na as sa sl no os where w: "write_uint32 KTEST_VERSION = Some v" "write_uint32 (word_of_nat (length (args bo))) = Some na"
    "write_args (args bo) = Some as" "write_uint32 (symArgvs bo) = Some sa" "write_uint32 (symArgvLen bo) = Some sl"
    "write_uint32 (word_of_nat (length (objects bo))) = Some no" "write_objects (objects bo) = Some os"
    and f: "f = KTEST_MAGIC @ v @ na @ as @ sa @ sl @ no @ os"
    using f by (auto simp: kTest_toFile_def fwrite_def split: bind_splits if_splits)
  have len: "unat (word_of_nat (length (args bo)) :: u32) = length (args bo)"
    "unat (word_of_nat (length (objects bo)) :: u32) = length (objects bo)"
    using ok by (auto simp: ktest_ok_def)
  have as: "read_args (\<lambda>_. True) (length (args bo)) (as @ r) = Inr (args bo, r)" for r
    using read_write_args [OF _ w(3)] ok by (simp add: ktest_ok_def)
  have os: "read_objects (\<lambda>_. True) (length (objects bo)) (os @ r) = Inr (objects bo, r)" for r
    using read_write_objects [OF _ w(7)] ok by (simp add: ktest_ok_def)
  have "KTEST_VERSION \<ge> 2" "\<not> KTEST_VERSION > KTEST_VERSION" by (simp_all add: KTEST_VERSION_def)
  then show "kTest_isKTestFile (Some (f @ rest))" "kTest_fromFile (\<lambda>_. True) (f @ rest) = Inr (bo\<lparr>version := KTEST_VERSION\<rparr>)"
    by (simp_all add: kTest_isKTestFile_def kTest_fromFile_def f read_write_header len as os read_write_uint32 [OF w(1)] read_write_uint32 [OF w(2)]
      read_write_uint32 [OF w(4)] read_write_uint32 [OF w(5)] read_write_uint32 [OF w(6)])
qed

text \<open>
  A file with the length field 0xFFFFFFFF for its first argument makes the reader
  write past the buffer it allocated, as soon as a byte follows.
\<close>

theorem ktest_reader_overflows:
  assumes "data \<noteq> []" "malloc 40" "malloc 0" "malloc (8 * unat numArgs)" "numArgs \<noteq> 0"
    and "write_uint32 numArgs = Some n" "write_uint32 ver = Some v" "ver \<le> KTEST_VERSION"
  shows "kTest_fromFile malloc (KTEST_MAGIC @ v @ n @ [0xFF, 0xFF, 0xFF, 0xFF] @ data) = Inl Corrupted"
proof -
  have m: "write_uint32 0xFFFFFFFF = Some [0xFF, 0xFF, 0xFF, 0xFF]"
    by (simp add: write_uint32_def)
  have l: "read_uint32 ([0xFF, 0xFF, 0xFF, 0xFF] @ data) = Inr (0xFFFFFFFF, data)" using read_write_uint32 [OF m] .
  have "read_string malloc ([0xFF, 0xFF, 0xFF, 0xFF] @ data) = Inl Corrupted"
    using assms(1,3) unfolding read_string_def l by simp
  then have "read_args malloc (unat numArgs) ([0xFF, 0xFF, 0xFF, 0xFF] @ data) = Inl Corrupted"
    using assms(5) by (cases "unat numArgs") (simp_all add: unat_eq_0)
  then show ?thesis
    using assms(2,4,8) by (simp add: kTest_fromFile_def read_write_header read_write_uint32 [OF assms(6)] read_write_uint32 [OF assms(7)] not_less)
qed

section \<open>A concrete test case\<close>

definition demo_ktest :: ktest where
  "demo_ktest = \<lparr>version = 3, args = [[0x6E, 0x66]], symArgvs = 0, symArgvLen = 0,
     objects = [\<lparr>object_name = [0x70], object_bytes = [1, 0, 2]\<rparr>]\<rparr>"

theorem ktest_round_trip_witness:
  "\<exists>f. kTest_toFile demo_ktest = Some f \<and> kTest_fromFile (\<lambda>_. True) (f @ [7]) = Inr demo_ktest"
proof -
  have "ktest_ok demo_ktest" "nothing_empty demo_ktest"
    by (simp_all add: demo_ktest_def ktest_ok_def object_ok_def string_ok_def nothing_empty_def)
  then have "kTest_toFile demo_ktest \<noteq> None"
    "\<forall>f. kTest_toFile demo_ktest = Some f \<longrightarrow> kTest_isKTestFile (Some (f @ [7])) \<and> kTest_fromFile (\<lambda>_. True) (f @ [7]) = Inr (demo_ktest\<lparr>version := KTEST_VERSION\<rparr>)"
    using ktest_round_trip [of demo_ktest "[7]"] by blast+
  moreover have "demo_ktest\<lparr>version := KTEST_VERSION\<rparr> = demo_ktest" by (simp add: demo_ktest_def KTEST_VERSION_def)
  ultimately show ?thesis by auto
qed

theorem ktest_reader_overflows_witness:
  "kTest_fromFile (\<lambda>_. True) (KTEST_MAGIC @ [0, 0, 0, 3] @ [0, 0, 0, 1] @ [0xFF, 0xFF, 0xFF, 0xFF] @ [65]) = Inl Corrupted"
proof -
  have "write_uint32 1 = Some [0, 0, 0, 1]" "write_uint32 3 = Some [0, 0, 0, 3]" by (simp_all add: write_uint32_def)
  then show ?thesis
    using ktest_reader_overflows [of "[65]" "\<lambda>_. True" 1 "[0, 0, 0, 1]" 3 "[0, 0, 0, 3]"]
    by (simp add: KTEST_VERSION_def)
qed

end
