(* ===== verification/Searchers.thy ===== *)
theory Searchers
  imports Complex_Main Castan_Prelude "HOL-Library.List_Lexorder" "HOL-Library.Product_Lexorder"
begin

text \<open>
  The search strategies of \<open>src/lib/Core/Searcher.cpp\<close> and \<open>src/lib/CASTAN/CastanSearcher.cpp\<close>,
  and the part of the engine (\<open>Executor::run\<close>, \<open>Executor::updateStates\<close>) that drives
  them. Execution states are numbered by their addresses. A failed assertion and the access to
  an empty container are the result \<open>None\<close>. The locale \<open>searcher\<close> is the contract of the
  abstract class \<open>Searcher\<close>; the engine and the wrapping searchers are its clients.
\<close>

type_synonym state_id = nat

section \<open>Priorities\<close>

text \<open>The values a \<open>double\<close> takes in a priority: a number or \<open>+INFINITY\<close>.\<close>

datatype dbl = Fin rat | PInf

instantiation dbl :: linorder
begin

fun less_eq_dbl :: "dbl \<Rightarrow> dbl \<Rightarrow> bool" where
  "less_eq_dbl x PInf = True"
| "less_eq_dbl PInf (Fin y) = False"
| "less_eq_dbl (Fin x) (Fin y) = (x \<le> y)"

definition less_dbl :: "dbl \<Rightarrow> dbl \<Rightarrow> bool" where
  "less_dbl x y \<longleftrightarrow> x \<le> y \<and> \<not> y \<le> x"

instance
proof
  fix x y z :: dbl
  show "x < y \<longleftrightarrow> x \<le> y \<and> \<not> y \<le> x" by (simp add: less_dbl_def)
  show "x \<le> x" by (cases x) simp_all
  show "x \<le> y \<Longrightarrow> y \<le> z \<Longrightarrow> x \<le> z" by (cases x; cases y; cases z) simp_all
  show "x \<le> y \<Longrightarrow> y \<le> x \<Longrightarrow> x = y" by (cases x; cases y) simp_all
  show "x \<le> y \<or> y \<le> x" by (cases x; cases y) auto
qed

end

text \<open>What the priority of a state depends on; the stack lists the calling instructions.\<close>

record state_info =
  numIterations :: nat
  totalTime :: rat
  pc_inst :: nat
  callers :: "nat option list"

record cost_map =
  costs :: "nat \<rightharpoonup> bool \<times> rat"
  successorCosts :: "nat \<rightharpoonup> rat"

definition cost_of :: "cost_map \<Rightarrow> nat \<Rightarrow> bool \<times> rat" where
  "cost_of cm i = (case costs cm i of Some c \<Rightarrow> c | None \<Rightarrow> (False, 0))"

definition successor_cost :: "cost_map \<Rightarrow> nat \<Rightarrow> rat" where
  "successor_cost cm i = (case successorCosts cm i of Some c \<Rightarrow> c | None \<Rightarrow> 0)"

text \<open>The loop up the stack; it ends at a frame without caller or at one on a direct path.\<close>

fun climb_stack :: "cost_map \<Rightarrow> nat option list \<Rightarrow> rat \<Rightarrow> rat" where
  "climb_stack cm [] result = result"
| "climb_stack cm (None # fs) result = result"
| "climb_stack cm (Some i # fs) result =
     (if fst (cost_of cm i) then result + successor_cost cm i
      else climb_stack cm fs (result + successor_cost cm i))"

text \<open>
  The loop reads its tables with an operator that adds a default entry for an unknown caller.
  Such an entry reads like no entry, so the tables are left as they are; after it the assertion
  on the current instruction could hold where it fails here.
\<close>

definition getPriority :: "cost_map \<Rightarrow> state_info \<Rightarrow> dbl list option" where
  "getPriority cm st =
     (if numIterations st = 0 then Some [PInf, Fin 0, Fin 0]
      else case costs cm (pc_inst st) of
          None \<Rightarrow> None
        | Some (direct, c) \<Rightarrow>
            (let result = totalTime st + c;
                 result = (if direct then result else climb_stack cm (callers st) result)
             in Some [Fin (result / of_nat (numIterations st)), Fin (totalTime st)]))"

section \<open>The environment of a search\<close>

text \<open>What a searcher reads besides its own state: random numbers, clocks and the states.\<close>

record search_env =
  getInt32 :: nat
  getWallTime :: rat
  instructions :: nat
  info :: "state_id \<Rightarrow> state_info"

section \<open>Depth-first, breadth-first and random search\<close>

definition dfs_select :: "search_env \<Rightarrow> state_id list \<Rightarrow> (state_id \<times> state_id list) option" where
  "dfs_select env states = (if states = [] then None else Some (last states, states))"

fun dfs_remove :: "state_id list \<Rightarrow> state_id list \<Rightarrow> state_id list option" where
  "dfs_remove states [] = Some states"
| "dfs_remove states (es # removed) =
     (if states = [] then None
      else if es = last states then dfs_remove (butlast states) removed
      else if es \<in> set states then dfs_remove (remove1 es states) removed
      else None)"

definition dfs_update ::
  "search_env \<Rightarrow> state_id list \<Rightarrow> state_id option \<Rightarrow> state_id list \<Rightarrow> state_id list \<Rightarrow> state_id list option" where
  "dfs_update env states current added removed = dfs_remove (states @ added) removed"

definition bfs_select :: "search_env \<Rightarrow> state_id list \<Rightarrow> (state_id \<times> state_id list) option" where
  "bfs_select env states = (if states = [] then None else Some (hd states, states))"

fun bfs_remove :: "state_id list \<Rightarrow> state_id list \<Rightarrow> state_id list option" where
  "bfs_remove states [] = Some states"
| "bfs_remove states (es # removed) =
     (if states = [] then None
      else if es = hd states then bfs_remove (tl states) removed
      else if es \<in> set states then bfs_remove (remove1 es states) removed
      else None)"

definition bfs_update ::
  "search_env \<Rightarrow> state_id list \<Rightarrow> state_id option \<Rightarrow> state_id list \<Rightarrow> state_id list \<Rightarrow> state_id list option" where
  "bfs_update env states current added removed =
     (case current of
        Some c \<Rightarrow>
          (if added \<noteq> [] \<and> c \<notin> set removed
           then (if states = [] \<or> hd states \<noteq> c then None else bfs_remove (tl states @ [c] @ added) removed)
           else bfs_remove (states @ added) removed)
      | None \<Rightarrow> bfs_remove (states @ added) removed)"

definition random_select :: "search_env \<Rightarrow> state_id list \<Rightarrow> (state_id \<times> state_id list) option" where
  "random_select env states =
     (if states = [] then None else Some (states ! (getInt32 env mod length states), states))"

fun random_remove :: "state_id list \<Rightarrow> state_id list \<Rightarrow> state_id list option" where
  "random_remove states [] = Some states"
| "random_remove states (es # removed) =
     (if es \<in> set states then random_remove (remove1 es states) removed else None)"

definition random_update ::
  "search_env \<Rightarrow> state_id list \<Rightarrow> state_id option \<Rightarrow> state_id list \<Rightarrow> state_id list \<Rightarrow> state_id list option" where
  "random_update env states current added removed = random_remove (states @ added) removed"

section \<open>The CASTAN searcher\<close>

text \<open>A \<open>std::set\<close> of pairs is an increasing list.\<close>

record castan_searcher =
  queue :: "(dbl list \<times> state_id) list"
  cost_tables :: cost_map

definition castan_select :: "search_env \<Rightarrow> castan_searcher \<Rightarrow> (state_id \<times> castan_searcher) option" where
  "castan_select env s = (if queue s = [] then None else Some (snd (last (queue s)), s))"

definition castan_insert ::
  "cost_map \<Rightarrow> search_env \<Rightarrow> state_id \<Rightarrow> (dbl list \<times> state_id) list \<Rightarrow> (dbl list \<times> state_id) list option" where
  "castan_insert cm env es q = map_option (\<lambda>p. insort_insert (p, es) q) (getPriority cm (info env es))"

definition castan_erase :: "state_id \<Rightarrow> (dbl list \<times> state_id) list \<Rightarrow> (dbl list \<times> state_id) list option" where
  "castan_erase es q =
     (case find (\<lambda>e. snd e = es) q of None \<Rightarrow> None | Some e \<Rightarrow> Some (remove1 e q))"

fun castan_insert_all ::
  "cost_map \<Rightarrow> search_env \<Rightarrow> state_id list \<Rightarrow> (dbl list \<times> state_id) list \<Rightarrow> (dbl list \<times> state_id) list option" where
  "castan_insert_all cm env [] q = Some q"
| "castan_insert_all cm env (es # added) q = do { q \<leftarrow> castan_insert cm env es q; castan_insert_all cm env added q }"

fun castan_erase_all :: "state_id list \<Rightarrow> (dbl list \<times> state_id) list \<Rightarrow> (dbl list \<times> state_id) list option" where
  "castan_erase_all [] q = Some q"
| "castan_erase_all (es # removed) q = do { q \<leftarrow> castan_erase es q; castan_erase_all removed q }"

definition castan_update ::
  "search_env \<Rightarrow> castan_searcher \<Rightarrow> state_id option \<Rightarrow> state_id list \<Rightarrow> state_id list \<Rightarrow> castan_searcher option" where
  "castan_update env s current added removed =
     do {
       q \<leftarrow> (case current of
              None \<Rightarrow> Some (queue s)
            | Some c \<Rightarrow> do { q \<leftarrow> castan_erase c (queue s); castan_insert (cost_tables s) env c q });
       q \<leftarrow> castan_insert_all (cost_tables s) env added q;
       q \<leftarrow> castan_erase_all removed q;
       Some (s\<lparr>queue := q\<rparr>)
     }"

section \<open>Searchers around a searcher\<close>

record 's batching =
  batch_base :: 's
  timeBudget :: rat
  instructionBudget :: nat
  lastState :: "state_id option"
  lastStartTime :: rat
  lastStartInstructions :: nat

text \<open>
  The start of a batch is stored in a variable of 32 bits, while the count of instructions and
  the difference have 64.
\<close>

definition batch_over :: "search_env \<Rightarrow> 's batching \<Rightarrow> bool" where
  "batch_over env b \<longleftrightarrow> lastState b = None \<or> getWallTime env - lastStartTime b > timeBudget b \<or>
     (int (instructions env) - int (lastStartInstructions b)) mod 2 ^ 64 > int (instructionBudget b)"

definition batching_select ::
  "(search_env \<Rightarrow> 's \<Rightarrow> (state_id \<times> 's) option) \<Rightarrow> search_env \<Rightarrow> 's batching \<Rightarrow> (state_id \<times> 's batching) option" where
  "batching_select select env b =
     (if batch_over env b then
        (let delta = getWallTime env - lastStartTime b;
             b = (if lastState b \<noteq> None \<and> delta > timeBudget b * (11 / 10) then b\<lparr>timeBudget := delta\<rparr> else b)
         in case select env (batch_base b) of
              None \<Rightarrow> None
            | Some (es, base) \<Rightarrow>
                Some (es, b\<lparr>batch_base := base, lastState := Some es, lastStartTime := getWallTime env,
                  lastStartInstructions := instructions env mod 2 ^ 32\<rparr>))
      else case lastState b of None \<Rightarrow> None | Some es \<Rightarrow> Some (es, b))"

definition batching_update ::
  "(search_env \<Rightarrow> 's \<Rightarrow> state_id option \<Rightarrow> state_id list \<Rightarrow> state_id list \<Rightarrow> 's option) \<Rightarrow> search_env \<Rightarrow> 's batching
   \<Rightarrow> state_id option \<Rightarrow> state_id list \<Rightarrow> state_id list \<Rightarrow> 's batching option" where
  "batching_update update env b current added removed =
     (let b = (if \<exists>es. lastState b = Some es \<and> es \<in> set removed then b\<lparr>lastState := None\<rparr> else b)
      in map_option (\<lambda>base. b\<lparr>batch_base := base\<rparr>) (update env (batch_base b) current added removed))"

record 's interleaved =
  searchers :: "'s list"
  index :: nat

definition interleaved_select ::
  "(search_env \<Rightarrow> 's \<Rightarrow> (state_id \<times> 's) option) \<Rightarrow> search_env \<Rightarrow> 's interleaved \<Rightarrow> (state_id \<times> 's interleaved) option" where
  "interleaved_select select env i =
     (if index i = 0 \<or> length (searchers i) < index i then None
      else (let k = index i - 1 in
        case select env (searchers i ! k) of
          None \<Rightarrow> None
        | Some (es, s) \<Rightarrow>
            Some (es, i\<lparr>searchers := (searchers i)[k := s], index := (if k = 0 then length (searchers i) else k)\<rparr>)))"

fun update_all ::
  "(search_env \<Rightarrow> 's \<Rightarrow> state_id option \<Rightarrow> state_id list \<Rightarrow> state_id list \<Rightarrow> 's option) \<Rightarrow> search_env
   \<Rightarrow> state_id option \<Rightarrow> state_id list \<Rightarrow> state_id list \<Rightarrow> 's list \<Rightarrow> 's list option" where
  "update_all update env current added removed [] = Some []"
| "update_all update env current added removed (s # ss) =
     do {
       s' \<leftarrow> update env s current added removed;
       ss' \<leftarrow> update_all update env current added removed ss;
       Some (s' # ss')
     }"

definition interleaved_update ::
  "(search_env \<Rightarrow> 's \<Rightarrow> state_id option \<Rightarrow> state_id list \<Rightarrow> state_id list \<Rightarrow> 's option) \<Rightarrow> search_env
   \<Rightarrow> 's interleaved \<Rightarrow> state_id option \<Rightarrow> state_id list \<Rightarrow> state_id list \<Rightarrow> 's interleaved option" where
  "interleaved_update update env i current added removed =
     map_option (\<lambda>ss. i\<lparr>searchers := ss\<rparr>) (update_all update env current added removed (searchers i))"

record 's deepening =
  deep_base :: 's
  deep_time :: rat
  startTime :: rat
  pausedStates :: "state_id list"

definition deepening_select ::
  "(search_env \<Rightarrow> 's \<Rightarrow> (state_id \<times> 's) option) \<Rightarrow> search_env \<Rightarrow> 's deepening \<Rightarrow> (state_id \<times> 's deepening) option" where
  "deepening_select select env d =
     (case select env (deep_base d) of
        None \<Rightarrow> None
      | Some (es, s) \<Rightarrow> Some (es, d\<lparr>deep_base := s, startTime := getWallTime env\<rparr>))"

definition deepening_update ::
  "(search_env \<Rightarrow> 's \<Rightarrow> state_id option \<Rightarrow> state_id list \<Rightarrow> state_id list \<Rightarrow> 's option) \<Rightarrow> ('s \<Rightarrow> bool) \<Rightarrow> search_env
   \<Rightarrow> 's deepening \<Rightarrow> state_id option \<Rightarrow> state_id list \<Rightarrow> state_id list \<Rightarrow> 's deepening option" where
  "deepening_update update is_empty env d current added removed =
     (let elapsed = getWallTime env - startTime d;
          alt = filter (\<lambda>es. es \<notin> set (pausedStates d)) removed;
          paused = filter (\<lambda>es. es \<notin> set removed) (pausedStates d)
      in do {
        base \<leftarrow> update env (deep_base d) current added alt;
        (base, paused) \<leftarrow>
          (case current of
             Some c \<Rightarrow>
               (if c \<notin> set removed \<and> elapsed > deep_time d
                then map_option (\<lambda>b. (b, insort_insert c paused)) (update env base None [] [c])
                else Some (base, paused))
           | None \<Rightarrow> Some (base, paused));
        (if is_empty base
         then map_option (\<lambda>b. d\<lparr>deep_base := b, deep_time := deep_time d * 2, pausedStates := []\<rparr>)
                (update env base None paused [])
         else Some (d\<lparr>deep_base := base, pausedStates := paused\<rparr>))
      })"

section \<open>The engine\<close>

text \<open>\<open>Executor::updateStates\<close>: the searcher first, then the engine's own set.\<close>

fun erase_states :: "state_id list \<Rightarrow> state_id set \<Rightarrow> state_id set option" where
  "erase_states [] states = Some states"
| "erase_states (es # removed) states =
     (if es \<in> states then erase_states removed (states - {es}) else None)"

definition updateStates ::
  "(search_env \<Rightarrow> 's \<Rightarrow> state_id option \<Rightarrow> state_id list \<Rightarrow> state_id list \<Rightarrow> 's option) \<Rightarrow> search_env
   \<Rightarrow> state_id option \<Rightarrow> state_id list \<Rightarrow> state_id list \<Rightarrow> 's \<times> state_id set \<Rightarrow> ('s \<times> state_id set) option" where
  "updateStates update env current added removed = (\<lambda>(s, states).
     do {
       s' \<leftarrow> update env s current added removed;
       states' \<leftarrow> erase_states removed (states \<union> set added);
       Some (s', states')
     })"

text \<open>
  The main loop of \<open>Executor::run\<close>. What executing the selected state does is an input:
  the environment of the selection, the environment afterwards, and the states that were
  forked off and terminated.
\<close>

fun run_states ::
  "(search_env \<Rightarrow> 's \<Rightarrow> (state_id \<times> 's) option)
   \<Rightarrow> (search_env \<Rightarrow> 's \<Rightarrow> state_id option \<Rightarrow> state_id list \<Rightarrow> state_id list \<Rightarrow> 's option)
   \<Rightarrow> (search_env \<times> search_env \<times> state_id list \<times> state_id list) list \<Rightarrow> 's \<times> state_id set
   \<Rightarrow> ('s \<times> state_id set) option" where
  "run_states select update [] e = Some e"
| "run_states select update ((env, env', added, removed) # steps) e =
     (if snd e = {} then Some e
      else do {
        (es, s) \<leftarrow> select env (fst e);
        e' \<leftarrow> updateStates update env' (Some es) added removed (s, snd e);
        run_states select update steps e'
      })"

section \<open>The contract of a searcher\<close>

text \<open>
  What the engine asks for: new states are new and distinct, and the states to remove are
  distinct and known.
\<close>

definition valid_update :: "state_id set \<Rightarrow> state_id list \<Rightarrow> state_id list \<Rightarrow> bool" where
  "valid_update held added removed \<longleftrightarrow> distinct added \<and> set added \<inter> held = {} \<and>
     distinct removed \<and> set removed \<subseteq> held \<union> set added"

lemma erase_states_valid:
  "distinct removed \<Longrightarrow> set removed \<subseteq> states \<Longrightarrow> erase_states removed states = Some (states - set removed)"
proof (induction removed arbitrary: states)
  case (Cons es removed)
  then have "set removed \<subseteq> states - {es}" by auto
  moreover have "states - {es} - set removed = states - set (es # removed)" by auto
  ultimately show ?case using Cons by simp
qed simp

locale searcher =
  fixes select :: "search_env \<Rightarrow> 's \<Rightarrow> (state_id \<times> 's) option"
    and update :: "search_env \<Rightarrow> 's \<Rightarrow> state_id option \<Rightarrow> state_id list \<Rightarrow> state_id list \<Rightarrow> 's option"
    and is_empty :: "'s \<Rightarrow> bool"
    and held :: "'s \<Rightarrow> state_id set"
    and inv :: "'s \<Rightarrow> bool"
    and current_ok :: "'s \<Rightarrow> state_id \<Rightarrow> bool"
    and env_ok :: "search_env \<Rightarrow> bool"
  assumes select_law: "inv s \<Longrightarrow> held s \<noteq> {} \<Longrightarrow>
      \<exists>es s'. select env s = Some (es, s') \<and> es \<in> held s \<and> inv s' \<and> held s' = held s \<and> current_ok s' es"
    and empty_law: "inv s \<Longrightarrow> is_empty s \<longleftrightarrow> held s = {}"
    and update_law: "inv s \<Longrightarrow> env_ok env \<Longrightarrow> valid_update (held s) added removed \<Longrightarrow>
      (\<And>c. current = Some c \<Longrightarrow> c \<in> held s \<and> current_ok s c) \<Longrightarrow>
      \<exists>s'. update env s current added removed = Some s' \<and> inv s' \<and> held s' = held s \<union> set added - set removed"
begin

text \<open>The engine and its searcher hold the same states after every step.\<close>

lemma engine_update:
  assumes "inv s" "held s = states" "env_ok env" "valid_update states added removed"
    and "\<And>c. current = Some c \<Longrightarrow> c \<in> states \<and> current_ok s c"
  shows "\<exists>s'. updateStates update env current added removed (s, states) = Some (s', states \<union> set added - set removed) \<and>
    inv s' \<and> held s' = states \<union> set added - set removed"
proof -
  obtain s' where "update env s current added removed = Some s'" "inv s'" "held s' = states \<union> set added - set removed"
    using update_law [OF assms(1,3), of added removed current] assms(2,4,5) by metis
  moreover have "erase_states removed (states \<union> set added) = Some (states \<union> set added - set removed)"
    by (rule erase_states_valid) (use assms(4) in \<open>auto simp: valid_update_def\<close>)
  ultimately show ?thesis by (simp add: updateStates_def)
qed

end

text \<open>A searcher that takes any of its states for the current one.\<close>

locale any_searcher = searcher +
  assumes any_current: "inv s \<Longrightarrow> es \<in> held s \<Longrightarrow> current_ok s es"

text \<open>Runs of the engine whose steps ask for valid updates.\<close>

fun valid_steps ::
  "(search_env \<Rightarrow> bool) \<Rightarrow> (search_env \<times> search_env \<times> state_id list \<times> state_id list) list \<Rightarrow> state_id set \<Rightarrow> bool" where
  "valid_steps env_ok [] states \<longleftrightarrow> True"
| "valid_steps env_ok ((env, env', added, removed) # steps) states \<longleftrightarrow>
     states = {} \<or> (env_ok env' \<and> valid_update states added removed \<and>
       valid_steps env_ok steps (states \<union> set added - set removed))"

text \<open>The states the engine has after the steps, whatever the searcher.\<close>

fun states_after ::
  "(search_env \<times> search_env \<times> state_id list \<times> state_id list) list \<Rightarrow> state_id set \<Rightarrow> state_id set" where
  "states_after [] states = states"
| "states_after ((env, env', added, removed) # steps) states =
     (if states = {} then {} else states_after steps (states \<union> set added - set removed))"

context searcher
begin

lemma engine_run:
  assumes "inv s" "held s = states" "valid_steps env_ok steps states"
  shows "\<exists>s'. run_states select update steps (s, states) = Some (s', states_after steps states) \<and>
    inv s' \<and> held s' = states_after steps states"
  using assms
proof (induction steps arbitrary: s states)
  case Nil
  then show ?case by simp
next
  case (Cons st steps)
  obtain env env' added removed where st: "st = (env, env', added, removed)" by (cases st)
  show ?case
  proof (cases "states = {}")
    case True
    then show ?thesis using Cons.prems by (simp add: st)
  next
    case False
    obtain es s1 where s1: "select env s = Some (es, s1)" "es \<in> states" "inv s1" "held s1 = states" "current_ok s1 es"
      using select_law [OF Cons.prems(1), of env] Cons.prems(2) False by auto
    have v: "env_ok env'" "valid_update states added removed" "valid_steps env_ok steps (states \<union> set added - set removed)"
      using Cons.prems(3) False by (auto simp: st)
    obtain s2 where s2: "updateStates update env' (Some es) added removed (s1, states) = Some (s2, states \<union> set added - set removed)"
      "inv s2" "held s2 = states \<union> set added - set removed"
      using engine_update [OF s1(3,4) v(1,2), of "Some es"] s1(2,5) by auto
    from Cons.IH [OF s2(2,3) v(3)] show ?thesis using False s1(1) s2(1) by (simp add: st)
  qed
qed

end

section \<open>The laws of the simple searchers\<close>

lemma distinct_remove1_set: "distinct xs \<Longrightarrow> set (remove1 x xs) = set xs - {x}"
  by (rule set_remove1_eq)

lemma distinct_butlast_set: "distinct xs \<Longrightarrow> xs \<noteq> [] \<Longrightarrow> set (butlast xs) = set xs - {last xs}"
  by (induction xs rule: rev_induct) auto

lemma distinct_tl_set: "distinct xs \<Longrightarrow> xs \<noteq> [] \<Longrightarrow> set (tl xs) = set xs - {hd xs}"
  by (cases xs) auto

lemma dfs_remove_ok:
  "distinct states \<Longrightarrow> distinct removed \<Longrightarrow> set removed \<subseteq> set states \<Longrightarrow>
    \<exists>s'. dfs_remove states removed = Some s' \<and> distinct s' \<and> set s' = set states - set removed"
proof (induction states removed rule: dfs_remove.induct)
  case (2 states es removed)
  have es: "es \<in> set states" "states \<noteq> []" using "2.prems"(3) by auto
  show ?case
  proof (cases "es = last states")
    case True
    have "set removed \<subseteq> set (butlast states)"
      using "2.prems" distinct_butlast_set [OF "2.prems"(1) es(2)] True by auto
    with "2.IH"(1) [OF es(2) True] "2.prems" distinct_butlast [of states] obtain s' where
      "dfs_remove (butlast states) removed = Some s'" "distinct s'" "set s' = set (butlast states) - set removed" by auto
    then show ?thesis using es True distinct_butlast_set [OF "2.prems"(1) es(2)] by auto
  next
    case False
    have "set removed \<subseteq> set (remove1 es states)"
      using "2.prems" distinct_remove1_set [OF "2.prems"(1), of es] by auto
    with "2.IH"(2) [OF es(2) False es(1)] "2.prems" obtain s' where
      "dfs_remove (remove1 es states) removed = Some s'" "distinct s'" "set s' = set (remove1 es states) - set removed" by auto
    then show ?thesis using es False distinct_remove1_set [OF "2.prems"(1), of es] by auto
  qed
qed simp

lemma bfs_remove_ok:
  "distinct states \<Longrightarrow> distinct removed \<Longrightarrow> set removed \<subseteq> set states \<Longrightarrow>
    \<exists>s'. bfs_remove states removed = Some s' \<and> distinct s' \<and> set s' = set states - set removed"
proof (induction states removed rule: bfs_remove.induct)
  case (2 states es removed)
  have es: "es \<in> set states" "states \<noteq> []" using "2.prems"(3) by auto
  show ?case
  proof (cases "es = hd states")
    case True
    have "set removed \<subseteq> set (tl states)"
      using "2.prems" distinct_tl_set [OF "2.prems"(1) es(2)] True by auto
    with "2.IH"(1) [OF es(2) True] "2.prems" distinct_tl [of states] obtain s' where
      "bfs_remove (tl states) removed = Some s'" "distinct s'" "set s' = set (tl states) - set removed" by auto
    then show ?thesis using es True distinct_tl_set [OF "2.prems"(1) es(2)] by auto
  next
    case False
    have "set removed \<subseteq> set (remove1 es states)"
      using "2.prems" distinct_remove1_set [OF "2.prems"(1), of es] by auto
    with "2.IH"(2) [OF es(2) False es(1)] "2.prems" obtain s' where
      "bfs_remove (remove1 es states) removed = Some s'" "distinct s'" "set s' = set (remove1 es states) - set removed" by auto
    then show ?thesis using es False distinct_remove1_set [OF "2.prems"(1), of es] by auto
  qed
qed simp

lemma random_remove_ok:
  "distinct states \<Longrightarrow> distinct removed \<Longrightarrow> set removed \<subseteq> set states \<Longrightarrow>
    \<exists>s'. random_remove states removed = Some s' \<and> distinct s' \<and> set s' = set states - set removed"
proof (induction states removed rule: random_remove.induct)
  case (2 states es removed)
  have es: "es \<in> set states" using "2.prems"(3) by auto
  have "set removed \<subseteq> set (remove1 es states)"
    using "2.prems" distinct_remove1_set [OF "2.prems"(1), of es] by auto
  with "2.IH" [OF es] "2.prems" obtain s' where
    "random_remove (remove1 es states) removed = Some s'" "distinct s'" "set s' = set (remove1 es states) - set removed" by auto
  then show ?case using es distinct_remove1_set [OF "2.prems"(1), of es] by auto
qed simp

interpretation dfs: any_searcher dfs_select dfs_update "\<lambda>s. s = []" set distinct "\<lambda>_ _. True" "\<lambda>_. True"
proof unfold_locales
  fix s added removed current env
  assume "distinct s" "valid_update (set s) added removed"
  then show "\<exists>s'. dfs_update env s current added removed = Some s' \<and> distinct s' \<and> set s' = set s \<union> set added - set removed"
    using dfs_remove_ok [of "s @ added" removed] by (auto simp: dfs_update_def valid_update_def)
qed (simp_all add: dfs_select_def)

interpretation random: any_searcher random_select random_update "\<lambda>s. s = []" set distinct "\<lambda>_ _. True" "\<lambda>_. True"
proof unfold_locales
  fix s added removed current env
  assume "distinct s" "valid_update (set s) added removed"
  then show "\<exists>s'. random_update env s current added removed = Some s' \<and> distinct s' \<and> set s' = set s \<union> set added - set removed"
    using random_remove_ok [of "s @ added" removed] by (auto simp: random_update_def valid_update_def)
qed (simp_all add: random_select_def)

interpretation bfs: searcher bfs_select bfs_update "\<lambda>s. s = []" set distinct "\<lambda>s es. s \<noteq> [] \<and> hd s = es" "\<lambda>_. True"
proof unfold_locales
  fix s added removed env and current :: "state_id option"
  assume s: "distinct s" "valid_update (set s) added removed"
    and c: "\<And>c. current = Some c \<Longrightarrow> c \<in> set s \<and> s \<noteq> [] \<and> hd s = c"
  let ?goal = "\<lambda>s0. \<exists>s'. bfs_remove s0 removed = Some s' \<and> distinct s' \<and> set s' = set s \<union> set added - set removed"
  have plain: "?goal (s @ added)"
    using bfs_remove_ok [of "s @ added" removed] s by (auto simp: valid_update_def)
  have moved: "?goal (tl s @ [hd s] @ added)" if "s \<noteq> []"
  proof -
    have set: "set (tl s @ [hd s] @ added) = set s \<union> set added" using that by (cases s) auto
    moreover have "distinct (tl s @ [hd s] @ added)"
      using s that by (cases s) (auto simp: valid_update_def)
    ultimately show ?thesis
      using bfs_remove_ok [of "tl s @ [hd s] @ added" removed] s by (auto simp: valid_update_def)
  qed
  show "\<exists>s'. bfs_update env s current added removed = Some s' \<and> distinct s' \<and> set s' = set s \<union> set added - set removed"
  proof (cases current)
    case None
    then show ?thesis using plain by (simp add: bfs_update_def)
  next
    case (Some x)
    then have x: "s \<noteq> []" "hd s = x" using c by auto
    show ?thesis
    proof (cases "added \<noteq> [] \<and> x \<notin> set removed")
      case True
      then show ?thesis using moved [OF x(1)] x Some by (simp add: bfs_update_def)
    next
      case False
      then show ?thesis using plain Some by (auto simp: bfs_update_def)
    qed
  qed
qed (simp_all add: bfs_select_def)

section \<open>The laws of the CASTAN searcher\<close>

definition queue_ok :: "(dbl list \<times> state_id) list \<Rightarrow> bool" where
  "queue_ok q \<longleftrightarrow> sorted q \<and> distinct q \<and> inj_on snd (set q)"

definition castan_held :: "castan_searcher \<Rightarrow> state_id set" where
  "castan_held s = snd ` set (queue s)"

definition castan_inv :: "cost_map \<Rightarrow> castan_searcher \<Rightarrow> bool" where
  "castan_inv cm s \<longleftrightarrow> queue_ok (queue s) \<and> cost_tables s = cm"

text \<open>Every started state is at an instruction the cost map knows.\<close>

definition priorities_defined :: "cost_map \<Rightarrow> search_env \<Rightarrow> bool" where
  "priorities_defined cm env \<longleftrightarrow> (\<forall>es. getPriority cm (info env es) \<noteq> None)"

lemma castan_erase_ok:
  assumes "queue_ok q" "es \<in> snd ` set q"
  shows "\<exists>q'. castan_erase es q = Some q' \<and> queue_ok q' \<and> set q' = {e \<in> set q. snd e \<noteq> es}"
proof -
  obtain e where f: "find (\<lambda>e. snd e = es) q = Some e"
    using assms(2) by (cases "find (\<lambda>e. snd e = es) q") (auto simp: find_None_iff)
  then have e: "e \<in> set q" "snd e = es" by (auto simp: find_Some_iff)
  have set: "set (remove1 e q) = set q - {e}" using assms(1) by (simp add: queue_ok_def)
  also have "\<dots> = {x \<in> set q. snd x \<noteq> es}"
    using assms(1) e by (auto simp: queue_ok_def inj_on_def)
  finally have "set (remove1 e q) = {x \<in> set q. snd x \<noteq> es}" .
  moreover have "queue_ok (remove1 e q)"
    using assms(1) set by (auto simp: queue_ok_def sorted_remove1 intro: inj_on_subset)
  ultimately show ?thesis using f by (simp add: castan_erase_def)
qed

lemma castan_insert_ok:
  assumes "queue_ok q" "es \<notin> snd ` set q" "getPriority cm (info env es) = Some p"
  shows "\<exists>q'. castan_insert cm env es q = Some q' \<and> queue_ok q' \<and> set q' = insert (p, es) (set q)"
proof -
  have "queue_ok (insort_insert (p, es) q)"
    using assms(1,2) by (auto simp: queue_ok_def sorted_insort_insert distinct_insort_insert set_insort_insert inj_on_def)
  then show ?thesis using assms(3) by (simp add: castan_insert_def set_insort_insert)
qed

lemma castan_insert_all_ok:
  assumes "queue_ok q" "distinct added" "set added \<inter> snd ` set q = {}" "priorities_defined cm env"
  shows "\<exists>q'. castan_insert_all cm env added q = Some q' \<and> queue_ok q' \<and>
    set q' = set q \<union> {(the (getPriority cm (info env es)), es) | es. es \<in> set added}"
  using assms(1-3)
proof (induction added arbitrary: q)
  case Nil
  then show ?case by simp
next
  case (Cons es added)
  obtain p where p: "getPriority cm (info env es) = Some p" using assms(4) by (auto simp: priorities_defined_def)
  obtain q1 where q1: "castan_insert cm env es q = Some q1" "queue_ok q1" "set q1 = insert (p, es) (set q)"
    using castan_insert_ok [OF Cons.prems(1) _ p] Cons.prems(3) by auto
  have "set added \<inter> snd ` set q1 = {}" using Cons.prems(2,3) q1(3) by auto
  from Cons.IH [OF q1(2) _ this] Cons.prems(2) q1(1,3) p show ?case by auto
qed

lemma castan_erase_all_ok:
  assumes "queue_ok q" "distinct removed" "set removed \<subseteq> snd ` set q"
  shows "\<exists>q'. castan_erase_all removed q = Some q' \<and> queue_ok q' \<and> set q' = {e \<in> set q. snd e \<notin> set removed}"
  using assms
proof (induction removed arbitrary: q)
  case Nil
  then show ?case by simp
next
  case (Cons es removed)
  obtain q1 where q1: "castan_erase es q = Some q1" "queue_ok q1" "set q1 = {e \<in> set q. snd e \<noteq> es}"
    using castan_erase_ok [OF Cons.prems(1), of es] Cons.prems(3) by auto
  have "set removed \<subseteq> snd ` set q1"
  proof
    fix x assume x: "x \<in> set removed"
    then obtain e where "e \<in> set q" "snd e = x" using Cons.prems(3) by auto
    moreover have "x \<noteq> es" using x Cons.prems(2) by auto
    ultimately show "x \<in> snd ` set q1" using q1(3) by auto
  qed
  from Cons.IH [OF q1(2) _ this] Cons.prems(2) q1(1,3) show ?case by auto
qed

text \<open>The queue after an update, entry by entry.\<close>

lemma castan_update_queue:
  assumes "castan_inv cm s" "priorities_defined cm env" "valid_update (castan_held s) added removed"
    and "\<And>c. current = Some c \<Longrightarrow> c \<in> castan_held s"
  shows "\<exists>s'. castan_update env s current added removed = Some s' \<and> castan_inv cm s' \<and>
    set (queue s') = {e. snd e \<notin> set removed \<and>
      (e \<in> set (queue s) \<and> Some (snd e) \<noteq> current \<or>
       (Some (snd e) = current \<or> snd e \<in> set added) \<and> getPriority cm (info env (snd e)) = Some (fst e))}"
proof -
  have q: "queue_ok (queue s)" "cost_tables s = cm" using assms(1) by (auto simp: castan_inv_def)
  define pr where "pr es = the (getPriority cm (info env es))" for es
  have def: "getPriority cm (info env es) = Some (pr es)" for es
    using assms(2) by (simp add: priorities_defined_def pr_def)
  obtain q1 where q1: "(case current of None \<Rightarrow> Some (queue s)
      | Some c \<Rightarrow> do { q \<leftarrow> castan_erase c (queue s); castan_insert cm env c q }) = Some q1" "queue_ok q1"
    "set q1 = {e. e \<in> set (queue s) \<and> Some (snd e) \<noteq> current \<or>
      Some (snd e) = current \<and> getPriority cm (info env (snd e)) = Some (fst e)}"
  proof (cases current)
    case None
    then show ?thesis using that [of "queue s"] q by auto
  next
    case (Some c)
    obtain q0 where q0: "castan_erase c (queue s) = Some q0" "queue_ok q0" "set q0 = {e \<in> set (queue s). snd e \<noteq> c}"
      using castan_erase_ok [OF q(1), of c] assms(4) [OF Some] by (auto simp: castan_held_def)
    obtain q1 where q1: "castan_insert cm env c q0 = Some q1" "queue_ok q1"
      "set q1 = insert (pr c, c) (set q0)"
      using castan_insert_ok [OF q0(2) _ def, of c] q0(3) by auto
    have "set q1 = {e. e \<in> set (queue s) \<and> Some (snd e) \<noteq> current \<or>
      Some (snd e) = current \<and> getPriority cm (info env (snd e)) = Some (fst e)}"
      unfolding q1(3) q0(3) using Some by (auto simp: def)
    then show ?thesis using that [of q1] q0(1) q1(1,2) Some by simp
  qed
  have cur: "x \<in> castan_held s" if "Some x = current" for x using assms(4) [OF that [symmetric]] .
  have mem1: "e \<in> set q1 \<longleftrightarrow> e \<in> set (queue s) \<and> Some (snd e) \<noteq> current \<or> Some (snd e) = current \<and> fst e = pr (snd e)" for e
    unfolding q1(3) by (auto simp: def)
  have "x \<in> snd ` set q1" if x: "x \<in> castan_held s" for x
  proof (cases "Some x = current")
    case True
    then have "(pr x, x) \<in> set q1" by (simp add: mem1)
    then show ?thesis by force
  next
    case False
    obtain e where "e \<in> set (queue s)" "snd e = x" using x by (auto simp: castan_held_def)
    then have "e \<in> set q1" using False by (simp add: mem1)
    then show ?thesis using \<open>snd e = x\<close> by blast
  qed
  moreover have "snd ` set q1 \<subseteq> castan_held s"
  proof
    fix x assume "x \<in> snd ` set q1"
    then obtain e where "e \<in> set q1" "x = snd e" by blast
    then show "x \<in> castan_held s" using cur [of x] unfolding mem1 castan_held_def by blast
  qed
  ultimately have held1: "snd ` set q1 = castan_held s" by blast
  have v: "distinct added" "set added \<inter> castan_held s = {}" "distinct removed" "set removed \<subseteq> castan_held s \<union> set added"
    using assms(3) by (auto simp: valid_update_def)
  obtain q2 where q2: "castan_insert_all cm env added q1 = Some q2" "queue_ok q2"
    "set q2 = set q1 \<union> {(pr es, es) | es. es \<in> set added}"
    using castan_insert_all_ok [OF q1(2) v(1) _ assms(2)] v(2) held1 by (auto simp: def)
  have "snd ` set q2 = castan_held s \<union> set added" unfolding q2(3) image_Un held1 by force
  then obtain q3 where q3: "castan_erase_all removed q2 = Some q3" "queue_ok q3" "set q3 = {e \<in> set q2. snd e \<notin> set removed}"
    using castan_erase_all_ok [OF q2(2) v(3)] v(4) by auto
  have "castan_update env s current added removed = Some (s\<lparr>queue := q3\<rparr>)"
    unfolding castan_update_def q(2) q1(1) by (simp add: q2(1) q3(1))
  moreover have "set q3 = {e. snd e \<notin> set removed \<and>
      (e \<in> set (queue s) \<and> Some (snd e) \<noteq> current \<or>
       (Some (snd e) = current \<or> snd e \<in> set added) \<and> getPriority cm (info env (snd e)) = Some (fst e))}"
    unfolding q3(3) q2(3) by (auto simp: mem1 def)
  ultimately show ?thesis using q3(2) q(2) by (simp add: castan_inv_def)
qed

lemma castan_update_held:
  assumes "castan_inv cm s" "priorities_defined cm env" "valid_update (castan_held s) added removed"
    and "\<And>c. current = Some c \<Longrightarrow> c \<in> castan_held s"
  shows "\<exists>s'. castan_update env s current added removed = Some s' \<and> castan_inv cm s' \<and>
    castan_held s' = castan_held s \<union> set added - set removed"
proof -
  obtain s' where s': "castan_update env s current added removed = Some s'" "castan_inv cm s'"
    and q: "set (queue s') = {e. snd e \<notin> set removed \<and>
      (e \<in> set (queue s) \<and> Some (snd e) \<noteq> current \<or>
       (Some (snd e) = current \<or> snd e \<in> set added) \<and> getPriority cm (info env (snd e)) = Some (fst e))}"
    using castan_update_queue [OF assms] by blast
  have "x \<in> castan_held s'" if x: "x \<in> castan_held s \<union> set added" "x \<notin> set removed" for x
  proof (cases "Some x = current \<or> x \<in> set added")
    case True
    obtain p where "getPriority cm (info env x) = Some p" using assms(2) by (auto simp: priorities_defined_def)
    then have "(p, x) \<in> set (queue s')" using q True x(2) by simp
    then show ?thesis by (force simp: castan_held_def)
  next
    case False
    then obtain p where "(p, x) \<in> set (queue s)" using x(1) by (auto simp: castan_held_def)
    then have "(p, x) \<in> set (queue s')" using q False x(2) by simp
    then show ?thesis by (force simp: castan_held_def)
  qed
  moreover have "castan_held s' \<subseteq> castan_held s \<union> set added - set removed"
    using q assms(4) by (auto simp: castan_held_def)
  ultimately show ?thesis using s' by blast
qed

interpretation castan: any_searcher castan_select castan_update "\<lambda>s. queue s = []" castan_held "castan_inv cm"
  "\<lambda>_ _. True" "priorities_defined cm" for cm
proof unfold_locales
  fix s env assume "castan_inv cm s" "castan_held s \<noteq> {}"
  then show "\<exists>es s'. castan_select env s = Some (es, s') \<and> es \<in> castan_held s \<and> castan_inv cm s' \<and>
      castan_held s' = castan_held s \<and> True"
    by (simp add: castan_select_def castan_held_def)
next
  fix s env added removed current
  assume "castan_inv cm s" "priorities_defined cm env" "valid_update (castan_held s) added removed"
    and "\<And>c. current = Some c \<Longrightarrow> c \<in> castan_held s \<and> True"
  then show "\<exists>s'. castan_update env s current added removed = Some s' \<and> castan_inv cm s' \<and>
      castan_held s' = castan_held s \<union> set added - set removed"
    using castan_update_held by blast
qed (auto simp: castan_held_def)

section \<open>The laws of the wrapping searchers\<close>

definition batching_inv :: "('s \<Rightarrow> bool) \<Rightarrow> ('s \<Rightarrow> state_id set) \<Rightarrow> 's batching \<Rightarrow> bool" where
  "batching_inv I H b \<longleftrightarrow> I (batch_base b) \<and> (\<forall>es. lastState b = Some es \<longrightarrow> es \<in> H (batch_base b))"

definition interleaved_inv :: "('s \<Rightarrow> bool) \<Rightarrow> ('s \<Rightarrow> state_id set) \<Rightarrow> 's interleaved \<Rightarrow> bool" where
  "interleaved_inv I H i \<longleftrightarrow> searchers i \<noteq> [] \<and> 0 < index i \<and> index i \<le> length (searchers i) \<and>
     (\<forall>s \<in> set (searchers i). I s \<and> H s = H (hd (searchers i)))"

definition deepening_held :: "('s \<Rightarrow> state_id set) \<Rightarrow> 's deepening \<Rightarrow> state_id set" where
  "deepening_held H d = H (deep_base d) \<union> set (pausedStates d)"

definition deepening_inv :: "('s \<Rightarrow> bool) \<Rightarrow> ('s \<Rightarrow> state_id set) \<Rightarrow> 's deepening \<Rightarrow> bool" where
  "deepening_inv I H d \<longleftrightarrow> I (deep_base d) \<and> H (deep_base d) \<inter> set (pausedStates d) = {} \<and>
     distinct (pausedStates d) \<and> (H (deep_base d) = {} \<longrightarrow> pausedStates d = [])"

lemma interleaved_invI:
  assumes "searchers i \<noteq> []" "0 < index i" "index i \<le> length (searchers i)" "\<forall>s \<in> set (searchers i). I s \<and> H s = X"
  shows "interleaved_inv I H i"
proof -
  have "H (hd (searchers i)) = X" using assms(1,4) by simp
  then show ?thesis using assms unfolding interleaved_inv_def by blast
qed

lemma interleaved_invD:
  assumes "interleaved_inv I H i"
  shows "searchers i \<noteq> []" "0 < index i" "index i \<le> length (searchers i)"
    "s \<in> set (searchers i) \<Longrightarrow> I s \<and> H s = H (hd (searchers i))"
  using assms unfolding interleaved_inv_def by blast+

context any_searcher
begin

lemma batching_select_law:
  assumes "batching_inv inv held b" "held (batch_base b) \<noteq> {}"
  shows "\<exists>es b'. batching_select select env b = Some (es, b') \<and> es \<in> held (batch_base b) \<and>
    batching_inv inv held b' \<and> held (batch_base b') = held (batch_base b)"
proof (cases "batch_over env b")
  case True
  obtain es s' where "select env (batch_base b) = Some (es, s')" "es \<in> held (batch_base b)" "inv s'" "held s' = held (batch_base b)"
    using select_law [of "batch_base b" env] assms by (auto simp: batching_inv_def)
  then show ?thesis using True by (simp add: batching_select_def batching_inv_def Let_def)
next
  case False
  then obtain es where "lastState b = Some es" by (auto simp: batch_over_def)
  then show ?thesis using False assms by (simp add: batching_select_def batching_inv_def)
qed

lemma batching_update_law:
  assumes "batching_inv inv held b" "env_ok env" "valid_update (held (batch_base b)) added removed"
    and "\<And>c. current = Some c \<Longrightarrow> c \<in> held (batch_base b)"
  shows "\<exists>b'. batching_update update env b current added removed = Some b' \<and> batching_inv inv held b' \<and>
    held (batch_base b') = held (batch_base b) \<union> set added - set removed"
proof -
  have inv: "inv (batch_base b)" using assms(1) by (simp add: batching_inv_def)
  obtain s' where s': "update env (batch_base b) current added removed = Some s'" "inv s'"
    "held s' = held (batch_base b) \<union> set added - set removed"
    using update_law [OF inv assms(2,3), of current] any_current [OF inv] assms(4) by blast
  show ?thesis
  proof (cases "\<exists>es. lastState b = Some es \<and> es \<in> set removed")
    case True
    then show ?thesis using s' by (auto simp: batching_update_def batching_inv_def)
  next
    case False
    then show ?thesis using s' assms(1) by (auto simp: batching_update_def batching_inv_def)
  qed
qed

lemma batching_searcher:
  "any_searcher (batching_select select) (batching_update update) (\<lambda>b. is_empty (batch_base b))
     (\<lambda>b. held (batch_base b)) (batching_inv inv held) (\<lambda>_ _. True) env_ok"
proof unfold_locales
  fix b env assume "batching_inv inv held b" "held (batch_base b) \<noteq> {}"
  from batching_select_law [OF this, of env]
  show "\<exists>es s'. batching_select select env b = Some (es, s') \<and> es \<in> held (batch_base b) \<and>
      batching_inv inv held s' \<and> held (batch_base s') = held (batch_base b) \<and> True" by simp
next
  fix b :: "'a batching" assume "batching_inv inv held b"
  then show "is_empty (batch_base b) \<longleftrightarrow> held (batch_base b) = {}"
    using empty_law by (simp add: batching_inv_def)
next
  fix b env added removed current
  assume "batching_inv inv held b" "env_ok env" "valid_update (held (batch_base b)) added removed"
    and "\<And>c. current = Some c \<Longrightarrow> c \<in> held (batch_base b) \<and> True"
  then show "\<exists>b'. batching_update update env b current added removed = Some b' \<and> batching_inv inv held b' \<and>
      held (batch_base b') = held (batch_base b) \<union> set added - set removed"
    using batching_update_law by blast
qed simp

lemma update_all_law:
  assumes "\<forall>s \<in> set ss. inv s \<and> held s = H" "env_ok env" "valid_update H added removed"
    and "\<And>c. current = Some c \<Longrightarrow> c \<in> H"
  shows "\<exists>ss'. update_all update env current added removed ss = Some ss' \<and> length ss' = length ss \<and>
    (\<forall>s \<in> set ss'. inv s \<and> held s = H \<union> set added - set removed)"
  using assms(1)
proof (induction ss)
  case Nil
  then show ?case by simp
next
  case (Cons s ss)
  have s: "inv s" "held s = H" using Cons.prems by auto
  obtain s' where "update env s current added removed = Some s'" "inv s'" "held s' = H \<union> set added - set removed"
    using update_law [OF s(1) assms(2), of added removed current] any_current [OF s(1)] assms(3,4) s(2) by blast
  with Cons show ?case by auto
qed

lemma interleaved_searcher:
  "any_searcher (interleaved_select select) (interleaved_update update) (\<lambda>i. is_empty (searchers i ! 0))
     (\<lambda>i. held (hd (searchers i))) (interleaved_inv inv held) (\<lambda>_ _. True) env_ok"
proof unfold_locales
  fix i env assume i: "interleaved_inv inv held i" and H: "held (hd (searchers i)) \<noteq> {}"
  let ?k = "index i - 1"
  have k: "?k < length (searchers i)" "index i \<noteq> 0" "index i \<le> length (searchers i)" "searchers i \<noteq> []"
    using interleaved_invD(1-3) [OF i] by auto
  have s: "inv (searchers i ! ?k)" "held (searchers i ! ?k) = held (hd (searchers i))"
    using interleaved_invD(4) [OF i nth_mem [OF k(1)]] by blast+
  obtain es s' where s': "select env (searchers i ! ?k) = Some (es, s')" "es \<in> held (hd (searchers i))"
    "inv s'" "held s' = held (hd (searchers i))"
    using select_law [OF s(1), of env] s(2) H by auto
  let ?i = "i\<lparr>searchers := (searchers i)[?k := s'], index := (if ?k = 0 then length (searchers i) else ?k)\<rparr>"
  have hd: "held (hd ((searchers i)[?k := s'])) = held (hd (searchers i))"
    using k(4) s'(4) by (cases "searchers i"; cases ?k) auto
  have "\<forall>s \<in> set ((searchers i)[?k := s']). inv s \<and> held s = held (hd (searchers i))"
    using interleaved_invD(4) [OF i] s'(3,4) set_update_subset_insert [of "searchers i" ?k s'] by blast
  then have "interleaved_inv inv held ?i" using k by (intro interleaved_invI [where X = "held (hd (searchers i))"]) simp_all
  moreover have "interleaved_select select env i = Some (es, ?i)"
    using k s'(1) by (simp add: interleaved_select_def Let_def)
  moreover have "held (hd (searchers ?i)) = held (hd (searchers i))" using hd by simp
  ultimately show "\<exists>es s'. interleaved_select select env i = Some (es, s') \<and> es \<in> held (hd (searchers i)) \<and>
      interleaved_inv inv held s' \<and> held (hd (searchers s')) = held (hd (searchers i)) \<and> True"
    using s'(2) by blast
next
  fix i :: "'a interleaved" assume "interleaved_inv inv held i"
  then have "searchers i \<noteq> []" "inv (hd (searchers i))"
    using interleaved_invD(1,4) [of inv held i] by (blast, simp)
  then show "is_empty (searchers i ! 0) \<longleftrightarrow> held (hd (searchers i)) = {}"
    using empty_law by (simp add: hd_conv_nth)
next
  fix i env added removed current
  assume i: "interleaved_inv inv held i" "env_ok env" "valid_update (held (hd (searchers i))) added removed"
    and c: "\<And>c. current = Some c \<Longrightarrow> c \<in> held (hd (searchers i)) \<and> True"
  have "\<forall>s \<in> set (searchers i). inv s \<and> held s = held (hd (searchers i))" using interleaved_invD(4) [OF i(1)] by blast
  from update_all_law [OF this i(2,3), of current] c obtain ss' where
    ss': "update_all update env current added removed (searchers i) = Some ss'" "length ss' = length (searchers i)"
      "\<forall>s \<in> set ss'. inv s \<and> held s = held (hd (searchers i)) \<union> set added - set removed" by blast
  have idx: "0 < index i" "index i \<le> length (searchers i)" "searchers i \<noteq> []"
    using interleaved_invD(1-3) [OF i(1)] by blast+
  have "ss' \<noteq> []" using ss'(2) idx(3) by auto
  then have "hd ss' \<in> set ss'" by simp
  then have h: "held (hd ss') = held (hd (searchers i)) \<union> set added - set removed" using ss'(3) by blast
  have "interleaved_inv inv held (i\<lparr>searchers := ss'\<rparr>)"
    by (rule interleaved_invI [where X = "held (hd (searchers i)) \<union> set added - set removed"]) (use ss'(2,3) idx \<open>ss' \<noteq> []\<close> in simp_all)
  moreover have "interleaved_update update env i current added removed = Some (i\<lparr>searchers := ss'\<rparr>)"
    using ss'(1) by (simp add: interleaved_update_def)
  ultimately show "\<exists>s'. interleaved_update update env i current added removed = Some s' \<and> interleaved_inv inv held s' \<and>
      held (hd (searchers s')) = held (hd (searchers i)) \<union> set added - set removed"
    using h by (metis interleaved.select_convs(1) interleaved.surjective interleaved.update_convs(1))
qed simp

end

context any_searcher
begin

lemma update_none_law:
  assumes "inv s" "env_ok env" "valid_update (held s) added removed"
  shows "\<exists>s'. update env s None added removed = Some s' \<and> inv s' \<and> held s' = held s \<union> set added - set removed"
  using update_law [OF assms, of None] by blast

lemma deepening_update_law:
  assumes d: "deepening_inv inv held d" and env: "env_ok env" and v: "valid_update (deepening_held held d) added removed"
    and cur: "\<And>c. current = Some c \<Longrightarrow> c \<in> held (deep_base d)"
  shows "\<exists>d'. deepening_update update is_empty env d current added removed = Some d' \<and> deepening_inv inv held d' \<and>
    deepening_held held d' = deepening_held held d \<union> set added - set removed"
proof -
  let ?P = "set (pausedStates d)"
  define alt where "alt = filter (\<lambda>es. es \<notin> ?P) removed"
  define paused where "paused = filter (\<lambda>es. es \<notin> set removed) (pausedStates d)"
  define late where "late \<longleftrightarrow> (\<exists>c. current = Some c \<and> c \<notin> set removed \<and> getWallTime env - startTime d > deep_time d)"
  have base: "inv (deep_base d)" "held (deep_base d) \<inter> ?P = {}" "distinct paused" "set paused = ?P - set removed"
    using d by (auto simp: deepening_inv_def paused_def)
  have v1: "valid_update (held (deep_base d)) added alt" "?P \<inter> set added = {}" "set removed \<subseteq> deepening_held held d \<union> set added"
    using v by (auto simp: valid_update_def deepening_held_def alt_def)
  obtain b1 where b1: "update env (deep_base d) current added alt = Some b1" "inv b1"
    "held b1 = held (deep_base d) \<union> set added - set alt"
    using update_law [OF base(1) env v1(1), of current] any_current [OF base(1)] cur by blast
  have alt: "set alt = set removed - ?P" by (auto simp: alt_def)
  have b1_paused: "held b1 \<inter> set paused = {}" using b1(3) base(2,4) v1(2) by auto
  obtain b2 p2 where b2: "(case current of
       Some c \<Rightarrow> (if c \<notin> set removed \<and> getWallTime env - startTime d > deep_time d
                  then map_option (\<lambda>b. (b, insort_insert c paused)) (update env b1 None [] [c]) else Some (b1, paused))
     | None \<Rightarrow> Some (b1, paused)) = Some (b2, p2)" "inv b2" "distinct p2" "held b2 \<inter> set p2 = {}"
     "held b2 \<union> set p2 = held b1 \<union> set paused"
  proof (cases late)
    case False
    then show ?thesis using that [of b1 paused] b1(2) base(3) b1_paused
      by (cases current) (auto simp: late_def)
  next
    case True
    then obtain c where c: "current = Some c" "c \<notin> set removed" "getWallTime env - startTime d > deep_time d"
      by (auto simp: late_def)
    have cb: "c \<in> held b1" using cur [OF c(1)] c(2) b1(3) alt by auto
    then have "valid_update (held b1) [] [c]" by (simp add: valid_update_def)
    then obtain b2 where b2: "update env b1 None [] [c] = Some b2" "inv b2" "held b2 = held b1 - {c}"
      using update_none_law [OF b1(2) env, of "[]" "[c]"] by auto
    show ?thesis
      using that [of b2 "insort_insert c paused"] b2 c base(3) b1_paused cb
      by (auto simp: distinct_insort_insert set_insort_insert)
  qed
  have total: "held b2 \<union> set p2 = deepening_held held d \<union> set added - set removed"
    using b2(5) b1(3) base(2,4) alt v1(2) by (auto simp: deepening_held_def)
  show ?thesis
  proof (cases "is_empty b2")
    case True
    then have "held b2 = {}" using empty_law [OF b2(2)] by simp
    then have "valid_update (held b2) p2 []" using b2(3) by (simp add: valid_update_def)
    from update_none_law [OF b2(2) env this] obtain b3 where
      b3: "update env b2 None p2 [] = Some b3" "inv b3" "held b3 = set p2" using \<open>held b2 = {}\<close> by auto
    let ?d = "d\<lparr>deep_base := b3, deep_time := deep_time d * 2, pausedStates := []\<rparr>"
    have "deepening_update update is_empty env d current added removed = Some ?d"
      using b1(1) b2(1) b3(1) True by (simp add: deepening_update_def Let_def alt_def [symmetric] paused_def [symmetric])
    moreover have "deepening_inv inv held ?d" using b3 by (simp add: deepening_inv_def)
    moreover have "deepening_held held ?d = deepening_held held d \<union> set added - set removed"
      using b3(3) total \<open>held b2 = {}\<close> by (simp add: deepening_held_def)
    ultimately show ?thesis by blast
  next
    case False
    let ?d = "d\<lparr>deep_base := b2, pausedStates := p2\<rparr>"
    have "deepening_update update is_empty env d current added removed = Some ?d"
      using b1(1) b2(1) False by (simp add: deepening_update_def Let_def alt_def [symmetric] paused_def [symmetric])
    moreover have "deepening_inv inv held ?d" using b2 False empty_law [OF b2(2)] by (simp add: deepening_inv_def)
    moreover have "deepening_held held ?d = deepening_held held d \<union> set added - set removed"
      using total by (simp add: deepening_held_def)
    ultimately show ?thesis by blast
  qed
qed

lemma deepening_searcher:
  "searcher (deepening_select select) (deepening_update update is_empty)
     (\<lambda>d. is_empty (deep_base d) \<and> pausedStates d = []) (deepening_held held) (deepening_inv inv held)
     (\<lambda>d es. es \<in> held (deep_base d)) env_ok"
proof unfold_locales
  fix d env assume d: "deepening_inv inv held d" and "deepening_held held d \<noteq> {}"
  then have b: "inv (deep_base d)" "held (deep_base d) \<noteq> {}" by (auto simp: deepening_inv_def deepening_held_def)
  obtain es s' where "select env (deep_base d) = Some (es, s')" "es \<in> held (deep_base d)" "inv s'" "held s' = held (deep_base d)"
    using select_law [OF b, of env] by blast
  then show "\<exists>es s'. deepening_select select env d = Some (es, s') \<and> es \<in> deepening_held held d \<and>
      deepening_inv inv held s' \<and> deepening_held held s' = deepening_held held d \<and> es \<in> held (deep_base s')"
    using d by (simp add: deepening_select_def deepening_held_def deepening_inv_def)
next
  fix d :: "'a deepening" assume d: "deepening_inv inv held d"
  then show "is_empty (deep_base d) \<and> pausedStates d = [] \<longleftrightarrow> deepening_held held d = {}"
    using empty_law [of "deep_base d"] by (auto simp: deepening_inv_def deepening_held_def)
next
  fix d env added removed current
  assume "deepening_inv inv held d" "env_ok env" "valid_update (deepening_held held d) added removed"
    and "\<And>c. current = Some c \<Longrightarrow> c \<in> deepening_held held d \<and> c \<in> held (deep_base d)"
  then show "\<exists>s'. deepening_update update is_empty env d current added removed = Some s' \<and> deepening_inv inv held s' \<and>
      deepening_held held s' = deepening_held held d \<union> set added - set removed"
    using deepening_update_law by blast
qed

end

text \<open>The searchers the tool can put around its own.\<close>

interpretation castan_batching: any_searcher "batching_select castan_select" "batching_update castan_update"
  "\<lambda>b. queue (batch_base b) = []" "\<lambda>b. castan_held (batch_base b)" "batching_inv (castan_inv cm) castan_held"
  "\<lambda>_ _. True" "priorities_defined cm" for cm
  by (rule castan.batching_searcher)

interpretation castan_interleaved: any_searcher "interleaved_select castan_select" "interleaved_update castan_update"
  "\<lambda>i. queue (searchers i ! 0) = []" "\<lambda>i. castan_held (hd (searchers i))" "interleaved_inv (castan_inv cm) castan_held"
  "\<lambda>_ _. True" "priorities_defined cm" for cm
  by (rule castan.interleaved_searcher)

interpretation castan_deepening: searcher "deepening_select castan_select"
  "deepening_update castan_update (\<lambda>s. queue s = [])" "\<lambda>d. queue (deep_base d) = [] \<and> pausedStates d = []"
  "deepening_held castan_held" "deepening_inv (castan_inv cm) castan_held"
  "\<lambda>d es. es \<in> castan_held (deep_base d)" "priorities_defined cm" for cm
  by (rule castan.deepening_searcher)

section \<open>The engine with each strategy\<close>

text \<open>
  \<open>Executor::run\<close> after the searcher is constructed: the initial states are handed over
  without a current state, then the loop runs.
\<close>

definition run_executor ::
  "(search_env \<Rightarrow> 's \<Rightarrow> (state_id \<times> 's) option)
   \<Rightarrow> (search_env \<Rightarrow> 's \<Rightarrow> state_id option \<Rightarrow> state_id list \<Rightarrow> state_id list \<Rightarrow> 's option)
   \<Rightarrow> search_env \<Rightarrow> state_id list \<Rightarrow> (search_env \<times> search_env \<times> state_id list \<times> state_id list) list \<Rightarrow> 's
   \<Rightarrow> ('s \<times> state_id set) option" where
  "run_executor select update env newStates steps s =
     do { s \<leftarrow> update env s None newStates []; run_states select update steps (s, set newStates) }"

context searcher
begin

lemma executor_run:
  assumes "inv s" "held s = {}" "distinct newStates" "env_ok env" "valid_steps env_ok steps (set newStates)"
  shows "\<exists>s'. run_executor select update env newStates steps s = Some (s', states_after steps (set newStates)) \<and>
    inv s' \<and> held s' = states_after steps (set newStates)"
proof -
  have "valid_update (held s) newStates []" using assms(2,3) by (simp add: valid_update_def)
  then obtain s1 where s1: "update env s None newStates [] = Some s1" "inv s1" "held s1 = set newStates"
    using update_law [OF assms(1,4), of newStates "[]" None] assms(2) by auto
  show ?thesis using engine_run [OF s1(2,3) assms(5)] s1(1) by (simp add: run_executor_def)
qed

end

text \<open>The stack the options build around the default search: batching, then deepening.\<close>

definition user_select :: "search_env \<Rightarrow> castan_searcher batching deepening
    \<Rightarrow> (state_id \<times> castan_searcher batching deepening) option" where
  "user_select = deepening_select (batching_select castan_select)"

definition user_update :: "search_env \<Rightarrow> castan_searcher batching deepening \<Rightarrow> state_id option
    \<Rightarrow> state_id list \<Rightarrow> state_id list \<Rightarrow> castan_searcher batching deepening option" where
  "user_update = deepening_update (batching_update castan_update) (\<lambda>b. queue (batch_base b) = [])"

text \<open>
  \<open>constructUserSearcher\<close> with these options. The constructors leave three fields
  uninitialised; what they hold is an argument.
\<close>

definition constructUserSearcher ::
  "cost_map \<Rightarrow> rat \<Rightarrow> nat \<Rightarrow> rat \<Rightarrow> nat \<Rightarrow> rat \<Rightarrow> castan_searcher batching deepening" where
  "constructUserSearcher cm batchTime batchInstructions start_time0 start_instructions0 deep_start0 =
     \<lparr>deep_base = \<lparr>batch_base = \<lparr>queue = [], cost_tables = cm\<rparr>, timeBudget = batchTime,
        instructionBudget = batchInstructions, lastState = None, lastStartTime = start_time0,
        lastStartInstructions = start_instructions0\<rparr>,
      deep_time = 1, startTime = deep_start0, pausedStates = []\<rparr>"

interpretation user: searcher user_select user_update
  "\<lambda>d. queue (batch_base (deep_base d)) = [] \<and> pausedStates d = []"
  "deepening_held (\<lambda>b. castan_held (batch_base b))"
  "deepening_inv (batching_inv (castan_inv cm) castan_held) (\<lambda>b. castan_held (batch_base b))"
  "\<lambda>d es. es \<in> castan_held (batch_base (deep_base d))" "priorities_defined cm" for cm
  unfolding user_select_def user_update_def by (rule castan_batching.deepening_searcher)

text \<open>The priorities of the queue are those of the states as they are now.\<close>

definition fresh :: "cost_map \<Rightarrow> search_env \<Rightarrow> castan_searcher \<Rightarrow> bool" where
  "fresh cm env s \<longleftrightarrow> (\<forall>e \<in> set (queue s). getPriority cm (info env (snd e)) = Some (fst e))"

lemma queue_last_max:
  assumes "castan_inv cm s" "fresh cm env s" "castan_held s \<noteq> {}"
  shows "\<exists>es p. castan_select env' s = Some (es, s) \<and> es \<in> castan_held s \<and> getPriority cm (info env es) = Some p \<and>
    (\<forall>es' \<in> castan_held s. \<exists>p'. getPriority cm (info env es') = Some p' \<and> p' \<le> p)"
proof -
  have q: "queue s \<noteq> []" "sorted (queue s)" using assms(1,3) by (auto simp: castan_inv_def queue_ok_def castan_held_def)
  obtain p es where l: "last (queue s) = (p, es)" by fastforce
  have mem: "(p, es) \<in> set (queue s)" using q(1) l last_in_set by metis
  have le: "e \<le> (p, es)" if "e \<in> set (queue s)" for e
  proof -
    have "sorted (butlast (queue s) @ [(p, es)])" using q l by (metis append_butlast_last_id)
    moreover have "set (queue s) = insert (p, es) (set (butlast (queue s)))"
      using q(1) l by (metis append_butlast_last_id list.simps(15) rotate1.simps(2) set_rotate1)
    ultimately show ?thesis using that by (auto simp: sorted_append)
  qed
  have "\<exists>p'. getPriority cm (info env es') = Some p' \<and> p' \<le> p" if es': "es' \<in> castan_held s" for es'
  proof -
    obtain p' where p': "(p', es') \<in> set (queue s)" using es' by (auto simp: castan_held_def)
    then have "getPriority cm (info env es') = Some p'" using assms(2) by (force simp: fresh_def)
    moreover have "p' \<le> p" using le [OF p'] by (auto simp: less_eq_prod_def)
    ultimately show ?thesis by blast
  qed
  moreover have "getPriority cm (info env es) = Some p" using assms(2) mem by (force simp: fresh_def)
  moreover have "es \<in> castan_held s" using mem by (force simp: castan_held_def)
  ultimately show ?thesis using q(1) l by (simp add: castan_select_def)
qed

lemma castan_update_fresh:
  assumes "castan_inv cm s" "priorities_defined cm env'" "valid_update (castan_held s) added removed" "c \<in> castan_held s"
    and "fresh cm env s" "\<And>es. es \<in> castan_held s - {c} \<Longrightarrow> info env' es = info env es"
  shows "\<exists>s'. castan_update env' s (Some c) added removed = Some s' \<and> castan_inv cm s' \<and>
    castan_held s' = castan_held s \<union> set added - set removed \<and> fresh cm env' s'"
proof -
  obtain s' where s': "castan_update env' s (Some c) added removed = Some s'" "castan_inv cm s'"
    and q: "set (queue s') = {e. snd e \<notin> set removed \<and>
      (e \<in> set (queue s) \<and> Some (snd e) \<noteq> Some c \<or>
       (Some (snd e) = Some c \<or> snd e \<in> set added) \<and> getPriority cm (info env' (snd e)) = Some (fst e))}"
    using castan_update_queue [OF assms(1-3), of "Some c"] assms(4) by blast
  have "castan_held s' = castan_held s \<union> set added - set removed"
    using castan_update_held [OF assms(1-3), of "Some c"] assms(4) s'(1) by auto
  moreover have "getPriority cm (info env' (snd e)) = Some (fst e)" if e: "e \<in> set (queue s')" for e
  proof (cases "e \<in> set (queue s) \<and> snd e \<noteq> c")
    case True
    then have "info env' (snd e) = info env (snd e)" using assms(6) by (force simp: castan_held_def)
    then show ?thesis using assms(5) True by (simp add: fresh_def)
  next
    case False
    then show ?thesis using e unfolding q by auto
  qed
  ultimately show ?thesis using s' by (auto simp: fresh_def)
qed
section \<open>What the engine gets from its searcher\<close>

lemmas searcher_start = castan_inv_def queue_ok_def castan_held_def batching_inv_def deepening_inv_def deepening_held_def

text \<open>
  C12: With the CASTAN searcher the engine's loop never fails an assertion or reads an empty
  container: for all states it forks and terminates, as long as every state has a priority,
  the run returns, and searcher and engine hold exactly the states that were added and not
  removed.
\<close>

theorem castan_engine_ok:
  assumes "distinct newStates" "priorities_defined cm env" "valid_steps (priorities_defined cm) steps (set newStates)"
  shows "\<exists>s. run_executor castan_select castan_update env newStates steps \<lparr>queue = [], cost_tables = cm\<rparr> =
      Some (s, states_after steps (set newStates)) \<and> castan_held s = states_after steps (set newStates)"
  using castan.executor_run [of cm "\<lparr>queue = [], cost_tables = cm\<rparr>", OF _ _ assms(1,2,3)]
  by (auto simp: searcher_start)

text \<open>
  C11: The search is best-first. When only the executed state changed since the last update, the
  update succeeds, every stored priority is again the current priority of its state, and the
  next state selected has the largest priority of all states.
\<close>

theorem castan_selects_best:
  assumes "castan_inv cm s" "fresh cm env s" "c \<in> castan_held s" "priorities_defined cm env'"
    and "valid_update (castan_held s) added removed" "castan_held s \<union> set added - set removed \<noteq> {}"
    and "\<And>es. es \<in> castan_held s - {c} \<Longrightarrow> info env' es = info env es"
  shows "\<exists>s' es p. castan_update env' s (Some c) added removed = Some s' \<and> castan_inv cm s' \<and> fresh cm env' s' \<and>
    castan_select env' s' = Some (es, s') \<and> es \<in> castan_held s \<union> set added - set removed \<and>
    getPriority cm (info env' es) = Some p \<and>
    (\<forall>es' \<in> castan_held s \<union> set added - set removed. \<exists>p'. getPriority cm (info env' es') = Some p' \<and> p' \<le> p)"
proof -
  obtain s' where s': "castan_update env' s (Some c) added removed = Some s'" "castan_inv cm s'"
    "castan_held s' = castan_held s \<union> set added - set removed" "fresh cm env' s'"
    using castan_update_fresh [OF assms(1,4,5,3,2,7)] by blast
  show ?thesis using queue_last_max [OF s'(2,4), of env'] s' assms(6) by (metis (no_types, lifting))
qed

text \<open>
  C14: The searcher the options build around it, batching inside iterative deepening, loses no
  state: whatever the clock says, whatever the constructors left uninitialised, the run returns,
  and the states in the queue together with the paused ones are those of the engine.
\<close>

theorem user_engine_ok:
  assumes "distinct newStates" "priorities_defined cm env" "valid_steps (priorities_defined cm) steps (set newStates)"
  shows "\<exists>d. run_executor user_select user_update env newStates steps (constructUserSearcher cm bt bi t0 n0 t1) =
      Some (d, states_after steps (set newStates)) \<and>
    castan_held (batch_base (deep_base d)) \<union> set (pausedStates d) = states_after steps (set newStates) \<and>
    castan_held (batch_base (deep_base d)) \<inter> set (pausedStates d) = {}"
  using user.executor_run [of cm "constructUserSearcher cm bt bi t0 n0 t1", OF _ _ assms(1,2,3)]
  by (auto simp: searcher_start constructUserSearcher_def)

text \<open>
  The classic strategies differ in the order only: depth-first, breadth-first and random
  search return on every run of the engine and hold the same states after it.
\<close>

theorem strategies_hold_same_states:
  assumes "distinct newStates" "valid_steps (\<lambda>_. True) steps (set newStates)"
  shows "(\<exists>s. run_executor dfs_select dfs_update env newStates steps [] = Some (s, states_after steps (set newStates)) \<and>
      distinct s \<and> set s = states_after steps (set newStates)) \<and>
    (\<exists>s. run_executor bfs_select bfs_update env newStates steps [] = Some (s, states_after steps (set newStates)) \<and>
      distinct s \<and> set s = states_after steps (set newStates)) \<and>
    (\<exists>s. run_executor random_select random_update env newStates steps [] = Some (s, states_after steps (set newStates)) \<and>
      distinct s \<and> set s = states_after steps (set newStates))"
  using dfs.executor_run [of "[]", OF _ _ assms(1) _ assms(2)] bfs.executor_run [of "[]", OF _ _ assms(1) _ assms(2)]
    random.executor_run [of "[]", OF _ _ assms(1) _ assms(2)]
  by simp

text \<open>
  Batching around breadth-first search fails an assertion as soon as a state of an open batch
  forks twice: the first fork moves it from the front of the queue to the back, and batching
  goes on with it.
\<close>

theorem batching_bfs_crashes:
  assumes "batch_base b = c # es # states" "distinct (c # es # states)" "lastState b = Some c"
    and "\<not> batch_over env b" "\<not> batch_over env2 b" "added \<noteq> []" "added2 \<noteq> []"
  shows "run_states (batching_select bfs_select) (batching_update bfs_update)
      [(env, env', added, []), (env2, env2', added2, [])] (b, set (batch_base b)) = None"
proof -
  let ?b = "b\<lparr>batch_base := es # states @ [c] @ added\<rparr>"
  have "batch_over env2 ?b = batch_over env2 b" by (simp add: batch_over_def)
  then have "batching_select bfs_select env2 ?b = Some (c, ?b)" "batching_select bfs_select env b = Some (c, b)"
    using assms(3,4,5) by (simp_all add: batching_select_def)
  moreover have "batching_update bfs_update env' b (Some c) added [] = Some ?b"
    using assms(1,3,6) by (simp add: batching_update_def bfs_update_def)
  moreover have "batching_update bfs_update env2' ?b (Some c) added2 [] = None"
    using assms(2,3,7) by (auto simp: batching_update_def bfs_update_def)
  ultimately show ?thesis using assms(1) by (simp add: updateStates_def)
qed

section \<open>Runs on concrete inputs\<close>

definition sample_costs :: cost_map where
  "sample_costs = \<lparr>costs = (\<lambda>i. Some (True, of_nat i)), successorCosts = Map.empty\<rparr>"

definition sample_env :: "nat \<Rightarrow> search_env" where
  "sample_env t = \<lparr>getInt32 = 7, getWallTime = of_nat t, instructions = 10 * t,
     info = (\<lambda>es. \<lparr>numIterations = 1, totalTime = of_nat t, pc_inst = es, callers = []\<rparr>)\<rparr>"

text \<open>Two states; the first forks a third, then the second ends.\<close>

definition sample_steps :: "(search_env \<times> search_env \<times> state_id list \<times> state_id list) list" where
  "sample_steps = [(sample_env 1, sample_env 2, [3], []), (sample_env 4, sample_env 9, [], [2])]"

lemma sample_priorities [simp]: "priorities_defined sample_costs (sample_env t)"
  by (simp add: priorities_defined_def getPriority_def sample_costs_def sample_env_def)

lemma sample_valid: "E (sample_env 2) \<Longrightarrow> E (sample_env 9) \<Longrightarrow> valid_steps E sample_steps (set [1, 2])"
  by (simp add: sample_steps_def valid_update_def)

lemma sample_states_after: "states_after sample_steps (set [1, 2]) = {1, 3}"
  by (auto simp: sample_steps_def)

theorem castan_engine_ok_witness:
  "\<exists>s. run_executor castan_select castan_update (sample_env 0) [1, 2] sample_steps \<lparr>queue = [], cost_tables = sample_costs\<rparr> =
      Some (s, {1, 3}) \<and> castan_held s = {1, 3}"
  using castan_engine_ok [of "[1, 2]" sample_costs "sample_env 0" sample_steps] sample_valid [of "priorities_defined sample_costs"]
  unfolding sample_states_after by simp

theorem user_engine_ok_witness:
  "\<exists>d. run_executor user_select user_update (sample_env 0) [1, 2] sample_steps (constructUserSearcher sample_costs 5 1000 42 17 99) =
      Some (d, {1, 3}) \<and>
    castan_held (batch_base (deep_base d)) \<union> set (pausedStates d) = {1, 3}"
  using user_engine_ok [of "[1, 2]" sample_costs "sample_env 0" sample_steps 5 1000 42 17 99]
    sample_valid [of "priorities_defined sample_costs"]
  unfolding sample_states_after by auto

theorem strategies_hold_same_states_witness:
  "\<exists>s. run_executor bfs_select bfs_update (sample_env 0) [1, 2] sample_steps [] = Some (s, {1, 3})"
  using strategies_hold_same_states [of "[1, 2]" sample_steps "sample_env 0"] sample_valid [of "\<lambda>_. True"]
  unfolding sample_states_after by auto

definition sample_searcher :: castan_searcher where
  "sample_searcher = \<lparr>queue = [([Fin 2, Fin 1], 1), ([Fin 3, Fin 1], 2)], cost_tables = sample_costs\<rparr>"

definition sample_env_moved :: search_env where
  "sample_env_moved = (sample_env 1)\<lparr>info := (info (sample_env 1))(2 := \<lparr>numIterations = 2, totalTime = 1, pc_inst = 0, callers = []\<rparr>)\<rparr>"

lemma sample_searcher_held [simp]: "castan_held sample_searcher = {1, 2}"
  by (simp add: castan_held_def sample_searcher_def)

theorem castan_selects_best_witness:
  "\<exists>s'. castan_update sample_env_moved sample_searcher (Some 2) [] [] = Some s' \<and> fresh sample_costs sample_env_moved s'"
proof -
  have "castan_inv sample_costs sample_searcher"
    by (simp add: castan_inv_def queue_ok_def sample_searcher_def less_eq_prod_def less_dbl_def)
  moreover have "fresh sample_costs (sample_env 1) sample_searcher"
    by (simp add: fresh_def sample_searcher_def getPriority_def sample_costs_def sample_env_def)
  moreover have "priorities_defined sample_costs sample_env_moved"
    by (simp add: priorities_defined_def getPriority_def sample_costs_def sample_env_def sample_env_moved_def)
  moreover have "info sample_env_moved es = info (sample_env 1) es" if "es \<in> castan_held sample_searcher - {2}" for es
    using that by (auto simp: sample_env_moved_def)
  ultimately show ?thesis
    using castan_selects_best [of sample_costs sample_searcher "sample_env 1" 2 sample_env_moved "[]" "[]"]
    by (auto simp: valid_update_def)
qed

definition sample_batch :: "state_id list batching" where
  "sample_batch = \<lparr>batch_base = [1, 2], timeBudget = 5, instructionBudget = 1000, lastState = Some 1,
     lastStartTime = 0, lastStartInstructions = 0\<rparr>"

theorem batching_bfs_crashes_witness:
  "run_states (batching_select bfs_select) (batching_update bfs_update)
     [(sample_env 1, sample_env 2, [3], []), (sample_env 3, sample_env 4, [4], [])] (sample_batch, {1, 2}) = None"
  using batching_bfs_crashes [of sample_batch 1 2 "[]" "sample_env 1" "sample_env 3" "[3]" "[4]" "sample_env 2" "sample_env 4"]
  by (simp add: sample_batch_def batch_over_def sample_env_def)

end
