(* ===== verification/Generic_Cache.thy ===== *)
theory Generic_Cache
  imports Contention_Cache
begin

text \<open>
  The multi-level cache model of \<open>src/lib/CASTAN/GenericCacheModel.cpp\<close>: a list of levels
  that ends with the main memory, whose size is zero. A level is either set-associative
  with a fixed number of ways or sliced by contention sets. One access walks down the
  levels, evicting as it goes; the cost functions predict what an access would cost, and the
  symbolic memory operation searches for the most expensive line. Undefined behaviour of the
  source, such as the use of an uninitialised line number, is the result \<open>None\<close>.
\<close>

section \<open>Configuration and state\<close>

record cache_level =
  size_bytes :: nat
  writeBack :: bool
  latency :: rat
  associativity :: nat
  levelSets :: "(int list \<times> nat) list"
  levelSetIdx :: "int \<rightharpoonup> int"

record generic_stats =
  g_instructionCount :: nat
  g_readCount :: nat
  g_writeCount :: nat
  g_hitCount :: "(nat, nat) smap"

definition new_generic_stats :: generic_stats where
  "new_generic_stats = \<lparr>g_instructionCount = 0, g_readCount = 0, g_writeCount = 0, g_hitCount = []\<rparr>"

record generic_cache =
  g_enabled :: bool
  g_cache :: "nat \<Rightarrow> u32 \<Rightarrow> cache_set"
  g_currentTime :: nat
  g_loopStats :: "generic_stats list"

definition new_generic_cache :: generic_cache where
  "new_generic_cache = \<lparr>g_enabled = False, g_cache = (\<lambda>_ _. []), g_currentTime = 0, g_loopStats = []\<rparr>"

text \<open>The configuration the sources select, before the constructor loads the sliced level.\<close>

definition cacheConfig :: "cache_level list" where
  "cacheConfig =
     [\<lparr>size_bytes = 32 * 1024, writeBack = True, latency = 4 * (23 / 100), associativity = 8,
        levelSets = [], levelSetIdx = Map.empty\<rparr>,
      \<lparr>size_bytes = 256 * 1024, writeBack = True, latency = 12 * (23 / 100), associativity = 8,
        levelSets = [], levelSetIdx = Map.empty\<rparr>,
      \<lparr>size_bytes = 25600 * 1024, writeBack = True, latency = 30 * (23 / 100), associativity = 0,
        levelSets = [], levelSetIdx = Map.empty\<rparr>,
      \<lparr>size_bytes = 0, writeBack = False, latency = 62, associativity = 0,
        levelSets = [], levelSetIdx = Map.empty\<rparr>]"

text \<open>
  The constructor loads each sliced level from its file; a later set overwrites the index
  of an address it shares with an earlier one. \<open>files\<close> gives the lines of the file of a
  level, if it opens.
\<close>

fun index_level :: "nat \<Rightarrow> (int list \<times> nat) list \<Rightarrow> (int \<rightharpoonup> int) \<Rightarrow> (int \<rightharpoonup> int)" where
  "index_level i [] m = m"
| "index_level i (cset # sets) m =
     index_level (Suc i) sets (fold (\<lambda>address m. m(address \<mapsto> int i)) (fst cset) m)"

definition load_level :: "string list option \<Rightarrow> cache_level \<Rightarrow> cache_level option" where
  "load_level inFile c =
     (case inFile of
        None \<Rightarrow> None
      | Some ls \<Rightarrow>
          (case load_sets ls (levelSets c) of
             None \<Rightarrow> None
           | Some sets \<Rightarrow> Some (c\<lparr>levelSets := sets, levelSetIdx := index_level 0 sets (levelSetIdx c)\<rparr>)))"

fun load_levels :: "(nat \<Rightarrow> string list option) \<Rightarrow> nat \<Rightarrow> cache_level list \<Rightarrow> cache_level list option" where
  "load_levels files level [] = None"
| "load_levels files level (c # cs) =
     (if size_bytes c = 0 then Some (c # cs)
      else do {
        c' \<leftarrow> (if associativity c \<noteq> 0 then Some c else load_level (files level) c);
        cs' \<leftarrow> load_levels files (Suc level) cs;
        Some (c' # cs')
      })"

section \<open>One access\<close>

definition num_lines :: "cache_level \<Rightarrow> nat" where
  "num_lines c = size_bytes c div associativity c div 2 ^ BLOCK_BITS"

definition block_ptr :: "u64 \<Rightarrow> u64" where
  "block_ptr address = drop_bit BLOCK_BITS address"

definition UINT_MAX :: nat where "UINT_MAX = 2 ^ 32 - 1"

text \<open>The contention set of an address on a sliced level.\<close>

definition level_set :: "cache_level \<Rightarrow> u64 \<Rightarrow> (int list \<times> nat) option option" where
  "level_set c address =
     (case levelSetIdx c (sint (push_bit BLOCK_BITS (block_ptr address))) of
        None \<Rightarrow> Some None
      | Some setIdx \<Rightarrow>
          (if 0 \<le> setIdx \<and> nat setIdx < length (levelSets c) \<and> fst (levelSets c ! nat setIdx) \<noteq> []
           then Some (Some (levelSets c ! nat setIdx)) else None))"

text \<open>
  The line an access goes to and the ways it has; a block outside all contention sets goes
  to the line numbered -1, which has no limit.
\<close>

definition line_of :: "cache_level \<Rightarrow> u64 \<Rightarrow> (u32 \<times> nat) option" where
  "line_of c address =
     (if associativity c \<noteq> 0 then
        (if num_lines c = 0 then None
         else Some (word_of_nat (unat (block_ptr address) mod num_lines c), associativity c))
      else case level_set c address of
          None \<Rightarrow> None
        | Some None \<Rightarrow> Some (-1, UINT_MAX)
        | Some (Some cset) \<Rightarrow> Some (word_of_int (hd (fst cset)), snd cset))"

definition bump_hit :: "nat \<Rightarrow> generic_cache \<Rightarrow> generic_cache option" where
  "bump_hit level m =
     map_option (\<lambda>stats. m\<lparr>g_loopStats := stats\<rparr>)
       (with_back (\<lambda>s. s\<lparr>g_hitCount := sm_put level
          (Suc (case map_of (g_hitCount s) level of None \<Rightarrow> 0 | Some n \<Rightarrow> n)) (g_hitCount s)\<rparr>) (g_loopStats m))"

definition with_line :: "nat \<Rightarrow> u32 \<Rightarrow> (cache_set \<Rightarrow> cache_set) \<Rightarrow> generic_cache \<Rightarrow> generic_cache" where
  "with_line level line f m =
     m\<lparr>g_cache := (g_cache m)(level := (g_cache m level)(line := f (g_cache m level line)))\<rparr>"

text \<open>The clock of the replacement policy advances once per access, at the first level.\<close>

definition tick :: "nat \<Rightarrow> generic_cache \<Rightarrow> generic_cache" where
  "tick level m = (if level = 0 then m\<lparr>g_currentTime := g_currentTime m + 1\<rparr> else m)"

text \<open>Eviction from a full line; \<open>write_next\<close> writes a dirty block to the next level.\<close>

definition evict_line ::
  "(u64 \<Rightarrow> generic_cache \<Rightarrow> generic_cache option) \<Rightarrow> nat \<Rightarrow> u32 \<Rightarrow> nat \<Rightarrow> generic_cache \<Rightarrow> generic_cache option" where
  "evict_line write_next level line ways m =
     (let s = g_cache m level line in
      if ways \<le> length s
      then (case find_lru s of
              None \<Rightarrow> None
            | Some lruPtr \<Rightarrow> do {
                m \<leftarrow> (if dirty (the (map_of s lruPtr)) then write_next (push_bit BLOCK_BITS lruPtr) m else Some m);
                Some (with_line level line (sm_erase lruPtr) m)
              })
      else Some m)"

text \<open>\<open>updateCache\<close>; the first argument holds the levels from \<open>level\<close> on.\<close>

fun updateLevel :: "cache_level list \<Rightarrow> nat \<Rightarrow> u64 \<Rightarrow> bool \<Rightarrow> generic_cache \<Rightarrow> generic_cache option" where
  "updateLevel [] level address isWrite m = None"
| "updateLevel (c # cs) level address isWrite m =
     (if size_bytes c = 0 then bump_hit level m
      else do {
        (line, ways) \<leftarrow> line_of c address;
        let blockPtr = block_ptr address;
        let m = tick level m;
        (case map_of (g_cache m level line) blockPtr of
           Some e \<Rightarrow> do {
             m \<leftarrow> (if isWrite \<and> \<not> writeBack c then updateLevel cs (Suc level) address isWrite m
                   else bump_hit level m);
             Some (with_line level line
               (sm_put blockPtr \<lparr>useTime = g_currentTime m, dirty = (if isWrite then writeBack c else dirty e)\<rparr>) m)
           }
         | None \<Rightarrow> do {
             m \<leftarrow> evict_line (\<lambda>victim. updateLevel cs (Suc level) victim True) level line ways m;
             m \<leftarrow> (if \<not> isWrite \<or> \<not> writeBack c then updateLevel cs (Suc level) address isWrite m
                   else Some m);
             Some (with_line level line
               (sm_put blockPtr \<lparr>useTime = g_currentTime m, dirty = (isWrite \<and> writeBack c)\<rparr>) m)
           })
      })"

section \<open>What an access would cost\<close>

definition trunc :: "rat \<Rightarrow> nat" where "trunc x = nat \<lfloor>x\<rfloor>"

text \<open>
  In the cost functions the line of a block outside all contention sets is an
  uninitialised variable; using it is undefined.
\<close>

definition cost_line :: "cache_level \<Rightarrow> u64 \<Rightarrow> (u32 \<times> nat) option" where
  "cost_line c address =
     (if associativity c = 0 \<and> level_set c address = Some None then None else line_of c address)"

fun getCost :: "cache_level list \<Rightarrow> nat \<Rightarrow> u64 \<Rightarrow> bool \<Rightarrow> generic_cache \<Rightarrow> nat option" where
  "getCost [] level address isWrite m = None"
| "getCost (c # cs) level address isWrite m =
     (if size_bytes c = 0 then Some (trunc (latency c))
      else do {
        (line, ways) \<leftarrow> cost_line c address;
        let s = g_cache m level line;
        (case map_of s (block_ptr address) of
           Some _ \<Rightarrow> (if isWrite \<and> \<not> writeBack c then getCost cs (Suc level) address isWrite m
                      else Some (trunc (latency c)))
         | None \<Rightarrow> do {
             cost \<leftarrow> (if ways \<le> length s
                     then (case find_lru s of
                             None \<Rightarrow> None
                           | Some lruPtr \<Rightarrow>
                               (if dirty (the (map_of s lruPtr))
                                then getCost cs (Suc level) (push_bit BLOCK_BITS lruPtr) True m else Some 0))
                     else Some 0);
             (if \<not> isWrite \<or> \<not> writeBack c
              then map_option (\<lambda>r. cost + r) (getCost cs (Suc level) address isWrite m)
              else Some (add_trunc cost (latency c)))
           })
      })"

text \<open>\<open>getMissCost\<close> leaves the ways of a set-associative level at their initial value.\<close>

fun getLevelMissCost :: "cache_level list \<Rightarrow> nat \<Rightarrow> u64 \<Rightarrow> bool \<Rightarrow> generic_cache \<Rightarrow> nat option" where
  "getLevelMissCost [] level address isWrite m = None"
| "getLevelMissCost (c # cs) level address isWrite m =
     (if size_bytes c = 0 then Some (trunc (latency c))
      else do {
        (line, ways) \<leftarrow> cost_line c address;
        let s = g_cache m level line;
        cost \<leftarrow> (if (if associativity c \<noteq> 0 then UINT_MAX else ways) \<le> length s
                then (case find_lru s of
                        None \<Rightarrow> None
                      | Some lruPtr \<Rightarrow>
                          (if dirty (the (map_of s lruPtr))
                           then getCost cs (Suc level) (push_bit BLOCK_BITS lruPtr) True m else Some 0))
                else Some 0);
        (if \<not> isWrite \<or> \<not> writeBack c
         then map_option (\<lambda>r. cost + r) (getLevelMissCost cs (Suc level) address isWrite m)
         else Some (add_trunc cost (latency c)))
      })"

text \<open>\<open>getMissesUntilEviction\<close> looks at the third level only; its count is an \<open>int\<close>.\<close>

definition getMissesUntilEviction :: "cache_level list \<Rightarrow> generic_cache \<Rightarrow> u64 \<Rightarrow> int option" where
  "getMissesUntilEviction cfg m address =
     (if length cfg \<le> 2 then None
      else case levelSetIdx (cfg ! 2) (sint address) of
          Some setIdx \<Rightarrow>
            (if 0 \<le> setIdx \<and> nat setIdx < length (levelSets (cfg ! 2))
             then Some (signed_take_bit 31 (int (snd (levelSets (cfg ! 2) ! nat setIdx)) -
                    int (length (g_cache m 2 (ucast address)))))
             else None)
        | None \<Rightarrow> Some (int (25600 * 1024 div 2 ^ BLOCK_BITS)))"

section \<open>The symbolic memory operation\<close>

text \<open>The candidate lines over all levels, and whether some level is sliced.\<close>

fun candidate_lines :: "cache_level list \<Rightarrow> u32 list \<Rightarrow> bool \<Rightarrow> (u32 list \<times> bool) option" where
  "candidate_lines [] lines enumerated = None"
| "candidate_lines (c # cs) lines enumerated =
     (if size_bytes c = 0 then Some (lines, enumerated)
      else if associativity c \<noteq> 0
      then candidate_lines cs (fold (\<lambda>line. insort_insert (word_of_nat line)) [0..<num_lines c] lines) enumerated
      else if \<exists>cset \<in> set (levelSets c). fst cset = [] then None
      else candidate_lines cs
        (fold (\<lambda>cset. insort_insert (word_of_int (drop_bit BLOCK_BITS (hd (fst cset))))) (levelSets c) lines) True)"

fun line_costs ::
  "cache_level list \<Rightarrow> generic_cache \<Rightarrow> bool \<Rightarrow> (nat \<Rightarrow> int) \<Rightarrow> u32 list \<Rightarrow> (set_cost, u64) smap
   \<Rightarrow> (set_cost, u64) smap option" where
  "line_costs cfg m isWrite rnd [] acc = Some acc"
| "line_costs cfg m isWrite rnd (line # rest) acc =
     do {
       let address = ucast (push_bit BLOCK_BITS line);
       c \<leftarrow> getLevelMissCost cfg 0 address isWrite m;
       n \<leftarrow> getMissesUntilEviction cfg m address;
       line_costs cfg m isWrite rnd rest (sm_put ((- int c, n), rnd (unat line)) (ucast line) acc)
     }"

text \<open>
  What the loop over the levels collects for a line: the blocks that are hits, the
  addresses of its contention set, and the largest number of ways.
\<close>

fun line_hits ::
  "cache_level list \<Rightarrow> nat \<Rightarrow> generic_cache \<Rightarrow> u64 \<Rightarrow> int list \<Rightarrow> int list \<Rightarrow> nat
   \<Rightarrow> (int list \<times> int list \<times> nat) option" where
  "line_hits [] level m line hits addresses ways = None"
| "line_hits (c # cs) level m line hits addresses ways =
     (if size_bytes c = 0 then Some (hits, addresses, ways)
      else if associativity c \<noteq> 0 then
        (if num_lines c = 0 then None
         else line_hits cs (Suc level) m line
           (fold (\<lambda>p. insort_insert (sint (fst p))) (g_cache m level (word_of_nat (unat line mod num_lines c))) hits)
           addresses (max ways (associativity c)))
      else (let hits = fold (\<lambda>p. insort_insert (sint (fst p))) (g_cache m level (ucast line)) hits in
        case levelSetIdx c (sint (push_bit BLOCK_BITS line)) of
          None \<Rightarrow> line_hits cs (Suc level) m line hits addresses ways
        | Some setIdx \<Rightarrow>
            (if 0 \<le> setIdx \<and> nat setIdx < length (levelSets c)
             then line_hits cs (Suc level) m line hits (fst (levelSets c ! nat setIdx))
                    (max ways (snd (levelSets c ! nat setIdx)))
             else None)))"

fun try_line_addresses ::
  "address_solver \<Rightarrow> addr_pred \<Rightarrow> nat \<Rightarrow> int list \<Rightarrow> int list \<Rightarrow> nat \<Rightarrow> u64 option" where
  "try_line_addresses sol F ways hits [] count = None"
| "try_line_addresses sol F ways hits (a # as) count =
     (if a \<in> set hits then try_line_addresses sol F ways hits as count
      else (let e = line_pred F a in
        if trivially_false sol e then try_line_addresses sol F ways hits as count
        else case getValue sol e of
            Some concrete \<Rightarrow>
              (if ways < count + 1 then Some concrete
               else try_line_addresses sol F ways hits as (count + 1))
          | None \<Rightarrow> try_line_addresses sol F ways hits as count))"

text \<open>
  Without a sliced level the search constrains the address to the line and away from the
  blocks that are hits; \<open>None\<close> in the inner option is a constraint that folds to false.
\<close>

definition away_pred :: "addr_pred \<Rightarrow> u64 \<Rightarrow> addr_pred" where
  "away_pred F hit = (\<lambda>v. F v \<and> \<not> (push_bit BLOCK_BITS hit = (push_bit BLOCK_BITS (-1) AND v)))"

fun away_from_hits :: "address_solver \<Rightarrow> u64 list \<Rightarrow> addr_pred \<Rightarrow> addr_pred option" where
  "away_from_hits sol [] F = Some F"
| "away_from_hits sol (hit # hits) F =
     (if trivially_false sol (away_pred F hit) then None else away_from_hits sol hits (away_pred F hit))"

fun away_from_levels ::
  "address_solver \<Rightarrow> cache_level list \<Rightarrow> nat \<Rightarrow> generic_cache \<Rightarrow> u64 \<Rightarrow> addr_pred \<Rightarrow> addr_pred option option" where
  "away_from_levels sol [] level m line F = None"
| "away_from_levels sol (c # cs) level m line F =
     (if size_bytes c = 0 then Some (Some F)
      else if associativity c = 0 \<or> num_lines c = 0 then None
      else case away_from_hits sol (map fst (g_cache m level (word_of_nat (unat line mod num_lines c)))) F of
          None \<Rightarrow> Some None
        | Some F' \<Rightarrow> away_from_levels sol cs (Suc level) m line F')"

definition same_line_pred :: "addr_pred \<Rightarrow> u32 list \<Rightarrow> u64 \<Rightarrow> addr_pred" where
  "same_line_pred F lines line =
     (\<lambda>v. F v \<and> push_bit BLOCK_BITS line = (ucast (push_bit BLOCK_BITS (last lines)) AND v))"

fun try_lines ::
  "cache_level list \<Rightarrow> generic_cache \<Rightarrow> address_solver \<Rightarrow> addr_pred \<Rightarrow> u32 list \<Rightarrow> bool \<Rightarrow> u64 list \<Rightarrow> u64 option option" where
  "try_lines cfg m sol F lines enumerated [] = Some None"
| "try_lines cfg m sol F lines enumerated (line # rest) =
     (if enumerated then do {
        (hits, addresses, ways) \<leftarrow> line_hits cfg 0 m line [] [] 0;
        (case try_line_addresses sol F ways hits addresses (length hits) of
           Some v \<Rightarrow> Some (Some v)
         | None \<Rightarrow> try_lines cfg m sol F lines enumerated rest)
      }
      else (let e = same_line_pred F lines line in
        if trivially_false sol e then try_lines cfg m sol F lines enumerated rest
        else do {
          r \<leftarrow> away_from_levels sol cfg 0 m line e;
          (case r of
             None \<Rightarrow> try_lines cfg m sol F lines enumerated rest
           | Some e' \<Rightarrow>
               (case getValue sol e' of
                  Some v \<Rightarrow> Some (Some v)
                | None \<Rightarrow> try_lines cfg m sol F lines enumerated rest))
        }))"

definition worst_line_search ::
  "cache_level list \<Rightarrow> generic_cache \<Rightarrow> address_solver \<Rightarrow> bool \<Rightarrow> (nat \<Rightarrow> int) \<Rightarrow> addr_pred \<Rightarrow> bool
   \<Rightarrow> u64 option option" where
  "worst_line_search cfg m sol worstCaseSymIndices rnd F isWrite =
     (if worstCaseSymIndices then do {
        (lines, enumerated) \<leftarrow> candidate_lines cfg [] False;
        costs \<leftarrow> line_costs cfg m isWrite rnd lines [];
        (if costs = [] then None else try_lines cfg m sol F lines enumerated (map snd costs))
      } else Some None)"

text \<open>The result of a memory operation: the address, what is left of its values, the state.\<close>

definition genericMemoryOperation ::
  "cache_level list \<Rightarrow> address_solver \<Rightarrow> bool \<Rightarrow> (nat \<Rightarrow> int) \<Rightarrow> addr_pred \<Rightarrow> bool
   \<Rightarrow> generic_cache \<Rightarrow> (u64 \<times> addr_pred \<times> generic_cache) option" where
  "genericMemoryOperation cfg sol worstCaseSymIndices rnd F isWrite m =
     do {
       (v, F') \<leftarrow>
         (case constantValue sol F of
            Some v \<Rightarrow> Some (v, F)
          | None \<Rightarrow> do {
              found \<leftarrow> worst_line_search cfg m sol worstCaseSymIndices rnd F isWrite;
              (case found of
                 Some v \<Rightarrow> Some (v, pin F v)
               | None \<Rightarrow> map_option (\<lambda>v. (v, pin F v)) (getValue sol F))
            });
       map_option (\<lambda>m'. (v, F', m')) (updateLevel cfg 0 v isWrite m)
     }"

section \<open>Loads, stores, instructions, iterations\<close>

definition genericLoad ::
  "cache_level list \<Rightarrow> address_solver \<Rightarrow> bool \<Rightarrow> (nat \<Rightarrow> int) \<Rightarrow> addr_pred
   \<Rightarrow> generic_cache \<Rightarrow> (u64 \<times> addr_pred \<times> generic_cache) option option" where
  "genericLoad cfg sol worstCaseSymIndices rnd F m =
     (if g_enabled m then do {
        stats \<leftarrow> with_back (\<lambda>s. s\<lparr>g_readCount := g_readCount s + 1\<rparr>) (g_loopStats m);
        map_option Some (genericMemoryOperation cfg sol worstCaseSymIndices rnd F False (m\<lparr>g_loopStats := stats\<rparr>))
      } else Some None)"

definition genericStore ::
  "cache_level list \<Rightarrow> address_solver \<Rightarrow> bool \<Rightarrow> (nat \<Rightarrow> int) \<Rightarrow> addr_pred
   \<Rightarrow> generic_cache \<Rightarrow> (u64 \<times> addr_pred \<times> generic_cache) option option" where
  "genericStore cfg sol worstCaseSymIndices rnd F m =
     (if g_enabled m then do {
        stats \<leftarrow> with_back (\<lambda>s. s\<lparr>g_writeCount := g_writeCount s + 1\<rparr>) (g_loopStats m);
        map_option Some (genericMemoryOperation cfg sol worstCaseSymIndices rnd F True (m\<lparr>g_loopStats := stats\<rparr>))
      } else Some None)"

definition genericExec :: "generic_cache \<Rightarrow> generic_cache option" where
  "genericExec m =
     (if g_enabled m
      then map_option (\<lambda>stats. m\<lparr>g_loopStats := stats\<rparr>)
             (with_back (\<lambda>s. s\<lparr>g_instructionCount := g_instructionCount s + 1\<rparr>) (g_loopStats m))
      else Some m)"

definition genericLoop :: "nat \<Rightarrow> generic_cache \<Rightarrow> bool \<times> generic_cache" where
  "genericLoop MaxLoops m =
     (if g_enabled m
      then (if MaxLoops \<le> length (g_loopStats m) then (False, m)
            else (True, m\<lparr>g_loopStats := g_loopStats m @ [new_generic_stats]\<rparr>))
      else (True, m\<lparr>g_enabled := True, g_loopStats := g_loopStats m @ [new_generic_stats]\<rparr>))"

definition level_ns :: "cache_level list \<Rightarrow> nat \<times> nat \<Rightarrow> rat" where
  "level_ns cfg h = of_nat (snd h) * latency (cfg ! fst h)"

definition genericTotalTime :: "cache_level list \<Rightarrow> generic_cache \<Rightarrow> rat" where
  "genericTotalTime cfg m =
     fold (\<lambda>it ns. fold (\<lambda>h ns. ns + level_ns cfg h) (g_hitCount it)
       (ns + (FIXED_OVERHEAD_NS + of_nat (g_instructionCount it) * NS_PER_INSTRUCTION))) (g_loopStats m) 0"

section \<open>Well-formed configurations\<close>

definition level_wf :: "cache_level \<Rightarrow> bool" where
  "level_wf c \<longleftrightarrow>
     (if associativity c \<noteq> 0 then num_lines c \<noteq> 0
      else (\<forall>a i. levelSetIdx c a = Some i \<longrightarrow>
              0 \<le> i \<and> nat i < length (levelSets c) \<and> a \<in> set (fst (levelSets c ! nat i))) \<and>
           (\<forall>p \<in> set (levelSets c). 0 < snd p))"

fun levels_wf :: "cache_level list \<Rightarrow> bool" where
  "levels_wf [] \<longleftrightarrow> False"
| "levels_wf (c # cs) \<longleftrightarrow> size_bytes c = 0 \<or> (level_wf c \<and> levels_wf cs)"

lemma level_set_defined:
  assumes "level_wf c" "associativity c = 0"
  shows "level_set c a = Some None \<or> (\<exists>cset \<in> set (levelSets c). level_set c a = Some (Some cset) \<and> 0 < snd cset)"
proof (cases "levelSetIdx c (sint (push_bit BLOCK_BITS (block_ptr a)))")
  case None
  then show ?thesis by (simp add: level_set_def)
next
  case (Some i)
  then have i: "0 \<le> i" "nat i < length (levelSets c)" "fst (levelSets c ! nat i) \<noteq> []"
    using assms by (fastforce simp: level_wf_def)+
  moreover have "levelSets c ! nat i \<in> set (levelSets c)" using i(2) by (rule nth_mem)
  ultimately show ?thesis using Some assms by (simp add: level_set_def level_wf_def)
qed

lemma line_of_defined:
  assumes "level_wf c"
  shows "\<exists>line ways. line_of c a = Some (line, ways) \<and> 0 < ways \<and>
    (associativity c \<noteq> 0 \<longrightarrow> ways = associativity c \<and> line = word_of_nat (unat (block_ptr a) mod num_lines c))"
proof (cases "associativity c = 0")
  case True
  from level_set_defined [OF assms this, of a] True show ?thesis
    by (auto simp: line_of_def UINT_MAX_def)
next
  case False
  then show ?thesis using assms by (simp add: line_of_def level_wf_def)
qed

lemma index_level_range:
  assumes "index_level i sets m a = Some j" "n = i + length sets" "\<And>a j. m a = Some j \<Longrightarrow> 0 \<le> j \<and> nat j < i \<and> a \<in> set (fst (all ! nat j))"
    "sets = drop i all" "i \<le> length all"
  shows "0 \<le> j \<and> nat j < length all \<and> a \<in> set (fst (all ! nat j))"
  using assms
proof (induction i sets m arbitrary: n rule: index_level.induct)
  case (1 i m)
  then show ?case by fastforce
next
  case (2 i cset sets m)
  have all: "cset = all ! i" "sets = drop (Suc i) all" "Suc i \<le> length all"
    using 2(5,6) by (metis Cons_nth_drop_Suc drop_eq_Nil linorder_not_le list.distinct(1) list.inject Suc_leI)+
  let ?m = "fold (\<lambda>address m. m(address \<mapsto> int i)) (fst cset) m"
  have upd: "fold (\<lambda>address m. m(address \<mapsto> int i)) as m0 x = (if x \<in> set as then Some (int i) else m0 x)" for as m0 x
    by (induction as arbitrary: m0) auto
  have "0 \<le> j \<and> nat j < Suc i \<and> a \<in> set (fst (all ! nat j))" if "?m a = Some j" for a j
    using that 2(4) [of a j] all(1) by (auto simp: upd less_Suc_eq split: if_splits)
  then show ?case
    using 2(1) [OF _ refl _ all(2,3)] 2(2) by simp
qed

lemma load_level_wf:
  assumes "load_level (Some ls) c = Some c'" "levelSets c = []" "levelSetIdx c = Map.empty" "associativity c = 0"
    and "\<forall>p \<in> set (levelSets c'). 0 < snd p"
  shows "level_wf c' \<and> size_bytes c' = size_bytes c \<and> associativity c' = associativity c"
proof -
  obtain sets where sets: "load_sets ls [] = Some sets"
    and c': "c' = c\<lparr>levelSets := sets, levelSetIdx := index_level 0 sets Map.empty\<rparr>"
    using assms(1-3) by (auto simp: load_level_def split: option.splits)
  have "0 \<le> i \<and> nat i < length sets \<and> a \<in> set (fst (sets ! nat i))" if "index_level 0 sets Map.empty a = Some i" for a i
    using index_level_range [OF that refl] by simp
  then show ?thesis using assms(4,5) by (auto simp: level_wf_def c')
qed

text \<open>The shipped configuration is well-formed once its third level is loaded.\<close>

lemma load_cacheConfig:
  assumes "load_levels files 0 cacheConfig = Some cfg" "\<forall>c \<in> set cfg. \<forall>p \<in> set (levelSets c). 0 < snd p"
  shows "levels_wf cfg \<and> length cfg = 4 \<and> take 2 cfg = take 2 cacheConfig \<and> associativity (cfg ! 2) = 0 \<and> size_bytes (cfg ! 2) \<noteq> 0"
proof -
  obtain c' where c': "load_level (files 2) (cacheConfig ! 2) = Some c'"
    and cfg: "cfg = [cacheConfig ! 0, cacheConfig ! 1, c', cacheConfig ! 3]"
    using assms(1) by (auto simp: cacheConfig_def numeral_2_eq_2 numeral_3_eq_3 split: Option.bind_splits)
  obtain ls where ls: "files 2 = Some ls" using c' by (cases "files 2") (auto simp: load_level_def)
  have "level_wf c' \<and> size_bytes c' = 25600 * 1024 \<and> associativity c' = 0"
    using load_level_wf [OF c' [unfolded ls]] assms(2) by (simp add: cfg cacheConfig_def)
  moreover have "level_wf (cacheConfig ! 0)" "level_wf (cacheConfig ! 1)"
    by (simp_all add: cacheConfig_def level_wf_def num_lines_def BLOCK_BITS_def)
  ultimately show ?thesis by (simp add: cfg) (simp add: cacheConfig_def numeral_2_eq_2)
qed

section \<open>The invariant of the levels\<close>

text \<open>
  Every line is an ordered container stamped with past times; on a set-associative level it
  has at most as many blocks as ways, and only blocks that belong to it.
\<close>

definition line_ok :: "cache_level \<Rightarrow> nat \<Rightarrow> u32 \<Rightarrow> cache_set \<Rightarrow> bool" where
  "line_ok c now line s \<longleftrightarrow> sm_wf s \<and> times_below (Suc now) s \<and>
     (associativity c \<noteq> 0 \<longrightarrow> length s \<le> associativity c \<and>
        (\<forall>k \<in> sm_keys s. line = word_of_nat (unat k mod num_lines c)))"

fun levels_ok :: "cache_level list \<Rightarrow> nat \<Rightarrow> generic_cache \<Rightarrow> bool" where
  "levels_ok [] level m \<longleftrightarrow> True"
| "levels_ok (c # cs) level m \<longleftrightarrow>
     (\<forall>line. line_ok c (g_currentTime m) line (g_cache m level line)) \<and> levels_ok cs (Suc level) m"

text \<open>What a call on the levels from \<open>level\<close> on leaves alone.\<close>

definition frame :: "nat \<Rightarrow> generic_cache \<Rightarrow> generic_cache \<Rightarrow> bool" where
  "frame level m m' \<longleftrightarrow> (\<forall>j < level. g_cache m' j = g_cache m j) \<and> g_currentTime m' = g_currentTime m \<and>
     g_enabled m' = g_enabled m \<and> length (g_loopStats m') = length (g_loopStats m)"

lemma frame_refl [simp]: "frame level m m"
  by (simp add: frame_def)

lemma frame_trans: "frame level m m' \<Longrightarrow> frame level m' m'' \<Longrightarrow> frame level m m''"
  by (simp add: frame_def)

lemma frame_mono: "frame (Suc level) m m' \<Longrightarrow> frame level m m'"
  by (simp add: frame_def)

lemma frame_with_line [simp]: "frame level m (with_line level line f m)"
  by (simp add: frame_def with_line_def)

lemma bump_hit_frame: "bump_hit l m = Some m' \<Longrightarrow> frame level m m' \<and> g_cache m' = g_cache m"
  by (cases "g_loopStats m" rule: rev_cases) (auto simp: bump_hit_def with_back_def frame_def)

lemma bump_hit_defined: "g_loopStats m \<noteq> [] \<Longrightarrow> \<exists>m'. bump_hit level m = Some m'"
  by (simp add: bump_hit_def with_back_def)

lemma with_line_simps [simp]:
  "g_currentTime (with_line level line f m) = g_currentTime m"
  "g_loopStats (with_line level line f m) = g_loopStats m"
  "g_enabled (with_line level line f m) = g_enabled m"
  "g_cache (with_line level line f m) level line = f (g_cache m level line)"
  "line' \<noteq> line \<Longrightarrow> g_cache (with_line level line f m) level line' = g_cache m level line'"
  "j \<noteq> level \<Longrightarrow> g_cache (with_line level line f m) j = g_cache m j"
  by (simp_all add: with_line_def)

lemma levels_ok_cong:
  assumes "\<forall>j \<ge> level. g_cache m' j = g_cache m j" "g_currentTime m' = g_currentTime m"
  shows "levels_ok cs level m' \<longleftrightarrow> levels_ok cs level m"
  using assms by (induction cs arbitrary: level) auto

lemma levels_ok_with_line [simp]: "levels_ok cs (Suc level) (with_line level line f m) \<longleftrightarrow> levels_ok cs (Suc level) m"
  by (rule levels_ok_cong) auto

lemma line_ok_later: "line_ok c now line s \<Longrightarrow> now \<le> now' \<Longrightarrow> line_ok c now' line s"
  by (auto simp: line_ok_def times_below_def less_Suc_eq_le intro: order_trans)

lemma levels_ok_later:
  assumes "levels_ok cs level m" "g_cache m' = g_cache m" "g_currentTime m \<le> g_currentTime m'"
  shows "levels_ok cs level m'"
  using assms by (induction cs arbitrary: level) (auto intro: line_ok_later)

lemma line_ok_put:
  assumes "line_ok c now line s" "useTime e = now"
    and "associativity c \<noteq> 0 \<longrightarrow> line = word_of_nat (unat b mod num_lines c)"
    and "b \<in> sm_keys s \<or> (associativity c \<noteq> 0 \<longrightarrow> length s < associativity c)"
  shows "line_ok c now line (sm_put b e s)"
  using assms by (auto simp: line_ok_def times_below_def sm_simps less_Suc_eq_le Suc_le_eq split: if_splits)

lemma line_ok_erase: "line_ok c now line s \<Longrightarrow> line_ok c now line (sm_erase b s)"
  by (auto simp: line_ok_def times_below_def sm_simps)
lemma updateLevel_cases:
  assumes "updateLevel (c # cs) level a w m = Some m'"
  obtains (memory) "size_bytes c = 0" "bump_hit level m = Some m'"
  | (hit) line ways e m1 where "size_bytes c \<noteq> 0" "line_of c a = Some (line, ways)"
      "map_of (g_cache m level line) (block_ptr a) = Some e"
      "(if w \<and> \<not> writeBack c then updateLevel cs (Suc level) a w (tick level m) else bump_hit level (tick level m)) = Some m1"
      "m' = with_line level line (sm_put (block_ptr a)
        \<lparr>useTime = g_currentTime m1, dirty = (if w then writeBack c else dirty e)\<rparr>) m1"
  | (miss) line ways m1 m2 where "size_bytes c \<noteq> 0" "line_of c a = Some (line, ways)"
      "map_of (g_cache m level line) (block_ptr a) = None"
      "evict_line (\<lambda>victim. updateLevel cs (Suc level) victim True) level line ways (tick level m) = Some m1"
      "(if \<not> w \<or> \<not> writeBack c then updateLevel cs (Suc level) a w m1 else Some m1) = Some m2"
      "m' = with_line level line (sm_put (block_ptr a)
        \<lparr>useTime = g_currentTime m2, dirty = (w \<and> writeBack c)\<rparr>) m2"
proof (cases "size_bytes c = 0")
  case True
  then show ?thesis using assms memory by simp
next
  case False
  obtain line ways where lw: "line_of c a = Some (line, ways)"
    using assms False by (auto split: Option.bind_splits)
  have tick: "g_cache (tick level m) = g_cache m" by (simp add: tick_def)
  show ?thesis
  proof (cases "map_of (g_cache m level line) (block_ptr a)")
    case None
    then show ?thesis
      using assms False lw miss [OF False lw None] by (auto simp: tick Let_def split: Option.bind_splits)
  next
    case (Some e)
    then show ?thesis
      using assms False lw hit [OF False lw Some] by (auto simp: tick Let_def split: Option.bind_splits)
  qed
qed

lemma evict_line_cases:
  assumes "evict_line write_next level line ways m = Some m'"
  obtains (room) "m' = m" "length (g_cache m level line) < ways"
  | (clean) lru where "ways \<le> length (g_cache m level line)" "find_lru (g_cache m level line) = Some lru"
      "\<not> dirty (the (map_of (g_cache m level line) lru))" "m' = with_line level line (sm_erase lru) m"
  | (dirty) lru m1 where "ways \<le> length (g_cache m level line)" "find_lru (g_cache m level line) = Some lru"
      "dirty (the (map_of (g_cache m level line) lru))" "write_next (push_bit BLOCK_BITS lru) m = Some m1"
      "m' = with_line level line (sm_erase lru) m1"
  using assms
  by (auto simp: evict_line_def Let_def not_le split: if_splits option.splits Option.bind_splits)

lemma tick_Suc [simp]: "tick (Suc level) m = m"
  by (simp add: tick_def)

lemma updateLevel_frame:
  "updateLevel cs (Suc level) a w m = Some m' \<Longrightarrow> frame (Suc level) m m'"
proof (induction cs arbitrary: level a w m m')
  case Nil
  then show ?case by simp
next
  case (Cons c cs)
  note IH = frame_mono [OF Cons.IH]
  from Cons.prems show ?case
  proof (cases rule: updateLevel_cases)
    case memory
    then show ?thesis using bump_hit_frame by blast
  next
    case (hit line ways e m1)
    then have "frame (Suc level) m m1" using IH bump_hit_frame by (auto split: if_splits)
    then show ?thesis unfolding hit(5) by (rule frame_trans) simp
  next
    case (miss line ways m1 m2)
    have "frame (Suc level) m m1"
      using miss(4) by (cases rule: evict_line_cases) (auto intro: frame_trans [OF IH])
    moreover have "frame (Suc level) m1 m2" using miss(5) IH by (auto split: if_splits)
    ultimately show ?thesis unfolding miss(6) by (blast intro: frame_trans frame_with_line)
  qed
qed
text \<open>One line of a level changes, the levels below keep their invariant.\<close>

lemma levels_ok_update_line:
  assumes "levels_ok (c # cs) level m" "line_ok c (g_currentTime m) line (f (g_cache m level line))"
  shows "levels_ok (c # cs) level (with_line level line f m)"
  using assms by (auto simp: with_line_simps) (metis with_line_simps(4,5))

lemma levels_ok_frame:
  assumes "levels_ok (c # cs) level m" "frame (Suc level) m m'" "levels_ok cs (Suc level) m'"
  shows "levels_ok (c # cs) level m'"
  using assms by (simp add: frame_def)

lemma levels_ok_tick: "levels_ok cs level m \<Longrightarrow> levels_ok cs level (tick level m)"
  by (erule levels_ok_later) (auto simp: tick_def)

lemma frame_stats: "frame level m m' \<Longrightarrow> g_loopStats m \<noteq> [] \<Longrightarrow> g_loopStats m' \<noteq> []"
  by (auto simp: frame_def)

lemma evict_line_ok:
  assumes "\<And>b. \<exists>m'. write_next b m = Some m' \<and> frame (Suc level) m m' \<and> levels_ok cs (Suc level) m'"
    and ok: "levels_ok (c # cs) level m" and "0 < ways" and ways: "associativity c \<noteq> 0 \<longrightarrow> ways = associativity c"
  shows "\<exists>m'. evict_line write_next level line ways m = Some m' \<and> levels_ok (c # cs) level m' \<and> frame level m m' \<and>
    sm_keys (g_cache m' level line) \<subseteq> sm_keys (g_cache m level line) \<and>
    (associativity c \<noteq> 0 \<longrightarrow> length (g_cache m' level line) < associativity c)"
proof -
  let ?s = "g_cache m level line"
  have line: "line_ok c (g_currentTime m) line ?s" using ok by simp
  then have wf: "sm_wf ?s" by (simp add: line_ok_def)
  show ?thesis
  proof (cases "ways \<le> length ?s")
    case False
    then show ?thesis using ok ways by (auto simp: evict_line_def)
  next
    case True
    then have "?s \<noteq> []" using assms(3) by auto
    then obtain lru where lru: "find_lru ?s = Some lru" "lru \<in> sm_keys ?s" using find_lru_Some [OF wf] by blast
    obtain m1 where m1: "(if dirty (the (map_of ?s lru)) then write_next (push_bit BLOCK_BITS lru) m else Some m) = Some m1"
      "frame (Suc level) m m1" "levels_ok cs (Suc level) m1"
      using assms(1) [of "push_bit BLOCK_BITS lru"] ok by (cases "dirty (the (map_of ?s lru))") auto
    have m1_ok: "levels_ok (c # cs) level m1" by (rule levels_ok_frame [OF ok m1(2,3)])
    have s1: "g_cache m1 level line = ?s" using m1(2) by (simp add: frame_def)
    have "levels_ok (c # cs) level (with_line level line (sm_erase lru) m1)"
      by (rule levels_ok_update_line [OF m1_ok]) (use m1_ok in \<open>auto intro: line_ok_erase\<close>)
    moreover have "frame level m (with_line level line (sm_erase lru) m1)"
      by (rule frame_trans [OF frame_mono [OF m1(2)]]) simp
    moreover have "associativity c \<noteq> 0 \<longrightarrow> length (sm_erase lru ?s) < associativity c"
      using line lru(2) by (auto simp: line_ok_def sm_simps)
    ultimately show ?thesis
      using True lru(1) m1(1) by (auto simp: evict_line_def s1 sm_simps)
  qed
qed

lemma updateLevel_ok:
  assumes "levels_wf cs" "levels_ok cs level m" "g_loopStats m \<noteq> []"
  shows "\<exists>m'. updateLevel cs level a w m = Some m' \<and> levels_ok cs level m' \<and> g_loopStats m' \<noteq> []"
  using assms
proof (induction cs arbitrary: level a w m)
  case Nil
  then show ?case by simp
next
  case (Cons c cs)
  show ?case
  proof (cases "size_bytes c = 0")
    case True
    obtain m' where m': "bump_hit level m = Some m'" using bump_hit_defined Cons.prems(3) by blast
    then have "g_cache m' = g_cache m" "g_currentTime m' = g_currentTime m" "g_loopStats m' \<noteq> []"
      using bump_hit_frame [OF m', of level] frame_stats Cons.prems(3) by (auto simp: frame_def)
    then have "levels_ok (c # cs) level m'" using levels_ok_cong [of level m' m "c # cs"] Cons.prems(2) by simp
    then show ?thesis using True m' \<open>g_loopStats m' \<noteq> []\<close> by simp
  next
    case False
    then have wf: "level_wf c" "levels_wf cs" using Cons.prems(1) by auto
    define mt where "mt = tick level m"
    have mt: "levels_ok (c # cs) level mt" "g_loopStats mt \<noteq> []" "g_cache mt = g_cache m"
      using Cons.prems(2,3) levels_ok_tick unfolding mt_def by (blast, simp_all add: tick_def)
    obtain line ways where lw: "line_of c a = Some (line, ways)" "0 < ways"
      "associativity c \<noteq> 0 \<longrightarrow> ways = associativity c \<and> line = word_of_nat (unat (block_ptr a) mod num_lines c)"
      using line_of_defined [OF wf(1)] by blast
    have deeper: "\<exists>m'. updateLevel cs (Suc level) b w m1 = Some m' \<and> frame (Suc level) m1 m' \<and> levels_ok cs (Suc level) m'"
      if "levels_ok cs (Suc level) m1" "g_loopStats m1 \<noteq> []" for b w m1
      using Cons.IH [OF wf(2) that] updateLevel_frame by blast
    have finish: "\<exists>m'. Some (with_line level line (sm_put (block_ptr a) e) m1) = Some m' \<and> levels_ok (c # cs) level m' \<and> g_loopStats m' \<noteq> []"
      if "levels_ok (c # cs) level m1" "g_loopStats m1 \<noteq> []" "useTime e = g_currentTime m1"
        "block_ptr a \<in> sm_keys (g_cache m1 level line) \<or> (associativity c \<noteq> 0 \<longrightarrow> length (g_cache m1 level line) < associativity c)" for m1 e
    proof -
      have "levels_ok (c # cs) level (with_line level line (sm_put (block_ptr a) e) m1)"
        by (rule levels_ok_update_line [OF that(1)], rule line_ok_put) (use that lw(3) in auto)
      then show ?thesis using that(2) by simp
    qed
    show ?thesis
    proof (cases "map_of (g_cache mt level line) (block_ptr a)")
      case (Some e)
      obtain m1 where m1: "(if w \<and> \<not> writeBack c then updateLevel cs (Suc level) a w mt else bump_hit level mt) = Some m1"
        "frame (Suc level) mt m1" "levels_ok cs (Suc level) m1"
      proof (cases "w \<and> \<not> writeBack c")
        case True
        then show ?thesis using deeper [of mt a w] mt that by auto
      next
        case False
        obtain m1 where b: "bump_hit level mt = Some m1" using bump_hit_defined mt(2) by blast
        from bump_hit_frame [OF this, of "Suc level"] have f: "frame (Suc level) mt m1" "g_cache m1 = g_cache mt" by auto
        then have "levels_ok cs (Suc level) m1"
          using mt(1) levels_ok_cong [of "Suc level" m1 mt cs] by (simp add: frame_def)
        then show ?thesis using False b f that by auto
      qed
      have "levels_ok (c # cs) level m1" by (rule levels_ok_frame [OF mt(1) m1(2,3)])
      moreover have "block_ptr a \<in> sm_keys (g_cache m1 level line)"
        using Some m1(2) by (simp add: frame_def map_of_Some_keys)
      ultimately have "\<exists>m'. Some (with_line level line (sm_put (block_ptr a) \<lparr>useTime = g_currentTime m1,
          dirty = (if w then writeBack c else dirty e)\<rparr>) m1) = Some m' \<and> levels_ok (c # cs) level m' \<and> g_loopStats m' \<noteq> []"
        by (intro finish) (use frame_stats [OF m1(2) mt(2)] in auto)
      then show ?thesis using False lw(1) Some m1(1) by (simp add: mt_def [symmetric] Let_def)
    next
      case None
      have ways: "associativity c \<noteq> 0 \<longrightarrow> ways = associativity c" using lw(3) by blast
      have wr: "\<exists>m'. updateLevel cs (Suc level) b True mt = Some m' \<and> frame (Suc level) mt m' \<and> levels_ok cs (Suc level) m'" for b
        using deeper [of mt b True] mt by simp
      obtain m1 where m1: "evict_line (\<lambda>victim. updateLevel cs (Suc level) victim True) level line ways mt = Some m1"
        "levels_ok (c # cs) level m1" "frame level mt m1"
        "associativity c \<noteq> 0 \<longrightarrow> length (g_cache m1 level line) < associativity c"
        using evict_line_ok [where write_next = "\<lambda>victim. updateLevel cs (Suc level) victim True", OF wr mt(1) lw(2) ways] by blast
      have s1: "g_loopStats m1 \<noteq> []" by (rule frame_stats [OF m1(3) mt(2)])
      obtain m2 where m2: "(if \<not> w \<or> \<not> writeBack c then updateLevel cs (Suc level) a w m1 else Some m1) = Some m2"
        "frame (Suc level) m1 m2" "levels_ok cs (Suc level) m2"
        using deeper [of m1 a w] m1(2) s1 by (cases "\<not> w \<or> \<not> writeBack c") auto
      have "levels_ok (c # cs) level m2" by (rule levels_ok_frame [OF m1(2) m2(2,3)])
      then have "\<exists>m'. Some (with_line level line (sm_put (block_ptr a) \<lparr>useTime = g_currentTime m2,
          dirty = (w \<and> writeBack c)\<rparr>) m2) = Some m' \<and> levels_ok (c # cs) level m' \<and> g_loopStats m' \<noteq> []"
        using m1(4) m2(2) s1 by (intro finish) (auto simp: frame_def)
      then show ?thesis using False lw(1) None m1(1) m2(1) by (simp add: mt_def [symmetric] Let_def)
    qed
  qed
qed

section \<open>Reachable states\<close>

inductive generic_step ::
  "cache_level list \<Rightarrow> address_solver \<Rightarrow> bool \<Rightarrow> nat \<Rightarrow> generic_cache \<Rightarrow> generic_cache \<Rightarrow> bool"
  for cfg sol worstCase MaxLoops where
  exec: "genericExec m = Some m' \<Longrightarrow> generic_step cfg sol worstCase MaxLoops m m'"
| loop: "genericLoop MaxLoops m = (True, m') \<Longrightarrow> generic_step cfg sol worstCase MaxLoops m m'"
| load: "genericLoad cfg sol worstCase rnd F m = Some (Some (v, F', m')) \<Longrightarrow>
    generic_step cfg sol worstCase MaxLoops m m'"
| store: "genericStore cfg sol worstCase rnd F m = Some (Some (v, F', m')) \<Longrightarrow>
    generic_step cfg sol worstCase MaxLoops m m'"

inductive_cases generic_step_elims: "generic_step cfg sol worstCase MaxLoops m m'"

definition generic_inv :: "cache_level list \<Rightarrow> generic_cache \<Rightarrow> bool" where
  "generic_inv cfg m \<longleftrightarrow> levels_ok cfg 0 m \<and> (g_enabled m \<longleftrightarrow> g_loopStats m \<noteq> [])"

lemma levels_ok_stats [simp]:
  "levels_ok cs level (m\<lparr>g_loopStats := stats\<rparr>) \<longleftrightarrow> levels_ok cs level m"
  "levels_ok cs level (m\<lparr>g_enabled := en\<rparr>) \<longleftrightarrow> levels_ok cs level m"
  by (rule levels_ok_cong; simp)+

lemma generic_inv_new: "generic_inv cfg new_generic_cache"
proof -
  have "levels_ok cs level new_generic_cache" for cs level
    by (induction cs arbitrary: level) (simp_all add: new_generic_cache_def line_ok_def times_below_def)
  then show ?thesis by (simp add: generic_inv_def) (simp add: new_generic_cache_def)
qed

lemma with_back_nonempty: "with_back f xs = Some ys \<Longrightarrow> xs \<noteq> [] \<and> ys \<noteq> []"
  by (auto simp: with_back_def split: if_splits)

lemma memoryOperation_update:
  "genericMemoryOperation cfg sol wc rnd F w m = Some (v, F', m') \<Longrightarrow> updateLevel cfg 0 v w m = Some m'"
  by (auto simp: genericMemoryOperation_def split: Option.bind_splits)

lemma updateLevel_enabled: "updateLevel cs level a w m = Some m' \<Longrightarrow> g_enabled m' = g_enabled m"
proof (cases cs)
  case (Cons c cs')
  assume up: "updateLevel cs level a w m = Some m'"
  have bump: "g_enabled m2 = g_enabled m1" if "bump_hit l m1 = Some m2" for l m1 m2
    using bump_hit_frame [OF that, of 0] by (simp add: frame_def)
  have deeper: "g_enabled m2 = g_enabled m1" if "updateLevel cs' (Suc level) b w' m1 = Some m2" for b w' m1 m2
    using updateLevel_frame [OF that] by (simp add: frame_def)
  have tick: "g_enabled (tick level m) = g_enabled m" by (simp add: tick_def)
  from up [unfolded Cons] show ?thesis
  proof (cases rule: updateLevel_cases)
    case memory
    then show ?thesis using bump by simp
  next
    case (hit line ways e m1)
    then show ?thesis using bump deeper tick by (auto split: if_splits)
  next
    case (miss line ways m1 m2)
    from miss(4) have "g_enabled m1 = g_enabled (tick level m)"
      by (cases rule: evict_line_cases) (auto dest: deeper)
    moreover have "g_enabled m2 = g_enabled m1" using miss(5) deeper by (auto split: if_splits)
    ultimately show ?thesis using miss(6) tick by simp
  qed
qed simp

lemma generic_inv_update:
  assumes "levels_wf cfg" "generic_inv cfg m" "g_enabled m"
  shows "\<exists>m'. updateLevel cfg 0 a w m = Some m' \<and> generic_inv cfg m' \<and> g_enabled m'"
  using updateLevel_ok [OF assms(1), of 0 m a w] assms(2,3) updateLevel_enabled
  by (force simp: generic_inv_def)

lemma generic_inv_access:
  assumes "levels_wf cfg" "generic_inv cfg m" "g_enabled m" "with_back f (g_loopStats m) = Some stats"
    and "genericMemoryOperation cfg sol wc rnd F w (m\<lparr>g_loopStats := stats\<rparr>) = Some (v, F', m')"
  shows "generic_inv cfg m'"
proof -
  have "generic_inv cfg (m\<lparr>g_loopStats := stats\<rparr>)"
    using assms(2,3) with_back_nonempty [OF assms(4)] by (simp add: generic_inv_def)
  from generic_inv_update [OF assms(1) this, of v w] memoryOperation_update [OF assms(5)] assms(3)
  show ?thesis by simp
qed

lemma generic_step_inv:
  assumes "levels_wf cfg" "generic_step cfg sol wc MaxLoops m m'" "generic_inv cfg m"
  shows "generic_inv cfg m'"
  using assms(2)
proof (cases rule: generic_step.cases)
  case exec
  then show ?thesis using assms(3)
    by (auto simp: genericExec_def generic_inv_def dest: with_back_nonempty split: if_splits)
next
  case loop
  then show ?thesis using assms(3) by (auto simp: genericLoop_def generic_inv_def split: if_splits)
next
  case (load rnd F v F')
  then show ?thesis
    by (auto simp: genericLoad_def split: if_splits Option.bind_splits intro: generic_inv_access [OF assms(1,3)])
next
  case (store rnd F v F')
  then show ?thesis
    by (auto simp: genericStore_def split: if_splits Option.bind_splits intro: generic_inv_access [OF assms(1,3)])
qed

text \<open>A two-level example: two direct-mapped lines in front of the memory.\<close>

definition demo_levels :: "cache_level list" where
  "demo_levels =
     [\<lparr>size_bytes = 128, writeBack = True, latency = 1, associativity = 1, levelSets = [], levelSetIdx = Map.empty\<rparr>,
      \<lparr>size_bytes = 0, writeBack = False, latency = 62, associativity = 0, levelSets = [], levelSetIdx = Map.empty\<rparr>]"

lemma demo_levels_wf: "levels_wf demo_levels"
  by (simp add: demo_levels_def level_wf_def num_lines_def BLOCK_BITS_def)

definition demo_generic :: generic_cache where
  "demo_generic = snd (genericLoop 1 new_generic_cache)"

section \<open>Properties\<close>

text \<open>
  C9: in every state the hooks reach on a well-formed configuration, each level keeps its invariant
  (ordered lines stamped with past times, lines of a set-associative level no larger than its ways and
  holding only their own blocks), the model is enabled exactly when it has statistics, and an access to
  any address walks down the levels without undefined behaviour.
\<close>

theorem generic_reachable_ok:
  assumes "levels_wf cfg" "(generic_step cfg sol worstCase MaxLoops)\<^sup>*\<^sup>* new_generic_cache m"
  shows "generic_inv cfg m \<and> (g_enabled m \<longrightarrow> (\<forall>address isWrite. updateLevel cfg 0 address isWrite m \<noteq> None))"
proof -
  have "generic_inv cfg m"
    using assms(2) by (induction rule: rtranclp_induct) (auto intro: generic_inv_new generic_step_inv [OF assms(1)])
  then show ?thesis using generic_inv_update [OF assms(1)] by fastforce
qed

theorem generic_reachable_ok_witness:
  "generic_inv demo_levels demo_generic \<and> updateLevel demo_levels 0 0x1040 True demo_generic \<noteq> None"
proof -
  have loop: "genericLoop 1 new_generic_cache = (True, demo_generic)" "g_enabled demo_generic"
    by (simp_all add: demo_generic_def genericLoop_def new_generic_cache_def)
  have "(generic_step demo_levels demo_solver False 1)\<^sup>*\<^sup>* new_generic_cache demo_generic"
    by (rule r_into_rtranclp, rule generic_step.loop [OF loop(1)])
  from generic_reachable_ok [OF demo_levels_wf this] loop(2) show ?thesis by blast
qed

section \<open>The first level is an array of recency lists\<close>

text \<open>An access to the first level is an access to one set, as \<open>Lru_Set\<close> has it.\<close>

lemma updateLevel_first:
  assumes "updateLevel (c # cs) 0 a w m = Some m'" "size_bytes c \<noteq> 0" "line_of c a = Some (line, ways)"
  shows "\<exists>hit dm. access_set (writeBack c) ways (Suc (g_currentTime m)) (block_ptr a) w (g_cache m 0 line) =
      Some (g_cache m' 0 line, hit, dm) \<and> (\<forall>l. l \<noteq> line \<longrightarrow> g_cache m' 0 l = g_cache m 0 l) \<and>
      g_currentTime m' = Suc (g_currentTime m)"
proof -
  have tick: "g_cache (tick 0 m) = g_cache m" "g_currentTime (tick 0 m) = Suc (g_currentTime m)"
    by (simp_all add: tick_def)
  have deeper: "g_cache m2 0 = g_cache m1 0 \<and> g_currentTime m2 = g_currentTime m1"
    if "updateLevel cs (Suc 0) b w' m1 = Some m2" for b w' m1 m2
    using updateLevel_frame [OF that] by (simp add: frame_def)
  have bump: "g_cache m2 0 = g_cache m1 0 \<and> g_currentTime m2 = g_currentTime m1"
    if "bump_hit 0 m1 = Some m2" for m1 m2
    using bump_hit_frame [OF that, of 0] by (simp add: frame_def)
  from assms(1) show ?thesis
  proof (cases rule: updateLevel_cases)
    case memory
    then show ?thesis using assms(2) by simp
  next
    case (hit line' ways' e m1)
    then have "line' = line" "ways' = ways" using assms(3) by auto
    moreover have "g_cache m1 0 = g_cache m 0 \<and> g_currentTime m1 = Suc (g_currentTime m)"
      using hit(4) deeper bump tick by (auto split: if_splits)
    ultimately show ?thesis using hit(3,5) by (simp add: access_set_def) blast
  next
    case (miss line' ways' m1 m2)
    then have l: "line' = line" "ways' = ways" using assms(3) by auto
    have m2: "g_cache m2 0 = g_cache m1 0 \<and> g_currentTime m2 = g_currentTime m1"
      using miss(5) deeper by (auto split: if_splits)
    from miss(4) show ?thesis
    proof (cases rule: evict_line_cases)
      case room
      then show ?thesis using miss(3,6) m2 l tick by (simp add: access_set_def Let_def) blast
    next
      case (clean lru)
      then show ?thesis using miss(3,6) m2 l tick by (simp add: access_set_def Let_def; blast)
    next
      case (dirty lru m1')
      then show ?thesis using miss(3,6) m2 l tick deeper [OF dirty(4)] by (simp add: access_set_def Let_def; blast)
    qed
  qed
qed

text \<open>
  C10: the first level of a reachable state is an array of least-recently-used lists: an access to an
  address moves its block to the front of the list of its line, dropping the last block of a full list,
  and leaves the lists of all other lines alone.
\<close>

theorem first_level_refines_lru:
  assumes "levels_wf (c # cs)" "size_bytes c \<noteq> 0" "associativity c \<noteq> 0"
    and "generic_inv (c # cs) m" "\<forall>line. lru_rel (g_cache m 0 line) (Q line)"
    and "updateLevel (c # cs) 0 a w m = Some m'"
  shows "\<forall>line. lru_rel (g_cache m' 0 line)
    (let line0 = word_of_nat (unat (block_ptr a) mod num_lines c)
     in (Q(line0 := lru_access (associativity c) (block_ptr a) (Q line0))) line)"
proof -
  let ?line = "word_of_nat (unat (block_ptr a) mod num_lines c) :: u32"
  have lw: "line_of c a = Some (?line, associativity c)"
    using line_of_defined [of c a] assms(1-3) by auto
  obtain hit dm where acc: "access_set (writeBack c) (associativity c) (Suc (g_currentTime m)) (block_ptr a) w
      (g_cache m 0 ?line) = Some (g_cache m' 0 ?line, hit, dm)" "\<forall>l. l \<noteq> ?line \<longrightarrow> g_cache m' 0 l = g_cache m 0 l"
    using updateLevel_first [OF assms(6,2) lw] by blast
  have "line_ok c (g_currentTime m) ?line (g_cache m 0 ?line)" using assms(4) by (simp add: generic_inv_def)
  then have "times_below (Suc (g_currentTime m)) (g_cache m 0 ?line)" "length (g_cache m 0 ?line) \<le> associativity c"
    using assms(3) by (simp_all add: line_ok_def)
  from access_set_refines [OF acc(1) _ this, of "Q ?line"] assms(3,5)
  have "lru_rel (g_cache m' 0 ?line) (lru_access (associativity c) (block_ptr a) (Q ?line))" by simp
  then show ?thesis using acc(2) assms(5) by (auto simp: Let_def)
qed

lemma demo_generic_inv: "generic_inv demo_levels demo_generic" "g_enabled demo_generic"
  using generic_step_inv [OF demo_levels_wf generic_step.loop [of 1 new_generic_cache demo_generic] generic_inv_new]
  by (simp_all add: demo_generic_def genericLoop_def new_generic_cache_def)

theorem first_level_refines_lru_witness:
  "\<exists>m'. updateLevel demo_levels 0 0x1040 True demo_generic = Some m' \<and> lru_rel (g_cache m' 0 1) [0x41]"
proof -
  obtain m' where m': "updateLevel demo_levels 0 0x1040 True demo_generic = Some m'"
    using generic_inv_update [OF demo_levels_wf demo_generic_inv] by blast
  have empty: "\<forall>line. lru_rel (g_cache demo_generic 0 line) ((\<lambda>_. []) line)"
    by (simp add: demo_generic_def genericLoop_def new_generic_cache_def)
  have "num_lines (hd demo_levels) = 2" "associativity (hd demo_levels) = 1" "size_bytes (hd demo_levels) \<noteq> 0"
    by (simp_all add: demo_levels_def num_lines_def BLOCK_BITS_def)
  moreover have "unat (block_ptr 0x1040) = 65" "block_ptr 0x1040 = 0x41"
    by (simp_all add: block_ptr_def BLOCK_BITS_def)
  moreover have split: "demo_levels = hd demo_levels # tl demo_levels" by (simp add: demo_levels_def)
  ultimately show ?thesis
    using first_level_refines_lru [of "hd demo_levels" "tl demo_levels" demo_generic "\<lambda>_. []" "0x1040" True m',
      folded split, OF demo_levels_wf] demo_generic_inv(1) empty m'
    by (auto simp: Let_def lru_access_def dest: spec [of _ 1])
qed

section \<open>Predicted and charged cost\<close>

text \<open>The level that serves a read, and the reads that evict no dirty block on their way.\<close>

fun serving_level :: "cache_level list \<Rightarrow> nat \<Rightarrow> u64 \<Rightarrow> generic_cache \<Rightarrow> nat" where
  "serving_level [] level a m = level"
| "serving_level (c # cs) level a m =
     (if size_bytes c = 0 then level
      else case line_of c a of
          None \<Rightarrow> level
        | Some (line, ways) \<Rightarrow>
            if map_of (g_cache m level line) (block_ptr a) \<noteq> None then level
            else serving_level cs (Suc level) a m)"

fun clean_path :: "cache_level list \<Rightarrow> nat \<Rightarrow> u64 \<Rightarrow> generic_cache \<Rightarrow> bool" where
  "clean_path [] level a m \<longleftrightarrow> True"
| "clean_path (c # cs) level a m \<longleftrightarrow>
     size_bytes c = 0 \<or>
     (case line_of c a of
        None \<Rightarrow> True
      | Some (line, ways) \<Rightarrow>
          (let s = g_cache m level line in
           map_of s (block_ptr a) \<noteq> None \<or>
           ((ways \<le> length s \<longrightarrow> (\<forall>lru. find_lru s = Some lru \<longrightarrow> \<not> dirty (the (map_of s lru)))) \<and>
            clean_path cs (Suc level) a m)))"

lemma path_cong:
  assumes "\<forall>j \<ge> level. g_cache m' j = g_cache m j"
  shows "serving_level cs level a m' = serving_level cs level a m \<and> clean_path cs level a m' = clean_path cs level a m"
  using assms by (induction cs arbitrary: level) (auto split: option.splits simp: Let_def)

lemma bump_hit_stats:
  assumes "bump_hit l m = Some b" "g_loopStats m' = g_loopStats m"
  shows "\<exists>b'. bump_hit l m' = Some b' \<and> g_loopStats b' = g_loopStats b"
  using assms by (auto simp: bump_hit_def)

lemma clean_read_charge:
  assumes "updateLevel cs level a False m = Some m'" "clean_path cs level a m"
  shows "\<exists>b. bump_hit (serving_level cs level a m) m = Some b \<and> g_loopStats m' = g_loopStats b"
  using assms
proof (induction cs arbitrary: level m m')
  case Nil
  then show ?case by simp
next
  case (Cons c cs)
  have tick: "g_cache (tick level m) = g_cache m" "g_loopStats (tick level m) = g_loopStats m"
    by (simp_all add: tick_def)
  from Cons.prems(1) show ?case
  proof (cases rule: updateLevel_cases)
    case memory
    then show ?thesis by simp
  next
    case (hit line ways e m1)
    then have "bump_hit level (tick level m) = Some m1" by simp
    from bump_hit_stats [OF this, of m] tick(2) hit show ?thesis by auto
  next
    case (miss line ways m1 m2)
    have serve: "serving_level (c # cs) level a m = serving_level cs (Suc level) a m" using miss by simp
    have "m1 = tick level m \<or> (\<exists>lru. m1 = with_line level line (sm_erase lru) (tick level m))"
      using miss(4)
    proof (cases rule: evict_line_cases)
      case (dirty lru m1')
      then show ?thesis using Cons.prems(2) miss(1-3) tick by (auto simp: Let_def)
    qed auto
    then have m1: "\<forall>j \<ge> Suc level. g_cache m1 j = g_cache m j" "g_loopStats m1 = g_loopStats m"
      using tick by auto
    have up: "updateLevel cs (Suc level) a False m1 = Some m2" using miss(5) by simp
    have "clean_path cs (Suc level) a m1"
      using Cons.prems(2) miss(1-3) path_cong [OF m1(1)] by (simp add: Let_def)
    from Cons.IH [OF up this] obtain b where
      b: "bump_hit (serving_level cs (Suc level) a m) m1 = Some b" "g_loopStats m2 = g_loopStats b"
      using path_cong [OF m1(1)] by auto
    from bump_hit_stats [OF b(1) m1(2) [symmetric]] b(2) miss(6) show ?thesis unfolding serve by auto
  qed
qed

lemma clean_read_cost:
  assumes "getCost cs level a False m = Some n" "clean_path cs level a m"
  shows "serving_level cs level a m < level + length cs \<and> level \<le> serving_level cs level a m \<and>
    n = trunc (latency (cs ! (serving_level cs level a m - level)))"
  using assms
proof (induction cs arbitrary: level n)
  case Nil
  then show ?case by simp
next
  case (Cons c cs)
  show ?case
  proof (cases "size_bytes c = 0")
    case True
    then show ?thesis using Cons.prems by simp
  next
    case False
    obtain line ways where lw: "line_of c a = Some (line, ways)" "cost_line c a = Some (line, ways)"
      using Cons.prems(1) False by (auto simp: cost_line_def split: Option.bind_splits if_splits)
    show ?thesis
    proof (cases "map_of (g_cache m level line) (block_ptr a)")
      case (Some e)
      then show ?thesis using Cons.prems False lw by simp
    next
      case None
      have clean: "clean_path cs (Suc level) a m" using Cons.prems(2) False lw None by (simp add: Let_def)
      obtain r where r: "getCost cs (Suc level) a False m = Some r" "n = r"
        using Cons.prems False lw None
        by (auto simp: Let_def split: Option.bind_splits if_splits option.splits)
      from Cons.IH [OF r(1) clean] show ?thesis using False lw None r(2) by (auto simp: nth_Cons')
    qed
  qed
qed

text \<open>
  For a read that evicts no dirty block on its way, the predicted cost is the latency, cut to whole
  nanoseconds, of the level that serves it, and performing the read charges exactly one hit to that level.
\<close>

theorem read_cost_predicts_charge:
  assumes "getCost cfg 0 a False m = Some cost" "clean_path cfg 0 a m" "updateLevel cfg 0 a False m = Some m'"
  shows "\<exists>level < length cfg. cost = trunc (latency (cfg ! level)) \<and>
    (\<exists>charged. bump_hit level m = Some charged \<and> g_loopStats m' = g_loopStats charged)"
  using clean_read_cost [OF assms(1,2)] clean_read_charge [OF assms(3,2)] by auto

theorem read_cost_predicts_charge_witness:
  "\<exists>m' charged. getCost demo_levels 0 0x1040 False demo_generic = Some 62 \<and>
    updateLevel demo_levels 0 0x1040 False demo_generic = Some m' \<and> bump_hit 1 demo_generic = Some charged \<and>
    g_loopStats m' = g_loopStats charged"
proof -
  have cost: "getCost demo_levels 0 0x1040 False demo_generic = Some 62"
    by (simp add: demo_levels_def demo_generic_def genericLoop_def new_generic_cache_def cost_line_def line_of_def
        num_lines_def BLOCK_BITS_def block_ptr_def trunc_def)
  have clean: "clean_path demo_levels 0 0x1040 demo_generic"
    by (simp add: demo_levels_def demo_generic_def genericLoop_def new_generic_cache_def line_of_def
        num_lines_def BLOCK_BITS_def block_ptr_def Let_def)
  obtain m' where m': "updateLevel demo_levels 0 0x1040 False demo_generic = Some m'"
    using generic_inv_update [OF demo_levels_wf demo_generic_inv] by blast
  obtain level charged where l: "level < length demo_levels" "62 = trunc (latency (demo_levels ! level))"
    and ch: "bump_hit level demo_generic = Some charged" "g_loopStats m' = g_loopStats charged"
    using read_cost_predicts_charge [OF cost clean m'] by blast
  have "level = 1" using l by (auto simp: demo_levels_def trunc_def less_Suc_eq)
  then show ?thesis using cost m' ch by blast
qed

section \<open>The worst-case search on the shipped configuration\<close>

lemma unat_word_small: "k < 65536 \<Longrightarrow> unat (word_of_nat k :: u32) = k" "k < 65536 \<Longrightarrow> unat (word_of_nat k :: u64) = k"
  by (simp_all add: unat_of_nat take_bit_nat_eq_self)

lemma sint_word_small: "k < 65536 \<Longrightarrow> sint (word_of_nat k :: u64) = int k"
  by (simp add: signed_of_nat signed_take_bit_int_eq_self)

lemma small_line:
  assumes "n < 512"
  shows "ucast (push_bit BLOCK_BITS (word_of_nat n :: u32)) = (word_of_nat (n * 64) :: u64)"
proof -
  have "push_bit BLOCK_BITS (word_of_nat n :: u32) = word_of_nat (n * 64)"
    by (simp add: push_bit_eq_mult BLOCK_BITS_def)
  moreover have "unat (word_of_nat (n * 64) :: u32) = n * 64"
    by (rule unat_word_small) (use assms in simp)
  ultimately show ?thesis by (metis of_nat_unat)
qed

lemma small_line2:
  assumes "n < 512"
  shows "push_bit BLOCK_BITS (drop_bit BLOCK_BITS (word_of_nat (n * 64) :: u64)) = word_of_nat (n * 64)"
    "sint (word_of_nat (n * 64) :: u64) = int n * 64"
proof -
  have u: "unat (word_of_nat (n * 64) :: u64) = n * 64"
    by (rule unat_word_small) (use assms in simp)
  have "unat (drop_bit BLOCK_BITS (word_of_nat (n * 64) :: u64)) = n"
    by (simp only: unat_drop_bit_eq u) (simp add: drop_bit_eq_div BLOCK_BITS_def)
  then have "drop_bit BLOCK_BITS (word_of_nat (n * 64) :: u64) = word_of_nat n" by (metis of_nat_unat ucast_id)
  then show "push_bit BLOCK_BITS (drop_bit BLOCK_BITS (word_of_nat (n * 64) :: u64)) = word_of_nat (n * 64)"
    by (simp add: push_bit_eq_mult BLOCK_BITS_def)
  show "sint (word_of_nat (n * 64) :: u64) = int n * 64"
    using sint_word_small [of "n * 64"] assms by (simp only: of_nat_mult of_nat_numeral)
qed

lemma set_fold_insort: "set (fold (\<lambda>x. insort_insert (f x)) xs acc) = f ` set xs \<union> set acc"
  by (induction xs arbitrary: acc) (auto simp: set_insort_insert)

lemma candidate_lines_keeps:
  "candidate_lines cs lines en = Some (lines', en') \<Longrightarrow> set lines \<subseteq> set lines'"
  by (induction cs lines en rule: candidate_lines.induct) (auto simp: set_fold_insort split: if_splits)

lemma read_miss_cost_undefined:
  assumes "size_bytes c \<noteq> 0" "getLevelMissCost cs (Suc level) a False m = None"
  shows "getLevelMissCost (c # cs) level a False m = None"
proof (cases "cost_line c a")
  case None
  then show ?thesis using assms(1) by simp
next
  case (Some p)
  then show ?thesis using assms by (cases p) (simp add: Let_def bind_eq_None_conv)
qed

lemma line_costs_undefined:
  assumes "line \<in> set lines" "getLevelMissCost cfg 0 (ucast (push_bit BLOCK_BITS line)) isWrite m = None"
  shows "line_costs cfg m isWrite rnd lines acc = None"
  using assms by (induction lines arbitrary: acc) (auto simp: Let_def split: Option.bind_splits)

text \<open>
  On the shipped configuration, a load through a symbolic pointer in worst-case mode is undefined
  behaviour whenever one of the first 512 cache lines belongs to no contention set: the cost of a miss in
  that line is computed with an uninitialised line number.
\<close>

theorem generic_worst_case_undefined:
  assumes "load_levels files 0 cacheConfig = Some cfg" "\<forall>c \<in> set cfg. \<forall>p \<in> set (levelSets c). 0 < snd p"
    and "n < 512" "levelSetIdx (cfg ! 2) (int n * 64) = None" "constantValue sol F = None"
  shows "genericMemoryOperation cfg sol True rnd F False m = None"
proof -
  have cfg: "length cfg = 4" "take 2 cfg = take 2 cacheConfig" "associativity (cfg ! 2) = 0" "size_bytes (cfg ! 2) \<noteq> 0"
    using load_cacheConfig [OF assms(1,2)] by auto
  then obtain c d where split: "cfg = [cacheConfig ! 0, cacheConfig ! 1, c, d]" "c = cfg ! 2"
    by (cases cfg; cases "tl cfg"; cases "tl (tl cfg)"; cases "tl (tl (tl cfg))")
      (auto simp: cacheConfig_def numeral_2_eq_2)
  let ?line = "word_of_nat n :: u32" and ?a = "ucast (push_bit BLOCK_BITS (word_of_nat n :: u32)) :: u64"
  have a: "push_bit BLOCK_BITS (block_ptr ?a) = ?a" "sint ?a = int n * 64"
    using small_line2 [OF assms(3)] by (simp_all only: small_line [OF assms(3)] block_ptr_def)
  have "level_set c ?a = Some None" using assms(4) split(2) by (simp add: level_set_def a)
  then have "cost_line c ?a = None" using cfg(3) split(2) by (simp add: cost_line_def)
  then have c: "getLevelMissCost [c, d] (Suc (Suc 0)) ?a False m = None" using cfg(4) split(2) by simp
  have miss: "getLevelMissCost cfg 0 ?a False m = None"
    unfolding split(1)
    by (rule read_miss_cost_undefined [OF _ read_miss_cost_undefined [OF _ c]]) (simp_all add: cacheConfig_def)
  have "?line \<in> set lines" if "candidate_lines cfg [] False = Some (lines, en)" for lines en
  proof -
    let ?l1 = "fold (\<lambda>line. insort_insert (word_of_nat line)) [0..<num_lines (cacheConfig ! 0)] ([] :: u32 list)"
    let ?l2 = "fold (\<lambda>line. insort_insert (word_of_nat line)) [0..<num_lines (cacheConfig ! 1)] ?l1"
    have "candidate_lines [c, d] ?l2 False = Some (lines, en)"
      using that unfolding split(1) by (simp add: cacheConfig_def)
    then have "set ?l2 \<subseteq> set lines" by (rule candidate_lines_keeps)
    moreover have "num_lines (cacheConfig ! 1) = 512" by (simp add: num_lines_def cacheConfig_def BLOCK_BITS_def)
    ultimately show ?thesis using assms(3) by (auto simp: set_fold_insort)
  qed
  then have "worst_line_search cfg m sol True rnd F False = None"
    using line_costs_undefined [OF _ miss] by (auto simp: worst_line_search_def split: Option.bind_splits)
  then show ?thesis by (simp add: genericMemoryOperation_def assms(5))
qed

theorem generic_worst_case_undefined_witness:
  "\<exists>cfg. load_levels (\<lambda>_. Some [''2'', ''64'', []]) 0 cacheConfig = Some cfg \<and>
     genericMemoryOperation cfg demo_solver True (\<lambda>_. 0) (\<lambda>_. True) False new_generic_cache = None"
proof -
  let ?c = "(cacheConfig ! 2)\<lparr>levelSets := [([64], 2)], levelSetIdx := [64 \<mapsto> 0]\<rparr>"
  let ?cfg = "[cacheConfig ! 0, cacheConfig ! 1, ?c, cacheConfig ! 3]"
  have load: "load_levels (\<lambda>_. Some [''2'', ''64'', []]) 0 cacheConfig = Some ?cfg"
    by (simp add: cacheConfig_def load_level_def demo_stoi demo_stol insort_insert_key_def)
  have ways: "\<forall>c \<in> set ?cfg. \<forall>p \<in> set (levelSets c). 0 < snd p" by (simp add: cacheConfig_def)
  have "genericMemoryOperation ?cfg demo_solver True (\<lambda>_. 0) (\<lambda>_. True) False new_generic_cache = None"
    by (rule generic_worst_case_undefined [OF load ways, of 0]) (simp_all add: demo_const)
  with load show ?thesis by blast
qed

end
