(* ===== verification/Cost_Map.thy ===== *)
theory Cost_Map
  imports Searchers Generic_Cache
begin

text \<open>
  The constructor of \<open>CastanSearcher\<close> (\<open>src/lib/CASTAN/CastanSearcher.cpp\<close>): it computes
  from the LLVM module the tables that direct the search, the cost from each instruction to the
  next call of \<open>castan_loop\<close>, if it is on a direct path to one, and else to the end of its
  function. A module is the list of its functions, a function the list of its basic blocks;
  an instruction is its address with what the constructor asks about it. Sets of pointers are
  lists in the order of the addresses. Reading a \<open>std::map\<close> through \<open>operator[]\<close> adds a default entry,
  which is written out. The costs start from 1 and grow by 1 and by constants that are truncated to
  whole numbers, so they are natural numbers. A failed assertion is the inner \<open>None\<close>, a
  loop that does not end the outer one.
\<close>

section \<open>Modules and their control flow\<close>

datatype inst_kind = Call "nat option" | Load_Store | Plain

record basic_block =
  instrs :: "(nat \<times> inst_kind) list"
  targets :: "nat list"

type_synonym llvm_function = "basic_block list"

type_synonym llvm_module = "llvm_function list"

definition fn_instrs :: "llvm_function \<Rightarrow> (nat \<times> inst_kind) list" where
  "fn_instrs fn = concat (map instrs fn)"

definition module_instrs :: "llvm_module \<Rightarrow> (nat \<times> inst_kind) list" where
  "module_instrs m = concat (map fn_instrs m)"

definition kind_of :: "llvm_module \<Rightarrow> nat \<Rightarrow> inst_kind" where
  "kind_of m i = (case map_of (module_instrs m) i of Some k \<Rightarrow> k | None \<Rightarrow> Plain)"

text \<open>The function an instruction is in, and the first instruction of a function.\<close>

definition fn_of :: "llvm_module \<Rightarrow> nat \<Rightarrow> nat" where
  "fn_of m i = length (takeWhile (\<lambda>fn. i \<notin> fst ` set (fn_instrs fn)) m)"

definition entry_of :: "llvm_module \<Rightarrow> nat \<Rightarrow> nat option" where
  "entry_of m f = (if f < length m then (case m ! f of [] \<Rightarrow> None | bb # _ \<Rightarrow> Some (fst (hd (instrs bb)))) else None)"

definition block_edges :: "llvm_function \<Rightarrow> basic_block \<Rightarrow> (nat \<times> nat) list" where
  "block_edges fn bb =
     (let ids = map fst (instrs bb)
      in zip ids (tl ids) @ map (\<lambda>t. (last ids, fst (hd (instrs (fn ! t))))) (targets bb))"

definition module_edges :: "llvm_module \<Rightarrow> (nat \<times> nat) list" where
  "module_edges m = concat (map (\<lambda>fn. concat (map (block_edges fn) fn)) m)"

definition successors :: "llvm_module \<Rightarrow> nat \<Rightarrow> nat list" where
  "successors m i = sort (remdups (map snd (filter (\<lambda>e. fst e = i) (module_edges m))))"

definition predecessors :: "llvm_module \<Rightarrow> nat \<Rightarrow> nat list" where
  "predecessors m i = sort (remdups (map fst (filter (\<lambda>e. snd e = i) (module_edges m))))"

definition callers_of :: "llvm_module \<Rightarrow> nat \<Rightarrow> nat list" where
  "callers_of m f = sort (remdups (map fst (filter (\<lambda>i. snd i = Call (Some f)) (module_instrs m))))"

section \<open>The tables\<close>

record cost_state =
  cs_costs :: "nat \<rightharpoonup> bool \<times> nat"
  cs_successorCosts :: "nat \<rightharpoonup> nat"
  cs_paths :: "nat \<Rightarrow> nat \<rightharpoonup> nat"
  cs_worklist :: "nat list"

text \<open>Reading an entry adds the default.\<close>

definition read_cost :: "nat \<Rightarrow> cost_state \<Rightarrow> (bool \<times> nat) \<times> cost_state" where
  "read_cost i st =
     (case cs_costs st i of
        Some c \<Rightarrow> (c, st)
      | None \<Rightarrow> ((False, 0), st\<lparr>cs_costs := (cs_costs st)(i \<mapsto> (False, 0))\<rparr>))"

definition path_count :: "(nat \<rightharpoonup> nat) \<Rightarrow> nat \<Rightarrow> nat" where
  "path_count p i = (case p i of Some n \<Rightarrow> n | None \<Rightarrow> 0)"

definition path_inc :: "nat \<Rightarrow> (nat \<rightharpoonup> nat) \<Rightarrow> (nat \<rightharpoonup> nat)" where
  "path_inc i p = p(i \<mapsto> path_count p i + 1)"

text \<open>The sum of two paths, entry by entry.\<close>

definition path_add :: "(nat \<rightharpoonup> nat) \<Rightarrow> (nat \<rightharpoonup> nat) \<Rightarrow> (nat \<rightharpoonup> nat)" where
  "path_add p q = (\<lambda>i. if p i = None \<and> q i = None then None else Some (path_count p i + path_count q i))"

definition add_work :: "nat list \<Rightarrow> cost_state \<Rightarrow> cost_state" where
  "add_work is st = st\<lparr>cs_worklist := fold insort_insert is (cs_worklist st)\<rparr>"

text \<open>Setting the cost of a start, and what the initialization adds to the worklist for it.\<close>

definition start_cost :: "llvm_module \<Rightarrow> bool \<Rightarrow> nat \<Rightarrow> cost_state \<Rightarrow> cost_state" where
  "start_cost m direct i st =
     (let st = st\<lparr>cs_costs := (cs_costs st)(i \<mapsto> (direct, 1)), cs_paths := (cs_paths st)(i := (cs_paths st i)(i \<mapsto> 1))\<rparr>;
          st = add_work (predecessors m i) st
      in if entry_of m (fn_of m i) = Some i then add_work (callers_of m (fn_of m i)) st else st)"

definition init_costs :: "llvm_module \<Rightarrow> nat \<Rightarrow> cost_state" where
  "init_costs m lp =
     fold (start_cost m True) (callers_of m lp)
       (fold (start_cost m False) (filter (\<lambda>i. successors m i = []) (map fst (module_instrs m)))
         \<lparr>cs_costs = Map.empty, cs_successorCosts = Map.empty, cs_paths = (\<lambda>_. Map.empty), cs_worklist = []\<rparr>)"

section \<open>One instruction of the worklist\<close>

text \<open>The cost of an instruction: a number of nanoseconds stored in a \<open>long\<close>.\<close>

definition NS_PER_MEMORY_INSTRUCTION :: rat where
  "NS_PER_MEMORY_INSTRUCTION = NS_PER_INSTRUCTION + latency (cacheConfig ! 0)"

definition inst_cost :: "inst_kind \<Rightarrow> nat" where
  "inst_cost k = trunc (if k = Load_Store then NS_PER_MEMORY_INSTRUCTION else NS_PER_INSTRUCTION)"

text \<open>One successor of an instruction that is not a call; the flag says whether something changed.\<close>

definition relax :: "llvm_module \<Rightarrow> nat \<Rightarrow> nat \<Rightarrow> bool \<times> cost_state \<Rightarrow> bool \<times> cost_state" where
  "relax m inst s = (\<lambda>(changed, st).
     let st = (if cs_paths st s inst = None then st\<lparr>cs_paths := (cs_paths st)(s := (cs_paths st s)(inst \<mapsto> 0))\<rparr> else st)
     in if path_count (cs_paths st s) inst \<le> 1 then
       (let (ci, st) = read_cost inst st;
            (c, st) = read_cost s st;
            cost = inst_cost (kind_of m inst)
        in if (if fst ci then fst c \<and> snd c + cost > snd ci else fst c \<or> snd c + cost > snd ci)
           then (True, st\<lparr>cs_costs := (cs_costs st)(inst \<mapsto> (fst c, snd c + cost)),
                   cs_paths := (cs_paths st)(inst := path_inc inst (cs_paths st s))\<rparr>)
           else (changed, st))
     else (changed, st))"

text \<open>A call of a function with a body, whose first instruction is \<open>e\<close>.\<close>

definition relax_call :: "llvm_module \<Rightarrow> nat \<Rightarrow> nat \<Rightarrow> cost_state \<Rightarrow> (bool \<times> cost_state) option" where
  "relax_call m inst e st =
     (if cs_paths st e inst \<noteq> None then None
      else (let (ce, st) = read_cost e st in
        if fst ce then Some ((True, snd ce + 1), path_inc inst (cs_paths st e), st)
        else (case successors m inst of
            [s] \<Rightarrow>
              (let (c, st) = read_cost s st in
               if cs_paths st e \<noteq> Map.empty \<and> cs_paths st s \<noteq> Map.empty
               then Some ((fst c, 1 + snd ce + snd c),
                      path_add (path_inc inst Map.empty) (path_add (cs_paths st e) (cs_paths st s)),
                      st\<lparr>cs_successorCosts := (cs_successorCosts st)(inst \<mapsto> snd c)\<rparr>)
               else Some ((fst c, 0), Map.empty, st))
          | _ \<Rightarrow> None))
       \<bind> (\<lambda>(cost, path, st).
         let (ci, st) = read_cost inst st in
         Some (if cost \<noteq> ci
               then (True, st\<lparr>cs_costs := (cs_costs st)(inst \<mapsto> cost), cs_paths := (cs_paths st)(inst := path)\<rparr>)
               else (False, st))))"

definition cost_step :: "llvm_module \<Rightarrow> nat \<Rightarrow> nat \<Rightarrow> cost_state \<Rightarrow> cost_state option" where
  "cost_step m lp inst st =
     do {
       (changed, st) \<leftarrow>
         (case kind_of m inst of
            Call (Some f) \<Rightarrow>
              (if f = lp then Some (False, st)
               else case entry_of m f of
                   Some e \<Rightarrow> relax_call m inst e st
                 | None \<Rightarrow> Some (fold (relax m inst) (successors m inst) (False, st)))
          | _ \<Rightarrow> Some (fold (relax m inst) (successors m inst) (False, st)));
       Some (if changed
             then add_work (if entry_of m (fn_of m inst) = Some inst then callers_of m (fn_of m inst)
                            else predecessors m inst) st
             else st)
     }"

partial_function (option) cost_loop :: "llvm_module \<Rightarrow> nat \<Rightarrow> cost_state \<Rightarrow> cost_state option option" where
  "cost_loop m lp st =
     (case cs_worklist st of
        [] \<Rightarrow> Some (Some st)
      | inst # rest \<Rightarrow>
          (case cost_step m lp inst (st\<lparr>cs_worklist := rest\<rparr>) of
             None \<Rightarrow> Some None
           | Some st' \<Rightarrow> cost_loop m lp st'))"

text \<open>The constructor; a module without \<open>castan_loop\<close> fails an assertion.\<close>

definition new_castan_searcher :: "llvm_module \<Rightarrow> nat option \<Rightarrow> castan_searcher option option" where
  "new_castan_searcher m loopAnnotation =
     (case loopAnnotation of
        None \<Rightarrow> Some None
      | Some lp \<Rightarrow>
          map_option (map_option (\<lambda>st.
            \<lparr>queue = [], cost_tables =
               \<lparr>costs = (\<lambda>i. map_option (\<lambda>c. (fst c, of_nat (snd c))) (cs_costs st i)),
                successorCosts = (\<lambda>i. map_option of_nat (cs_successorCosts st i))\<rparr>\<rparr>))
            (cost_loop m lp (init_costs m lp)))"

section \<open>Well-formed modules\<close>

text \<open>
  What LLVM guarantees: addresses are distinct, blocks end with a terminator, which is not a
  call, branches stay in the function, and the entry block is not a target.
\<close>

definition is_call :: "inst_kind \<Rightarrow> bool" where
  "is_call k = (case k of Call _ \<Rightarrow> True | _ \<Rightarrow> False)"

definition module_ok :: "llvm_module \<Rightarrow> bool" where
  "module_ok m \<longleftrightarrow> distinct (map fst (module_instrs m)) \<and>
     (\<forall>fn \<in> set m. \<forall>bb \<in> set fn. instrs bb \<noteq> [] \<and> \<not> is_call (snd (last (instrs bb))) \<and>
        (\<forall>t \<in> set (targets bb). 0 < t \<and> t < length fn))"

definition inst_ids :: "llvm_module \<Rightarrow> nat set" where
  "inst_ids m = fst ` set (module_instrs m)"

text \<open>An instruction by its function, its block and its position.\<close>

definition inst_at :: "llvm_module \<Rightarrow> nat \<Rightarrow> nat \<Rightarrow> nat \<Rightarrow> nat \<Rightarrow> bool" where
  "inst_at m i a b k \<longleftrightarrow> a < length m \<and> b < length (m ! a) \<and> k < length (instrs (m ! a ! b)) \<and> fst (instrs (m ! a ! b) ! k) = i"

lemma distinct_concat_nth:
  assumes "distinct (concat xss)" "i < length xss" "j < length xss" "x \<in> set (xss ! i)" "x \<in> set (xss ! j)"
  shows "i = j"
  using assms
proof (induction xss arbitrary: i j)
  case (Cons xs xss)
  have "x \<notin> set xs" if "x \<in> set (xss ! k)" "k < length xss" for k
    using Cons.prems(1) that(1) nth_mem [OF that(2)] by (force simp: disjoint_iff)
  then show ?case using Cons by (cases i; cases j) auto
qed simp

lemma distinct_concat_sub: "distinct (concat xss) \<Longrightarrow> xs \<in> set xss \<Longrightarrow> distinct xs"
  by (induction xss) auto

lemma module_ids: "map fst (module_instrs m) = concat (map (\<lambda>fn. concat (map (\<lambda>bb. map fst (instrs bb)) fn)) m)"
  by (simp add: module_instrs_def fn_instrs_def map_concat comp_def)

lemma inst_at_unique:
  assumes "module_ok m" "inst_at m i a b k" "inst_at m i a' b' k'"
  shows "a = a' \<and> b = b' \<and> k = k'"
proof -
  let ?ids = "\<lambda>bb. map fst (instrs bb)"
  let ?fns = "map (\<lambda>fn. concat (map ?ids fn)) m"
  have d: "distinct (concat ?fns)" using assms(1) by (simp add: module_ok_def module_ids)
  have mem: "i \<in> set (?ids (m ! a ! b))" if "inst_at m i a b k" for a b k using that by (auto simp: inst_at_def)
  have memf: "i \<in> set (?fns ! a)" if "inst_at m i a b k" for a b k
    using mem [OF that] that by (force simp: inst_at_def)
  have a: "a = a'"
    using distinct_concat_nth [OF d, of a a' i] memf [OF assms(2)] memf [OF assms(3)] assms(2,3) by (simp add: inst_at_def)
  have d2: "distinct (concat (map ?ids (m ! a)))" using distinct_concat_sub [OF d] assms(2) by (force simp: inst_at_def)
  have b: "b = b'"
    using distinct_concat_nth [OF d2, of b b' i] mem [OF assms(2)] mem [OF assms(3)] assms(2,3) a by (simp add: inst_at_def)
  have "distinct (?ids (m ! a ! b))" using distinct_concat_sub [OF d2] assms(2) by (force simp: inst_at_def)
  then have "k = k'" using assms(2,3) a b by (auto simp: inst_at_def distinct_conv_nth)
  then show ?thesis using a b by simp
qed

lemma inst_at_mem:
  assumes "inst_at m i a b k"
  shows "m ! a \<in> set m" and "m ! a ! b \<in> set (m ! a)" and "(i, snd (instrs (m ! a ! b) ! k)) \<in> set (instrs (m ! a ! b))"
    and "i \<in> set (map fst (instrs (m ! a ! b)))"
proof -
  have "instrs (m ! a ! b) ! k = (i, snd (instrs (m ! a ! b) ! k))" using assms by (simp add: inst_at_def prod_eq_iff)
  then show 1: "(i, snd (instrs (m ! a ! b) ! k)) \<in> set (instrs (m ! a ! b))" using assms nth_mem by (metis inst_at_def)
  show "i \<in> set (map fst (instrs (m ! a ! b)))" using 1 by force
qed (use assms in \<open>auto simp: inst_at_def\<close>)

lemma inst_at_exists: "i \<in> inst_ids m \<longleftrightarrow> (\<exists>a b k. inst_at m i a b k)"
proof -
  have "i \<in> inst_ids m \<longleftrightarrow> (\<exists>fn \<in> set m. \<exists>bb \<in> set fn. i \<in> set (map fst (instrs bb)))"
    by (auto simp: inst_ids_def module_instrs_def fn_instrs_def)
  also have "\<dots> \<longleftrightarrow> (\<exists>a b k. inst_at m i a b k)"
  proof
    assume "\<exists>fn \<in> set m. \<exists>bb \<in> set fn. i \<in> set (map fst (instrs bb))"
    then obtain fn bb where fb: "fn \<in> set m" "bb \<in> set fn" "i \<in> set (map fst (instrs bb))" by blast
    obtain a where a: "a < length m" "m ! a = fn" using fb(1) by (auto simp: in_set_conv_nth)
    obtain b where b: "b < length fn" "fn ! b = bb" using fb(2) by (auto simp: in_set_conv_nth)
    obtain k where "k < length (instrs bb)" "fst (instrs bb ! k) = i"
      using fb(3) in_set_conv_nth [of i "map fst (instrs bb)"] by auto
    then have "inst_at m i a b k" using a b by (simp add: inst_at_def)
    then show "\<exists>a b k. inst_at m i a b k" by blast
  next
    assume "\<exists>a b k. inst_at m i a b k"
    then show "\<exists>fn \<in> set m. \<exists>bb \<in> set fn. i \<in> set (map fst (instrs bb))"
      by (meson inst_at_mem inst_at_def nth_mem)
  qed
  finally show ?thesis .
qed

lemma fn_of_at:
  assumes "module_ok m" "inst_at m i a b k"
  shows "fn_of m i = a"
proof -
  have mem: "i \<in> fst ` set (fn_instrs (m ! c)) \<longleftrightarrow> c = a" if c: "c < length m" for c
  proof
    assume "i \<in> fst ` set (fn_instrs (m ! c))"
    then obtain bb where "bb \<in> set (m ! c)" "i \<in> fst ` set (instrs bb)" by (auto simp: fn_instrs_def)
    then obtain b' k' where "inst_at m i c b' k'" using c by (auto simp: inst_at_def in_set_conv_nth) (metis fst_conv)
    then show "c = a" using inst_at_unique [OF assms] by blast
  next
    assume "c = a"
    then show "i \<in> fst ` set (fn_instrs (m ! c))" using inst_at_mem [OF assms(2)] by (fastforce simp: fn_instrs_def)
  qed
  have "takeWhile (\<lambda>fn. i \<notin> fst ` set (fn_instrs fn)) m = take a m"
    by (rule takeWhile_eq_take_P_nth) (use mem assms(2) in \<open>auto simp: inst_at_def\<close>)
  then show ?thesis using assms(2) by (simp add: fn_of_def inst_at_def)
qed

definition inst_pos :: "llvm_module \<Rightarrow> nat \<Rightarrow> nat" where
  "inst_pos m i = (LEAST k. \<exists>a b. inst_at m i a b k)"

lemma inst_pos_at: "module_ok m \<Longrightarrow> inst_at m i a b k \<Longrightarrow> inst_pos m i = k"
  unfolding inst_pos_def by (rule Least_equality) (use inst_at_unique in blast)+

lemma kind_of_at:
  assumes "module_ok m" "inst_at m i a b k"
  shows "kind_of m i = snd (instrs (m ! a ! b) ! k)"
proof -
  have "(i, snd (instrs (m ! a ! b) ! k)) \<in> set (module_instrs m)"
    using inst_at_mem [OF assms(2)] by (auto simp: module_instrs_def fn_instrs_def)
  then have "map_of (module_instrs m) i = Some (snd (instrs (m ! a ! b) ! k))"
    using assms(1) by (intro map_of_is_SomeI) (simp_all add: module_ok_def)
  then show ?thesis by (simp add: kind_of_def)
qed

lemma kind_of_in: "kind_of m i \<noteq> Plain \<Longrightarrow> i \<in> inst_ids m"
  by (auto simp: kind_of_def inst_ids_def split: option.splits dest!: map_of_SomeD intro: rev_image_eqI)

lemma kind_of_mem:
  assumes "module_ok m" "(i, k) \<in> set (module_instrs m)"
  shows "kind_of m i = k"
proof -
  have "map_of (module_instrs m) i = Some k" using assms by (simp add: module_ok_def)
  then show ?thesis by (simp add: kind_of_def)
qed

lemma kind_of_call: "kind_of m i = Call c \<Longrightarrow> (i, Call c) \<in> set (module_instrs m)"
  by (auto simp: kind_of_def split: option.splits dest: map_of_SomeD)

lemma set_callers:
  assumes "module_ok m"
  shows "set (callers_of m f) = {i. kind_of m i = Call (Some f)}"
proof -
  have "set (callers_of m f) = {i. (i, Call (Some f)) \<in> set (module_instrs m)}" by (force simp: callers_of_def)
  then show ?thesis using kind_of_mem [OF assms] kind_of_call by blast
qed

lemma inst_at_nth: "a < length m \<Longrightarrow> b < length (m ! a) \<Longrightarrow> k < length (instrs (m ! a ! b)) \<Longrightarrow> inst_at m (fst (instrs (m ! a ! b) ! k)) a b k"
  by (simp add: inst_at_def)

lemma edge_at:
  assumes "module_ok m" "(i, s) \<in> set (module_edges m)"
  obtains a b k where "inst_at m i a b k"
    and "inst_at m s a b (Suc k) \<or> (Suc k = length (instrs (m ! a ! b)) \<and> (\<exists>t \<in> set (targets (m ! a ! b)). inst_at m s a t 0))"
proof -
  obtain fn bb where fb: "fn \<in> set m" "bb \<in> set fn" "(i, s) \<in> set (block_edges fn bb)"
    using assms(2) by (auto simp: module_edges_def)
  obtain a where a: "a < length m" "m ! a = fn" using fb(1) by (auto simp: in_set_conv_nth)
  obtain b where b: "b < length fn" "fn ! b = bb" using fb(2) by (auto simp: in_set_conv_nth)
  have ne: "instrs bb' \<noteq> []" if "bb' \<in> set fn" for bb' using assms(1) fb(1) that by (simp add: module_ok_def)
  have tg: "t < length fn" if "t \<in> set (targets bb)" for t using assms(1) fb(1,2) that by (simp add: module_ok_def)
  consider (step) "(i, s) \<in> set (zip (map fst (instrs bb)) (tl (map fst (instrs bb))))"
    | (jump) t where "t \<in> set (targets bb)" "i = last (map fst (instrs bb))" "s = fst (hd (instrs (fn ! t)))"
    using fb(3) by (auto simp: block_edges_def Let_def)
  then show thesis
  proof cases
    case step
    then obtain k where k: "k < length (instrs bb) - 1" "fst (instrs bb ! k) = i" "fst (instrs bb ! Suc k) = s"
      by (auto simp: set_zip nth_tl)
    then show thesis using a b by (intro that [of a b k]) (auto simp: inst_at_def)
  next
    case jump
    have n: "instrs bb \<noteq> []" "instrs (fn ! t) \<noteq> []" using ne fb(2) tg [OF jump(1)] by simp_all
    have "inst_at m i a b (length (instrs bb) - 1)" using a b n(1) jump(2) by (simp add: inst_at_def last_map last_conv_nth)
    moreover have "inst_at m s a t 0" using a n(2) jump(3) tg [OF jump(1)] by (simp add: inst_at_def hd_conv_nth)
    ultimately show thesis using a b n(1) jump(1) by (intro that [of a b "length (instrs bb) - 1"]) auto
  qed
qed

lemma edge_next:
  assumes "inst_at m i a b k" "inst_at m s a b (Suc k)"
  shows "(i, s) \<in> set (module_edges m)"
proof -
  let ?ids = "map fst (instrs (m ! a ! b))"
  have "Suc k < length ?ids" "?ids ! k = i" "tl ?ids ! k = s" using assms by (auto simp: inst_at_def nth_tl simp flip: map_tl)
  then have "(i, s) \<in> set (zip ?ids (tl ?ids))" by (force simp: set_zip)
  then show ?thesis using inst_at_mem(1,2) [OF assms(1)] by (auto simp: module_edges_def block_edges_def Let_def)
qed

lemma set_successors: "set (successors m i) = {s. (i, s) \<in> set (module_edges m)}"
  by (force simp: successors_def)

lemma set_predecessors: "set (predecessors m s) = {i. (i, s) \<in> set (module_edges m)}"
  by (force simp: predecessors_def)

lemma distinct_neighbours [simp]: "distinct (successors m i)" "distinct (predecessors m i)" "distinct (callers_of m i)"
  by (simp_all add: successors_def predecessors_def callers_of_def)

lemma edge_ids:
  assumes "module_ok m" "(i, s) \<in> set (module_edges m)"
  shows "i \<in> inst_ids m" and "s \<in> inst_ids m" and "fn_of m i = fn_of m s"
proof -
  from edge_at [OF assms] obtain a b k b' k' where "inst_at m i a b k" "inst_at m s a b' k'" by metis
  then show "i \<in> inst_ids m" "s \<in> inst_ids m" "fn_of m i = fn_of m s"
    using fn_of_at [OF assms(1)] inst_at_exists by metis+
qed

lemma distinct_singleton: "distinct xs \<Longrightarrow> set xs = {x} \<Longrightarrow> xs = [x]"
  by (cases xs; cases "tl xs") auto

lemma call_successor:
  assumes "module_ok m" "kind_of m i = Call c"
  obtains s where "successors m i = [s]" "inst_pos m s = Suc (inst_pos m i)"
proof -
  obtain a b k where at: "inst_at m i a b k" using assms(2) kind_of_in [of m i] inst_at_exists by (metis inst_kind.distinct(3))
  let ?is = "instrs (m ! a ! b)"
  have "snd (?is ! k) = Call c" using kind_of_at [OF assms(1) at] assms(2) by simp
  then have call: "is_call (snd (?is ! k))" by (simp add: is_call_def)
  have "\<not> is_call (snd (last ?is))" "?is \<noteq> []" using assms(1) inst_at_mem(1,2) [OF at] by (auto simp: module_ok_def)
  then have "k \<noteq> length ?is - 1" using call by (auto simp: last_conv_nth)
  then have k: "Suc k < length ?is" using at unfolding inst_at_def by linarith
  define s where "s = fst (?is ! Suc k)"
  have s: "inst_at m s a b (Suc k)" unfolding s_def using at k by (intro inst_at_nth) (simp_all add: inst_at_def)
  have "s' = s" if edge: "(i, s') \<in> set (module_edges m)" for s'
  proof -
    obtain a' b' k' where e: "inst_at m i a' b' k'"
        "inst_at m s' a' b' (Suc k') \<or> Suc k' = length (instrs (m ! a' ! b'))"
      using edge_at [OF assms(1) edge] by metis
    then have "a' = a" "b' = b" "k' = k" using inst_at_unique [OF assms(1) at e(1)] by simp_all
    then show ?thesis using e(2) k by (auto simp: inst_at_def s_def)
  qed
  then have "set (successors m i) = {s}" using edge_next [OF at s] unfolding set_successors by blast
  then have "successors m i = [s]"
    by (intro distinct_singleton) simp_all
  then show thesis using inst_pos_at [OF assms(1) at] inst_pos_at [OF assms(1) s] by (intro that) simp_all
qed

lemma inst_pos_less:
  assumes "module_ok m" "i \<in> inst_ids m"
  shows "inst_pos m i < length (module_instrs m)"
proof -
  obtain a b k where at: "inst_at m i a b k" using assms(2) inst_at_exists by blast
  have "length (instrs (m ! a ! b)) \<le> length (fn_instrs (m ! a))"
    using inst_at_mem(2) [OF at] by (auto simp: fn_instrs_def length_concat intro: member_le_sum_list)
  also have "\<dots> \<le> length (module_instrs m)"
    using inst_at_mem(1) [OF at] by (auto simp: module_instrs_def length_concat intro: member_le_sum_list)
  finally show ?thesis using at inst_pos_at [OF assms(1) at] by (simp add: inst_at_def)
qed

lemma entry_at:
  assumes "module_ok m" "entry_of m f = Some e"
  shows "inst_at m e f 0 0"
proof -
  have f: "f < length m" "m ! f \<noteq> []" "e = fst (hd (instrs (m ! f ! 0)))"
    using assms(2) by (auto simp: entry_of_def split: if_splits list.splits)
  then have "m ! f ! 0 \<in> set (m ! f)" "m ! f \<in> set m" by simp_all
  then have "instrs (m ! f ! 0) \<noteq> []" using assms(1) by (auto simp: module_ok_def)
  then show ?thesis using f by (simp add: inst_at_def hd_conv_nth)
qed

lemma entry_facts:
  assumes "module_ok m" "entry_of m f = Some e"
  shows "e \<in> inst_ids m" and "fn_of m e = f" and "predecessors m e = []" and "f < length m"
proof -
  note at = entry_at [OF assms]
  show "e \<in> inst_ids m" using at inst_at_exists by blast
  show "fn_of m e = f" by (rule fn_of_at [OF assms(1) at])
  show "f < length m" using at by (simp add: inst_at_def)
  have "False" if e: "(i, e) \<in> set (module_edges m)" for i
  proof -
    obtain a b k where i: "inst_at m i a b k" and
      "inst_at m e a b (Suc k) \<or> (\<exists>t \<in> set (targets (m ! a ! b)). inst_at m e a t 0)"
      using edge_at [OF assms(1) e] by metis
    then obtain t where t: "t \<in> set (targets (m ! a ! b))" "inst_at m e a t 0"
      using inst_at_unique [OF assms(1) at] by blast
    then have "0 < t" using assms(1) inst_at_mem(1,2) [OF i] by (auto simp: module_ok_def)
    then show False using inst_at_unique [OF assms(1) at t(2)] by simp
  qed
  then have "set (predecessors m e) = {}" by (auto simp: set_predecessors)
  then show "predecessors m e = []" by simp
qed

section \<open>The effect of one instruction\<close>

text \<open>The two halves of a cost, with the default where there is no entry.\<close>

definition direct :: "cost_state \<Rightarrow> nat \<Rightarrow> bool" where
  "direct st i = (case cs_costs st i of Some c \<Rightarrow> fst c | None \<Rightarrow> False)"

definition cost_to :: "cost_state \<Rightarrow> nat \<Rightarrow> nat" where
  "cost_to st i = (case cs_costs st i of Some c \<Rightarrow> snd c | None \<Rightarrow> 0)"

lemma read_cost_spec:
  assumes "read_cost i st = (c, st')"
  shows "c = (direct st i, cost_to st i)" and "direct st' = direct st" and "cost_to st' = cost_to st"
    and "cs_paths st' = cs_paths st" and "cs_worklist st' = cs_worklist st"
  using assms by (auto simp: read_cost_def direct_def cost_to_def fun_eq_iff split: option.splits if_splits)

lemma inst_cost_0 [simp]: "inst_cost k = 0"
  by (simp add: inst_cost_def trunc_def NS_PER_MEMORY_INSTRUCTION_def NS_PER_INSTRUCTION_def cacheConfig_def)

lemma direct_set [simp]: "cs_costs st' = (cs_costs st)(i \<mapsto> c) \<Longrightarrow> direct st' = (direct st)(i := fst c)"
  by (auto simp: direct_def fun_eq_iff)

lemma cost_to_set [simp]: "cs_costs st' = (cs_costs st)(i \<mapsto> c) \<Longrightarrow> cost_to st' = (cost_to st)(i := snd c)"
  by (auto simp: cost_to_def fun_eq_iff)

lemma direct_successorCosts [simp]:
  "direct (st\<lparr>cs_successorCosts := c\<rparr>) = direct st" "cost_to (st\<lparr>cs_successorCosts := c\<rparr>) = cost_to st"
  by (simp_all add: direct_def cost_to_def fun_eq_iff)

text \<open>The entry that reading \<open>paths[s][inst]\<close> adds.\<close>

definition touch :: "nat \<Rightarrow> (nat \<rightharpoonup> nat) \<Rightarrow> (nat \<rightharpoonup> nat)" where
  "touch i p = (if p i = None then p(i \<mapsto> 0) else p)"

lemma path_count_touch [simp]: "path_count (touch i p) = path_count p"
  by (auto simp: touch_def path_count_def fun_eq_iff)

lemma path_count_inc [simp]: "path_count (path_inc i p) = (path_count p)(i := Suc (path_count p i))"
  by (auto simp: path_inc_def path_count_def fun_eq_iff)

lemma path_count_add [simp]: "path_count (path_add p q) = (\<lambda>x. path_count p x + path_count q x)"
  by (auto simp: path_add_def path_count_def fun_eq_iff)

lemma path_count_empty [simp]: "path_count Map.empty = (\<lambda>_. 0)"
  by (simp add: path_count_def fun_eq_iff)

lemma relax_cases:
  assumes "relax m inst s (ch, st) = (ch', st')"
  defines "P \<equiv> (cs_paths st)(s := touch inst (cs_paths st s))"
  obtains (same) "ch' = ch" "direct st' = direct st" "cost_to st' = cost_to st" "cs_paths st' = P"
      "cs_worklist st' = cs_worklist st" "path_count (cs_paths st s) inst \<le> 1 \<Longrightarrow> direct st s \<Longrightarrow> direct st inst"
    | (update) "ch'" "direct st' = (direct st)(inst := direct st s)" "cost_to st' = (cost_to st)(inst := cost_to st s)"
      "cs_paths st' = P(inst := path_inc inst (P s))" "cs_worklist st' = cs_worklist st"
      "path_count (cs_paths st s) inst \<le> 1" "direct st inst \<Longrightarrow> direct st s"
      "direct st inst = direct st s \<Longrightarrow> cost_to st inst < cost_to st s"
proof -
  define st1 where "st1 = (if cs_paths st s inst = None then st\<lparr>cs_paths := (cs_paths st)(s := (cs_paths st s)(inst \<mapsto> 0))\<rparr> else st)"
  have st1: "cs_paths st1 = P" "direct st1 = direct st" "cost_to st1 = cost_to st" "cs_worklist st1 = cs_worklist st"
    by (auto simp: st1_def P_def touch_def direct_def cost_to_def fun_eq_iff)
  obtain ci st2 where r2: "read_cost inst st1 = (ci, st2)" by fastforce
  obtain c st3 where r3: "read_cost s st2 = (c, st3)" by fastforce
  note v2 = read_cost_spec [OF r2, unfolded st1]
  note v3 = read_cost_spec [OF r3, unfolded v2]
  let ?P1 = "path_count (P s) inst \<le> 1"
  define up where "up \<longleftrightarrow> (if fst ci then fst c \<and> snd c > snd ci else fst c \<or> snd c > snd ci)"
  have "relax m inst s (ch, st) = (if ?P1 then if up
      then (True, st3\<lparr>cs_costs := (cs_costs st3)(inst \<mapsto> c), cs_paths := (cs_paths st3)(inst := path_inc inst (cs_paths st3 s))\<rparr>)
      else (ch, st3) else (ch, st1))"
    by (cases c) (simp add: relax_def Let_def r2 r3 st1 up_def flip: st1_def)
  note eq = this [unfolded assms(1)]
  have P1: "?P1 \<longleftrightarrow> path_count (cs_paths st s) inst \<le> 1" by (simp add: P_def)
  consider "?P1" "up" | "?P1" "\<not> up" | "\<not> ?P1" by blast
  then show thesis
  proof cases
    case 1
    have st': "ch'" "st' = st3\<lparr>cs_costs := (cs_costs st3)(inst \<mapsto> c), cs_paths := (cs_paths st3)(inst := path_inc inst (cs_paths st3 s))\<rparr>"
      using eq 1 by simp_all
    have d: "direct st' = (direct st)(inst := direct st s)" "cost_to st' = (cost_to st)(inst := cost_to st s)"
      using direct_set [of st' st3 inst c] cost_to_set [of st' st3 inst c] st'(2) v3 by simp_all
    show thesis
      by (rule update [OF st'(1) d]) (use 1 st' v2 v3 P1 in \<open>auto simp: up_def split: if_splits\<close>)
  next
    case 2
    then have "ch' = ch" "st' = st3" using eq by simp_all
    then show thesis using 2 v2 v3 by (intro same) (auto simp: up_def split: if_splits)
  next
    case 3
    then have "ch' = ch" "st' = st1" using eq by simp_all
    then show thesis using 3 P1 st1 by (intro same) auto
  qed
qed

lemma relax_call_cases:
  assumes "cs_paths st e inst = None" "successors m inst = [s]"
  defines "P \<equiv> cs_paths st"
  obtains (same) st' where "relax_call m inst e st = Some (False, st')" "direct st' = direct st" "cost_to st' = cost_to st"
      "cs_paths st' = P" "cs_worklist st' = cs_worklist st" "direct st inst = (direct st e \<or> direct st s)"
    | (update) v p st' where "relax_call m inst e st = Some (True, st')"
      "direct st' = (direct st)(inst := direct st e \<or> direct st s)" "cost_to st' = (cost_to st)(inst := v)"
      "cs_paths st' = P(inst := p)" "cs_worklist st' = cs_worklist st"
      "direct st e \<and> v = cost_to st e + 1 \<and> p = path_inc inst (P e) \<or>
       \<not> direct st e \<and> v = 1 + cost_to st e + cost_to st s \<and> p = path_add (path_inc inst Map.empty) (path_add (P e) (P s)) \<or>
       \<not> direct st e \<and> v = 0 \<and> p = Map.empty"
proof -
  obtain ce st1 where r1: "read_cost e st = (ce, st1)" by fastforce
  obtain c st2 where r2: "read_cost s st1 = (c, st2)" by fastforce
  note v1 = read_cost_spec [OF r1]
  note v2 = read_cost_spec [OF r2, unfolded v1]
  obtain cost p st3 where mid: "relax_call m inst e st = (let (ci, st4) = read_cost inst st3 in
       Some (if cost \<noteq> ci then (True, st4\<lparr>cs_costs := (cs_costs st4)(inst \<mapsto> cost), cs_paths := (cs_paths st4)(inst := p)\<rparr>) else (False, st4)))"
    and st3: "direct st3 = direct st" "cost_to st3 = cost_to st" "cs_paths st3 = P" "cs_worklist st3 = cs_worklist st"
    and fc: "fst cost = (direct st e \<or> direct st s)"
    and pc: "direct st e \<and> snd cost = cost_to st e + 1 \<and> p = path_inc inst (P e) \<or>
       \<not> direct st e \<and> snd cost = 1 + cost_to st e + cost_to st s \<and> p = path_add (path_inc inst Map.empty) (path_add (P e) (P s)) \<or>
       \<not> direct st e \<and> snd cost = 0 \<and> p = Map.empty"
  proof (cases "direct st e")
    case True
    then show thesis using assms(1,2) r1 v1
      by (intro that [where cost = "(True, cost_to st e + 1)" and p = "path_inc inst (P e)" and ?st3.0 = st1]) (auto simp: relax_call_def P_def cong: if_cong)
  next
    case nd: False
    show thesis
    proof (cases "P e \<noteq> Map.empty \<and> P s \<noteq> Map.empty")
      case True
      then show thesis using assms(1,2) r1 r2 v1 v2 nd
        by (intro that [where cost = "(fst c, 1 + snd ce + snd c)" and p = "path_add (path_inc inst Map.empty) (path_add (P e) (P s))"
              and ?st3.0 = "st2\<lparr>cs_successorCosts := (cs_successorCosts st2)(inst \<mapsto> snd c)\<rparr>"])
          (auto simp: relax_call_def P_def cong: if_cong)
    next
      case False
      then show thesis using assms(1,2) r1 r2 v1 v2 nd
        by (intro that [where cost = "(fst c, 0)" and p = Map.empty and ?st3.0 = st2]) (auto simp: relax_call_def P_def cong: if_cong)
    qed
  qed
  obtain ci st4 where r4: "read_cost inst st3 = (ci, st4)" by fastforce
  note v4 = read_cost_spec [OF r4, unfolded st3]
  show thesis
  proof (cases "cost = ci")
    case True
    then show thesis using mid r4 v4 fc by (intro same [of st4]) auto
  next
    case False
    let ?st = "st4\<lparr>cs_costs := (cs_costs st4)(inst \<mapsto> cost), cs_paths := (cs_paths st4)(inst := p)\<rparr>"
    have d: "direct ?st = (direct st)(inst := direct st e \<or> direct st s)" "cost_to ?st = (cost_to st)(inst := snd cost)"
      using direct_set [of ?st st4 inst cost] cost_to_set [of ?st st4 inst cost] v4 fc by simp_all
    show thesis by (rule update [OF _ d]) (use False mid r4 v4 pc in auto)
  qed
qed

section \<open>Paths are bounded\<close>

text \<open>
  Calls of functions with a body, other than \<open>castan_loop\<close>, and the rank of a function in the
  call graph they form.
\<close>

definition calls_body :: "llvm_module \<Rightarrow> nat \<Rightarrow> nat \<Rightarrow> nat \<Rightarrow> bool" where
  "calls_body m lp i e \<longleftrightarrow> (case kind_of m i of Call (Some f) \<Rightarrow> f \<noteq> lp \<and> entry_of m f = Some e | _ \<Rightarrow> False)"

definition body_call :: "llvm_module \<Rightarrow> nat \<Rightarrow> nat \<Rightarrow> bool" where
  "body_call m lp i \<longleftrightarrow> (\<exists>e. calls_body m lp i e)"

definition call_edges :: "llvm_module \<Rightarrow> nat \<Rightarrow> (nat \<times> nat) set" where
  "call_edges m lp = {(fn_of m i, fn_of m e) | i e. calls_body m lp i e}"

definition call_rank :: "llvm_module \<Rightarrow> nat \<Rightarrow> nat \<Rightarrow> nat" where
  "call_rank m lp f = card {g. (f, g) \<in> (call_edges m lp)\<^sup>+}"

definition searchable :: "llvm_module \<Rightarrow> nat \<Rightarrow> bool" where
  "searchable m lp \<longleftrightarrow> module_ok m \<and> acyclic (call_edges m lp)"

lemma calls_bodyE:
  assumes "calls_body m lp i e"
  obtains f where "kind_of m i = Call (Some f)" "f \<noteq> lp" "entry_of m f = Some e"
  using assms by (auto simp: calls_body_def split: inst_kind.splits option.splits)

lemma calls_body_ids:
  assumes "module_ok m" "calls_body m lp i e"
  shows "i \<in> inst_ids m" and "e \<in> inst_ids m" and "fn_of m e < length m"
    and "\<exists>s. successors m i = [s] \<and> s \<in> inst_ids m \<and> fn_of m s = fn_of m i \<and> inst_pos m s = Suc (inst_pos m i)"
proof -
  from assms(2) obtain f where f: "kind_of m i = Call (Some f)" "entry_of m f = Some e" by (rule calls_bodyE)
  show "i \<in> inst_ids m" using f(1) by (intro kind_of_in) simp
  show "e \<in> inst_ids m" "fn_of m e < length m" using entry_facts [OF assms(1) f(2)] by simp_all
  obtain s where s: "successors m i = [s]" "inst_pos m s = Suc (inst_pos m i)" by (rule call_successor [OF assms(1) f(1)])
  then have "(i, s) \<in> set (module_edges m)" using set_successors [of m i] by auto
  then show "\<exists>s. successors m i = [s] \<and> s \<in> inst_ids m \<and> fn_of m s = fn_of m i \<and> inst_pos m s = Suc (inst_pos m i)"
    using s edge_ids [OF assms(1)] by metis
qed

lemma calls_body_unique: "calls_body m lp i e \<Longrightarrow> calls_body m lp i e' \<Longrightarrow> e = e'"
  by (auto elim!: calls_bodyE)

lemma finite_ids [simp]: "finite (inst_ids m)"
  by (simp add: inst_ids_def)

lemma card_ids: "card (inst_ids m) \<le> length (module_instrs m)"
  by (metis inst_ids_def card_length image_set length_map)

lemma rank_reach:
  assumes "module_ok m"
  shows "{g. (f, g) \<in> (call_edges m lp)\<^sup>+} \<subseteq> {..<length m}"
proof -
  have "Range (call_edges m lp) \<subseteq> {..<length m}" using calls_body_ids(3) [OF assms] by (auto simp: call_edges_def)
  then show ?thesis using trancl_range [of "call_edges m lp"] by (blast intro: RangeI)
qed

lemma call_rank_le: "module_ok m \<Longrightarrow> call_rank m lp f \<le> length m"
  using card_mono [OF _ rank_reach] by (simp add: call_rank_def)

lemma call_rank_less:
  assumes "searchable m lp" "calls_body m lp i e"
  shows "call_rank m lp (fn_of m e) < call_rank m lp (fn_of m i)"
proof -
  let ?R = "call_edges m lp"
  have ok: "module_ok m" "acyclic ?R" using assms(1) by (simp_all add: searchable_def)
  have edge: "(fn_of m i, fn_of m e) \<in> ?R" using assms(2) by (auto simp: call_edges_def)
  have "{g. (fn_of m e, g) \<in> ?R\<^sup>+} \<subset> {g. (fn_of m i, g) \<in> ?R\<^sup>+}"
  proof
    show "{g. (fn_of m e, g) \<in> ?R\<^sup>+} \<subseteq> {g. (fn_of m i, g) \<in> ?R\<^sup>+}" using edge by (auto intro: trancl_into_trancl2)
    have "fn_of m e \<notin> {g. (fn_of m e, g) \<in> ?R\<^sup>+}" using ok(2) by (simp add: acyclic_def)
    then show "{g. (fn_of m e, g) \<in> ?R\<^sup>+} \<noteq> {g. (fn_of m i, g) \<in> ?R\<^sup>+}" using edge by blast
  qed
  then show ?thesis unfolding call_rank_def
    by (rule psubset_card_mono [rotated]) (use finite_subset [OF rank_reach [OF ok(1)]] in simp)
qed

text \<open>
  How long a path can get: the instructions of its own function that do not call a body occur
  at most twice each, the calls between them at most once per block, and each call brings in a
  path of a function of smaller rank.
\<close>

definition own :: "llvm_module \<Rightarrow> nat \<Rightarrow> nat \<Rightarrow> bool \<Rightarrow> nat set" where
  "own m lp i b = {x \<in> inst_ids m. fn_of m x = fn_of m i \<and> body_call m lp x = b}"

abbreviation path_size :: "nat set \<Rightarrow> (nat \<rightharpoonup> nat) \<Rightarrow> nat" where
  "path_size A p \<equiv> sum (path_count p) A"

primrec path_bound :: "nat \<Rightarrow> nat \<Rightarrow> nat" where
  "path_bound B 0 = 0"
| "path_bound B (Suc r) = 2 * B + (2 * B + 1) * B * (1 + path_bound B r)"

definition path_ok :: "llvm_module \<Rightarrow> nat \<Rightarrow> nat \<Rightarrow> (nat \<rightharpoonup> nat) \<Rightarrow> nat \<Rightarrow> bool" where
  "path_ok m lp i p v \<longleftrightarrow>
     dom p \<subseteq> {x \<in> inst_ids m. fn_of m x = fn_of m i \<or> call_rank m lp (fn_of m x) < call_rank m lp (fn_of m i)} \<and>
     (\<forall>x \<in> own m lp i False. path_count p x \<le> 2) \<and>
     path_size (own m lp i True) p + inst_pos m i \<le> (path_size (own m lp i False) p + 1) * length (module_instrs m) \<and>
     path_size (inst_ids m) p \<le> path_size (own m lp i False) p
       + path_size (own m lp i True) p * (1 + path_bound (length (module_instrs m)) (call_rank m lp (fn_of m i))) \<and>
     v \<le> path_size (inst_ids m) p"

lemma path_bound_mono: "r \<le> r' \<Longrightarrow> path_bound B r \<le> path_bound B r'"
proof (induction r arbitrary: r')
  case (Suc r)
  then obtain q where "r' = Suc q" "r \<le> q" by (cases r') auto
  then show ?case using Suc.IH [of q] by (simp add: add_mono mult_le_mono)
qed simp

lemma finite_own [simp]: "finite (own m lp i b)"
  by (simp add: own_def)

lemma own_eq: "fn_of m i = fn_of m j \<Longrightarrow> own m lp i b = own m lp j b"
  by (simp add: own_def)

lemma path_ok_bound:
  assumes "path_ok m lp i p v"
  shows "path_size (inst_ids m) p \<le> path_bound (length (module_instrs m)) (Suc (call_rank m lp (fn_of m i)))"
proof -
  let ?B = "length (module_instrs m)" and ?K = "path_bound (length (module_instrs m)) (call_rank m lp (fn_of m i))"
  have "path_size (own m lp i False) p \<le> card (own m lp i False) * 2"
    using sum_bounded_above [of "own m lp i False" "path_count p" 2] assms by (simp add: path_ok_def)
  moreover have "card (own m lp i False) \<le> ?B"
    using card_mono [of "inst_ids m" "own m lp i False"] card_ids [of m] by (auto simp: own_def)
  ultimately have n: "path_size (own m lp i False) p \<le> 2 * ?B" by linarith
  have "path_size (own m lp i True) p \<le> (path_size (own m lp i False) p + 1) * ?B" using assms by (simp add: path_ok_def)
  also have "\<dots> \<le> (2 * ?B + 1) * ?B" using n by (intro mult_le_mono) simp_all
  finally have c: "path_size (own m lp i True) p \<le> (2 * ?B + 1) * ?B" .
  have "path_size (inst_ids m) p \<le> path_size (own m lp i False) p + path_size (own m lp i True) p * (1 + ?K)"
    using assms by (simp add: path_ok_def)
  also have "\<dots> \<le> 2 * ?B + (2 * ?B + 1) * ?B * (1 + ?K)" using n c by (intro add_mono mult_le_mono) simp_all
  finally show ?thesis by simp
qed

lemma sum_path_inc: "finite A \<Longrightarrow> path_size A (path_inc i p) = path_size A p + (if i \<in> A then 1 else 0)"
  by (induction A rule: finite_induct) auto

lemma path_ok_empty: "module_ok m \<Longrightarrow> i \<in> inst_ids m \<Longrightarrow> path_ok m lp i Map.empty 0"
  using inst_pos_less [of m i] by (simp add: path_ok_def)

lemma path_ok_inc:
  assumes "module_ok m" "path_ok m lp s p v" "i \<in> inst_ids m" "fn_of m i = fn_of m s" "\<not> body_call m lp i" "path_count p i \<le> 1"
  shows "path_ok m lp i (path_inc i p) v"
proof -
  let ?B = "length (module_instrs m)"
  note o = own_eq [OF assms(4)]
  have i: "i \<in> own m lp s False" "i \<notin> own m lp s True" using assms(3-5) by (simp_all add: own_def)
  have pos: "inst_pos m i \<le> ?B" using inst_pos_less [OF assms(1,3)] by simp
  have "path_size (own m lp s True) p + inst_pos m i \<le> (path_size (own m lp s False) p + 1 + 1) * ?B"
    using assms(2) pos unfolding path_ok_def by (simp add: algebra_simps)
  moreover have "dom (path_inc i p) = insert i (dom p)" by (auto simp: path_inc_def)
  ultimately show ?thesis using assms i by (simp add: path_ok_def o sum_path_inc del: path_count_inc) (auto simp: le_Suc_eq)
qed

lemma path_ok_start:
  assumes "module_ok m" "i \<in> inst_ids m" "\<not> body_call m lp i"
  shows "path_ok m lp i [i \<mapsto> 1] 1"
proof -
  have p: "path_inc i Map.empty = [i \<mapsto> 1]" by (simp add: path_inc_def)
  have "path_ok m lp i [i \<mapsto> 1] 0" using path_ok_inc [OF assms(1) path_ok_empty [OF assms(1,2)] assms(2) refl assms(3)] by (simp add: p)
  moreover have "path_size (inst_ids m) [i \<mapsto> 1] = 1" using sum_path_inc [of "inst_ids m" i Map.empty] assms(2) by (simp add: p)
  ultimately show ?thesis by (simp add: path_ok_def)
qed

lemma path_ok_touch:
  assumes "path_ok m lp s p v" "i \<in> inst_ids m" "fn_of m i = fn_of m s"
  shows "path_ok m lp s (touch i p) v"
proof -
  have "dom (touch i p) \<subseteq> insert i (dom p)" by (auto simp: touch_def split: if_splits)
  then show ?thesis using assms by (auto simp: path_ok_def)
qed

lemma callee_not_own:
  assumes "searchable m lp" "calls_body m lp i e" "path_ok m lp e p v"
  shows "path_size (own m lp i b) p = 0" and "x \<in> own m lp i b \<Longrightarrow> path_count p x = 0"
    and "x \<in> dom p \<Longrightarrow> x \<in> inst_ids m \<and> call_rank m lp (fn_of m x) < call_rank m lp (fn_of m i)"
proof -
  note less = call_rank_less [OF assms(1,2)]
  show d: "x \<in> dom p \<Longrightarrow> x \<in> inst_ids m \<and> call_rank m lp (fn_of m x) < call_rank m lp (fn_of m i)" for x
    using assms(3) less by (force simp: path_ok_def)
  show 0: "path_count p x = 0" if "x \<in> own m lp i b" for x b
    using that d [of x] by (auto simp: own_def path_count_def split: option.splits)
  show "path_size (own m lp i b) p = 0" by (simp add: 0)
qed

lemma callee_size:
  assumes "searchable m lp" "calls_body m lp i e" "path_ok m lp e p v"
  shows "path_size (inst_ids m) p \<le> path_bound (length (module_instrs m)) (call_rank m lp (fn_of m i))"
  using path_ok_bound [OF assms(3)] path_bound_mono [OF Suc_leI [OF call_rank_less [OF assms(1,2)]]] le_trans by blast

lemma path_ok_into:
  assumes "searchable m lp" "calls_body m lp i e" "path_ok m lp e p v"
  shows "path_ok m lp i (path_inc i p) (v + 1)"
proof -
  have ok: "module_ok m" using assms(1) by (simp add: searchable_def)
  note c = callee_not_own [OF assms] and z = callee_size [OF assms]
  have i: "i \<in> inst_ids m" "i \<in> own m lp i True" "i \<notin> own m lp i False"
    using calls_body_ids(1) [OF ok assms(2)] assms(2) by (auto simp: own_def body_call_def)
  have "dom (path_inc i p) = insert i (dom p)" by (auto simp: path_inc_def)
  then have "dom (path_inc i p) \<subseteq> {x \<in> inst_ids m. fn_of m x = fn_of m i \<or> call_rank m lp (fn_of m x) < call_rank m lp (fn_of m i)}"
    using c(3) i(1) by auto
  moreover have "path_count (path_inc i p) x \<le> 2" if "x \<in> own m lp i False" for x using c(2) [OF that] c(2) [OF i(2)] by simp
  moreover have "v \<le> path_size (inst_ids m) p" using assms(3) by (simp add: path_ok_def)
  ultimately show ?thesis using i z c(1) inst_pos_less [OF ok i(1)] by (simp add: path_ok_def sum_path_inc del: path_count_inc)
qed

lemma path_ok_over:
  assumes "searchable m lp" "calls_body m lp i e" "path_ok m lp e p v" "successors m i = [s]" "path_ok m lp s q w"
  shows "path_ok m lp i (path_add (path_inc i Map.empty) (path_add p q)) (1 + v + w)"
proof -
  let ?r = "path_add (path_inc i Map.empty) (path_add p q)" and ?B = "length (module_instrs m)"
  have ok: "module_ok m" using assms(1) by (simp add: searchable_def)
  note c = callee_not_own [OF assms(1-3)] and z = callee_size [OF assms(1-3)]
  have i: "i \<in> inst_ids m" "i \<in> own m lp i True" "i \<notin> own m lp i False"
    using calls_body_ids(1) [OF ok assms(2)] assms(2) by (auto simp: own_def body_call_def)
  have s: "s \<in> inst_ids m" "fn_of m s = fn_of m i" "inst_pos m s = Suc (inst_pos m i)"
    using calls_body_ids(4) [OF ok assms(2)] assms(4) by auto
  note o = own_eq [OF s(2)]
  have q: "path_ok m lp s q w" by (rule assms(5))
  have size: "path_size A ?r = path_size A (path_inc i Map.empty) + (path_size A p + path_size A q)" for A
    by (simp add: sum.distrib)
  have dq: "dom q \<subseteq> {x \<in> inst_ids m. fn_of m x = fn_of m i \<or> call_rank m lp (fn_of m x) < call_rank m lp (fn_of m i)}"
    using q s(2) by (simp add: path_ok_def)
  have "dom ?r \<subseteq> insert i (dom p \<union> dom q)" by (auto simp: path_add_def path_inc_def split: if_splits)
  then have "dom ?r \<subseteq> {x \<in> inst_ids m. fn_of m x = fn_of m i \<or> call_rank m lp (fn_of m x) < call_rank m lp (fn_of m i)}"
    using c(3) i(1) dq by blast
  moreover have "path_count ?r x \<le> 2" if "x \<in> own m lp i False" for x
    using c(2) [OF that] q that i(3) by (auto simp: path_ok_def o)
  moreover have "path_size (own m lp i True) ?r = 1 + path_size (own m lp i True) q"
      "path_size (own m lp i False) ?r = path_size (own m lp i False) q"
      "path_size (inst_ids m) ?r = 1 + path_size (inst_ids m) p + path_size (inst_ids m) q"
    unfolding size by (simp_all add: sum_path_inc c(1) i del: path_count_inc)
  moreover have "v \<le> path_size (inst_ids m) p" using assms(3) by (simp add: path_ok_def)
  ultimately show ?thesis using q z s unfolding path_ok_def by (simp add: o del: path_count_inc path_count_add)
qed

section \<open>The invariant of the tables\<close>

text \<open>
  The instructions from which control flow, stepping over calls or into the called functions,
  leads to a call of \<open>castan_loop\<close>.
\<close>

inductive reaches :: "llvm_module \<Rightarrow> nat \<Rightarrow> nat \<Rightarrow> bool" for m :: llvm_module and lp :: nat where
  loop: "kind_of m i = Call (Some lp) \<Longrightarrow> reaches m lp i"
| over: "s \<in> set (successors m i) \<Longrightarrow> reaches m lp s \<Longrightarrow> reaches m lp i"
| into: "calls_body m lp i e \<Longrightarrow> reaches m lp e \<Longrightarrow> reaches m lp i"

definition tables_ok :: "llvm_module \<Rightarrow> nat \<Rightarrow> cost_state \<Rightarrow> bool" where
  "tables_ok m lp st \<longleftrightarrow>
     (\<forall>i \<in> inst_ids m. path_ok m lp i (cs_paths st i) (cost_to st i)) \<and>
     (\<forall>i. direct st i \<longrightarrow> reaches m lp i) \<and>
     (\<forall>i. kind_of m i = Call (Some lp) \<longrightarrow> direct st i) \<and>
     (\<forall>i \<in> inst_ids m. \<forall>x. direct st i \<longrightarrow> 0 < path_count (cs_paths st i) x \<longrightarrow> fn_of m x = fn_of m i \<longrightarrow> direct st x) \<and>
     (\<forall>i e s. calls_body m lp i e \<longrightarrow> successors m i = [s] \<longrightarrow> direct st i \<longrightarrow> direct st e \<or> direct st s)"

lemma tables_okD:
  assumes "tables_ok m lp st"
  shows "i \<in> inst_ids m \<Longrightarrow> path_ok m lp i (cs_paths st i) (cost_to st i)"
    and "direct st i \<Longrightarrow> reaches m lp i"
    and "kind_of m i = Call (Some lp) \<Longrightarrow> direct st i"
    and "i \<in> inst_ids m \<Longrightarrow> direct st i \<Longrightarrow> 0 < path_count (cs_paths st i) x \<Longrightarrow> fn_of m x = fn_of m i \<Longrightarrow> direct st x"
    and "calls_body m lp i e \<Longrightarrow> successors m i = [s] \<Longrightarrow> direct st i \<Longrightarrow> direct st e \<or> direct st s"
  using assms unfolding tables_ok_def by blast+

lemma tables_ok_touch:
  assumes "tables_ok m lp st" "inst \<in> inst_ids m" "fn_of m inst = fn_of m s"
    and "direct st' = direct st" "cost_to st' = cost_to st" "cs_paths st' = (cs_paths st)(s := touch inst (cs_paths st s))"
  shows "tables_ok m lp st'"
proof -
  have "path_count (cs_paths st' i) = path_count (cs_paths st i)" for i using assms(6) by simp
  moreover have "path_ok m lp i (cs_paths st' i) (cost_to st i)" if "i \<in> inst_ids m" for i
    using tables_okD(1) [OF assms(1) that] path_ok_touch [OF _ assms(2,3)] assms(6) by auto
  ultimately show ?thesis using assms(1,4,5) unfolding tables_ok_def by simp
qed

text \<open>Setting the cost and the path of one instruction keeps the invariant.\<close>

lemma tables_ok_update:
  assumes "tables_ok m lp st" "path_ok m lp inst p v" "direct st inst \<Longrightarrow> d" "d \<Longrightarrow> reaches m lp inst"
    and "\<And>x. d \<Longrightarrow> 0 < path_count p x \<Longrightarrow> fn_of m x = fn_of m inst \<Longrightarrow> x = inst \<or> direct st x"
    and "\<And>e s. calls_body m lp inst e \<Longrightarrow> successors m inst = [s] \<Longrightarrow> d \<Longrightarrow> direct st e \<or> direct st s"
    and "direct st' = (direct st)(inst := d)" "cost_to st' = (cost_to st)(inst := v)" "cs_paths st' = (cs_paths st)(inst := p)"
  shows "tables_ok m lp st'"
proof -
  have mono: "direct st i \<Longrightarrow> direct st' i" for i using assms(3,7) by auto
  show ?thesis unfolding tables_ok_def
  proof (intro conjI allI impI ballI)
    show "path_ok m lp i (cs_paths st' i) (cost_to st' i)" if "i \<in> inst_ids m" for i
      using tables_okD(1) [OF assms(1) that] assms(2,8,9) by simp
    show "reaches m lp i" if "direct st' i" for i
      using that tables_okD(2) [OF assms(1)] assms(4,7) by (auto split: if_splits)
    show "direct st' i" if "kind_of m i = Call (Some lp)" for i using mono [OF tables_okD(3) [OF assms(1) that]] .
    show "direct st' x" if "i \<in> inst_ids m" "direct st' i" "0 < path_count (cs_paths st' i) x" "fn_of m x = fn_of m i" for i x
      using that tables_okD(4) [OF assms(1) that(1), of x] assms(5) [of x] assms(7,9) mono [of x] by (auto split: if_splits)
    show "direct st' e \<or> direct st' s" if "calls_body m lp i e" "successors m i = [s]" "direct st' i" for i e s
      using that tables_okD(5) [OF assms(1) that(1,2)] assms(6) [of e s] assms(7) mono [of e] mono [of s] by (auto split: if_splits)
  qed
qed

text \<open>How far the instructions that do not call a body still are from their final costs.\<close>

definition cost_cap :: "llvm_module \<Rightarrow> nat" where
  "cost_cap m = path_bound (length (module_instrs m)) (Suc (length m))"

definition remaining :: "llvm_module \<Rightarrow> nat \<Rightarrow> cost_state \<Rightarrow> nat \<times> nat" where
  "remaining m lp st =
     (card {x \<in> inst_ids m. \<not> body_call m lp x \<and> \<not> direct st x},
      \<Sum>x \<in> {x \<in> inst_ids m. \<not> body_call m lp x}. cost_cap m - cost_to st x)"

abbreviation closer :: "(nat \<times> nat) \<Rightarrow> (nat \<times> nat) \<Rightarrow> bool" where
  "closer a b \<equiv> (a, b) \<in> less_than <*lex*> less_than"

lemma closer_trans: "closer a b \<Longrightarrow> closer b c \<Longrightarrow> closer a c"
  by (cases a; cases b; cases c) auto

lemma cost_to_cap:
  assumes "searchable m lp" "tables_ok m lp st" "i \<in> inst_ids m"
  shows "cost_to st i \<le> cost_cap m"
proof -
  note p = tables_okD(1) [OF assms(2,3)]
  have "module_ok m" using assms(1) by (simp add: searchable_def)
  have "cost_to st i \<le> path_size (inst_ids m) (cs_paths st i)" using p by (simp add: path_ok_def)
  also have "\<dots> \<le> path_bound (length (module_instrs m)) (Suc (call_rank m lp (fn_of m i)))" by (rule path_ok_bound [OF p])
  also have "\<dots> \<le> cost_cap m"
    unfolding cost_cap_def using call_rank_le [OF \<open>module_ok m\<close>] by (intro path_bound_mono) simp
  finally show ?thesis .
qed

lemma remaining_update:
  assumes "searchable m lp" "tables_ok m lp st'" "inst \<in> inst_ids m" "\<not> body_call m lp inst"
    and "direct st' = (direct st)(inst := d)" "cost_to st' = (cost_to st)(inst := v)"
    and "direct st inst \<Longrightarrow> d" "direct st inst = d \<Longrightarrow> cost_to st inst < v"
  shows "closer (remaining m lp st') (remaining m lp st)"
proof (cases "direct st inst = d")
  case True
  let ?U = "{x \<in> inst_ids m. \<not> body_call m lp x}"
  have d: "direct st' = direct st" using assms(5) True by auto
  have less: "cost_cap m - cost_to st' inst < cost_cap m - cost_to st inst"
    using cost_to_cap [OF assms(1-3)] assms(6,8) True by simp
  have "(\<Sum>x \<in> ?U. cost_cap m - cost_to st' x) < (\<Sum>x \<in> ?U. cost_cap m - cost_to st x)"
    by (rule sum_strict_mono_ex1) (use assms(3,4,6) less in \<open>auto intro!: bexI [of _ inst]\<close>)
  then show ?thesis by (simp add: remaining_def d)
next
  case False
  then have "{x \<in> inst_ids m. \<not> body_call m lp x \<and> \<not> direct st' x} \<subset> {x \<in> inst_ids m. \<not> body_call m lp x \<and> \<not> direct st x}"
    using assms(3,4,5,7) by auto
  then show ?thesis using psubset_card_mono [of "{x \<in> inst_ids m. \<not> body_call m lp x \<and> \<not> direct st x}"] by (simp add: remaining_def)
qed

lemma relax_step:
  assumes "searchable m lp" "tables_ok m lp st" "inst \<in> inst_ids m" "\<not> body_call m lp inst" "s \<in> set (successors m inst)"
    and "relax m inst s (ch, st) = (ch', st')"
  shows "tables_ok m lp st' \<and> cs_worklist st' = cs_worklist st \<and> (\<forall>x. x \<noteq> inst \<longrightarrow> direct st' x = direct st x) \<and>
    (direct st inst \<longrightarrow> direct st' inst) \<and> (direct st' s \<longrightarrow> direct st' inst) \<and>
    (ch' = ch \<and> direct st' = direct st \<and> remaining m lp st' = remaining m lp st \<or>
     ch' \<and> closer (remaining m lp st') (remaining m lp st))"
proof -
  have ok: "module_ok m" using assms(1) by (simp add: searchable_def)
  have edge: "(inst, s) \<in> set (module_edges m)" using assms(5) by (simp add: set_successors)
  have s: "s \<in> inst_ids m" "fn_of m inst = fn_of m s" using edge_ids [OF ok edge] by simp_all
  let ?P = "(cs_paths st)(s := touch inst (cs_paths st s))"
  from assms(6) show ?thesis
  proof (cases rule: relax_cases)
    case same
    have t: "tables_ok m lp st'" by (rule tables_ok_touch [OF assms(2,3) s(2) same(2-4)])
    have "direct st s \<Longrightarrow> direct st inst"
      using same(6) tables_okD(4) [OF assms(2) s(1), of inst] s(2) by (cases "path_count (cs_paths st s) inst \<le> 1") auto
    then show ?thesis using same t by (simp add: remaining_def)
  next
    case update
    define st1 where "st1 = st\<lparr>cs_paths := ?P\<rparr>"
    have st1: "direct st1 = direct st" "cost_to st1 = cost_to st" "cs_paths st1 = ?P"
      by (simp_all add: st1_def direct_def cost_to_def fun_eq_iff)
    have t1: "tables_ok m lp st1" by (rule tables_ok_touch [OF assms(2,3) s(2) st1])
    have t: "tables_ok m lp st'"
    proof (rule tables_ok_update [OF t1])
      show "path_ok m lp inst (path_inc inst (?P s)) (cost_to st s)"
        using tables_okD(1) [OF t1 s(1)] update(6) by (intro path_ok_inc [OF ok _ assms(3) s(2) assms(4)]) (simp_all add: st1)
      show "reaches m lp inst" if "direct st s" using tables_okD(2) [OF assms(2) that] assms(5) by (rule reaches.over [rotated])
      show "x = inst \<or> direct st1 x" if "direct st s" "0 < path_count (path_inc inst (?P s)) x" "fn_of m x = fn_of m inst" for x
        using tables_okD(4) [OF t1 s(1), of x] that s(2) by (auto simp: st1 split: if_splits)
      show "direct st1 e \<or> direct st1 s'" if "calls_body m lp inst e" for e s' using that assms(4) by (auto simp: body_call_def)
    qed (use update st1 in auto)
    have "closer (remaining m lp st') (remaining m lp st)"
      by (rule remaining_update [OF assms(1) t assms(3,4) update(2,3,7,8)])
    then show ?thesis using update t by auto
  qed
qed

lemma relax_fold:
  assumes "searchable m lp" "inst \<in> inst_ids m" "\<not> body_call m lp inst"
  shows "tables_ok m lp st \<Longrightarrow> set ss \<subseteq> set (successors m inst) \<Longrightarrow> fold (relax m inst) ss (ch, st) = (ch', st') \<Longrightarrow>
    tables_ok m lp st' \<and> cs_worklist st' = cs_worklist st \<and> (\<forall>x. x \<noteq> inst \<longrightarrow> direct st' x = direct st x) \<and>
    (direct st inst \<longrightarrow> direct st' inst) \<and> (\<forall>s \<in> set ss. direct st' s \<longrightarrow> direct st' inst) \<and>
    (ch' = ch \<and> direct st' = direct st \<and> remaining m lp st' = remaining m lp st \<or>
     ch' \<and> closer (remaining m lp st') (remaining m lp st))"
proof (induction ss arbitrary: ch st)
  case (Cons s ss)
  obtain ch1 st1 where r: "relax m inst s (ch, st) = (ch1, st1)" by fastforce
  note one = relax_step [OF assms(1) Cons.prems(1) assms(2,3) _ r]
  have "s \<in> set (successors m inst)" using Cons.prems(2) by simp
  note one = one [OF this]
  have rest: "fold (relax m inst) ss (ch1, st1) = (ch', st')" using Cons.prems(3) r by simp
  note more = Cons.IH [OF _ _ rest]
  have "tables_ok m lp st1" "set ss \<subseteq> set (successors m inst)" using one Cons.prems(2) by simp_all
  note more = more [OF this]
  have "direct st' s \<longrightarrow> direct st' inst" using one more by (cases "s = inst") auto
  moreover have "ch' = ch \<and> direct st' = direct st \<and> remaining m lp st' = remaining m lp st \<or>
     ch' \<and> closer (remaining m lp st') (remaining m lp st)"
  proof (cases "ch1 = ch \<and> direct st1 = direct st \<and> remaining m lp st1 = remaining m lp st")
    case True
    then show ?thesis using more by simp
  next
    case False
    then have c: "ch1" "closer (remaining m lp st1) (remaining m lp st)" using one by blast+
    show ?thesis
    proof (cases "remaining m lp st' = remaining m lp st1")
      case True
      then show ?thesis using c more by auto
    next
      case False
      then have "ch'" "closer (remaining m lp st') (remaining m lp st1)" using more by blast+
      then show ?thesis using closer_trans [OF _ c(2)] by blast
    qed
  qed
  ultimately show ?case using one more by (metis set_ConsD)
qed simp

lemma relax_call_step:
  assumes "searchable m lp" "tables_ok m lp st" "calls_body m lp inst e"
  obtains ch st' where "relax_call m inst e st = Some (ch, st')" "tables_ok m lp st'" "cs_worklist st' = cs_worklist st"
    "\<And>x. x \<noteq> inst \<Longrightarrow> direct st' x = direct st x" "direct st inst \<Longrightarrow> direct st' inst"
    "\<And>s. s = e \<or> s \<in> set (successors m inst) \<Longrightarrow> direct st' s \<Longrightarrow> direct st' inst"
    "remaining m lp st' = remaining m lp st" "\<not> ch \<Longrightarrow> direct st' = direct st"
proof -
  have ok: "module_ok m" using assms(1) by (simp add: searchable_def)
  note ids = calls_body_ids [OF ok assms(3)]
  obtain s where s: "successors m inst = [s]" "s \<in> inst_ids m" "fn_of m s = fn_of m inst" using ids(4) by blast
  note pe = tables_okD(1) [OF assms(2) ids(2)] and ps = tables_okD(1) [OF assms(2) s(2)]
  note callee = callee_not_own [OF assms(1,3) pe]
  have none: "cs_paths st e inst = None" using callee(3) [of inst] by (cases "cs_paths st e inst") auto
  have body: "body_call m lp inst" using assms(3) by (auto simp: body_call_def)
  have rem: "remaining m lp st' = remaining m lp st"
    if d: "direct st' = (direct st)(inst := x)" and c: "cost_to st' = (cost_to st)(inst := y)" for st' x y
  proof -
    have "{z \<in> inst_ids m. \<not> body_call m lp z \<and> \<not> direct st' z} = {z \<in> inst_ids m. \<not> body_call m lp z \<and> \<not> direct st z}"
      using body d by auto
    moreover have "(\<Sum>z \<in> {z \<in> inst_ids m. \<not> body_call m lp z}. cost_cap m - cost_to st' z)
        = (\<Sum>z \<in> {z \<in> inst_ids m. \<not> body_call m lp z}. cost_cap m - cost_to st z)"
      by (rule sum.cong) (use body c in auto)
    ultimately show ?thesis by (simp only: remaining_def)
  qed
  from none s(1) show thesis
  proof (cases rule: relax_call_cases)
    case (same st')
    have t: "tables_ok m lp st'" using assms(2) same(2-4) by (simp add: tables_ok_def)
    show thesis by (rule that [OF same(1) t same(5)]) (use same(2,3,6) s(1) in \<open>auto simp: remaining_def\<close>)
  next
    case (update v p st')
    note d = tables_okD(2-5) [OF assms(2)]
    have t: "tables_ok m lp st'"
    proof (rule tables_ok_update [OF assms(2) _ _ _ _ _ update(2-4)])
      show "path_ok m lp inst p v"
        using update(6) path_ok_into [OF assms(1,3) pe] path_ok_over [OF assms(1,3) pe s(1) ps] path_ok_empty [OF ok ids(1)]
        by auto
      show "direct st e \<or> direct st s" if "direct st inst" using d(4) [OF assms(3) s(1) that] .
      show "reaches m lp inst" if "direct st e \<or> direct st s"
        using that d(1) reaches.into [OF assms(3)] reaches.over [of s m inst] s(1) by auto
      show "x = inst \<or> direct st x" if "direct st e \<or> direct st s" "0 < path_count p x" "fn_of m x = fn_of m inst" for x
      proof -
        have e: "path_count (cs_paths st e) x = 0" using that(3) callee(3) [of x] by (auto simp: path_count_def split: option.splits)
        show ?thesis using update(6) that e d(3) [OF s(2), of x] s(3) by (auto split: if_splits)
      qed
      show "direct st e' \<or> direct st s'" if "calls_body m lp inst e'" "successors m inst = [s']" "direct st e \<or> direct st s" for e' s'
        using that calls_body_unique [OF assms(3) that(1)] s(1) by simp
    qed
    show thesis
      by (rule that [OF update(1) t update(5) _ _ _ rem [OF update(2,3)]])
        (use update(2) s(1) d(4) [OF assms(3) s(1)] in \<open>auto split: if_splits\<close>)
  qed
qed

text \<open>An instruction needs no more work when its successors and the callee mark it.\<close>

definition settled :: "llvm_module \<Rightarrow> nat \<Rightarrow> (nat \<Rightarrow> bool) \<Rightarrow> nat \<Rightarrow> bool" where
  "settled m lp d i \<longleftrightarrow> (\<forall>s. s \<in> set (successors m i) \<or> calls_body m lp i s \<longrightarrow> d s \<longrightarrow> d i)"

definition feeders :: "llvm_module \<Rightarrow> nat \<Rightarrow> nat list" where
  "feeders m i = (if entry_of m (fn_of m i) = Some i then callers_of m (fn_of m i) else predecessors m i)"

lemma cost_step_ok:
  assumes "searchable m lp" "tables_ok m lp st" "inst \<in> inst_ids m"
  obtains ch st' where "cost_step m lp inst st = Some (if ch then add_work (feeders m inst) st' else st')"
    "tables_ok m lp st'" "cs_worklist st' = cs_worklist st"
    "\<And>x. x \<noteq> inst \<Longrightarrow> direct st' x = direct st x" "direct st inst \<Longrightarrow> direct st' inst" "settled m lp (direct st') inst"
    "\<not> ch \<Longrightarrow> direct st' = direct st"
    "(\<not> ch \<or> body_call m lp inst) \<and> remaining m lp st' = remaining m lp st \<or> closer (remaining m lp st') (remaining m lp st)"
proof -
  consider (loop) "kind_of m inst = Call (Some lp)" | (body) e where "calls_body m lp inst e"
    | (plain) "kind_of m inst \<noteq> Call (Some lp)" "\<not> body_call m lp inst" by (auto simp: body_call_def)
  then show thesis
  proof cases
    case loop
    then have "cost_step m lp inst st = Some st" by (simp add: cost_step_def)
    moreover have "settled m lp (direct st) inst" using tables_okD(3) [OF assms(2) loop] by (simp add: settled_def)
    ultimately show thesis using assms(2) by (intro that [of False st]) simp_all
  next
    case body
    from relax_call_step [OF assms(1,2) body] obtain ch st' where r: "relax_call m inst e st = Some (ch, st')"
      "tables_ok m lp st'" "cs_worklist st' = cs_worklist st"
      "\<And>x. x \<noteq> inst \<Longrightarrow> direct st' x = direct st x" "direct st inst \<Longrightarrow> direct st' inst"
      "\<And>s. s = e \<or> s \<in> set (successors m inst) \<Longrightarrow> direct st' s \<Longrightarrow> direct st' inst"
      "remaining m lp st' = remaining m lp st" "\<not> ch \<Longrightarrow> direct st' = direct st" by metis
    have "cost_step m lp inst st = Some (if ch then add_work (feeders m inst) st' else st')"
      using body r(1) by (auto simp: cost_step_def feeders_def elim!: calls_bodyE)
    moreover have "settled m lp (direct st') inst" using r(6) calls_body_unique [OF body] by (auto simp: settled_def)
    moreover have "body_call m lp inst" using body by (auto simp: body_call_def)
    ultimately show thesis using r by (intro that [of ch st']) simp_all
  next
    case plain
    obtain ch st' where r: "fold (relax m inst) (successors m inst) (False, st) = (ch, st')" by fastforce
    note f = relax_fold [OF assms(1,3) plain(2) assms(2) order_refl r]
    have "cost_step m lp inst st = Some (if ch then add_work (feeders m inst) st' else st')"
      using plain r by (auto simp: cost_step_def feeders_def body_call_def calls_body_def split: inst_kind.splits option.splits)
    moreover have "settled m lp (direct st') inst" using f plain(2) by (auto simp: settled_def body_call_def)
    ultimately show thesis using f by (intro that [of ch st']) blast+
  qed
qed

lemma set_add_work [simp]: "set (cs_worklist (add_work is st)) = set is \<union> set (cs_worklist st)"
proof -
  have "set (fold insort_insert is ws) = set is \<union> set ws" for ws :: "nat list"
    by (induction "is" arbitrary: ws) (auto simp: set_insort_insert)
  then show ?thesis by (simp add: add_work_def)
qed

lemma distinct_add_work: "distinct (cs_worklist st) \<Longrightarrow> distinct (cs_worklist (add_work is st))"
proof -
  have "distinct ws \<Longrightarrow> distinct (fold insort_insert is ws)" for ws :: "nat list"
    by (induction "is" arbitrary: ws) (auto simp: distinct_insort_insert)
  then show "distinct (cs_worklist st) \<Longrightarrow> distinct (cs_worklist (add_work is st))" by (simp add: add_work_def)
qed

lemma add_work_tables [simp]: "direct (add_work is st) = direct st" "cost_to (add_work is st) = cost_to st"
    "cs_paths (add_work is st) = cs_paths st" "tables_ok m lp (add_work is st) = tables_ok m lp st"
    "remaining m lp (add_work is st) = remaining m lp st"
proof -
  show d: "direct (add_work is st) = direct st" and c: "cost_to (add_work is st) = cost_to st"
    and p: "cs_paths (add_work is st) = cs_paths st"
    by (simp_all add: add_work_def direct_def cost_to_def fun_eq_iff)
  show "tables_ok m lp (add_work is st) = tables_ok m lp st" "remaining m lp (add_work is st) = remaining m lp st"
    by (simp_all add: tables_ok_def remaining_def d c p)
qed

section \<open>The worklist runs empty\<close>

text \<open>
  A change at a call of a body is passed on only to instructions with a smaller height: earlier
  in the block, in functions of larger rank, or not calls of a body.
\<close>

definition height :: "llvm_module \<Rightarrow> nat \<Rightarrow> nat \<Rightarrow> nat" where
  "height m lp i =
     (if body_call m lp i
      then (length m - call_rank m lp (fn_of m i)) * Suc (length (module_instrs m)) + Suc (inst_pos m i) else 0)"

definition work_weight :: "llvm_module \<Rightarrow> nat \<Rightarrow> nat list \<Rightarrow> nat" where
  "work_weight m lp ws = (\<Sum>x \<in> set ws. Suc (card (inst_ids m)) ^ height m lp x)"

definition state_ok :: "llvm_module \<Rightarrow> nat \<Rightarrow> cost_state \<Rightarrow> bool" where
  "state_ok m lp st \<longleftrightarrow> tables_ok m lp st \<and> distinct (cs_worklist st) \<and> set (cs_worklist st) \<subseteq> inst_ids m \<and>
     (\<forall>i \<in> inst_ids m. i \<notin> set (cs_worklist st) \<longrightarrow> settled m lp (direct st) i)"

lemma set_feeders:
  assumes "module_ok m"
  shows "set (feeders m i) \<subseteq> inst_ids m" and "s \<in> set (successors m p) \<or> calls_body m lp p s \<Longrightarrow> p \<in> set (feeders m s)"
proof -
  show "set (feeders m i) \<subseteq> inst_ids m"
    using kind_of_in [of m] edge_ids(1) [OF assms] by (auto simp: feeders_def set_callers [OF assms] set_predecessors)
  assume sp: "s \<in> set (successors m p) \<or> calls_body m lp p s"
  show "p \<in> set (feeders m s)"
  proof (cases "s \<in> set (successors m p)")
    case True
    then have "p \<in> set (predecessors m s)" by (simp add: set_successors set_predecessors)
    moreover from this have "entry_of m (fn_of m s) \<noteq> Some s" using entry_facts(3) [OF assms] by fastforce
    ultimately show ?thesis by (simp add: feeders_def)
  next
    case False
    then obtain f where "kind_of m p = Call (Some f)" "entry_of m f = Some s" using sp by (auto elim: calls_bodyE)
    then show ?thesis using entry_facts(2) [OF assms, of f s] by (simp add: feeders_def set_callers [OF assms])
  qed
qed

lemma height_feeders:
  assumes "searchable m lp" "body_call m lp i" "p \<in> set (feeders m i)"
  shows "height m lp p < height m lp i"
proof (cases "body_call m lp p")
  case True
  have ok: "module_ok m" using assms(1) by (simp add: searchable_def)
  obtain e where e: "calls_body m lp p e" using True by (auto simp: body_call_def)
  show ?thesis
  proof (cases "entry_of m (fn_of m i) = Some i")
    case entry: True
    have "kind_of m p = Call (Some (fn_of m i))" using assms(3) entry by (simp add: feeders_def set_callers [OF ok])
    then have "calls_body m lp p i" using e entry by (auto simp: calls_body_def)
    then have less: "call_rank m lp (fn_of m i) < call_rank m lp (fn_of m p)" by (rule call_rank_less [OF assms(1)])
    then have "length m - call_rank m lp (fn_of m p) < length m - call_rank m lp (fn_of m i)"
      using call_rank_le [OF ok, of lp "fn_of m p"] by simp
    then have "Suc (length m - call_rank m lp (fn_of m p)) * Suc (length (module_instrs m))
        \<le> (length m - call_rank m lp (fn_of m i)) * Suc (length (module_instrs m))" by (intro mult_le_mono) simp_all
    then show ?thesis
      using inst_pos_less [OF ok calls_body_ids(1) [OF ok e]] True assms(2) by (simp add: height_def)
  next
    case False
    then have edge: "(p, i) \<in> set (module_edges m)" using assms(3) by (simp add: feeders_def set_predecessors)
    obtain s where s: "successors m p = [s]" "inst_pos m s = Suc (inst_pos m p)" using calls_body_ids(4) [OF ok e] by blast
    then have "s = i" using edge set_successors [of m p] by auto
    then show ?thesis using True assms(2) s(2) edge_ids(3) [OF ok edge] by (simp add: height_def)
  qed
qed (use assms(2) in \<open>simp add: height_def\<close>)

lemma work_weight_feeders:
  assumes "searchable m lp" "body_call m lp i" "set ws \<subseteq> set (feeders m i) \<union> set rest"
  shows "work_weight m lp ws < Suc (card (inst_ids m)) ^ height m lp i + work_weight m lp rest"
proof -
  let ?n = "card (inst_ids m)" and ?w = "\<lambda>x. Suc (card (inst_ids m)) ^ height m lp x"
  have ok: "module_ok m" using assms(1) by (simp add: searchable_def)
  have "sum ?w (set ws) \<le> sum ?w (set (feeders m i) \<union> set rest)" using assms(3) by (intro sum_mono2) simp_all
  also have "\<dots> \<le> sum ?w (set (feeders m i)) + sum ?w (set rest)" by (simp add: sum_Un_nat)
  finally have 1: "work_weight m lp ws \<le> sum ?w (set (feeders m i)) + work_weight m lp rest" by (simp add: work_weight_def)
  obtain h where h: "height m lp i = Suc h" using assms(2) by (cases "height m lp i") (simp_all add: height_def)
  have "?w x \<le> Suc ?n ^ h" if "x \<in> set (feeders m i)" for x
    using height_feeders [OF assms(1,2) that] h by (intro power_increasing) simp_all
  then have "sum ?w (set (feeders m i)) \<le> card (set (feeders m i)) * Suc ?n ^ h"
    using sum_bounded_above [of "set (feeders m i)" ?w] by simp
  also have "\<dots> \<le> ?n * Suc ?n ^ h" using card_mono [OF _ set_feeders(1) [OF ok]] by (intro mult_le_mono) simp_all
  also have "\<dots> < ?w i" unfolding h by (simp del: One_nat_def)
  finally show ?thesis using 1 by simp
qed

abbreviation loop_measure :: "llvm_module \<Rightarrow> nat \<Rightarrow> cost_state \<Rightarrow> (nat \<times> nat) \<times> nat" where
  "loop_measure m lp st \<equiv> (remaining m lp st, work_weight m lp (cs_worklist st))"

lemma worklist_tables [simp]: "direct (st\<lparr>cs_worklist := ws\<rparr>) = direct st" "cost_to (st\<lparr>cs_worklist := ws\<rparr>) = cost_to st"
    "tables_ok m lp (st\<lparr>cs_worklist := ws\<rparr>) = tables_ok m lp st" "remaining m lp (st\<lparr>cs_worklist := ws\<rparr>) = remaining m lp st"
proof -
  show d: "direct (st\<lparr>cs_worklist := ws\<rparr>) = direct st" and c: "cost_to (st\<lparr>cs_worklist := ws\<rparr>) = cost_to st"
    by (simp_all add: direct_def cost_to_def fun_eq_iff)
  show "tables_ok m lp (st\<lparr>cs_worklist := ws\<rparr>) = tables_ok m lp st" "remaining m lp (st\<lparr>cs_worklist := ws\<rparr>) = remaining m lp st"
    by (simp_all add: tables_ok_def remaining_def d c)
qed

lemma settled_keep:
  assumes "\<And>x. x \<noteq> inst \<Longrightarrow> d' x = d x" "i \<noteq> inst" "settled m lp d i"
    and "inst \<in> set (successors m i) \<or> calls_body m lp i inst \<Longrightarrow> d' inst = d inst"
  shows "settled m lp d' i"
  unfolding settled_def
proof (intro allI impI)
  fix s assume s: "s \<in> set (successors m i) \<or> calls_body m lp i s" "d' s"
  have "d' i = d i" using assms(1,2) by simp
  moreover have "d' s = d s" using assms(1) [of s] assms(4) s(1) by (cases "s = inst") auto
  ultimately show "d' i" using assms(3) s unfolding settled_def by auto
qed

lemma loop_step_ok:
  assumes "searchable m lp" "state_ok m lp st" "cs_worklist st = inst # rest"
  obtains st' where "cost_step m lp inst (st\<lparr>cs_worklist := rest\<rparr>) = Some st'" "state_ok m lp st'"
    "(loop_measure m lp st', loop_measure m lp st) \<in> (less_than <*lex*> less_than) <*lex*> less_than"
proof -
  have ok: "module_ok m" using assms(1) by (simp add: searchable_def)
  let ?st = "st\<lparr>cs_worklist := rest\<rparr>"
  have t: "tables_ok m lp ?st" "direct ?st = direct st" "remaining m lp ?st = remaining m lp st"
    using assms(2) by (simp_all add: state_ok_def)
  have w: "inst \<in> inst_ids m" "inst \<notin> set rest" "distinct rest" "set rest \<subseteq> inst_ids m"
    using assms(2,3) by (auto simp: state_ok_def)
  have old: "settled m lp (direct st) i" if "i \<in> inst_ids m" "i \<noteq> inst" "i \<notin> set rest" for i
    using assms(2,3) that by (simp add: state_ok_def)
  obtain ch st' where step: "cost_step m lp inst ?st = Some (if ch then add_work (feeders m inst) st' else st')"
    "tables_ok m lp st'" "cs_worklist st' = cs_worklist ?st"
    "\<And>x. x \<noteq> inst \<Longrightarrow> direct st' x = direct ?st x" "direct ?st inst \<Longrightarrow> direct st' inst" "settled m lp (direct st') inst"
    "\<not> ch \<Longrightarrow> direct st' = direct ?st"
    "(\<not> ch \<or> body_call m lp inst) \<and> remaining m lp st' = remaining m lp ?st \<or> closer (remaining m lp st') (remaining m lp ?st)"
    by (rule cost_step_ok [OF assms(1) t(1) w(1)]) (rule that; blast)
  have r3: "cs_worklist st' = rest" using step(3) by simp
  note r = step(1,2) r3 step(4,6,7,8) [unfolded t]
  let ?st' = "if ch then add_work (feeders m inst) st' else st'"
  have sw: "set (cs_worklist ?st') = (if ch then set (feeders m inst) else {}) \<union> set rest" using r(3) by simp
  have "settled m lp (direct st') i" if i: "i \<in> inst_ids m" "i \<notin> set (cs_worklist ?st')" for i
  proof (cases "i = inst")
    case False
    show ?thesis
    proof (rule settled_keep [OF r(4) False])
      show "settled m lp (direct st) i" using old i False sw by simp
      show "direct st' inst = direct st inst" if "inst \<in> set (successors m i) \<or> calls_body m lp i inst"
        using set_feeders(2) [OF ok that] i(2) r(6) sw by (cases ch) auto
    qed simp
  qed (use r(5) in simp)
  then have good: "state_ok m lp ?st'"
    using r(2,3) w sw set_feeders(1) [OF ok] distinct_add_work [of st' "feeders m inst"] by (simp add: state_ok_def)
  have weight: "work_weight m lp (cs_worklist st) = Suc (card (inst_ids m)) ^ height m lp inst + work_weight m lp rest"
    using w(2) by (simp add: work_weight_def assms(3))
  have "(loop_measure m lp ?st', loop_measure m lp st) \<in> (less_than <*lex*> less_than) <*lex*> less_than"
  proof (cases "closer (remaining m lp st') (remaining m lp st)")
    case True
    then show ?thesis by simp
  next
    case False
    then have c: "\<not> ch \<or> body_call m lp inst" "remaining m lp st' = remaining m lp st" using r(7) by blast+
    have "work_weight m lp (cs_worklist ?st') < work_weight m lp (cs_worklist st)"
    proof (cases ch)
      case True
      then show ?thesis using c(1) sw unfolding weight by (intro work_weight_feeders [OF assms(1)]) simp_all
    next
      case False
      then show ?thesis using r(3) weight by simp
    qed
    then show ?thesis using c(2) by simp
  qed
  then show thesis using r(1) good by (intro that)
qed

lemma cost_loop_ok:
  assumes "searchable m lp" "state_ok m lp st"
  shows "\<exists>st'. cost_loop m lp st = Some (Some st') \<and> state_ok m lp st' \<and> cs_worklist st' = []"
proof -
  have "wf (inv_image ((less_than <*lex*> less_than) <*lex*> less_than) (loop_measure m lp))"
    by (intro wf_inv_image wf_lex_prod wf_less_than)
  then show ?thesis using assms(2)
  proof (induction st rule: wf_induct_rule)
    case (less st)
    show ?case
    proof (cases "cs_worklist st")
      case Nil
      then show ?thesis using less.prems by (subst cost_loop.simps) simp
    next
      case (Cons inst rest)
      obtain st' where st': "cost_step m lp inst (st\<lparr>cs_worklist := rest\<rparr>) = Some st'" "state_ok m lp st'"
        "(loop_measure m lp st', loop_measure m lp st) \<in> (less_than <*lex*> less_than) <*lex*> less_than"
        by (rule loop_step_ok [OF assms(1) less.prems Cons])
      then have "cost_loop m lp st = cost_loop m lp st'" using Cons by (subst cost_loop.simps) simp
      then show ?thesis using less.IH [of st'] st' by (simp add: in_inv_image)
    qed
  qed
qed

section \<open>The starting tables\<close>

lemma start_cost_effect:
  fixes b :: bool and st :: cost_state
  assumes "module_ok m" "i \<in> inst_ids m"
  defines "st' \<equiv> start_cost m b i st"
  shows "direct st' = (direct st)(i := b)" "cost_to st' = (cost_to st)(i := 1)" "cs_paths st' = (cs_paths st)(i := (cs_paths st i)(i \<mapsto> 1))"
    and "set (cs_worklist st) \<union> set (feeders m i) \<subseteq> set (cs_worklist st')"
    and "set (cs_worklist st') \<subseteq> set (cs_worklist st) \<union> inst_ids m"
    and "distinct (cs_worklist st) \<Longrightarrow> distinct (cs_worklist st')"
proof -
  let ?st = "st\<lparr>cs_costs := (cs_costs st)(i \<mapsto> (b, 1)), cs_paths := (cs_paths st)(i := (cs_paths st i)(i \<mapsto> 1))\<rparr>"
  have d: "direct ?st = (direct st)(i := b)" "cost_to ?st = (cost_to st)(i := 1)"
    using direct_set [of ?st st i] cost_to_set [of ?st st i] by simp_all
  show "direct st' = (direct st)(i := b)" "cost_to st' = (cost_to st)(i := 1)" "cs_paths st' = (cs_paths st)(i := (cs_paths st i)(i \<mapsto> 1))"
    by (simp_all add: st'_def start_cost_def Let_def d)
  show "set (cs_worklist st) \<union> set (feeders m i) \<subseteq> set (cs_worklist st')"
    by (auto simp: st'_def start_cost_def Let_def feeders_def)
  show "set (cs_worklist st') \<subseteq> set (cs_worklist st) \<union> inst_ids m"
    using kind_of_in [of m] edge_ids(1) [OF assms(1)]
    by (auto simp: st'_def start_cost_def Let_def set_callers [OF assms(1)] set_predecessors split: if_splits)
  show "distinct (cs_worklist st) \<Longrightarrow> distinct (cs_worklist st')"
    by (simp add: st'_def start_cost_def Let_def distinct_add_work)
qed

lemma start_fold:
  assumes "module_ok m"
  shows "set is \<subseteq> inst_ids m \<Longrightarrow>
    direct (fold (start_cost m b) is st) = (\<lambda>i. if i \<in> set is then b else direct st i) \<and>
    cost_to (fold (start_cost m b) is st) = (\<lambda>i. if i \<in> set is then 1 else cost_to st i) \<and>
    cs_paths (fold (start_cost m b) is st) = (\<lambda>i. if i \<in> set is then (cs_paths st i)(i \<mapsto> 1) else cs_paths st i) \<and>
    set (cs_worklist st) \<union> (\<Union>i \<in> set is. set (feeders m i)) \<subseteq> set (cs_worklist (fold (start_cost m b) is st)) \<and>
    set (cs_worklist (fold (start_cost m b) is st)) \<subseteq> set (cs_worklist st) \<union> inst_ids m \<and>
    (distinct (cs_worklist st) \<longrightarrow> distinct (cs_worklist (fold (start_cost m b) is st)))"
proof (induction "is" arbitrary: st)
  case (Cons i "is")
  have i: "i \<in> inst_ids m" "set is \<subseteq> inst_ids m" using Cons.prems by simp_all
  note e = start_cost_effect [OF assms i(1), where b = b and st = st]
  note ih = Cons.IH [OF i(2), of "start_cost m b i st", unfolded e(1-3)]
  have "set (cs_worklist st) \<union> (\<Union>i \<in> set (i # is). set (feeders m i)) \<subseteq> set (cs_worklist (fold (start_cost m b) (i # is) st))"
    using ih e(4) by auto
  moreover have "set (cs_worklist (fold (start_cost m b) (i # is) st)) \<subseteq> set (cs_worklist st) \<union> inst_ids m"
    using ih e(5) by auto
  moreover have "distinct (cs_worklist st) \<longrightarrow> distinct (cs_worklist (fold (start_cost m b) (i # is) st))"
    using ih e(6) by simp
  ultimately show ?case using ih by (auto simp: fun_eq_iff)
qed simp

lemma init_costs_ok:
  assumes "searchable m lp"
  shows "state_ok m lp (init_costs m lp)"
proof -
  have ok: "module_ok m" using assms by (simp add: searchable_def)
  let ?exits = "filter (\<lambda>i. successors m i = []) (map fst (module_instrs m))"
  let ?st = "init_costs m lp"
  have ids: "set ?exits \<subseteq> inst_ids m" "set (callers_of m lp) \<subseteq> inst_ids m"
    using kind_of_in [of m] by (auto simp: inst_ids_def set_callers [OF ok])
  let ?none = "\<lparr>cs_costs = Map.empty, cs_successorCosts = Map.empty, cs_paths = (\<lambda>_. Map.empty), cs_worklist = []\<rparr>"
  have st0: "direct ?none = (\<lambda>_. False)" "cost_to ?none = (\<lambda>_. 0)" "cs_paths ?none = (\<lambda>_. Map.empty)"
    by (simp_all add: direct_def cost_to_def fun_eq_iff)
  define st1 where "st1 = fold (start_cost m False) ?exits ?none"
  have init: "?st = fold (start_cost m True) (callers_of m lp) st1" by (simp add: init_costs_def st1_def)
  note one = start_fold [OF ok ids(1), of False ?none, folded st1_def, unfolded st0]
  note two = start_fold [OF ok ids(2), of True st1, folded init, unfolded set_callers [OF ok]]
  let ?start = "\<lambda>i. i \<in> set ?exits \<or> kind_of m i = Call (Some lp)"
  have st1: "direct st1 = (\<lambda>_. False)" "cost_to st1 = (\<lambda>i. if i \<in> set ?exits then 1 else 0)"
      "cs_paths st1 = (\<lambda>i. if i \<in> set ?exits then [i \<mapsto> 1] else Map.empty)"
      "set (cs_worklist st1) \<subseteq> inst_ids m" "distinct (cs_worklist st1)"
    using one by simp_all
  have d: "direct ?st = (\<lambda>i. kind_of m i = Call (Some lp))" using two st1(1) by simp
  have c: "cost_to ?st = (\<lambda>i. if ?start i then 1 else 0)" using two st1(2) by (simp only: fun_eq_iff mem_Collect_eq) simp
  have p: "cs_paths ?st = (\<lambda>i. if ?start i then [i \<mapsto> 1] else Map.empty)"
    using two st1(3) by (simp only: fun_eq_iff mem_Collect_eq) simp
  have w: "set (cs_worklist ?st) \<subseteq> inst_ids m" "distinct (cs_worklist ?st)"
      "\<And>i s. kind_of m s = Call (Some lp) \<Longrightarrow> i \<in> set (feeders m s) \<Longrightarrow> i \<in> set (cs_worklist ?st)"
    using two st1(4,5) by auto
  have nb: "\<not> body_call m lp i" if "?start i" for i
    using that calls_body_ids(4) [OF ok] by (force simp: body_call_def elim: calls_bodyE)
  have "tables_ok m lp ?st" unfolding tables_ok_def d c p
  proof (intro conjI allI impI ballI)
    show "path_ok m lp i (if ?start i then [i \<mapsto> 1] else Map.empty) (if ?start i then 1 else 0)" if "i \<in> inst_ids m" for i
    proof (cases "?start i")
      case True
      show ?thesis unfolding if_P [OF True] by (rule path_ok_start [OF ok that nb [OF True]])
    next
      case False
      show ?thesis unfolding if_not_P [OF False] by (rule path_ok_empty [OF ok that])
    qed
    show "kind_of m e = Call (Some lp) \<or> kind_of m s = Call (Some lp)" if "calls_body m lp i e" "kind_of m i = Call (Some lp)" for i e s
      using that by (auto elim: calls_bodyE)
  qed (auto intro: reaches.loop simp: path_count_def split: if_splits)
  moreover have "settled m lp (direct ?st) i" if "i \<notin> set (cs_worklist ?st)" for i
    using that w(3) set_feeders(2) [OF ok] unfolding settled_def d by blast
  ultimately show ?thesis using w(1,2) by (simp add: state_ok_def)
qed

section \<open>The directed search\<close>

lemma settled_reaches:
  assumes "state_ok m lp st" "cs_worklist st = []" "module_ok m"
  shows "direct st i \<longleftrightarrow> reaches m lp i"
proof
  have t: "tables_ok m lp st" and all: "\<And>i. i \<in> inst_ids m \<Longrightarrow> settled m lp (direct st) i"
    using assms(1,2) by (simp_all add: state_ok_def)
  show "reaches m lp i" if "direct st i" by (rule tables_okD(2) [OF t that])
  show "direct st i" if "reaches m lp i" using that
  proof induction
    case (loop i)
    then show ?case by (rule tables_okD(3) [OF t])
  next
    case (over s i)
    then have "i \<in> inst_ids m" using edge_ids(1) [OF assms(3)] by (simp add: set_successors)
    then show ?case using all over by (auto simp: settled_def)
  next
    case (into i e)
    then show ?case using all calls_body_ids(1) [OF assms(3)] by (auto simp: settled_def)
  qed
qed

text \<open>
  C13: in a well-formed module without recursion the constructor of the CASTAN searcher returns:
  the worklist runs empty and no assertion fails. An instruction is then marked as being on a direct
  path exactly when control flow, over calls or into called functions, leads from it to a call of
  \<open>castan_loop\<close>, and a state at such an instruction always has a priority.
\<close>

theorem cost_map_total_exact:
  assumes "searchable m lp"
  shows "\<exists>s. new_castan_searcher m (Some lp) = Some (Some s) \<and> queue s = [] \<and>
    (\<forall>i. fst (cost_of (cost_tables s) i) \<longleftrightarrow> reaches m lp i) \<and>
    (\<forall>es. reaches m lp (pc_inst es) \<longrightarrow> getPriority (cost_tables s) es \<noteq> None)"
proof -
  have ok: "module_ok m" using assms by (simp add: searchable_def)
  obtain st where st: "cost_loop m lp (init_costs m lp) = Some (Some st)" "state_ok m lp st" "cs_worklist st = []"
    using cost_loop_ok [OF assms init_costs_ok [OF assms]] by blast
  define cm where "cm = \<lparr>costs = (\<lambda>i. map_option (\<lambda>c. (fst c, of_nat (snd c))) (cs_costs st i)),
                successorCosts = (\<lambda>i. map_option of_nat (cs_successorCosts st i))\<rparr>"
  have new: "new_castan_searcher m (Some lp) = Some (Some \<lparr>queue = [], cost_tables = cm\<rparr>)"
    by (simp add: new_castan_searcher_def st(1) cm_def)
  have d: "fst (cost_of cm i) \<longleftrightarrow> reaches m lp i" for i
    unfolding settled_reaches [OF st(2,3) ok, symmetric] by (simp add: cost_of_def cm_def direct_def split: option.splits)
  have "getPriority cm es \<noteq> None" if "reaches m lp (pc_inst es)" for es
    using d [of "pc_inst es"] that by (auto simp: getPriority_def cost_of_def Let_def split: option.splits)
  then show ?thesis using new d by simp
qed

definition sample_module :: llvm_module where
  "sample_module =
     [[\<lparr>instrs = [(10, Plain), (11, Call (Some 1)), (12, Plain)], targets = [1, 2]\<rparr>,
       \<lparr>instrs = [(20, Call (Some 2)), (21, Load_Store), (22, Plain)], targets = [1]\<rparr>,
       \<lparr>instrs = [(40, Plain)], targets = []\<rparr>],
      [\<lparr>instrs = [(30, Load_Store), (31, Call None), (32, Plain)], targets = []\<rparr>],
      []]"

lemma sample_searchable: "searchable sample_module 2"
proof -
  have calls: "f = 2 \<or> i = 11 \<and> f = 1" if "(i, Call (Some f)) \<in> set (module_instrs sample_module)" for i f
    using that by (auto simp: sample_module_def module_instrs_def fn_instrs_def)
  have entry: "entry_of sample_module 1 = Some 30" by (simp add: entry_of_def sample_module_def)
  have "i = 11 \<and> e = 30" if body: "calls_body sample_module 2 i e" for i e
  proof -
    obtain f where f: "kind_of sample_module i = Call (Some f)" "f \<noteq> 2" "entry_of sample_module f = Some e"
      by (rule calls_bodyE [OF body])
    then show ?thesis using calls [OF kind_of_call [OF f(1)]] entry by simp
  qed
  then have "call_edges sample_module 2 \<subseteq> {(fn_of sample_module 11, fn_of sample_module 30)}"
    by (fastforce simp: call_edges_def)
  moreover have "fn_of sample_module 11 = 0" "fn_of sample_module 30 = 1"
    by (simp_all add: sample_module_def fn_of_def fn_instrs_def)
  ultimately have "call_edges sample_module 2 \<subseteq> less_than" by auto
  then have "acyclic (call_edges sample_module 2)" using wf_acyclic [OF wf_less_than] acyclic_subset by blast
  moreover have "module_ok sample_module"
    by (simp add: sample_module_def module_ok_def module_instrs_def fn_instrs_def is_call_def)
  ultimately show ?thesis by (simp add: searchable_def)
qed

theorem cost_map_total_exact_witness:
  "\<exists>s. new_castan_searcher sample_module (Some 2) = Some (Some s) \<and> queue s = [] \<and>
    fst (cost_of (cost_tables s) 10) \<and> \<not> fst (cost_of (cost_tables s) 40)"
proof -
  have succ: "successors sample_module 40 = []" "set (successors sample_module 12) = {20, 40}"
      "set (successors sample_module 11) = {12}" "set (successors sample_module 10) = {11}"
    and kind: "kind_of sample_module 20 = Call (Some 2)" "kind_of sample_module 40 = Plain" by code_simp+
  have "reaches sample_module 2 20" using kind(1) by (rule reaches.loop)
  then have "reaches sample_module 2 12" by (rule reaches.over [rotated]) (simp add: succ)
  then have "reaches sample_module 2 11" by (rule reaches.over [rotated]) (simp add: succ)
  then have "reaches sample_module 2 10" by (rule reaches.over [rotated]) (simp add: succ)
  moreover have "\<not> reaches sample_module 2 40"
    using succ(1) kind(2) by (auto simp: calls_body_def elim: reaches.cases)
  ultimately show ?thesis using cost_map_total_exact [OF sample_searchable] by blast
qed

end
