(* ===== verification/Klee_Expr.thy ===== *)
theory Klee_Expr
  imports Castan_Prelude "HOL-Library.Signed_Division"
begin

text \<open>
  The expressions of the symbolic executor: \<open>src/include/klee/Expr.h\<close> and the smart
  constructors \<open>create\<close> of \<open>src/lib/Expr/Expr.cpp\<close>, which fold constants and rewrite to a
  canonical form while an expression is built. An expression has a width in bits; the value of
  a constant is an integer between 0 and two to the power of its width, as in \<open>llvm::APInt\<close>.
  References compare their expressions structurally, so equality of references is equality;
  hashes and reference counts only speed it up. Widths and offsets are natural numbers.
  A failed assertion and a division of constants by zero are the result \<open>None\<close>.
\<close>

unbundle bit_operations_syntax

section \<open>Expressions\<close>

text \<open>The kinds of \<open>BinaryExpr\<close>, and arrays with the address that tells them apart.\<close>

datatype kind = Add | Sub | Mul | UDiv | SDiv | URem | SRem | And | Or | Xor | Shl | LShr | AShr
  | Eq | Ne | Ult | Ule | Ugt | Uge | Slt | Sle | Sgt | Sge

record array =
  array_ref :: nat
  array_name :: string
  array_size :: nat
  domain :: nat
  range_w :: nat
  constantValues :: "int list"

datatype expr =
    Constant nat int
  | NotOptimized expr
  | Read array update_node expr
  | Select expr expr expr
  | Concat expr expr
  | Extract expr nat nat
  | ZExt expr nat
  | SExt expr nat
  | NotExpr expr
  | Binary kind expr expr
and update_node =
    No_Update
  | Update_Node update_node expr expr

definition is_cmp :: "kind \<Rightarrow> bool" where
  "is_cmp k \<longleftrightarrow> k \<in> {Eq, Ne, Ult, Ule, Ugt, Uge, Slt, Sle, Sgt, Sge}"

definition is_div :: "kind \<Rightarrow> bool" where
  "is_div k \<longleftrightarrow> k \<in> {UDiv, SDiv, URem, SRem}"

fun getWidth :: "expr \<Rightarrow> nat" where
  "getWidth (Constant w v) = w"
| "getWidth (NotOptimized e) = getWidth e"
| "getWidth (Read arr us i) = range_w arr"
| "getWidth (Select c t f) = getWidth t"
| "getWidth (Concat l r) = getWidth l + getWidth r"
| "getWidth (Extract e off w) = w"
| "getWidth (ZExt e w) = w"
| "getWidth (SExt e w) = w"
| "getWidth (NotExpr e) = getWidth e"
| "getWidth (Binary k l r) = (if is_cmp k then 1 else getWidth l)"

text \<open>The tests \<open>dyn_cast<ConstantExpr>\<close>, and those for a sum and for a difference whose left
  operand is constant, with the parts.\<close>

definition dyn_const :: "expr \<Rightarrow> (nat \<times> int) option" where
  "dyn_const e = (case e of Constant w v \<Rightarrow> Some (w, v) | _ \<Rightarrow> None)"

definition const_sum :: "expr \<Rightarrow> (nat \<times> int \<times> expr) option" where
  "const_sum e = (case e of Binary k l r \<Rightarrow> if k = Add then map_option (\<lambda>(w, v). (w, v, r)) (dyn_const l) else None | _ \<Rightarrow> None)"

definition const_diff :: "expr \<Rightarrow> (nat \<times> int \<times> expr) option" where
  "const_diff e = (case e of Binary k l r \<Rightarrow> if k = Sub then map_option (\<lambda>(w, v). (w, v, r)) (dyn_const l) else None | _ \<Rightarrow> None)"

lemma dyn_const_Some [simp]: "dyn_const e = Some (w, v) \<longleftrightarrow> e = Constant w v"
  by (auto simp: dyn_const_def split: expr.splits)

lemma dyn_const_Constant [simp]: "dyn_const (Constant w v) = Some (w, v)"
  by simp

lemma const_sum_Some [simp]: "const_sum e = Some (w, v, r) \<longleftrightarrow> e = Binary Add (Constant w v) r"
  by (auto simp: const_sum_def split: expr.splits if_splits)

lemma const_diff_Some [simp]: "const_diff e = Some (w, v, r) \<longleftrightarrow> e = Binary Sub (Constant w v) r"
  by (auto simp: const_diff_def split: expr.splits if_splits)

section \<open>Constants\<close>

text \<open>The operations of \<open>llvm::APInt\<close> at width \<open>w\<close>; shifts by the width or more shift everything out.\<close>

definition signed_of :: "nat \<Rightarrow> int \<Rightarrow> int" where
  "signed_of w a = signed_take_bit (w - 1) a"

fun apint_op :: "kind \<Rightarrow> nat \<Rightarrow> int \<Rightarrow> int \<Rightarrow> int" where
  "apint_op Add w a b = take_bit w (a + b)"
| "apint_op Sub w a b = take_bit w (a - b)"
| "apint_op Mul w a b = take_bit w (a * b)"
| "apint_op UDiv w a b = a div b"
| "apint_op SDiv w a b = take_bit w (signed_of w a sdiv signed_of w b)"
| "apint_op URem w a b = a mod b"
| "apint_op SRem w a b = take_bit w (signed_of w a smod signed_of w b)"
| "apint_op And w a b = a AND b"
| "apint_op Or w a b = a OR b"
| "apint_op Xor w a b = a XOR b"
| "apint_op Shl w a b = (if b < int w then take_bit w (push_bit (nat b) a) else 0)"
| "apint_op LShr w a b = (if b < int w then drop_bit (nat b) a else 0)"
| "apint_op AShr w a b = take_bit w (drop_bit (if b < int w then nat b else w) (signed_of w a))"
| "apint_op Eq w a b = of_bool (a = b)"
| "apint_op Ne w a b = of_bool (a \<noteq> b)"
| "apint_op Ult w a b = of_bool (a < b)"
| "apint_op Ule w a b = of_bool (a \<le> b)"
| "apint_op Ugt w a b = of_bool (a > b)"
| "apint_op Uge w a b = of_bool (a \<ge> b)"
| "apint_op Slt w a b = of_bool (signed_of w a < signed_of w b)"
| "apint_op Sle w a b = of_bool (signed_of w a \<le> signed_of w b)"
| "apint_op Sgt w a b = of_bool (signed_of w a > signed_of w b)"
| "apint_op Sge w a b = of_bool (signed_of w a \<ge> signed_of w b)"

text \<open>\<open>ConstantExpr::Add\<close> and so on.\<close>

definition ConstantExpr_op :: "kind \<Rightarrow> nat \<Rightarrow> int \<Rightarrow> int \<Rightarrow> expr option" where
  "ConstantExpr_op k w a b =
     (if is_div k \<and> b = 0 then None else Some (Constant (if is_cmp k then 1 else w) (apint_op k w a b)))"

definition ConstantExpr_Concat :: "nat \<Rightarrow> int \<Rightarrow> nat \<Rightarrow> int \<Rightarrow> expr" where
  "ConstantExpr_Concat w a w' b = Constant (w + w') (take_bit (w + w') (push_bit w' (take_bit (w + w') a)) OR take_bit (w + w') b)"

definition ConstantExpr_Extract :: "nat \<Rightarrow> int \<Rightarrow> nat \<Rightarrow> nat \<Rightarrow> expr" where
  "ConstantExpr_Extract w a off w' = Constant w' (take_bit w' (take_bit w (drop_bit off (signed_of w a))))"

definition ConstantExpr_ZExt :: "nat \<Rightarrow> int \<Rightarrow> nat \<Rightarrow> expr" where
  "ConstantExpr_ZExt w a w' = Constant w' (take_bit w' a)"

definition ConstantExpr_SExt :: "nat \<Rightarrow> int \<Rightarrow> nat \<Rightarrow> expr" where
  "ConstantExpr_SExt w a w' = Constant w' (take_bit w' (signed_of w a))"

definition ConstantExpr_Not :: "nat \<Rightarrow> int \<Rightarrow> expr" where
  "ConstantExpr_Not w a = Constant w (take_bit w (NOT a))"

definition ConstantExpr_alloc :: "int \<Rightarrow> nat \<Rightarrow> expr" where
  "ConstantExpr_alloc v w = Constant w (take_bit w v)"

text \<open>\<open>ConstantExpr::create\<close>; its check shifts by 64 minus the width.\<close>

definition ConstantExpr_create :: "int \<Rightarrow> nat \<Rightarrow> expr option" where
  "ConstantExpr_create v w = (if 0 < w \<and> w \<le> 64 \<and> take_bit w v = v then Some (Constant w v) else None)"

definition isAllOnes :: "nat \<Rightarrow> int \<Rightarrow> bool" where
  "isAllOnes w v \<longleftrightarrow> v = mask w"

section \<open>Bitwise operations and equality\<close>

text \<open>The macros \<open>BCREATE_R\<close> and \<open>BCREATE\<close>.\<close>

definition bcreate_r ::
  "kind \<Rightarrow> (nat \<Rightarrow> int \<Rightarrow> expr \<Rightarrow> expr option) \<Rightarrow> (expr \<Rightarrow> nat \<Rightarrow> int \<Rightarrow> expr option) \<Rightarrow> (expr \<Rightarrow> expr \<Rightarrow> expr option)
   \<Rightarrow> expr \<Rightarrow> expr \<Rightarrow> expr option" where
  "bcreate_r k createPartialR createPartial create l r =
     (if getWidth l \<noteq> getWidth r then None
      else case dyn_const l of
          Some (w, a) \<Rightarrow> (case dyn_const r of Some (w', b) \<Rightarrow> ConstantExpr_op k w a b | None \<Rightarrow> createPartialR w a r)
        | None \<Rightarrow> (case dyn_const r of Some (w', b) \<Rightarrow> createPartial l w' b | None \<Rightarrow> create l r))"

definition bcreate :: "kind \<Rightarrow> (expr \<Rightarrow> expr \<Rightarrow> expr option) \<Rightarrow> expr \<Rightarrow> expr \<Rightarrow> expr option" where
  "bcreate k create l r =
     (if getWidth l \<noteq> getWidth r then None
      else case dyn_const l of
          Some (w, a) \<Rightarrow> (case dyn_const r of Some (w', b) \<Rightarrow> ConstantExpr_op k w a b | None \<Rightarrow> create l r)
        | None \<Rightarrow> create l r)"

definition AndExpr_createPartial :: "expr \<Rightarrow> nat \<Rightarrow> int \<Rightarrow> expr option" where
  "AndExpr_createPartial l w v =
     Some (if isAllOnes w v then l else if v = 0 then Constant w v else Binary And l (Constant w v))"

definition AndExpr_createPartialR :: "nat \<Rightarrow> int \<Rightarrow> expr \<Rightarrow> expr option" where
  "AndExpr_createPartialR w v r = AndExpr_createPartial r w v"

definition create_And :: "expr \<Rightarrow> expr \<Rightarrow> expr option" where
  "create_And = bcreate_r And AndExpr_createPartialR AndExpr_createPartial (\<lambda>l r. Some (Binary And l r))"

definition OrExpr_createPartial :: "expr \<Rightarrow> nat \<Rightarrow> int \<Rightarrow> expr option" where
  "OrExpr_createPartial l w v =
     Some (if isAllOnes w v then Constant w v else if v = 0 then l else Binary Or l (Constant w v))"

definition OrExpr_createPartialR :: "nat \<Rightarrow> int \<Rightarrow> expr \<Rightarrow> expr option" where
  "OrExpr_createPartialR w v r = OrExpr_createPartial r w v"

definition create_Or :: "expr \<Rightarrow> expr \<Rightarrow> expr option" where
  "create_Or = bcreate_r Or OrExpr_createPartialR OrExpr_createPartial (\<lambda>l r. Some (Binary Or l r))"

definition EqExpr_create :: "expr \<Rightarrow> expr \<Rightarrow> expr" where
  "EqExpr_create l r = (if l = r then ConstantExpr_alloc 1 1 else Binary Eq l r)"

text \<open>
  The loop of \<open>TryConstArrayOpt\<close> over the positions of a constant array that hold the constant;
  \<open>mayBe\<close> is the equality of the index with a position.
\<close>

fun const_array_or :: "(nat \<Rightarrow> expr option) \<Rightarrow> int \<Rightarrow> expr \<Rightarrow> int list \<Rightarrow> nat \<Rightarrow> nat \<Rightarrow> expr \<Rightarrow> expr option" where
  "const_array_or mayBe cl initial [] i numMatches res = Some res"
| "const_array_or mayBe cl initial (v # vs) i numMatches res =
     (if cl = v then
        (if numMatches + 1 > 100 then Some initial
         else do { e \<leftarrow> mayBe i; res \<leftarrow> create_Or res e; const_array_or mayBe cl initial vs (i + 1) (numMatches + 1) res })
      else const_array_or mayBe cl initial vs (i + 1) numMatches res)"

lemma const_array_or_cong [fundef_cong]:
  assumes "\<And>i. mayBe i = mayBe' i" "cl = cl'" "initial = initial'" "vs = vs'" "i = i'" "n = n'" "res = res'"
  shows "const_array_or mayBe cl initial vs i n res = const_array_or mayBe' cl' initial' vs' i' n' res'"
proof -
  have "mayBe = mayBe'" using assms(1) by blast
  then show ?thesis using assms by simp
qed

text \<open>
  \<open>EqExpr_createPartialR\<close> and, for its recursive calls, \<open>EqExpr::create\<close> with a constant on
  the right. The flag is the option \<open>ConstArrayOpt\<close>.
\<close>

function EqExpr_createPartialR :: "bool \<Rightarrow> nat \<Rightarrow> int \<Rightarrow> expr \<Rightarrow> expr option"
  and create_Eq_const :: "bool \<Rightarrow> expr \<Rightarrow> nat \<Rightarrow> int \<Rightarrow> expr option" where
  "EqExpr_createPartialR opt w v r =
     (if w = 1 then
        (if v \<noteq> 0 then Some r
         else case r of
             Binary k l r' \<Rightarrow>
               (if k = Eq then (if l = Constant 1 0 then Some r' else Some (EqExpr_create (Constant w v) r))
                else if k = Or then
                  do {
                    zl \<leftarrow> ConstantExpr_create 0 (getWidth l) \<bind> (\<lambda>_. create_Eq_const opt l (getWidth l) 0);
                    zr \<leftarrow> ConstantExpr_create 0 (getWidth r') \<bind> (\<lambda>_. create_Eq_const opt r' (getWidth r') 0);
                    create_And zl zr
                  }
                else Some (EqExpr_create (Constant w v) r))
           | _ \<Rightarrow> Some (EqExpr_create (Constant w v) r))
      else case r of
          SExt src w' \<Rightarrow>
            (let trunc = take_bit (getWidth src) v in
             if v = take_bit w (signed_of (getWidth src) trunc) then create_Eq_const opt src (getWidth src) trunc
             else ConstantExpr_create 0 1)
        | ZExt src w' \<Rightarrow>
            (let trunc = take_bit (getWidth src) v in
             if v = take_bit w trunc then create_Eq_const opt src (getWidth src) trunc
             else ConstantExpr_create 0 1)
        | Binary k l r' \<Rightarrow>
            (case const_sum r of
               Some (wl, a, b) \<Rightarrow> (if w \<noteq> wl then None else EqExpr_createPartialR opt w (apint_op Sub w v a) b)
             | None \<Rightarrow> (case const_diff r of
                 Some (wl, a, b) \<Rightarrow> (if w \<noteq> wl then None else EqExpr_createPartialR opt w (apint_op Sub w a v) b)
               | None \<Rightarrow> Some (EqExpr_create (Constant w v) r)))
        | Read arr us index \<Rightarrow>
            (if opt \<and> \<not> (constantValues arr = [] \<or> us \<noteq> No_Update) then
               const_array_or (\<lambda>i. create_Eq_const opt index (getWidth index) (take_bit (getWidth index) (int i))) v
                 (EqExpr_create (Constant w v) r) (constantValues arr) 0 0 (ConstantExpr_alloc 0 1)
             else Some (EqExpr_create (Constant w v) r))
        | _ \<Rightarrow> Some (EqExpr_create (Constant w v) r))"
| "create_Eq_const opt l w v =
     (if getWidth l \<noteq> w then None
      else case dyn_const l of Some (w', a) \<Rightarrow> ConstantExpr_op Eq w a v | None \<Rightarrow> EqExpr_createPartialR opt w v l)"
  by pat_completeness auto
termination
  by (relation "measure (\<lambda>x. case x of Inl (opt, w, v, r) \<Rightarrow> 2 * size r | Inr (opt, l, w, v) \<Rightarrow> 2 * size l + 1)") auto

declare EqExpr_createPartialR.simps [simp del] create_Eq_const.simps [simp del]

text \<open>\<open>EqExpr::create\<close>, by the macro \<open>CMPCREATE_T\<close>.\<close>

definition create_Eq :: "bool \<Rightarrow> expr \<Rightarrow> expr \<Rightarrow> expr option" where
  "create_Eq opt = bcreate_r Eq (EqExpr_createPartialR opt) (\<lambda>l w v. EqExpr_createPartialR opt w v l) (\<lambda>l r. Some (EqExpr_create l r))"

definition createIsZero :: "bool \<Rightarrow> expr \<Rightarrow> expr option" where
  "createIsZero opt e = ConstantExpr_create 0 (getWidth e) \<bind> (\<lambda>z. create_Eq opt e z)"

definition createImplies :: "bool \<Rightarrow> expr \<Rightarrow> expr \<Rightarrow> expr option" where
  "createImplies opt hyp conc = createIsZero opt hyp \<bind> (\<lambda>z. create_Or z conc)"

definition XorExpr_createPartialR :: "bool \<Rightarrow> nat \<Rightarrow> int \<Rightarrow> expr \<Rightarrow> expr option" where
  "XorExpr_createPartialR opt w v r =
     (if v = 0 then Some r
      else if w = 1 then EqExpr_createPartialR opt 1 0 r
      else Some (Binary Xor (Constant w v) r))"

definition create_Xor :: "bool \<Rightarrow> expr \<Rightarrow> expr \<Rightarrow> expr option" where
  "create_Xor opt = bcreate_r Xor (XorExpr_createPartialR opt) (\<lambda>l w v. XorExpr_createPartialR opt w v l) (\<lambda>l r. Some (Binary Xor l r))"

section \<open>Arithmetic\<close>

text \<open>
  Sums and differences with a constant on the left: \<open>AddExpr_createPartialR\<close>,
  \<open>SubExpr_createPartialR\<close>, and for their recursive calls the methods \<open>create\<close> with a
  constant as the left argument.
\<close>

function AddExpr_createPartialR :: "bool \<Rightarrow> nat \<Rightarrow> int \<Rightarrow> expr \<Rightarrow> expr option"
  and SubExpr_createPartialR :: "bool \<Rightarrow> nat \<Rightarrow> int \<Rightarrow> expr \<Rightarrow> expr option"
  and create_Add_const :: "bool \<Rightarrow> nat \<Rightarrow> int \<Rightarrow> expr \<Rightarrow> expr option"
  and create_Sub_const :: "bool \<Rightarrow> nat \<Rightarrow> int \<Rightarrow> expr \<Rightarrow> expr option" where
  "AddExpr_createPartialR opt w v r =
     (if w = 1 then XorExpr_createPartialR opt w v r
      else if v = 0 then Some r
      else case const_sum r of
          Some (w', b, c) \<Rightarrow> (if w \<noteq> w' then None else create_Add_const opt w (apint_op Add w v b) c)
        | None \<Rightarrow> (case const_diff r of
              Some (w', b, c) \<Rightarrow> (if w \<noteq> w' then None else create_Sub_const opt w (apint_op Add w v b) c)
            | None \<Rightarrow> Some (Binary Add (Constant w v) r)))"
| "SubExpr_createPartialR opt w v r =
     (if w = 1 then XorExpr_createPartialR opt w v r
      else case const_sum r of
          Some (w', b, c) \<Rightarrow> (if w \<noteq> w' then None else create_Sub_const opt w (apint_op Sub w v b) c)
        | None \<Rightarrow> (case const_diff r of
              Some (w', b, c) \<Rightarrow> (if w \<noteq> w' then None else create_Add_const opt w (apint_op Sub w v b) c)
            | None \<Rightarrow> Some (Binary Sub (Constant w v) r)))"
| "create_Add_const opt w v r =
     (if w \<noteq> getWidth r then None
      else case dyn_const r of Some (w', b) \<Rightarrow> ConstantExpr_op Add w v b | None \<Rightarrow> AddExpr_createPartialR opt w v r)"
| "create_Sub_const opt w v r =
     (if w \<noteq> getWidth r then None
      else case dyn_const r of Some (w', b) \<Rightarrow> ConstantExpr_op Sub w v b | None \<Rightarrow> SubExpr_createPartialR opt w v r)"
  by pat_completeness auto
termination
  by (relation "measure (\<lambda>x. case x of
        Inl (Inl (opt, w, v, r)) \<Rightarrow> 2 * size r | Inl (Inr (opt, w, v, r)) \<Rightarrow> 2 * size r
      | Inr (Inl (opt, w, v, r)) \<Rightarrow> 2 * size r + 1 | Inr (Inr (opt, w, v, r)) \<Rightarrow> 2 * size r + 1)") auto

declare AddExpr_createPartialR.simps [simp del] SubExpr_createPartialR.simps [simp del]
  create_Add_const.simps [simp del] create_Sub_const.simps [simp del]

text \<open>A constant on the right is moved to the left.\<close>

definition AddExpr_createPartial :: "bool \<Rightarrow> expr \<Rightarrow> nat \<Rightarrow> int \<Rightarrow> expr option" where
  "AddExpr_createPartial opt l w v = AddExpr_createPartialR opt w v l"

definition SubExpr_createPartial :: "bool \<Rightarrow> expr \<Rightarrow> nat \<Rightarrow> int \<Rightarrow> expr option" where
  "SubExpr_createPartial opt l w v = AddExpr_createPartial opt l w (apint_op Sub w 0 v)"

text \<open>\<open>SubExpr::create\<close> with a constant on the right, as \<open>SubExpr_create\<close> calls it.\<close>

definition create_Sub_by_const :: "bool \<Rightarrow> expr \<Rightarrow> expr \<Rightarrow> expr option" where
  "create_Sub_by_const opt l k =
     bcreate_r Sub (SubExpr_createPartialR opt) (SubExpr_createPartial opt) (\<lambda>l r. None) l k"

text \<open>
  \<open>AddExpr::create\<close>, \<open>SubExpr::create\<close> with \<open>AddExpr_create\<close>, \<open>SubExpr_create\<close> for two operands
  that are not constant: constants inside the operands are moved outwards.
\<close>

function create_Add :: "bool \<Rightarrow> expr \<Rightarrow> expr \<Rightarrow> expr option"
  and create_Sub :: "bool \<Rightarrow> expr \<Rightarrow> expr \<Rightarrow> expr option"
  and AddExpr_create :: "bool \<Rightarrow> expr \<Rightarrow> expr \<Rightarrow> expr option"
  and SubExpr_create :: "bool \<Rightarrow> expr \<Rightarrow> expr \<Rightarrow> expr option" where
  "create_Add opt l r =
     (if getWidth l \<noteq> getWidth r then None
      else case dyn_const l of
          Some (w, a) \<Rightarrow> (case dyn_const r of Some (w', b) \<Rightarrow> ConstantExpr_op Add w a b | None \<Rightarrow> AddExpr_createPartialR opt w a r)
        | None \<Rightarrow> (case dyn_const r of Some (w', b) \<Rightarrow> AddExpr_createPartial opt l w' b | None \<Rightarrow> AddExpr_create opt l r))"
| "create_Sub opt l r =
     (if getWidth l \<noteq> getWidth r then None
      else case dyn_const l of
          Some (w, a) \<Rightarrow> (case dyn_const r of Some (w', b) \<Rightarrow> ConstantExpr_op Sub w a b | None \<Rightarrow> SubExpr_createPartialR opt w a r)
        | None \<Rightarrow> (case dyn_const r of Some (w', b) \<Rightarrow> SubExpr_createPartial opt l w' b | None \<Rightarrow> SubExpr_create opt l r))"
| "AddExpr_create opt l r =
     (if getWidth l = 1 then Some (Binary Xor l r)
      else case const_sum l of
          Some (w, k, a) \<Rightarrow> create_Add opt a r \<bind> create_Add_const opt w k
        | None \<Rightarrow> (case const_diff l of
          Some (w, k, a) \<Rightarrow> create_Sub opt r a \<bind> create_Add_const opt w k
        | None \<Rightarrow> (case const_sum r of
          Some (w, k, b) \<Rightarrow> create_Add opt l b \<bind> create_Add_const opt w k
        | None \<Rightarrow> (case const_diff r of
          Some (w, k, b) \<Rightarrow> create_Sub opt l b \<bind> create_Add_const opt w k
        | None \<Rightarrow> Some (Binary Add l r)))))"
| "SubExpr_create opt l r =
     (if getWidth l = 1 then Some (Binary Xor l r)
      else if l = r then Some (ConstantExpr_alloc 0 (getWidth l))
      else case const_sum l of
          Some (w, k, a) \<Rightarrow> create_Sub opt a r \<bind> create_Add_const opt w k
        | None \<Rightarrow> (case const_diff l of
          Some (w, k, a) \<Rightarrow> create_Add opt a r \<bind> create_Sub_const opt w k
        | None \<Rightarrow> (case const_sum r of
          Some (w, k, b) \<Rightarrow> create_Sub opt l b \<bind> (\<lambda>x. create_Sub_by_const opt x (Constant w k))
        | None \<Rightarrow> (case const_diff r of
          Some (w, k, b) \<Rightarrow> create_Add opt l b \<bind> (\<lambda>x. create_Sub_by_const opt x (Constant w k))
        | None \<Rightarrow> Some (Binary Sub l r)))))"
  by pat_completeness auto
termination
  by (relation "measure (\<lambda>x. case x of
        Inl (Inl (opt, l, r)) \<Rightarrow> 2 * (size l + size r) + 1 | Inl (Inr (opt, l, r)) \<Rightarrow> 2 * (size l + size r) + 1
      | Inr (Inl (opt, l, r)) \<Rightarrow> 2 * (size l + size r) | Inr (Inr (opt, l, r)) \<Rightarrow> 2 * (size l + size r))") auto

declare create_Add.simps [simp del] create_Sub.simps [simp del] AddExpr_create.simps [simp del] SubExpr_create.simps [simp del]

definition MulExpr_createPartialR :: "nat \<Rightarrow> int \<Rightarrow> expr \<Rightarrow> expr option" where
  "MulExpr_createPartialR w v r =
     (if w = 1 then AndExpr_createPartialR w v r
      else if v = 1 then Some r
      else if v = 0 then Some (Constant w v)
      else Some (Binary Mul (Constant w v) r))"

definition MulExpr_createPartial :: "expr \<Rightarrow> nat \<Rightarrow> int \<Rightarrow> expr option" where
  "MulExpr_createPartial l w v = MulExpr_createPartialR w v l"

definition MulExpr_create :: "expr \<Rightarrow> expr \<Rightarrow> expr option" where
  "MulExpr_create l r = Some (if getWidth l = 1 then Binary And l r else Binary Mul l r)"

definition create_Mul :: "expr \<Rightarrow> expr \<Rightarrow> expr option" where
  "create_Mul = bcreate_r Mul MulExpr_createPartialR MulExpr_createPartial MulExpr_create"

text \<open>Division: of bits, the divisor must be 1.\<close>

definition DivExpr_create :: "kind \<Rightarrow> expr \<Rightarrow> expr \<Rightarrow> expr option" where
  "DivExpr_create k l r = Some (if getWidth l = 1 then l else Binary k l r)"

definition RemExpr_create :: "kind \<Rightarrow> expr \<Rightarrow> expr \<Rightarrow> expr option" where
  "RemExpr_create k l r = (if getWidth l = 1 then ConstantExpr_create 0 1 else Some (Binary k l r))"

text \<open>\<open>ShlExpr_create\<close> and \<open>LShrExpr_create\<close>; \<open>AShrExpr_create\<close>.\<close>

definition ShiftExpr_create :: "bool \<Rightarrow> kind \<Rightarrow> expr \<Rightarrow> expr \<Rightarrow> expr option" where
  "ShiftExpr_create opt k l r =
     (if getWidth l = 1 then createIsZero opt r \<bind> create_And l else Some (Binary k l r))"

definition AShrExpr_create :: "expr \<Rightarrow> expr \<Rightarrow> expr option" where
  "AShrExpr_create l r = Some (if getWidth l = 1 then l else Binary AShr l r)"

section \<open>Comparisons\<close>

definition UltExpr_create :: "bool \<Rightarrow> expr \<Rightarrow> expr \<Rightarrow> expr option" where
  "UltExpr_create opt l r =
     (if getWidth l = 1 then createIsZero opt l \<bind> (\<lambda>z. create_And z r) else Some (Binary Ult l r))"

definition UleExpr_create :: "bool \<Rightarrow> expr \<Rightarrow> expr \<Rightarrow> expr option" where
  "UleExpr_create opt l r =
     (if getWidth l = 1 then createIsZero opt l \<bind> (\<lambda>z. create_Or z r) else Some (Binary Ule l r))"

definition SltExpr_create :: "bool \<Rightarrow> expr \<Rightarrow> expr \<Rightarrow> expr option" where
  "SltExpr_create opt l r =
     (if getWidth l = 1 then createIsZero opt r \<bind> create_And l else Some (Binary Slt l r))"

definition SleExpr_create :: "bool \<Rightarrow> expr \<Rightarrow> expr \<Rightarrow> expr option" where
  "SleExpr_create opt l r =
     (if getWidth l = 1 then createIsZero opt r \<bind> create_Or l else Some (Binary Sle l r))"

text \<open>The method \<open>create\<close> of each kind.\<close>

fun create_binary :: "bool \<Rightarrow> kind \<Rightarrow> expr \<Rightarrow> expr \<Rightarrow> expr option" where
  "create_binary opt Add l r = create_Add opt l r"
| "create_binary opt Sub l r = create_Sub opt l r"
| "create_binary opt Mul l r = create_Mul l r"
| "create_binary opt UDiv l r = bcreate UDiv (DivExpr_create UDiv) l r"
| "create_binary opt SDiv l r = bcreate SDiv (DivExpr_create SDiv) l r"
| "create_binary opt URem l r = bcreate URem (RemExpr_create URem) l r"
| "create_binary opt SRem l r = bcreate SRem (RemExpr_create SRem) l r"
| "create_binary opt And l r = create_And l r"
| "create_binary opt Or l r = create_Or l r"
| "create_binary opt Xor l r = create_Xor opt l r"
| "create_binary opt Shl l r = bcreate Shl (ShiftExpr_create opt Shl) l r"
| "create_binary opt LShr l r = bcreate LShr (ShiftExpr_create opt LShr) l r"
| "create_binary opt AShr l r = bcreate AShr AShrExpr_create l r"
| "create_binary opt Eq l r = create_Eq opt l r"
| "create_binary opt Ne l r = create_Eq opt l r \<bind> (\<lambda>e. ConstantExpr_create 0 1 \<bind> (\<lambda>z. create_Eq opt z e))"
| "create_binary opt Ult l r = bcreate Ult (UltExpr_create opt) l r"
| "create_binary opt Ule l r = bcreate Ule (UleExpr_create opt) l r"
| "create_binary opt Ugt l r = bcreate Ult (UltExpr_create opt) r l"
| "create_binary opt Uge l r = bcreate Ule (UleExpr_create opt) r l"
| "create_binary opt Slt l r = bcreate Slt (SltExpr_create opt) l r"
| "create_binary opt Sle l r = bcreate Sle (SleExpr_create opt) l r"
| "create_binary opt Sgt l r = bcreate Slt (SltExpr_create opt) r l"
| "create_binary opt Sge l r = bcreate Sle (SleExpr_create opt) r l"

section \<open>Concatenation, extraction, extension\<close>

text \<open>The test for two adjacent extracts of one expression, with the extract they merge to.\<close>

definition merge_extracts :: "expr \<Rightarrow> expr \<Rightarrow> (expr \<times> nat \<times> nat) option" where
  "merge_extracts l r =
     (case l of Extract el ol wl \<Rightarrow>
        (case r of Extract er offr wr \<Rightarrow> if el = er \<and> offr + wr = ol then Some (el, offr, wl + wr) else None | _ \<Rightarrow> None)
      | _ \<Rightarrow> None)"

lemma merge_extracts_Some [simp]:
  "merge_extracts l r = Some (e, off, w) \<longleftrightarrow> (\<exists>wl wr. l = Extract e (off + wr) wl \<and> r = Extract e off wr \<and> w = wl + wr)"
  by (auto simp: merge_extracts_def split: expr.splits if_splits)

text \<open>\<open>ConcatExpr::create\<close>, with \<open>ExtractExpr::create\<close> as an argument.\<close>

definition ConcatExpr_create :: "(expr \<Rightarrow> nat \<Rightarrow> nat \<Rightarrow> expr option) \<Rightarrow> expr \<Rightarrow> expr \<Rightarrow> expr option" where
  "ConcatExpr_create extract l r =
     (if dyn_const l \<noteq> None \<and> dyn_const r \<noteq> None
      then (case (the (dyn_const l), the (dyn_const r)) of ((w, a), (w', b)) \<Rightarrow> Some (ConstantExpr_Concat w a w' b))
      else case merge_extracts l r of
          Some (e, off, w) \<Rightarrow> extract e off w
        | None \<Rightarrow> Some (Concat l r))"

lemma ConcatExpr_create_cong [fundef_cong]:
  assumes "l = l'" "r = r'" "\<And>e off w. merge_extracts l' r' = Some (e, off, w) \<Longrightarrow> extract e off w = extract' e off w"
  shows "ConcatExpr_create extract l r = ConcatExpr_create extract' l' r'"
  using assms(3) unfolding assms(1,2) ConcatExpr_create_def by (auto split: option.split)

text \<open>
  \<open>ExtractExpr::create\<close>. The width of the left part of an extract across a concatenation is
  computed there as \<open>w - y + off\<close> in wrapping arithmetic.
\<close>

function create_Extract :: "expr \<Rightarrow> nat \<Rightarrow> nat \<Rightarrow> expr option" where
  "create_Extract e off w =
     (if \<not> (0 < w \<and> off + w \<le> getWidth e) then None
      else if w = getWidth e then Some e
      else case e of
          Constant kw v \<Rightarrow> Some (ConstantExpr_Extract kw v off w)
        | Concat x y \<Rightarrow>
            (if off \<ge> getWidth y then create_Extract x (off - getWidth y) w
             else if off + w \<le> getWidth y then create_Extract y off w
             else do {
               l \<leftarrow> create_Extract x 0 (w + off - getWidth y);
               r \<leftarrow> create_Extract y off (getWidth y - off);
               ConcatExpr_create create_Extract l r
             })
        | _ \<Rightarrow> Some (Extract e off w))"
  by pat_completeness auto

text \<open>What is inside an extract that is returned is not larger than the argument, so merging ends.\<close>

definition inside :: "expr \<Rightarrow> nat" where
  "inside e = (case e of Extract x off w \<Rightarrow> size x | _ \<Rightarrow> 0)"

lemma ConcatExpr_create_inside:
  assumes "ConcatExpr_create extract l r = Some res"
    and "\<And>e off w. merge_extracts l r = Some (e, off, w) \<Longrightarrow> extract e off w = Some res \<Longrightarrow> inside res \<le> n"
  shows "inside res \<le> n"
  using assms by (auto simp: ConcatExpr_create_def ConstantExpr_Concat_def inside_def split: if_splits option.splits prod.splits)

lemma create_Extract_inside:
  "create_Extract_dom (e, off, w) \<Longrightarrow> create_Extract e off w = Some res \<Longrightarrow> inside res \<le> size e"
proof (induction arbitrary: res rule: create_Extract.pinduct)
  case (1 e off w)
  note eq = 1(7) [unfolded create_Extract.psimps [OF 1(1)]]
  have g: "\<not> \<not> (0 < w \<and> off + w \<le> getWidth e)" using eq by (auto split: if_splits)
  show ?case
  proof (cases "w \<noteq> getWidth e \<and> (\<exists>x y. e = Concat x y)")
    case False
    then show ?thesis using eq g
      by (cases e) (auto simp: inside_def ConstantExpr_Extract_def split: if_splits)
  next
    case True
    then obtain x y where e: "e = Concat x y" and w: "w \<noteq> getWidth e" by blast
    note ih = 1(2-6) [OF g w e]
    let ?body = "if off \<ge> getWidth y then create_Extract x (off - getWidth y) w
             else if off + w \<le> getWidth y then create_Extract y off w
             else do { l \<leftarrow> create_Extract x 0 (w + off - getWidth y); r \<leftarrow> create_Extract y off (getWidth y - off);
               ConcatExpr_create create_Extract l r }"
    have body: "?body = Some res" using eq g w unfolding e by simp
    consider "getWidth y \<le> off" | "\<not> getWidth y \<le> off" "off + w \<le> getWidth y"
      | l r where "\<not> getWidth y \<le> off" "\<not> off + w \<le> getWidth y" "create_Extract x 0 (w + off - getWidth y) = Some l"
          "create_Extract y off (getWidth y - off) = Some r" "ConcatExpr_create create_Extract l r = Some res"
      using body by (auto split: if_splits bind_splits)
    then show ?thesis
    proof cases
      case 1
      then show ?thesis using ih(1) [OF 1] body e by fastforce
    next
      case 2
      then show ?thesis using ih(2) [OF 2] body e by fastforce
    next
      case (3 l r)
      have l: "inside l \<le> size x" by (rule ih(3) [OF 3(1-3)])
      show ?thesis
      proof (rule ConcatExpr_create_inside [OF 3(5)])
        fix e' off' w' assume m: "merge_extracts l r = Some (e', off', w')" and res: "create_Extract e' off' w' = Some res"
        have "size e' \<le> size x" using l m by (auto simp: inside_def)
        then show "inside res \<le> size e" using ih(5) [OF 3(1-4) m res] e by simp
      qed
    qed
  qed
qed

termination create_Extract
proof (relation "measure (\<lambda>(e, off, w). size e)")
  fix e off w x y l r e' off' w'
  assume d: "create_Extract_dom (x, 0, w + off - getWidth y)" and e: "e = Concat x y"
    and l: "create_Extract x 0 (w + off - getWidth y) = Some l" and m: "merge_extracts l r = Some (e', off', w')"
  have "size e' \<le> size x" using create_Extract_inside [OF d l] m by (auto simp: inside_def)
  then show "((e', off', w'), e, off, w) \<in> measure (\<lambda>(e, off, w). size e)" using e by simp
qed auto

declare create_Extract.simps [simp del]

definition create_Concat :: "expr \<Rightarrow> expr \<Rightarrow> expr option" where
  "create_Concat l r = ConcatExpr_create create_Extract l r"

text \<open>\<open>ConcatExpr::createN\<close>, of which \<open>create4\<close> and \<open>create8\<close> are cases.\<close>

fun create_ConcatN :: "expr list \<Rightarrow> expr option" where
  "create_ConcatN [] = None"
| "create_ConcatN [kid] = Some kid"
| "create_ConcatN (kid # kids) = create_ConcatN kids \<bind> create_Concat kid"

definition create_Not :: "expr \<Rightarrow> expr option" where
  "create_Not e = (case dyn_const e of Some (w, v) \<Rightarrow> Some (ConstantExpr_Not w v) | None \<Rightarrow> Some (NotExpr e))"

definition create_ZExt :: "expr \<Rightarrow> nat \<Rightarrow> expr option" where
  "create_ZExt e w =
     (if w = getWidth e then Some e
      else if w < getWidth e then create_Extract e 0 w
      else case dyn_const e of Some (kw, v) \<Rightarrow> Some (ConstantExpr_ZExt kw v w) | None \<Rightarrow> Some (ZExt e w))"

definition create_SExt :: "expr \<Rightarrow> nat \<Rightarrow> expr option" where
  "create_SExt e w =
     (if w = getWidth e then Some e
      else if w < getWidth e then create_Extract e 0 w
      else case dyn_const e of Some (kw, v) \<Rightarrow> Some (ConstantExpr_SExt kw v w) | None \<Rightarrow> Some (SExt e w))"

section \<open>Reads and choices\<close>

text \<open>The loop of \<open>ReadExpr::create\<close> over the updates, from the latest on.\<close>

fun rollback :: "bool \<Rightarrow> array \<Rightarrow> update_node \<Rightarrow> expr \<Rightarrow> update_node \<Rightarrow> expr option" where
  "rollback opt root head index No_Update = Some (Read root head index)"
| "rollback opt root head index (Update_Node un_next un_index un_value) =
     do {
       cond \<leftarrow> create_Eq opt index un_index;
       (case dyn_const cond of
          Some (w, v) \<Rightarrow> (if w = 1 \<and> v \<noteq> 0 then Some un_value else rollback opt root head index un_next)
        | None \<Rightarrow> Some (Read root head index))
     }"

definition create_Read :: "bool \<Rightarrow> array \<Rightarrow> update_node \<Rightarrow> expr \<Rightarrow> expr option" where
  "create_Read opt root head index = rollback opt root head index head"

definition create_Select :: "bool \<Rightarrow> expr \<Rightarrow> expr \<Rightarrow> expr \<Rightarrow> expr option" where
  "create_Select opt c t f =
     (if getWidth c \<noteq> 1 \<or> getWidth t \<noteq> getWidth f then None
      else case dyn_const c of
          Some (w, v) \<Rightarrow> Some (if v \<noteq> 0 then t else f)
        | None \<Rightarrow>
            (if t = f then Some t
             else if getWidth t = 1 then
               (case dyn_const t of
                  Some (w, v) \<Rightarrow>
                    (if v \<noteq> 0 then create_Or c f else createIsZero opt c \<bind> (\<lambda>z. create_And z f))
                | None \<Rightarrow> (case dyn_const f of
                    Some (w, v) \<Rightarrow>
                      (if v \<noteq> 0 then createIsZero opt c \<bind> (\<lambda>z. create_Or z t) else create_And c t)
                  | None \<Rightarrow> Some (Select c t f)))
             else Some (Select c t f)))"

text \<open>\<open>Expr::createTempRead\<close>: the bytes of an array without updates, the first one least significant.\<close>

definition temp_byte :: "bool \<Rightarrow> array \<Rightarrow> nat \<Rightarrow> expr option" where
  "temp_byte opt arr i = create_Read opt arr No_Update (ConstantExpr_alloc (int i) 32)"

definition createTempRead :: "bool \<Rightarrow> array \<Rightarrow> nat \<Rightarrow> expr option" where
  "createTempRead opt arr w =
     (if w = 1 then temp_byte opt arr 0 \<bind> (\<lambda>e. create_ZExt e 1)
      else if w = 8 then temp_byte opt arr 0
      else if w \<in> {16, 32, 64} then those (map (temp_byte opt arr) (rev [0..<w div 8])) \<bind> create_ConcatN
      else None)"

text \<open>The methods \<open>rebuild\<close>: an expression with other kids. A constant has none and fails an assertion.\<close>

fun rebuild :: "bool \<Rightarrow> expr \<Rightarrow> expr list \<Rightarrow> expr option" where
  "rebuild opt (NotOptimized e) [a] = Some (NotOptimized a)"
| "rebuild opt (Read arr us i) [a] = create_Read opt arr us a"
| "rebuild opt (Select c t f) [a, b, d] = create_Select opt a b d"
| "rebuild opt (Concat l r) [a, b] = create_Concat a b"
| "rebuild opt (Extract e off w) [a] = create_Extract a off w"
| "rebuild opt (ZExt e w) [a] = create_ZExt a w"
| "rebuild opt (SExt e w) [a] = create_SExt a w"
| "rebuild opt (NotExpr e) [a] = create_Not a"
| "rebuild opt (Binary k l r) [a, b] = create_binary opt k a b"
| "rebuild opt _ _ = None"

section \<open>Meaning\<close>

text \<open>
  Initial contents of arrays and the value of an expression under them. A read takes the
  latest update of its index; outside a constant array the contents are free.
\<close>

type_synonym contents = "array \<Rightarrow> nat \<Rightarrow> int"

definition initial_byte :: "contents \<Rightarrow> array \<Rightarrow> int \<Rightarrow> int" where
  "initial_byte \<rho> arr i =
     (if constantValues arr \<noteq> [] \<and> nat i < length (constantValues arr) then constantValues arr ! nat i
      else take_bit (range_w arr) (\<rho> arr (nat i)))"

fun eval :: "contents \<Rightarrow> expr \<Rightarrow> int" and lookup_update :: "contents \<Rightarrow> array \<Rightarrow> update_node \<Rightarrow> int \<Rightarrow> int" where
  "eval \<rho> (Constant w v) = v"
| "eval \<rho> (NotOptimized e) = eval \<rho> e"
| "eval \<rho> (Read arr us i) = lookup_update \<rho> arr us (eval \<rho> i)"
| "eval \<rho> (Select c t f) = (if eval \<rho> c \<noteq> 0 then eval \<rho> t else eval \<rho> f)"
| "eval \<rho> (Concat l r) = push_bit (getWidth r) (eval \<rho> l) OR eval \<rho> r"
| "eval \<rho> (Extract e off w) = take_bit w (drop_bit off (eval \<rho> e))"
| "eval \<rho> (ZExt e w) = eval \<rho> e"
| "eval \<rho> (SExt e w) = take_bit w (signed_of (getWidth e) (eval \<rho> e))"
| "eval \<rho> (NotExpr e) = take_bit (getWidth e) (NOT (eval \<rho> e))"
| "eval \<rho> (Binary k l r) = apint_op k (getWidth l) (eval \<rho> l) (eval \<rho> r)"
| "lookup_update \<rho> arr No_Update i = initial_byte \<rho> arr i"
| "lookup_update \<rho> arr (Update_Node un_next ix v) i = (if eval \<rho> ix = i then eval \<rho> v else lookup_update \<rho> arr un_next i)"

text \<open>Well-formed expressions: the widths fit, and constants are in range.\<close>

definition const_ok :: "nat \<Rightarrow> int \<Rightarrow> bool" where
  "const_ok w v \<longleftrightarrow> 0 < w \<and> 0 \<le> v \<and> v < 2 ^ w"

definition array_ok :: "array \<Rightarrow> bool" where
  "array_ok arr \<longleftrightarrow> 0 < domain arr \<and> 0 < range_w arr \<and>
     (constantValues arr = [] \<or> length (constantValues arr) = array_size arr) \<and>
     array_size arr \<le> 2 ^ domain arr \<and>
     (\<forall>v \<in> set (constantValues arr). const_ok (range_w arr) v)"

fun wf_expr :: "expr \<Rightarrow> bool" and wf_updates :: "array \<Rightarrow> update_node \<Rightarrow> bool" where
  "wf_expr (Constant w v) = const_ok w v"
| "wf_expr (NotOptimized e) = wf_expr e"
| "wf_expr (Read arr us i) = (array_ok arr \<and> wf_updates arr us \<and> wf_expr i \<and> getWidth i = domain arr)"
| "wf_expr (Select c t f) = (wf_expr c \<and> wf_expr t \<and> wf_expr f \<and> getWidth c = 1 \<and> getWidth t = getWidth f)"
| "wf_expr (Concat l r) = (wf_expr l \<and> wf_expr r)"
| "wf_expr (Extract e off w) = (wf_expr e \<and> 0 < w \<and> off + w \<le> getWidth e)"
| "wf_expr (ZExt e w) = (wf_expr e \<and> getWidth e \<le> w)"
| "wf_expr (SExt e w) = (wf_expr e \<and> getWidth e \<le> w)"
| "wf_expr (NotExpr e) = wf_expr e"
| "wf_expr (Binary k l r) = (wf_expr l \<and> wf_expr r \<and> getWidth l = getWidth r)"
| "wf_updates arr No_Update = True"
| "wf_updates arr (Update_Node un_next ix v) =
     (wf_updates arr un_next \<and> wf_expr ix \<and> getWidth ix = domain arr \<and> wf_expr v \<and> getWidth v = range_w arr)"

text \<open>
  With the option \<open>ConstArrayOpt\<close> an equality with a read of a constant array becomes a
  disjunction over its positions, so such reads have to stay inside the array.
\<close>

fun reads_in :: "contents \<Rightarrow> expr \<Rightarrow> bool" and reads_in_updates :: "contents \<Rightarrow> update_node \<Rightarrow> bool" where
  "reads_in \<rho> (Constant w v) = True"
| "reads_in \<rho> (NotOptimized e) = reads_in \<rho> e"
| "reads_in \<rho> (Read arr us i) =
     (reads_in \<rho> i \<and> reads_in_updates \<rho> us \<and> (constantValues arr \<noteq> [] \<longrightarrow> eval \<rho> i < int (array_size arr)))"
| "reads_in \<rho> (Select c t f) = (reads_in \<rho> c \<and> reads_in \<rho> t \<and> reads_in \<rho> f)"
| "reads_in \<rho> (Concat l r) = (reads_in \<rho> l \<and> reads_in \<rho> r)"
| "reads_in \<rho> (Extract e off w) = reads_in \<rho> e"
| "reads_in \<rho> (ZExt e w) = reads_in \<rho> e"
| "reads_in \<rho> (SExt e w) = reads_in \<rho> e"
| "reads_in \<rho> (NotExpr e) = reads_in \<rho> e"
| "reads_in \<rho> (Binary k l r) = (reads_in \<rho> l \<and> reads_in \<rho> r)"
| "reads_in_updates \<rho> No_Update = True"
| "reads_in_updates \<rho> (Update_Node un_next ix v) = (reads_in_updates \<rho> un_next \<and> reads_in \<rho> ix \<and> reads_in \<rho> v)"

definition good :: "bool \<Rightarrow> contents \<Rightarrow> expr \<Rightarrow> bool" where
  "good opt \<rho> e \<longleftrightarrow> wf_expr e \<and> (opt \<longrightarrow> reads_in \<rho> e)"

definition good_updates :: "bool \<Rightarrow> contents \<Rightarrow> array \<Rightarrow> update_node \<Rightarrow> bool" where
  "good_updates opt \<rho> arr us \<longleftrightarrow> wf_updates arr us \<and> (opt \<longrightarrow> reads_in_updates \<rho> us)"

text \<open>The result of a constructor: a good expression of the given width and value.\<close>

definition makes :: "bool \<Rightarrow> contents \<Rightarrow> expr option \<Rightarrow> nat \<Rightarrow> int \<Rightarrow> bool" where
  "makes opt \<rho> res w v \<longleftrightarrow> (\<exists>e. res = Some e \<and> good opt \<rho> e \<and> getWidth e = w \<and> eval \<rho> e = v)"

section \<open>Values are in range\<close>

lemma const_okI: "0 < w \<Longrightarrow> const_ok w (take_bit w v)"
  by (simp add: const_ok_def)

lemma const_ok_take [simp]: "const_ok w v \<Longrightarrow> take_bit w v = v"
  by (simp add: const_ok_def take_bit_int_eq_self)

lemma const_ok_bool: "const_ok 1 v \<longleftrightarrow> v = 0 \<or> v = 1"
  by (auto simp: const_ok_def)

lemma const_ok_of_bool [simp]: "const_ok 1 (of_bool b)" "const_ok (Suc 0) (of_bool b)"
  by (simp_all add: const_ok_def)

lemma const_ok_zero: "0 < w \<Longrightarrow> const_ok w 0"
  by (simp add: const_ok_def)

lemma take_bit_const_ok: "const_ok w v \<longleftrightarrow> 0 < w \<and> take_bit w v = v"
  by (auto simp: const_ok_def) (metis take_bit_nonnegative, metis take_bit_int_less_exp)

lemma apint_op_ok:
  assumes a: "const_ok w a" and b: "const_ok w b"
  shows "const_ok (if is_cmp k then 1 else w) (apint_op k w a b)"
proof -
  have w: "0 < w" using a by (simp add: const_ok_def)
  have le: "const_ok w x" if "0 \<le> x" "x \<le> a" for x using a that by (simp add: const_ok_def)
  have ta: "take_bit w a = a" "take_bit w b = b" using a b by simp_all
  have bits: "const_ok w (a AND b)" "const_ok w (a OR b)" "const_ok w (a XOR b)"
    unfolding take_bit_const_ok using w ta by (simp_all add: take_bit_and take_bit_or take_bit_xor)
  have ab: "0 \<le> a" "0 \<le> b" using a b by (simp_all add: const_ok_def)
  have div_le: "0 \<le> a div c \<and> a div c \<le> a" if "0 \<le> c" for c
    using zdiv_mono2 [of a 1 c] ab(1) that by (cases "c = 0") (simp_all add: pos_imp_zdiv_nonneg_iff)
  have d: "0 \<le> a div b" "a div b \<le> a" "0 \<le> a mod b" "a mod b \<le> a"
    using div_le [OF ab(2)] ab zmod_le_nonneg_dividend [OF ab(1), of b] by (cases "b = 0"; simp)+
  have s: "0 \<le> drop_bit n a" "drop_bit n a \<le> a" for n
    using div_le [of "2 ^ n"] by (simp_all add: drop_bit_eq_div)
  show ?thesis
    by (cases k) (use bits d s le ab w in \<open>simp_all add: is_cmp_def const_okI const_ok_zero\<close>)
qed

lemma eval_ok: "wf_expr e \<Longrightarrow> const_ok (getWidth e) (eval \<rho> e)"
  and lookup_ok: "wf_updates arr us \<Longrightarrow> array_ok arr \<Longrightarrow> const_ok (range_w arr) (lookup_update \<rho> arr us i)"
proof (induction \<rho> e and \<rho> arr us i rule: eval_lookup_update.induct)
  case (5 \<rho> l r)
  have l: "const_ok (getWidth l) (eval \<rho> l)" and r: "const_ok (getWidth r) (eval \<rho> r)" using 5 by simp_all
  have "take_bit (getWidth l + getWidth r) (eval \<rho> r) = eval \<rho> r" using r
    by (auto simp: const_ok_def intro!: take_bit_int_eq_self) (meson le_add2 less_le_trans one_le_numeral power_increasing)
  then have "take_bit (getWidth l + getWidth r) (push_bit (getWidth r) (eval \<rho> l) OR eval \<rho> r) = push_bit (getWidth r) (eval \<rho> l) OR eval \<rho> r"
    using l by (simp add: take_bit_or take_bit_push_bit)
  then show ?case using l unfolding take_bit_const_ok by simp
next
  case (7 \<rho> e w)
  then have "const_ok (getWidth e) (eval \<rho> e)" "getWidth e \<le> w" by simp_all
  then show ?case by (auto simp: const_ok_def) (meson less_le_trans one_le_numeral power_increasing)
next
  case (10 \<rho> k l r)
  then show ?case using apint_op_ok [of "getWidth l" "eval \<rho> l" "eval \<rho> r" k] by simp
next
  case (11 \<rho> arr i)
  then show ?case by (auto simp: initial_byte_def array_ok_def const_okI)
qed (auto simp: const_okI const_ok_def)

section \<open>Constructors keep widths and values\<close>

lemma good_simps [simp]:
  "good opt \<rho> (Constant w v) = const_ok w v"
  "good opt \<rho> (NotOptimized e) = good opt \<rho> e"
  "good opt \<rho> (Select c t f) = (good opt \<rho> c \<and> good opt \<rho> t \<and> good opt \<rho> f \<and> getWidth c = 1 \<and> getWidth t = getWidth f)"
  "good opt \<rho> (Concat l r) = (good opt \<rho> l \<and> good opt \<rho> r)"
  "good opt \<rho> (Extract e off w) = (good opt \<rho> e \<and> 0 < w \<and> off + w \<le> getWidth e)"
  "good opt \<rho> (ZExt e w) = (good opt \<rho> e \<and> getWidth e \<le> w)"
  "good opt \<rho> (SExt e w) = (good opt \<rho> e \<and> getWidth e \<le> w)"
  "good opt \<rho> (NotExpr e) = good opt \<rho> e"
  "good opt \<rho> (Binary k l r) = (good opt \<rho> l \<and> good opt \<rho> r \<and> getWidth l = getWidth r)"
  by (auto simp: good_def)

lemma good_Read: "good opt \<rho> (Read arr us i) \<longleftrightarrow>
    array_ok arr \<and> good_updates opt \<rho> arr us \<and> good opt \<rho> i \<and> getWidth i = domain arr \<and>
    (opt \<longrightarrow> constantValues arr \<noteq> [] \<longrightarrow> eval \<rho> i < int (array_size arr))"
  by (auto simp: good_def good_updates_def)

lemma good_Update [simp]: "good_updates opt \<rho> arr No_Update"
  "good_updates opt \<rho> arr (Update_Node un_next ix v) \<longleftrightarrow>
     good_updates opt \<rho> arr un_next \<and> good opt \<rho> ix \<and> getWidth ix = domain arr \<and> good opt \<rho> v \<and> getWidth v = range_w arr"
  by (auto simp: good_def good_updates_def)

lemma good_eval: "good opt \<rho> e \<Longrightarrow> const_ok (getWidth e) (eval \<rho> e)"
  by (simp add: good_def eval_ok)

lemma good_bool: "good opt \<rho> e \<Longrightarrow> getWidth e = 1 \<Longrightarrow> eval \<rho> e = 0 \<or> eval \<rho> e = 1"
  using good_eval [of opt \<rho> e] const_ok_bool by simp

lemma good_pos: "good opt \<rho> e \<Longrightarrow> 0 < getWidth e"
  using good_eval [of opt \<rho> e] by (simp add: const_ok_def)

lemma makes_Some [simp]: "makes opt \<rho> (Some e) w v \<longleftrightarrow> good opt \<rho> e \<and> getWidth e = w \<and> eval \<rho> e = v"
  by (simp add: makes_def)

lemma makes_bind:
  assumes "makes opt \<rho> x w v" "\<And>e. good opt \<rho> e \<Longrightarrow> getWidth e = w \<Longrightarrow> eval \<rho> e = v \<Longrightarrow> makes opt \<rho> (f e) w' v'"
  shows "makes opt \<rho> (x \<bind> f) w' v'"
  using assms by (auto simp: makes_def)

lemma ConstantExpr_op_makes:
  assumes "const_ok w a" "const_ok w b" "is_div k \<Longrightarrow> b \<noteq> 0"
  shows "makes opt \<rho> (ConstantExpr_op k w a b) (if is_cmp k then 1 else w) (apint_op k w a b)"
  using assms apint_op_ok [OF assms(1,2), of k] by (auto simp: ConstantExpr_op_def)

lemma bcreate_r_makes:
  assumes "good opt \<rho> l" "good opt \<rho> r" "getWidth l = w" "getWidth r = w" "is_div k \<Longrightarrow> eval \<rho> r \<noteq> 0"
    and W: "W = (if is_cmp k then 1 else w)"
    and "\<And>a. l = Constant w a \<Longrightarrow> makes opt \<rho> (createPartialR w a r) W (apint_op k w a (eval \<rho> r))"
    and "\<And>b. r = Constant w b \<Longrightarrow> makes opt \<rho> (createPartial l w b) W (apint_op k w (eval \<rho> l) b)"
    and "makes opt \<rho> (create l r) W (apint_op k w (eval \<rho> l) (eval \<rho> r))"
  shows "makes opt \<rho> (bcreate_r k createPartialR createPartial create l r) W (apint_op k w (eval \<rho> l) (eval \<rho> r))"
  using assms ConstantExpr_op_makes [of w _ _ k opt \<rho>] by (auto simp: bcreate_r_def split: option.splits)

lemma bcreate_makes:
  assumes "good opt \<rho> l" "good opt \<rho> r" "getWidth l = w" "getWidth r = w" "is_div k \<Longrightarrow> eval \<rho> r \<noteq> 0"
    and W: "W = (if is_cmp k then 1 else w)"
    and "makes opt \<rho> (create l r) W (apint_op k w (eval \<rho> l) (eval \<rho> r))"
  shows "makes opt \<rho> (bcreate k create l r) W (apint_op k w (eval \<rho> l) (eval \<rho> r))"
  using assms ConstantExpr_op_makes [of w _ _ k opt \<rho>] by (auto simp: bcreate_def split: option.splits)

lemma and_mask_id: "const_ok w a \<Longrightarrow> a AND mask w = a" "const_ok w a \<Longrightarrow> mask w AND a = a"
  by (simp_all flip: take_bit_eq_mask add: and.commute [of "mask w"])

lemma or_mask_id:
  assumes "const_ok w a"
  shows "a OR mask w = mask w" and "mask w OR a = mask w"
proof -
  have "bit a n \<Longrightarrow> n < w" for n using assms bit_take_bit_iff [of w a n] by simp
  then show "a OR mask w = mask w" by (auto intro!: bit_eqI simp: bit_or_iff bit_mask_iff)
  then show "mask w OR a = mask w" by (simp add: or.commute)
qed

lemma AndExpr_createPartial_makes:
  assumes "good opt \<rho> l" "const_ok w v" "getWidth l = w"
  shows "makes opt \<rho> (AndExpr_createPartial l w v) w (eval \<rho> l AND v)"
  using assms good_eval [OF assms(1)] by (auto simp: AndExpr_createPartial_def isAllOnes_def and_mask_id is_cmp_def)

lemma create_And_makes:
  assumes "good opt \<rho> l" "good opt \<rho> r" "getWidth l = w" "getWidth r = w"
  shows "makes opt \<rho> (create_And l r) w (eval \<rho> l AND eval \<rho> r)"
proof -
  have "makes opt \<rho> (create_And l r) w (apint_op And w (eval \<rho> l) (eval \<rho> r))"
    unfolding create_And_def
    by (rule bcreate_r_makes) (use assms AndExpr_createPartial_makes [of opt \<rho>] in
      \<open>auto simp: is_div_def is_cmp_def AndExpr_createPartialR_def and.commute\<close>)
  then show ?thesis by simp
qed

lemma OrExpr_createPartial_makes:
  assumes "good opt \<rho> l" "const_ok w v" "getWidth l = w"
  shows "makes opt \<rho> (OrExpr_createPartial l w v) w (eval \<rho> l OR v)"
  using assms good_eval [OF assms(1)] by (auto simp: OrExpr_createPartial_def isAllOnes_def or_mask_id is_cmp_def)

lemma create_Or_makes:
  assumes "good opt \<rho> l" "good opt \<rho> r" "getWidth l = w" "getWidth r = w"
  shows "makes opt \<rho> (create_Or l r) w (eval \<rho> l OR eval \<rho> r)"
proof -
  have "makes opt \<rho> (create_Or l r) w (apint_op Or w (eval \<rho> l) (eval \<rho> r))"
    unfolding create_Or_def
    by (rule bcreate_r_makes) (use assms OrExpr_createPartial_makes [of opt \<rho>] in
      \<open>auto simp: is_div_def is_cmp_def OrExpr_createPartialR_def or.commute\<close>)
  then show ?thesis by simp
qed

lemma EqExpr_create_good:
  assumes "good opt \<rho> l" "good opt \<rho> r" "getWidth l = getWidth r"
  shows "good opt \<rho> (EqExpr_create l r) \<and> getWidth (EqExpr_create l r) = 1 \<and>
    eval \<rho> (EqExpr_create l r) = of_bool (eval \<rho> l = eval \<rho> r)"
  using assms by (auto simp: EqExpr_create_def ConstantExpr_alloc_def is_cmp_def const_ok_def)

text \<open>Bits that are 0 or 1.\<close>

lemma bit_ops_bool:
  "(of_bool P :: int) AND of_bool Q = of_bool (P \<and> Q)" "(of_bool P :: int) OR of_bool Q = of_bool (P \<or> Q)"
  by auto

lemma const_array_or_makes:
  assumes mayBe: "\<And>j. j < i + length vs \<Longrightarrow> makes opt \<rho> (mayBe j) 1 (of_bool (x = int j))"
    and "good opt \<rho> initial" "getWidth initial = 1" "eval \<rho> initial = of_bool Q"
    and "good opt \<rho> res" "getWidth res = 1" "eval \<rho> res = of_bool P"
    and "Q \<longleftrightarrow> P \<or> (\<exists>j < length vs. vs ! j = cl \<and> x = int (i + j))"
  shows "makes opt \<rho> (const_array_or mayBe cl initial vs i n res) 1 (of_bool Q)"
  using assms
proof (induction vs arbitrary: i n res P)
  case (Cons v vs)
  have split: "(\<exists>j < length (v # vs). (v # vs) ! j = cl \<and> x = int (i + j)) \<longleftrightarrow>
      (v = cl \<and> x = int i) \<or> (\<exists>j < length vs. vs ! j = cl \<and> x = int (Suc i + j))"
    by (simp add: Ex_less_Suc2 algebra_simps)
  have mayBe: "\<And>j. j < Suc i + length vs \<Longrightarrow> makes opt \<rho> (mayBe j) 1 (of_bool (x = int j))" using Cons.prems(1) by simp
  show ?case
  proof (cases "cl = v")
    case True
    show ?thesis
    proof (cases "n + 1 > 100")
      case False
      have m: "makes opt \<rho> (mayBe i) 1 (of_bool (x = int i))" by (rule Cons.prems(1)) simp
      have "makes opt \<rho> (mayBe i \<bind> (\<lambda>e. create_Or res e \<bind> const_array_or mayBe cl initial vs (i + 1) (n + 1))) 1 (of_bool Q)"
      proof (rule makes_bind [OF m])
        fix e assume e: "good opt \<rho> e" "getWidth e = 1" "eval \<rho> e = of_bool (x = int i)"
        show "makes opt \<rho> (create_Or res e \<bind> const_array_or mayBe cl initial vs (i + 1) (n + 1)) 1 (of_bool Q)"
        proof (rule makes_bind [OF create_Or_makes [OF Cons.prems(5) e(1) Cons.prems(6) e(2)]])
          fix res' assume res': "good opt \<rho> res'" "getWidth res' = 1" "eval \<rho> res' = eval \<rho> res OR eval \<rho> e"
          show "makes opt \<rho> (const_array_or mayBe cl initial vs (i + 1) (n + 1) res') 1 (of_bool Q)"
            by (rule Cons.IH [where P = "P \<or> x = int i"])
              (use Cons.prems e res' mayBe split True in \<open>auto simp: bit_ops_bool simp del: of_bool_or_iff\<close>)
        qed
      qed
      then show ?thesis using False True by simp
    qed (use True Cons.prems in simp)
  next
    case False
    have "makes opt \<rho> (const_array_or mayBe cl initial vs (Suc i) n res) 1 (of_bool Q)"
      by (rule Cons.IH [where P = P]) (use Cons.prems mayBe split False in auto)
    then show ?thesis using False by simp
  qed
qed simp

lemma take_signed: "0 < w \<Longrightarrow> take_bit w (signed_of w a) = take_bit w a"
  by (simp add: signed_of_def take_bit_signed_take_bit)

lemma take_signed_le: "0 < w \<Longrightarrow> m \<le> w \<Longrightarrow> take_bit m (signed_of w a) = take_bit m a"
  by (simp add: signed_of_def take_bit_signed_take_bit)

lemma sext_eq_const:
  assumes "const_ok fw x" "const_ok w v" "fw \<le> w"
  shows "v = take_bit w (signed_of fw x) \<longleftrightarrow> v = take_bit w (signed_of fw (take_bit fw v)) \<and> x = take_bit fw v"
proof -
  have "take_bit fw (take_bit w (signed_of fw x)) = x"
    using assms by (simp add: take_signed const_ok_def min_absorb1 take_bit_int_eq_self)
  then show ?thesis by metis
qed

lemma zext_eq_const:
  assumes "const_ok fw x" "const_ok w v" "fw \<le> w"
  shows "v = x \<longleftrightarrow> v = take_bit w (take_bit fw v) \<and> x = take_bit fw v"
proof -
  have "take_bit w (take_bit fw v) = take_bit fw v" using assms(3) by (simp add: min_absorb2 min.commute)
  moreover have "take_bit fw x = x" using assms(1) by simp
  ultimately show ?thesis by metis
qed

lemma sub_eq_const:
  assumes "const_ok w v" "const_ok w a" "const_ok w x"
  shows "take_bit w (v - a) = x \<longleftrightarrow> v = take_bit w (a + x)" and "take_bit w (a - v) = x \<longleftrightarrow> v = take_bit w (a - x)"
proof -
  have t: "take_bit w v = v" "take_bit w x = x" using assms by simp_all
  have "take_bit w (v - a) = take_bit w x \<longleftrightarrow> take_bit w v = take_bit w (a + x)"
    by (simp add: take_bit_eq_mod mod_eq_dvd_iff algebra_simps)
  then show "take_bit w (v - a) = x \<longleftrightarrow> v = take_bit w (a + x)" by (simp only: t)
  have "take_bit w (a - v) = take_bit w x \<longleftrightarrow> take_bit w v = take_bit w (a - x)"
    using dvd_minus_iff [of "2 ^ w" "a - v - x"] by (simp add: take_bit_eq_mod mod_eq_dvd_iff algebra_simps)
  then show "take_bit w (a - v) = x \<longleftrightarrow> v = take_bit w (a - x)" by (simp only: t)
qed

lemma makes_False: "makes opt \<rho> (ConstantExpr_create 0 1) 1 0"
  by (simp add: ConstantExpr_create_def const_ok_def)

lemma const_read:
  assumes "good True \<rho> (Read arr No_Update i)" "constantValues arr \<noteq> []"
  shows "v = eval \<rho> (Read arr No_Update i) \<longleftrightarrow> (\<exists>j < length (constantValues arr). constantValues arr ! j = v \<and> eval \<rho> i = int j)"
proof -
  have "0 \<le> eval \<rho> i" "eval \<rho> i < int (length (constantValues arr))"
    using assms good_eval [of True \<rho> i] by (auto simp: good_Read const_ok_def array_ok_def)
  then show ?thesis using assms(2) by (auto simp: initial_byte_def intro!: exI [of _ "nat (eval \<rho> i)"])
qed

text \<open>The equations of \<open>EqExpr_createPartialR\<close> by the shape of the right side.\<close>

lemma EqExpr_createPartialR_bit:
  assumes "w = 1"
  shows "v \<noteq> 0 \<Longrightarrow> EqExpr_createPartialR opt w v r = Some r"
    and "EqExpr_createPartialR opt w 0 (Binary Eq (Constant 1 0) r') = Some r'"
    and "EqExpr_createPartialR opt w 0 (Binary Or l r') =
       do { zl \<leftarrow> ConstantExpr_create 0 (getWidth l) \<bind> (\<lambda>_. create_Eq_const opt l (getWidth l) 0);
            zr \<leftarrow> ConstantExpr_create 0 (getWidth r') \<bind> (\<lambda>_. create_Eq_const opt r' (getWidth r') 0);
            create_And zl zr }"
    and "(\<forall>l r'. r \<noteq> Binary Or l r') \<Longrightarrow> (\<forall>r'. r \<noteq> Binary Eq (Constant 1 0) r') \<Longrightarrow>
       EqExpr_createPartialR opt w 0 r = Some (EqExpr_create (Constant w 0) r)"
proof -
  show "EqExpr_createPartialR opt w v r = Some r" if "v \<noteq> 0" using assms that by (subst EqExpr_createPartialR.simps) simp
  show "EqExpr_createPartialR opt w 0 (Binary Eq (Constant 1 0) r') = Some r'"
    and "EqExpr_createPartialR opt w 0 (Binary Or l r') =
       do { zl \<leftarrow> ConstantExpr_create 0 (getWidth l) \<bind> (\<lambda>_. create_Eq_const opt l (getWidth l) 0);
            zr \<leftarrow> ConstantExpr_create 0 (getWidth r') \<bind> (\<lambda>_. create_Eq_const opt r' (getWidth r') 0);
            create_And zl zr }"
    using assms by (subst EqExpr_createPartialR.simps; simp)+
  show "EqExpr_createPartialR opt w 0 r = Some (EqExpr_create (Constant w 0) r)"
    if "\<forall>l r'. r \<noteq> Binary Or l r'" "\<forall>r'. r \<noteq> Binary Eq (Constant 1 0) r'"
    using assms that by (subst EqExpr_createPartialR.simps) (cases r; simp)
qed

lemma const_arith:
  "const_sum (Binary Add (Constant w v) b) = Some (w, v, b)" "const_sum (Binary Sub (Constant w v) b) = None"
  "const_diff (Binary Sub (Constant w v) b) = Some (w, v, b)"
  by (simp_all add: const_sum_def const_diff_def)

lemma EqExpr_createPartialR_wide:
  assumes "w \<noteq> 1"
  shows "EqExpr_createPartialR opt w v (SExt src w') =
       (if v = take_bit w (signed_of (getWidth src) (take_bit (getWidth src) v))
        then create_Eq_const opt src (getWidth src) (take_bit (getWidth src) v) else ConstantExpr_create 0 1)"
    and "EqExpr_createPartialR opt w v (ZExt src w') =
       (if v = take_bit w (take_bit (getWidth src) v)
        then create_Eq_const opt src (getWidth src) (take_bit (getWidth src) v) else ConstantExpr_create 0 1)"
    and "EqExpr_createPartialR opt w v (Binary Add (Constant wl a) b) =
       (if w \<noteq> wl then None else EqExpr_createPartialR opt w (apint_op Sub w v a) b)"
    and "EqExpr_createPartialR opt w v (Binary Sub (Constant wl a) b) =
       (if w \<noteq> wl then None else EqExpr_createPartialR opt w (apint_op Sub w a v) b)"
    and "EqExpr_createPartialR opt w v (Read arr us i) =
       (if opt \<and> constantValues arr \<noteq> [] \<and> us = No_Update then
          const_array_or (\<lambda>j. create_Eq_const opt i (getWidth i) (take_bit (getWidth i) (int j))) v
            (EqExpr_create (Constant w v) (Read arr us i)) (constantValues arr) 0 0 (ConstantExpr_alloc 0 1)
        else Some (EqExpr_create (Constant w v) (Read arr us i)))"
    and "(\<forall>src w'. r \<noteq> SExt src w') \<Longrightarrow> (\<forall>src w'. r \<noteq> ZExt src w') \<Longrightarrow> const_sum r = None \<Longrightarrow> const_diff r = None \<Longrightarrow>
       (\<forall>arr us i. r \<noteq> Read arr us i) \<Longrightarrow> EqExpr_createPartialR opt w v r = Some (EqExpr_create (Constant w v) r)"
  using assms by (subst EqExpr_createPartialR.simps, cases r; simp add: Let_def const_arith)+

lemma create_Eq_const_step:
  assumes "good opt \<rho> l" "getWidth l = w" "const_ok w v"
    and "makes opt \<rho> (EqExpr_createPartialR opt w v l) 1 (of_bool (v = eval \<rho> l))"
  shows "makes opt \<rho> (create_Eq_const opt l w v) 1 (of_bool (eval \<rho> l = v))"
proof (cases "dyn_const l")
  case None
  then show ?thesis using assms by (subst create_Eq_const.simps) (simp add: eq_commute)
next
  case (Some c)
  then obtain a where "l = Constant w a" using assms(2) by (cases c) simp
  then show ?thesis using ConstantExpr_op_makes [of w a v Eq opt \<rho>] assms
    by (subst create_Eq_const.simps) (simp add: is_cmp_def is_div_def)
qed

lemma EqExpr_createPartialR_makes:
  "good opt \<rho> r \<Longrightarrow> getWidth r = w \<Longrightarrow> const_ok w v \<Longrightarrow>
     makes opt \<rho> (EqExpr_createPartialR opt w v r) 1 (of_bool (v = eval \<rho> r))"
proof (induction r arbitrary: w v rule: measure_induct_rule [where f = size])
  case (less r)
  note r = less.prems
  have plain: "makes opt \<rho> (Some (EqExpr_create (Constant w v) r)) 1 (of_bool (v = eval \<rho> r))"
    using EqExpr_create_good [of opt \<rho> "Constant w v" r] r by simp
  have ih: "makes opt \<rho> (create_Eq_const opt l w' v') 1 (of_bool (eval \<rho> l = v'))"
    if "size l < size r" "good opt \<rho> l" "getWidth l = w'" "const_ok w' v'" for l w' v'
    using less.IH [OF that] create_Eq_const_step [OF that(2-4)] by simp
  show ?case
  proof (cases "w = 1")
    case w: True
    have bit: "v = 0 \<or> v = 1" "eval \<rho> r = 0 \<or> eval \<rho> r = 1" using r(3) good_bool [OF r(1)] r(2) w const_ok_bool by simp_all
    consider (one) "v = 1" | (neg) r' where "v = 0" "r = Binary Eq (Constant 1 0) r'"
      | (disj) l r' where "v = 0" "r = Binary Or l r'"
      | (other) "v = 0" "\<forall>l r'. r \<noteq> Binary Or l r'" "\<forall>r'. r \<noteq> Binary Eq (Constant 1 0) r'"
      using bit(1) by blast
    then show ?thesis
    proof cases
      case one
      then show ?thesis using w bit(2) r by (auto simp: EqExpr_createPartialR_bit(1))
    next
      case neg
      then have "eval \<rho> r' = 0 \<or> eval \<rho> r' = 1" using r good_bool [of opt \<rho> r'] by simp
      moreover have "EqExpr_createPartialR opt w v r = Some r'" using neg(1) EqExpr_createPartialR_bit(2) [OF w] by (simp only: neg(2))
      ultimately show ?thesis using neg r by auto
    next
      case disj
      have lr: "good opt \<rho> l" "good opt \<rho> r'" "getWidth l = 1" "getWidth r' = 1" using disj(2) r w by (simp_all add: is_cmp_def)
      have c: "const_ok 1 0" by (simp add: const_ok_def)
      have z: "makes opt \<rho> (create_Eq_const opt l 1 0) 1 (of_bool (eval \<rho> l = 0))"
          "makes opt \<rho> (create_Eq_const opt r' 1 0) 1 (of_bool (eval \<rho> r' = 0))"
        using ih [OF _ lr(1,3) c] ih [OF _ lr(2,4) c] disj(2) by simp_all
      have v: "of_bool (v = eval \<rho> r) = (of_bool (eval \<rho> l = 0) AND of_bool (eval \<rho> r' = 0) :: int)"
        using good_bool [OF lr(1,3)] good_bool [OF lr(2,4)] disj by auto
      have "makes opt \<rho> (create_Eq_const opt l 1 0 \<bind> (\<lambda>zl. create_Eq_const opt r' 1 0 \<bind> create_And zl)) 1 (of_bool (v = eval \<rho> r))"
      proof (intro makes_bind [OF z(1)] makes_bind [OF z(2)])
        fix zl zr assume "good opt \<rho> zl" "getWidth zl = 1" "eval \<rho> zl = of_bool (eval \<rho> l = 0)"
          "good opt \<rho> zr" "getWidth zr = 1" "eval \<rho> zr = of_bool (eval \<rho> r' = 0)"
        then show "makes opt \<rho> (create_And zl zr) 1 (of_bool (v = eval \<rho> r))" using create_And_makes [of opt \<rho> zl zr 1] unfolding v by simp
      qed
      then show ?thesis using disj lr by (simp add: EqExpr_createPartialR_bit(3) [OF w] ConstantExpr_create_def)
    next
      case other
      have "EqExpr_createPartialR opt w v r = Some (EqExpr_create (Constant w v) r)"
        using EqExpr_createPartialR_bit(4) [OF w other(2,3)] other(1) by simp
      then show ?thesis using plain by (simp only:)
    qed
  next
    case w: False
    note eqs = EqExpr_createPartialR_wide [OF w]
    consider (sext) src w' where "r = SExt src w'" | (zext) src w' where "r = ZExt src w'"
      | (sum) wl a b where "r = Binary Add (Constant wl a) b" | (diff) wl a b where "r = Binary Sub (Constant wl a) b"
      | (read) arr us i where "r = Read arr us i"
      | (other) "\<forall>src w'. r \<noteq> SExt src w'" "\<forall>src w'. r \<noteq> ZExt src w'" "const_sum r = None" "const_diff r = None"
          "\<forall>arr us i. r \<noteq> Read arr us i"
      by (metis const_sum_Some const_diff_Some not_None_eq prod_cases3)
    then show ?thesis
    proof cases
      case (sext src w')
      have s: "good opt \<rho> src" "getWidth src \<le> w" using sext r by simp_all
      note x = sext_eq_const [OF good_eval [OF s(1)] r(3) s(2)]
      have "makes opt \<rho> (create_Eq_const opt src (getWidth src) (take_bit (getWidth src) v)) 1 (of_bool (eval \<rho> src = take_bit (getWidth src) v))"
        using ih [OF _ s(1) refl const_okI [OF good_pos [OF s(1)]]] sext by simp
      then show ?thesis using sext r(2) x makes_False [of opt \<rho>] unfolding sext eqs(1) by auto
    next
      case (zext src w')
      have s: "good opt \<rho> src" "getWidth src \<le> w" using zext r by simp_all
      note x = zext_eq_const [OF good_eval [OF s(1)] r(3) s(2)]
      have "makes opt \<rho> (create_Eq_const opt src (getWidth src) (take_bit (getWidth src) v)) 1 (of_bool (eval \<rho> src = take_bit (getWidth src) v))"
        using ih [OF _ s(1) refl const_okI [OF good_pos [OF s(1)]]] zext by simp
      then show ?thesis using zext r(2) x makes_False [of opt \<rho>] unfolding zext eqs(2) by auto
    next
      case (sum wl a b)
      have s: "wl = w" "good opt \<rho> b" "getWidth b = w" "const_ok w a" using sum r by (auto simp: is_cmp_def)
      have pos: "0 < w" using r(3) by (simp add: const_ok_def)
      have "makes opt \<rho> (EqExpr_createPartialR opt w (take_bit w (v - a)) b) 1 (of_bool (take_bit w (v - a) = eval \<rho> b))"
        using less.IH [OF _ s(2,3) const_okI [OF pos]] sum by simp
      then show ?thesis using sum s sub_eq_const(1) [OF r(3) s(4), of "eval \<rho> b"] good_eval [OF s(2)] unfolding sum by (simp add: eqs(3))
    next
      case (diff wl a b)
      have s: "wl = w" "good opt \<rho> b" "getWidth b = w" "const_ok w a" using diff r by (auto simp: is_cmp_def)
      have pos: "0 < w" using r(3) by (simp add: const_ok_def)
      have "makes opt \<rho> (EqExpr_createPartialR opt w (take_bit w (a - v)) b) 1 (of_bool (take_bit w (a - v) = eval \<rho> b))"
        using less.IH [OF _ s(2,3) const_okI [OF pos]] diff by simp
      then show ?thesis using diff s sub_eq_const(2) [OF r(3) s(4), of "eval \<rho> b"] good_eval [OF s(2)] unfolding diff by (simp add: eqs(4))
    next
      case (read arr us i)
      show ?thesis
      proof (cases "opt \<and> constantValues arr \<noteq> [] \<and> us = No_Update")
        case True
        have i: "good opt \<rho> i" "getWidth i = domain arr" "array_ok arr" using read r by (simp_all add: good_Read)
        note rd = const_read [of \<rho> arr i v] 
        have "makes opt \<rho> (const_array_or (\<lambda>j. create_Eq_const opt i (getWidth i) (take_bit (getWidth i) (int j))) v
            (EqExpr_create (Constant w v) r) (constantValues arr) 0 0 (ConstantExpr_alloc 0 1)) 1 (of_bool (v = eval \<rho> r))"
        proof (rule const_array_or_makes [where x = "eval \<rho> i" and P = False])
          fix j assume "j < 0 + length (constantValues arr)"
          then have "j < 2 ^ domain arr" using i(3) True by (simp add: array_ok_def)
          then have "int j < 2 ^ domain arr" by (metis of_nat_less_iff of_nat_numeral of_nat_power)
          then have "take_bit (getWidth i) (int j) = int j" unfolding i(2) by (intro take_bit_int_eq_self) simp_all
          then show "makes opt \<rho> (create_Eq_const opt i (getWidth i) (take_bit (getWidth i) (int j))) 1 (of_bool (eval \<rho> i = int j))"
            using ih [OF _ i(1) refl const_okI [OF good_pos [OF i(1)], of "int j"]] read by simp
        next
          show "v = eval \<rho> r \<longleftrightarrow> False \<or> (\<exists>j < length (constantValues arr). constantValues arr ! j = v \<and> eval \<rho> i = int (0 + j))"
            using rd read r(1) True by simp
        qed (use plain in \<open>simp_all add: ConstantExpr_alloc_def const_ok_def\<close>)
        then show ?thesis using True by (simp add: read eqs(5))
      next
        case False
        then have "EqExpr_createPartialR opt w v r = Some (EqExpr_create (Constant w v) r)" unfolding read eqs(5) by (rule if_not_P)
        then show ?thesis using plain by (simp only:)
      qed
    next
      case other
      show ?thesis using plain eqs(6) [OF other] by (simp only:)
    qed
  qed
qed

lemma create_Eq_makes:
  assumes "good opt \<rho> l" "good opt \<rho> r" "getWidth l = w" "getWidth r = w"
  shows "makes opt \<rho> (create_Eq opt l r) 1 (of_bool (eval \<rho> l = eval \<rho> r))"
proof -
  have "makes opt \<rho> (create_Eq opt l r) 1 (apint_op Eq w (eval \<rho> l) (eval \<rho> r))"
    unfolding create_Eq_def
  proof (rule bcreate_r_makes [OF assms])
    show "makes opt \<rho> (EqExpr_createPartialR opt w a r) 1 (apint_op Eq w a (eval \<rho> r))" if "l = Constant w a" for a
      using EqExpr_createPartialR_makes [OF assms(2,4), of a] assms(1) that by simp
    show "makes opt \<rho> (EqExpr_createPartialR opt w b l) 1 (apint_op Eq w (eval \<rho> l) b)" if "r = Constant w b" for b
      using EqExpr_createPartialR_makes [OF assms(1,3), of b] assms(2) that by (simp add: eq_commute)
    show "makes opt \<rho> (Some (EqExpr_create l r)) 1 (apint_op Eq w (eval \<rho> l) (eval \<rho> r))"
      using EqExpr_create_good [OF assms(1,2)] assms(3,4) by simp
  qed (simp_all add: is_div_def is_cmp_def)
  then show ?thesis by simp
qed

lemma createIsZero_makes:
  assumes "good opt \<rho> e" "getWidth e \<le> 64"
  shows "makes opt \<rho> (createIsZero opt e) 1 (of_bool (eval \<rho> e = 0))"
  using create_Eq_makes [OF assms(1), of "Constant (getWidth e) 0"] good_pos [OF assms(1)] assms(2)
  by (simp add: createIsZero_def ConstantExpr_create_def const_ok_zero)

lemma xor_bits: "const_ok 1 a \<Longrightarrow> const_ok 1 b \<Longrightarrow> a XOR b = of_bool (a \<noteq> b)"
  unfolding const_ok_bool by auto

lemma XorExpr_createPartialR_makes:
  assumes "good opt \<rho> r" "getWidth r = w" "const_ok w v"
  shows "makes opt \<rho> (XorExpr_createPartialR opt w v r) w (v XOR eval \<rho> r)"
proof (cases "w = 1")
  case True
  have v: "v = 0 \<or> v = 1" and e: "eval \<rho> r = 0 \<or> eval \<rho> r = 1"
    using assms(3) good_bool [OF assms(1)] assms(2) True const_ok_bool by simp_all
  have "makes opt \<rho> (EqExpr_createPartialR opt 1 0 r) 1 (of_bool (0 = eval \<rho> r))"
    using EqExpr_createPartialR_makes [OF assms(1), of 1 0] assms(2) True by (simp add: const_ok_def)
  then show ?thesis using v e True assms by (auto simp: XorExpr_createPartialR_def)
next
  case False
  then show ?thesis using assms by (simp add: XorExpr_createPartialR_def is_cmp_def)
qed

lemma create_Xor_makes:
  assumes "good opt \<rho> l" "good opt \<rho> r" "getWidth l = w" "getWidth r = w"
  shows "makes opt \<rho> (create_Xor opt l r) w (eval \<rho> l XOR eval \<rho> r)"
proof -
  have "makes opt \<rho> (create_Xor opt l r) w (apint_op Xor w (eval \<rho> l) (eval \<rho> r))"
    unfolding create_Xor_def
    by (rule bcreate_r_makes) (use assms XorExpr_createPartialR_makes [of opt \<rho>] in
      \<open>auto simp: is_div_def is_cmp_def xor.commute [of "eval \<rho> l"]\<close>)
  then show ?thesis by simp
qed

text \<open>Sums and differences of bits are exclusive disjunctions.\<close>

lemma bit_sum: "const_ok 1 a \<Longrightarrow> const_ok 1 b \<Longrightarrow> take_bit 1 (a + b) = a XOR b \<and> take_bit 1 (a - b) = a XOR b"
  unfolding const_ok_bool by (auto simp: take_bit_eq_mod)

lemma take_bit_sums:
  fixes a b :: int
  shows "take_bit w (a + take_bit w b) = take_bit w (a + b)" "take_bit w (a - take_bit w b) = take_bit w (a - b)"
    "take_bit w (take_bit w a - b) = take_bit w (a - b)" "take_bit w (take_bit w a + b) = take_bit w (a + b)"
  by (simp_all add: take_bit_eq_mod mod_simps)

text \<open>The equations of the partial constructors by the shape of the right operand.\<close>

lemma AddExpr_createPartialR_eqs:
  "AddExpr_createPartialR opt 1 v r = XorExpr_createPartialR opt 1 v r"
  "w \<noteq> 1 \<Longrightarrow> AddExpr_createPartialR opt w 0 r = Some r"
  "w \<noteq> 1 \<Longrightarrow> v \<noteq> 0 \<Longrightarrow> AddExpr_createPartialR opt w v (Binary Add (Constant w b) c) = create_Add_const opt w (take_bit w (v + b)) c"
  "w \<noteq> 1 \<Longrightarrow> v \<noteq> 0 \<Longrightarrow> AddExpr_createPartialR opt w v (Binary Sub (Constant w b) c) = create_Sub_const opt w (take_bit w (v + b)) c"
  "w \<noteq> 1 \<Longrightarrow> v \<noteq> 0 \<Longrightarrow> const_sum r = None \<Longrightarrow> const_diff r = None \<Longrightarrow>
     AddExpr_createPartialR opt w v r = Some (Binary Add (Constant w v) r)"
  by (subst AddExpr_createPartialR.simps, simp add: const_arith)+

lemma SubExpr_createPartialR_eqs:
  "SubExpr_createPartialR opt 1 v r = XorExpr_createPartialR opt 1 v r"
  "w \<noteq> 1 \<Longrightarrow> SubExpr_createPartialR opt w v (Binary Add (Constant w b) c) = create_Sub_const opt w (take_bit w (v - b)) c"
  "w \<noteq> 1 \<Longrightarrow> SubExpr_createPartialR opt w v (Binary Sub (Constant w b) c) = create_Add_const opt w (take_bit w (v - b)) c"
  "w \<noteq> 1 \<Longrightarrow> const_sum r = None \<Longrightarrow> const_diff r = None \<Longrightarrow>
     SubExpr_createPartialR opt w v r = Some (Binary Sub (Constant w v) r)"
  by (subst SubExpr_createPartialR.simps, simp add: const_arith)+

lemma partial_arith_makes:
  "good opt \<rho> r \<Longrightarrow> getWidth r = w \<Longrightarrow> const_ok w v \<Longrightarrow>
     makes opt \<rho> (AddExpr_createPartialR opt w v r) w (take_bit w (v + eval \<rho> r)) \<and>
     makes opt \<rho> (SubExpr_createPartialR opt w v r) w (take_bit w (v - eval \<rho> r)) \<and>
     makes opt \<rho> (create_Add_const opt w v r) w (take_bit w (v + eval \<rho> r)) \<and>
     makes opt \<rho> (create_Sub_const opt w v r) w (take_bit w (v - eval \<rho> r))"
proof (induction r arbitrary: v rule: measure_induct_rule [where f = size])
  case (less r)
  note r = less.prems
  have pos: "0 < w" using r(3) by (simp add: const_ok_def)
  have ok: "const_ok w (eval \<rho> r)" using good_eval [OF r(1)] r(2) by simp
  have add: "makes opt \<rho> (AddExpr_createPartialR opt w v r) w (take_bit w (v + eval \<rho> r))"
  proof -
    consider (bit) "w = 1" | (zero) "w \<noteq> 1" "v = 0" | (sum) w' b c where "w \<noteq> 1" "v \<noteq> 0" "r = Binary Add (Constant w' b) c"
      | (diff) w' b c where "w \<noteq> 1" "v \<noteq> 0" "r = Binary Sub (Constant w' b) c"
      | (other) "w \<noteq> 1" "v \<noteq> 0" "const_sum r = None" "const_diff r = None"
      by (metis const_sum_Some const_diff_Some not_None_eq prod_cases3)
    then show ?thesis
    proof cases
      case bit
      then show ?thesis using XorExpr_createPartialR_makes [OF r] bit_sum [of v "eval \<rho> r"] ok r(3)
        unfolding bit AddExpr_createPartialR_eqs(1) by (simp only:)
    next
      case zero
      then show ?thesis using r ok by (simp add: AddExpr_createPartialR_eqs(2))
    next
      case (sum w' b c)
      have c: "w' = w" "good opt \<rho> c" "getWidth c = w" "const_ok w b" using sum(3) r by (auto simp: is_cmp_def)
      note ih = less.IH [of c, OF _ c(2,3) const_okI [OF pos, of "v + b"]]
      show ?thesis using ih sum c(1,3) unfolding sum(3)
        by (simp add: AddExpr_createPartialR_eqs(3,4) take_bit_sums algebra_simps)
    next
      case (diff w' b c)
      have c: "w' = w" "good opt \<rho> c" "getWidth c = w" "const_ok w b" using diff(3) r by (auto simp: is_cmp_def)
      note ih = less.IH [of c, OF _ c(2,3) const_okI [OF pos, of "v + b"]]
      show ?thesis using ih diff c(1,3) unfolding diff(3)
        by (simp add: AddExpr_createPartialR_eqs(3,4) take_bit_sums algebra_simps)
    next
      case other
      then show ?thesis using r by (simp add: AddExpr_createPartialR_eqs(5) is_cmp_def)
    qed
  qed
  have sub: "makes opt \<rho> (SubExpr_createPartialR opt w v r) w (take_bit w (v - eval \<rho> r))"
  proof -
    consider (bit) "w = 1" | (sum) w' b c where "w \<noteq> 1" "r = Binary Add (Constant w' b) c"
      | (diff) w' b c where "w \<noteq> 1" "r = Binary Sub (Constant w' b) c"
      | (other) "w \<noteq> 1" "const_sum r = None" "const_diff r = None"
      by (metis const_sum_Some const_diff_Some not_None_eq prod_cases3)
    then show ?thesis
    proof cases
      case bit
      then show ?thesis using XorExpr_createPartialR_makes [OF r] bit_sum [of v "eval \<rho> r"] ok r(3)
        unfolding bit SubExpr_createPartialR_eqs(1) by (simp only:)
    next
      case (sum w' b c)
      have c: "w' = w" "good opt \<rho> c" "getWidth c = w" "const_ok w b" using sum(2) r by (auto simp: is_cmp_def)
      note ih = less.IH [of c, OF _ c(2,3) const_okI [OF pos, of "v - b"]]
      show ?thesis using ih sum c(1,3) unfolding sum(2)
        by (simp add: SubExpr_createPartialR_eqs(2,3) take_bit_sums algebra_simps)
    next
      case (diff w' b c)
      have c: "w' = w" "good opt \<rho> c" "getWidth c = w" "const_ok w b" using diff(2) r by (auto simp: is_cmp_def)
      note ih = less.IH [of c, OF _ c(2,3) const_okI [OF pos, of "v - b"]]
      show ?thesis using ih diff c(1,3) unfolding diff(2)
        by (simp add: SubExpr_createPartialR_eqs(2,3) take_bit_sums algebra_simps)
    next
      case other
      then show ?thesis using r by (simp add: SubExpr_createPartialR_eqs(4) is_cmp_def)
    qed
  qed
  have const: "makes opt \<rho> (create_Add_const opt w v r) w (take_bit w (v + eval \<rho> r)) \<and>
      makes opt \<rho> (create_Sub_const opt w v r) w (take_bit w (v - eval \<rho> r))"
  proof (cases "dyn_const r")
    case None
    then show ?thesis using add sub r(2) by (simp add: create_Add_const.simps [of opt w v r] create_Sub_const.simps [of opt w v r])
  next
    case (Some c)
    then obtain b where b: "r = Constant w b" using r(2) by (cases c) simp
    then show ?thesis using ConstantExpr_op_makes [of w v b Add opt \<rho>] ConstantExpr_op_makes [of w v b Sub opt \<rho>] r
      by (simp add: create_Add_const.simps [of opt w v] create_Sub_const.simps [of opt w v] is_cmp_def is_div_def)
  qed
  show ?case using add sub const by blast
qed

lemmas AddExpr_createPartialR_makes = partial_arith_makes [THEN conjunct1]
  and SubExpr_createPartialR_makes = partial_arith_makes [THEN conjunct2, THEN conjunct1]
  and create_Add_const_makes = partial_arith_makes [THEN conjunct2, THEN conjunct2, THEN conjunct1]
  and create_Sub_const_makes = partial_arith_makes [THEN conjunct2, THEN conjunct2, THEN conjunct2]

lemma AddExpr_createPartial_makes:
  assumes "good opt \<rho> l" "getWidth l = w" "const_ok w v"
  shows "makes opt \<rho> (AddExpr_createPartial opt l w v) w (take_bit w (eval \<rho> l + v))"
  using AddExpr_createPartialR_makes [OF assms] by (simp add: AddExpr_createPartial_def add.commute)

lemma SubExpr_createPartial_makes:
  assumes "good opt \<rho> l" "getWidth l = w" "const_ok w v"
  shows "makes opt \<rho> (SubExpr_createPartial opt l w v) w (take_bit w (eval \<rho> l - v))"
proof -
  have "const_ok w (take_bit w (- v))" using assms(3) by (intro const_okI) (simp add: const_ok_def)
  from AddExpr_createPartial_makes [OF assms(1,2) this] show ?thesis by (simp add: SubExpr_createPartial_def take_bit_sums)
qed

lemma create_Sub_by_const_makes:
  assumes "good opt \<rho> l" "getWidth l = w" "const_ok w k"
  shows "makes opt \<rho> (create_Sub_by_const opt l (Constant w k)) w (take_bit w (eval \<rho> l - k))"
  using assms SubExpr_createPartial_makes [OF assms] ConstantExpr_op_makes [of w "eval \<rho> l" k Sub opt \<rho>]
  by (cases "dyn_const l") (auto simp: create_Sub_by_const_def bcreate_r_def is_div_def is_cmp_def)

lemma AddExpr_create_eqs:
  "getWidth l = 1 \<Longrightarrow> AddExpr_create opt l r = Some (Binary Xor l r)"
  "getWidth a \<noteq> 1 \<Longrightarrow> w \<noteq> 1 \<Longrightarrow> AddExpr_create opt (Binary Add (Constant w k) a) r = create_Add opt a r \<bind> create_Add_const opt w k"
  "getWidth a \<noteq> 1 \<Longrightarrow> w \<noteq> 1 \<Longrightarrow> AddExpr_create opt (Binary Sub (Constant w k) a) r = create_Sub opt r a \<bind> create_Add_const opt w k"
  "getWidth l \<noteq> 1 \<Longrightarrow> const_sum l = None \<Longrightarrow> const_diff l = None \<Longrightarrow>
     AddExpr_create opt l (Binary Add (Constant w k) b) = create_Add opt l b \<bind> create_Add_const opt w k"
  "getWidth l \<noteq> 1 \<Longrightarrow> const_sum l = None \<Longrightarrow> const_diff l = None \<Longrightarrow>
     AddExpr_create opt l (Binary Sub (Constant w k) b) = create_Sub opt l b \<bind> create_Add_const opt w k"
  "getWidth l \<noteq> 1 \<Longrightarrow> const_sum l = None \<Longrightarrow> const_diff l = None \<Longrightarrow> const_sum r = None \<Longrightarrow> const_diff r = None \<Longrightarrow>
     AddExpr_create opt l r = Some (Binary Add l r)"
  by (subst AddExpr_create.simps, simp add: const_arith is_cmp_def)+

lemma SubExpr_create_eqs:
  "getWidth l = 1 \<Longrightarrow> SubExpr_create opt l r = Some (Binary Xor l r)"
  "getWidth l \<noteq> 1 \<Longrightarrow> SubExpr_create opt l l = Some (ConstantExpr_alloc 0 (getWidth l))"
  "w \<noteq> 1 \<Longrightarrow> Binary Add (Constant w k) a \<noteq> r \<Longrightarrow>
     SubExpr_create opt (Binary Add (Constant w k) a) r = create_Sub opt a r \<bind> create_Add_const opt w k"
  "w \<noteq> 1 \<Longrightarrow> Binary Sub (Constant w k) a \<noteq> r \<Longrightarrow>
     SubExpr_create opt (Binary Sub (Constant w k) a) r = create_Add opt a r \<bind> create_Sub_const opt w k"
  "getWidth l \<noteq> 1 \<Longrightarrow> const_sum l = None \<Longrightarrow> const_diff l = None \<Longrightarrow>
     SubExpr_create opt l (Binary Add (Constant w k) b) = create_Sub opt l b \<bind> (\<lambda>x. create_Sub_by_const opt x (Constant w k))"
  "getWidth l \<noteq> 1 \<Longrightarrow> const_sum l = None \<Longrightarrow> const_diff l = None \<Longrightarrow>
     SubExpr_create opt l (Binary Sub (Constant w k) b) = create_Add opt l b \<bind> (\<lambda>x. create_Sub_by_const opt x (Constant w k))"
  "getWidth l \<noteq> 1 \<Longrightarrow> l \<noteq> r \<Longrightarrow> const_sum l = None \<Longrightarrow> const_diff l = None \<Longrightarrow> const_sum r = None \<Longrightarrow> const_diff r = None \<Longrightarrow>
     SubExpr_create opt l r = Some (Binary Sub l r)"
proof -
  show "getWidth l \<noteq> 1 \<Longrightarrow> const_sum l = None \<Longrightarrow> const_diff l = None \<Longrightarrow>
     SubExpr_create opt l (Binary Add (Constant w k) b) = create_Sub opt l b \<bind> (\<lambda>x. create_Sub_by_const opt x (Constant w k))"
    and "getWidth l \<noteq> 1 \<Longrightarrow> const_sum l = None \<Longrightarrow> const_diff l = None \<Longrightarrow>
     SubExpr_create opt l (Binary Sub (Constant w k) b) = create_Add opt l b \<bind> (\<lambda>x. create_Sub_by_const opt x (Constant w k))"
    by (cases "l = Binary Add (Constant w k) b"; cases "l = Binary Sub (Constant w k) b"; subst SubExpr_create.simps;
        simp add: const_arith is_cmp_def)+
qed (subst SubExpr_create.simps, simp add: const_arith is_cmp_def)+

lemma arith_shapes:
  obtains (sum) w k a where "e = Binary Add (Constant w k) a" | (diff) w k a where "e = Binary Sub (Constant w k) a"
    | (other) "const_sum e = None" "const_diff e = None"
  by (metis const_sum_Some const_diff_Some not_None_eq prod_cases3)

text \<open>One step of moving a constant outwards.\<close>

lemma makes_bind_const:
  assumes "makes opt \<rho> x w v" "const_ok w k"
  shows "makes opt \<rho> (x \<bind> create_Add_const opt w k) w (take_bit w (k + v))"
    and "makes opt \<rho> (x \<bind> create_Sub_const opt w k) w (take_bit w (k - v))"
    and "makes opt \<rho> (x \<bind> (\<lambda>e. create_Sub_by_const opt e (Constant w k))) w (take_bit w (v - k))"
  using assms create_Add_const_makes [of opt \<rho> _ w k] create_Sub_const_makes [of opt \<rho> _ w k] create_Sub_by_const_makes [of opt \<rho> _ w k]
  by (auto intro!: makes_bind [OF assms(1)])

lemma makes_eq: "makes opt \<rho> x w v \<Longrightarrow> y = x \<Longrightarrow> v' = v \<Longrightarrow> makes opt \<rho> y w v'"
  by simp

lemma create_arith_makes:
  "good opt \<rho> l \<Longrightarrow> good opt \<rho> r \<Longrightarrow> getWidth l = w \<Longrightarrow> getWidth r = w \<Longrightarrow>
     makes opt \<rho> (create_Add opt l r) w (take_bit w (eval \<rho> l + eval \<rho> r)) \<and>
     makes opt \<rho> (create_Sub opt l r) w (take_bit w (eval \<rho> l - eval \<rho> r))"
proof (induction "size l + size r" arbitrary: l r rule: less_induct)
  case less
  note lr = less.prems
  have ok: "const_ok w (eval \<rho> l)" "const_ok w (eval \<rho> r)" using good_eval [OF lr(1)] good_eval [OF lr(2)] lr(3,4) by simp_all
  have ih: "makes opt \<rho> (create_Add opt a b) w (take_bit w (eval \<rho> a + eval \<rho> b))"
      "makes opt \<rho> (create_Sub opt a b) w (take_bit w (eval \<rho> a - eval \<rho> b))"
    if "size a + size b < size l + size r" "good opt \<rho> a" "good opt \<rho> b" "getWidth a = w" "getWidth b = w" for a b
    using less.hyps [OF that] by simp_all
  have parts: "w' = w \<and> good opt \<rho> a \<and> getWidth a = w \<and> const_ok w k"
    if "e = Binary Add (Constant w' k) a \<or> e = Binary Sub (Constant w' k) a" "good opt \<rho> e" "getWidth e = w" for e w' k a
    using that by (auto simp: is_cmp_def)
  have bits: "take_bit w (eval \<rho> l + eval \<rho> r) = eval \<rho> l XOR eval \<rho> r"
      "take_bit w (eval \<rho> l - eval \<rho> r) = eval \<rho> l XOR eval \<rho> r" if "w = 1"
    using bit_sum [of "eval \<rho> l" "eval \<rho> r"] ok that by simp_all
  have add: "makes opt \<rho> (AddExpr_create opt l r) w (take_bit w (eval \<rho> l + eval \<rho> r))"
  proof (cases "w = 1")
    case True
    then show ?thesis using bits(1) lr by (simp add: AddExpr_create_eqs(1) is_cmp_def)
  next
    case w: False
    show ?thesis
    proof (cases l rule: arith_shapes)
      case (sum w' k a)
      have p: "w' = w" "good opt \<rho> a" "getWidth a = w" "const_ok w k" using parts [OF _ lr(1,3)] sum by blast+
      show ?thesis
        by (rule makes_eq [OF makes_bind_const(1) [OF ih(1) [OF _ p(2) lr(2) p(3) lr(4)] p(4)]])
          (use sum p w lr(3,4) in \<open>simp_all add: AddExpr_create_eqs(2) take_bit_sums algebra_simps\<close>)
    next
      case (diff w' k a)
      have p: "w' = w" "good opt \<rho> a" "getWidth a = w" "const_ok w k" using parts [OF _ lr(1,3)] diff by blast+
      show ?thesis
        by (rule makes_eq [OF makes_bind_const(1) [OF ih(2) [OF _ lr(2) p(2) lr(4) p(3)] p(4)]])
          (use diff p w lr(3,4) in \<open>simp_all add: AddExpr_create_eqs(3) take_bit_sums algebra_simps\<close>)
    next
      case l: other
      show ?thesis
      proof (cases r rule: arith_shapes)
        case (sum w' k b)
        have p: "w' = w" "good opt \<rho> b" "getWidth b = w" "const_ok w k" using parts [OF _ lr(2,4)] sum by blast+
        show ?thesis
          by (rule makes_eq [OF makes_bind_const(1) [OF ih(1) [OF _ lr(1) p(2) lr(3) p(3)] p(4)]])
            (use sum p w lr(3,4) l in \<open>simp_all add: AddExpr_create_eqs(4) take_bit_sums algebra_simps\<close>)
      next
        case (diff w' k b)
        have p: "w' = w" "good opt \<rho> b" "getWidth b = w" "const_ok w k" using parts [OF _ lr(2,4)] diff by blast+
        show ?thesis
          by (rule makes_eq [OF makes_bind_const(1) [OF ih(2) [OF _ lr(1) p(2) lr(3) p(3)] p(4)]])
            (use diff p w lr(3,4) l in \<open>simp_all add: AddExpr_create_eqs(5) take_bit_sums algebra_simps\<close>)
      next
        case other
        then show ?thesis using lr w l by (simp add: AddExpr_create_eqs(6) is_cmp_def)
      qed
    qed
  qed
  have sub: "makes opt \<rho> (SubExpr_create opt l r) w (take_bit w (eval \<rho> l - eval \<rho> r))"
  proof (cases "w = 1 \<or> l = r")
    case True
    show ?thesis
    proof (cases "w = 1")
      case True
      then show ?thesis using bits(2) lr by (simp add: SubExpr_create_eqs(1) is_cmp_def)
    next
      case False
      then show ?thesis using True lr good_pos [OF lr(1)] by (auto simp: SubExpr_create_eqs(2) ConstantExpr_alloc_def const_ok_zero)
    qed
  next
    case False
    then have w: "w \<noteq> 1" and ne: "l \<noteq> r" by simp_all
    show ?thesis
    proof (cases l rule: arith_shapes)
      case (sum w' k a)
      have p: "w' = w" "good opt \<rho> a" "getWidth a = w" "const_ok w k" using parts [OF _ lr(1,3)] sum by blast+
      show ?thesis
        by (rule makes_eq [OF makes_bind_const(1) [OF ih(2) [OF _ p(2) lr(2) p(3) lr(4)] p(4)]])
          (use sum p w lr(3,4) ne in \<open>simp_all add: SubExpr_create_eqs(3) take_bit_sums algebra_simps\<close>)
    next
      case (diff w' k a)
      have p: "w' = w" "good opt \<rho> a" "getWidth a = w" "const_ok w k" using parts [OF _ lr(1,3)] diff by blast+
      show ?thesis
        by (rule makes_eq [OF makes_bind_const(2) [OF ih(1) [OF _ p(2) lr(2) p(3) lr(4)] p(4)]])
          (use diff p w lr(3,4) ne in \<open>simp_all add: SubExpr_create_eqs(4) take_bit_sums algebra_simps\<close>)
    next
      case l: other
      show ?thesis
      proof (cases r rule: arith_shapes)
        case (sum w' k b)
        have p: "w' = w" "good opt \<rho> b" "getWidth b = w" "const_ok w k" using parts [OF _ lr(2,4)] sum by blast+
        show ?thesis
          by (rule makes_eq [OF makes_bind_const(3) [OF ih(2) [OF _ lr(1) p(2) lr(3) p(3)] p(4)]])
            (use sum p w lr(3,4) l in \<open>simp_all add: SubExpr_create_eqs(5) take_bit_sums algebra_simps\<close>)
      next
        case (diff w' k b)
        have p: "w' = w" "good opt \<rho> b" "getWidth b = w" "const_ok w k" using parts [OF _ lr(2,4)] diff by blast+
        show ?thesis
          by (rule makes_eq [OF makes_bind_const(3) [OF ih(1) [OF _ lr(1) p(2) lr(3) p(3)] p(4)]])
            (use diff p w lr(3,4) l in \<open>simp_all add: SubExpr_create_eqs(6) take_bit_sums algebra_simps\<close>)
      next
        case other
        then show ?thesis using lr w ne l by (simp add: SubExpr_create_eqs(7) is_cmp_def)
      qed
    qed
  qed
  have "makes opt \<rho> (bcreate_r Add (AddExpr_createPartialR opt) (AddExpr_createPartial opt) (AddExpr_create opt) l r) w
      (apint_op Add w (eval \<rho> l) (eval \<rho> r))"
    by (rule bcreate_r_makes [OF lr]) (use lr add AddExpr_createPartialR_makes [OF lr(2,4)] AddExpr_createPartial_makes [OF lr(1,3)] in
      \<open>auto simp: is_div_def is_cmp_def\<close>)
  moreover have "makes opt \<rho> (bcreate_r Sub (SubExpr_createPartialR opt) (SubExpr_createPartial opt) (SubExpr_create opt) l r) w
      (apint_op Sub w (eval \<rho> l) (eval \<rho> r))"
    by (rule bcreate_r_makes [OF lr]) (use lr sub SubExpr_createPartialR_makes [OF lr(2,4)] SubExpr_createPartial_makes [OF lr(1,3)] in
      \<open>auto simp: is_div_def is_cmp_def\<close>)
  ultimately show ?case by (simp add: create_Add.simps [of opt l r] create_Sub.simps [of opt l r] bcreate_r_def)
qed

lemma MulExpr_createPartialR_makes:
  assumes "good opt \<rho> r" "getWidth r = w" "const_ok w v"
  shows "makes opt \<rho> (MulExpr_createPartialR w v r) w (take_bit w (v * eval \<rho> r))"
proof (cases "w = 1")
  case True
  have "eval \<rho> r AND v = take_bit w (v * eval \<rho> r)"
    using good_bool [OF assms(1)] assms(2,3) True unfolding True const_ok_bool by auto
  then show ?thesis
    using AndExpr_createPartial_makes [OF assms(1,3,2)] True by (simp add: MulExpr_createPartialR_def AndExpr_createPartialR_def)
next
  case False
  then show ?thesis using assms good_eval [OF assms(1)] by (auto simp: MulExpr_createPartialR_def is_cmp_def)
qed

lemma create_Mul_makes:
  assumes "good opt \<rho> l" "good opt \<rho> r" "getWidth l = w" "getWidth r = w"
  shows "makes opt \<rho> (create_Mul l r) w (apint_op Mul w (eval \<rho> l) (eval \<rho> r))"
  unfolding create_Mul_def
proof (rule bcreate_r_makes [OF assms])
  show "makes opt \<rho> (MulExpr_createPartialR w a r) w (apint_op Mul w a (eval \<rho> r))" if "l = Constant w a" for a
    using MulExpr_createPartialR_makes [OF assms(2,4), of a] assms(1) that by simp
  show "makes opt \<rho> (MulExpr_createPartial l w b) w (apint_op Mul w (eval \<rho> l) b)" if "r = Constant w b" for b
    using MulExpr_createPartialR_makes [OF assms(1,3), of b] assms(2) that by (simp add: MulExpr_createPartial_def mult.commute)
  show "makes opt \<rho> (MulExpr_create l r) w (apint_op Mul w (eval \<rho> l) (eval \<rho> r))"
  proof (cases "w = 1")
    case True
    then have "eval \<rho> l AND eval \<rho> r = take_bit w (eval \<rho> l * eval \<rho> r)"
      using good_bool [OF assms(1)] good_bool [OF assms(2)] assms(3,4) by auto
    then show ?thesis using assms True by (simp add: MulExpr_create_def is_cmp_def)
  qed (use assms in \<open>simp add: MulExpr_create_def is_cmp_def\<close>)
qed (simp_all add: is_div_def is_cmp_def)

text \<open>What the operations do on bits.\<close>

lemma signed_bits [simp]: "signed_of 1 0 = 0" "signed_of 1 1 = -1" "signed_of (Suc 0) 0 = 0" "signed_of (Suc 0) 1 = -1"
  by (simp_all add: signed_of_def)

lemma div_bits:
  assumes "const_ok 1 a" "const_ok 1 b" "b \<noteq> 0"
  shows "apint_op UDiv 1 a b = a" "apint_op SDiv 1 a b = a" "apint_op URem 1 a b = 0" "apint_op SRem 1 a b = 0"
  using assms unfolding const_ok_bool by (auto simp: signed_modulo_int_def)

lemma shift_bits:
  assumes "const_ok 1 a" "const_ok 1 b"
  shows "apint_op Shl 1 a b = a AND of_bool (b = 0)" "apint_op LShr 1 a b = a AND of_bool (b = 0)" "apint_op AShr 1 a b = a"
  using assms unfolding const_ok_bool by auto

lemma cmp_bits:
  assumes "const_ok 1 a" "const_ok 1 b"
  shows "apint_op Ult 1 a b = of_bool (a = 0) AND b" "apint_op Ule 1 a b = of_bool (a = 0) OR b"
    "apint_op Slt 1 a b = a AND of_bool (b = 0)" "apint_op Sle 1 a b = a OR of_bool (b = 0)"
  using assms unfolding const_ok_bool by auto

lemma not_first_makes:
  assumes "good opt \<rho> l" "good opt \<rho> r" "getWidth l = 1" "getWidth r = 1"
  shows "makes opt \<rho> (createIsZero opt l \<bind> (\<lambda>z. create_And z r)) 1 (of_bool (eval \<rho> l = 0) AND eval \<rho> r)"
    and "makes opt \<rho> (createIsZero opt l \<bind> (\<lambda>z. create_Or z r)) 1 (of_bool (eval \<rho> l = 0) OR eval \<rho> r)"
    and "makes opt \<rho> (createIsZero opt r \<bind> create_And l) 1 (eval \<rho> l AND of_bool (eval \<rho> r = 0))"
    and "makes opt \<rho> (createIsZero opt r \<bind> create_Or l) 1 (eval \<rho> l OR of_bool (eval \<rho> r = 0))"
proof -
  have z: "makes opt \<rho> (createIsZero opt l) 1 (of_bool (eval \<rho> l = 0))" "makes opt \<rho> (createIsZero opt r) 1 (of_bool (eval \<rho> r = 0))"
    using createIsZero_makes [OF assms(1)] createIsZero_makes [OF assms(2)] assms(3,4) by simp_all
  show "makes opt \<rho> (createIsZero opt l \<bind> (\<lambda>z. create_And z r)) 1 (of_bool (eval \<rho> l = 0) AND eval \<rho> r)"
    by (rule makes_bind [OF z(1)]) (use create_And_makes [of opt \<rho> _ r 1] assms in metis)
  show "makes opt \<rho> (createIsZero opt l \<bind> (\<lambda>z. create_Or z r)) 1 (of_bool (eval \<rho> l = 0) OR eval \<rho> r)"
    by (rule makes_bind [OF z(1)]) (use create_Or_makes [of opt \<rho> _ r 1] assms in metis)
  show "makes opt \<rho> (createIsZero opt r \<bind> create_And l) 1 (eval \<rho> l AND of_bool (eval \<rho> r = 0))"
    by (rule makes_bind [OF z(2)]) (use create_And_makes [of opt \<rho> l _ 1] assms in metis)
  show "makes opt \<rho> (createIsZero opt r \<bind> create_Or l) 1 (eval \<rho> l OR of_bool (eval \<rho> r = 0))"
    by (rule makes_bind [OF z(2)]) (use create_Or_makes [of opt \<rho> l _ 1] assms in metis)
qed

lemma alloc_makes:
  assumes "good opt \<rho> l" "good opt \<rho> r" "getWidth l = w" "getWidth r = w"
  shows "makes opt \<rho> (Some (Binary k l r)) (if is_cmp k then 1 else w) (apint_op k w (eval \<rho> l) (eval \<rho> r))"
  using assms by simp

lemma ordinary_create_makes:
  assumes "good opt \<rho> l" "good opt \<rho> r" "getWidth l = w" "getWidth r = w" and nz: "is_div k \<Longrightarrow> eval \<rho> r \<noteq> 0"
    and k: "k \<notin> {Add, Sub, Mul, And, Or, Xor, Eq, Ne, Ugt, Uge, Sgt, Sge}"
  shows "makes opt \<rho> (create_binary opt k l r) (if is_cmp k then 1 else w) (apint_op k w (eval \<rho> l) (eval \<rho> r))"
proof -
  note a = alloc_makes [OF assms(1-4)]
  let ?a = "eval \<rho> l" and ?b = "eval \<rho> r"
  let ?m = "\<lambda>k res. makes opt \<rho> res (if is_cmp k then 1 else w) (apint_op k w ?a ?b)"
  have ok: "const_ok w ?a" "const_ok w ?b" using good_eval [OF assms(1)] good_eval [OF assms(2)] assms(3,4) by simp_all
  have d: "?m k (DivExpr_create k l r)" if "k = UDiv \<or> k = SDiv"
    using that nz a [of k] div_bits [of ?a ?b] ok assms by (cases "w = 1") (auto simp: DivExpr_create_def is_div_def is_cmp_def)
  have m: "?m k (RemExpr_create k l r)" if "k = URem \<or> k = SRem"
    using that nz a [of k] div_bits [of ?a ?b] ok assms makes_False [of opt \<rho>]
    by (cases "w = 1") (auto simp: RemExpr_create_def is_div_def is_cmp_def)
  have s: "?m k (ShiftExpr_create opt k l r)" if "k = Shl \<or> k = LShr"
    using that a [of k] shift_bits [of ?a ?b] ok assms(3) not_first_makes [OF assms(1,2)] assms(4)
    by (cases "w = 1") (auto simp: ShiftExpr_create_def is_cmp_def)
  have s': "?m AShr (AShrExpr_create l r)"
    using a [of AShr] shift_bits [of ?a ?b] ok assms by (cases "w = 1") (auto simp: AShrExpr_create_def is_cmp_def)
  have c: "?m Ult (UltExpr_create opt l r)" "?m Ule (UleExpr_create opt l r)" "?m Slt (SltExpr_create opt l r)" "?m Sle (SleExpr_create opt l r)"
    using a [of Ult] a [of Ule] a [of Slt] a [of Sle] cmp_bits [of ?a ?b] ok assms(3,4) not_first_makes [OF assms(1,2)]
    by (cases "w = 1"; simp add: UltExpr_create_def UleExpr_create_def SltExpr_create_def SleExpr_create_def is_cmp_def)+
  have b: "?m k (bcreate k f l r)" if "?m k (f l r)" for f
    by (rule bcreate_makes [where create = f, OF assms(1-4) nz refl that])
  show ?thesis
  proof (cases k)
    case UDiv
    show ?thesis using b [unfolded UDiv] d [OF disjI1 [OF UDiv]] unfolding UDiv create_binary.simps by blast
  next
    case SDiv
    show ?thesis using b [unfolded SDiv] d [OF disjI2 [OF SDiv]] unfolding SDiv create_binary.simps by blast
  next
    case URem
    show ?thesis using b [unfolded URem] m [OF disjI1 [OF URem]] unfolding URem create_binary.simps by blast
  next
    case SRem
    show ?thesis using b [unfolded SRem] m [OF disjI2 [OF SRem]] unfolding SRem create_binary.simps by blast
  next
    case Shl
    show ?thesis using b [unfolded Shl] s [OF disjI1 [OF Shl]] unfolding Shl create_binary.simps by blast
  next
    case LShr
    show ?thesis using b [unfolded LShr] s [OF disjI2 [OF LShr]] unfolding LShr create_binary.simps by blast
  next
    case AShr
    show ?thesis using b [unfolded AShr] s' unfolding AShr create_binary.simps by blast
  next
    case Ult
    show ?thesis using b [unfolded Ult] c(1) unfolding Ult create_binary.simps by blast
  next
    case Ule
    show ?thesis using b [unfolded Ule] c(2) unfolding Ule create_binary.simps by blast
  next
    case Slt
    show ?thesis using b [unfolded Slt] c(3) unfolding Slt create_binary.simps by blast
  next
    case Sle
    show ?thesis using b [unfolded Sle] c(4) unfolding Sle create_binary.simps by blast
  qed (use k in simp_all)
qed

lemma create_binary_makes:
  assumes "good opt \<rho> l" "good opt \<rho> r" "getWidth l = w" "getWidth r = w" "is_div k \<Longrightarrow> eval \<rho> r \<noteq> 0"
  shows "makes opt \<rho> (create_binary opt k l r) (if is_cmp k then 1 else w) (apint_op k w (eval \<rho> l) (eval \<rho> r))"
proof -
  note lr = assms(1-4) and rl = assms(2,1,4,3)
  have ne: "makes opt \<rho> (create_binary opt Ne l r) 1 (apint_op Ne w (eval \<rho> l) (eval \<rho> r))"
  proof -
    have "makes opt \<rho> (create_Eq opt l r \<bind> create_Eq opt (Constant 1 0)) 1 (of_bool (eval \<rho> l \<noteq> eval \<rho> r))"
      by (rule makes_bind [OF create_Eq_makes [OF lr]])
        (use create_Eq_makes [of opt \<rho> "Constant 1 0" _ 1] in \<open>fastforce simp: const_ok_def\<close>)
    then show ?thesis by (simp add: ConstantExpr_create_def)
  qed
  have swap: "makes opt \<rho> (create_binary opt k' r l) (if is_cmp k' then 1 else w) (apint_op k' w (eval \<rho> r) (eval \<rho> l))"
    if "k' \<in> {Ult, Ule, Slt, Sle}" for k'
    by (rule ordinary_create_makes [OF rl]) (use that in \<open>auto simp: is_div_def\<close>)
  consider "k \<in> {Add, Sub, Mul, And, Or, Xor, Eq}" | "k = Ne" | "k \<in> {Ugt, Uge, Sgt, Sge}"
    | "k \<notin> {Add, Sub, Mul, And, Or, Xor, Eq, Ne, Ugt, Uge, Sgt, Sge}" by blast
  then show ?thesis
  proof cases
    case 1
    then show ?thesis
      using create_arith_makes [OF lr] create_Mul_makes [OF lr] create_And_makes [OF lr] create_Or_makes [OF lr]
        create_Xor_makes [OF lr] create_Eq_makes [OF lr] by (auto simp: is_cmp_def)
  next
    case 2
    then show ?thesis using ne by (simp add: is_cmp_def)
  next
    case 3
    then show ?thesis using swap [of Ult] swap [of Ule] swap [of Slt] swap [of Sle] by (auto simp: is_cmp_def)
  next
    case 4
    then show ?thesis using ordinary_create_makes [OF assms] by blast
  qed
qed

end
