(* ===== verification/Expr_Build.thy ===== *)
theory Expr_Build
  imports Klee_Expr
begin

text \<open>
  The remaining constructors of \<open>src/lib/Expr/Expr.cpp\<close>: concatenation, extraction, extension,
  negation, choice and reads keep widths and values like the binary ones, and so does
  \<open>rebuild\<close>, which every pass over expressions goes through.
\<close>

section \<open>Bits of concatenations and extracts\<close>

lemma const_ok_bit: "const_ok w v \<Longrightarrow> bit v n \<Longrightarrow> n < w"
  by (metis bit_take_bit_iff const_ok_take)

lemma concat_constants:
  assumes "const_ok w a" "const_ok w' b"
  shows "take_bit (w + w') (push_bit w' (take_bit (w + w') a)) OR take_bit (w + w') b = push_bit w' a OR b"
  by (rule bit_eqI) (auto simp: bit_simps dest: const_ok_bit [OF assms(1)] const_ok_bit [OF assms(2)])

lemma concat_extracts:
  "push_bit wr (take_bit wl (drop_bit (off + wr) x)) OR take_bit wr (drop_bit off x) = take_bit (wl + wr) (drop_bit off (x :: int))"
  by (rule bit_eqI) (auto simp: bit_simps add.commute add.left_commute)

lemma extract_constant:
  assumes "off + w' \<le> w"
  shows "take_bit w' (drop_bit off (signed_of w a)) = take_bit w' (drop_bit off a)"
proof (rule bit_eqI)
  fix n
  have "min (w - 1) (off + n) = off + n" if "n < w'" using assms that by linarith
  then show "bit (take_bit w' (drop_bit off (signed_of w a))) n = bit (take_bit w' (drop_bit off a)) n"
    using assms by (auto simp: signed_of_def bit_simps)
qed

lemma extract_concat:
  assumes "const_ok y b"
  shows "y \<le> off \<Longrightarrow> take_bit w (drop_bit off (push_bit y a OR b)) = take_bit w (drop_bit (off - y) a)"
    and "off + w \<le> y \<Longrightarrow> take_bit w (drop_bit off (push_bit y a OR b)) = take_bit w (drop_bit off b)"
    and "off < y \<Longrightarrow> y < off + w \<Longrightarrow>
      push_bit (y - off) (take_bit (w + off - y) (drop_bit 0 a)) OR take_bit (y - off) (drop_bit off b) =
      take_bit w (drop_bit off (push_bit y a OR b))"
proof -
  note b = const_ok_bit [OF assms]
  show "take_bit w (drop_bit off (push_bit y a OR b)) = take_bit w (drop_bit (off - y) a)" if "y \<le> off"
    by (rule bit_eqI) (use that in \<open>auto simp: bit_simps dest: b\<close>)
  show "take_bit w (drop_bit off (push_bit y a OR b)) = take_bit w (drop_bit off b)" if "off + w \<le> y"
    by (rule bit_eqI) (use that in \<open>auto simp: bit_simps\<close>)
  show "push_bit (y - off) (take_bit (w + off - y) (drop_bit 0 a)) OR take_bit (y - off) (drop_bit off b) =
      take_bit w (drop_bit off (push_bit y a OR b))" if y: "off < y" "y < off + w"
  proof (rule bit_eqI)
    fix n
    show "bit (push_bit (y - off) (take_bit (w + off - y) (drop_bit 0 a)) OR take_bit (y - off) (drop_bit off b)) n =
      bit (take_bit w (drop_bit off (push_bit y a OR b))) n"
    proof (cases "off + n < y")
      case False
      then have "n - (y - off) = off + n - y" "(n - (y - off) < w + off - y) = (n < w)" "y - off \<le> n" using y by linarith+
      then show ?thesis using False b [of "off + n"] by (auto simp: bit_simps)
    qed (use y in \<open>auto simp: bit_simps\<close>)
  qed
qed

section \<open>Concatenation and extraction\<close>

lemma ConcatExpr_create_makes:
  assumes "good opt \<rho> l" "good opt \<rho> r"
    and "\<And>e off w. merge_extracts l r = Some (e, off, w) \<Longrightarrow> good opt \<rho> e \<Longrightarrow> 0 < w \<Longrightarrow> off + w \<le> getWidth e \<Longrightarrow>
      makes opt \<rho> (extract e off w) w (take_bit w (drop_bit off (eval \<rho> e)))"
  shows "makes opt \<rho> (ConcatExpr_create extract l r) (getWidth l + getWidth r) (push_bit (getWidth r) (eval \<rho> l) OR eval \<rho> r)"
proof -
  consider (const) w a w' b where "l = Constant w a" "r = Constant w' b"
    | (merge) e off w where "dyn_const l = None" "merge_extracts l r = Some (e, off, w)"
    | (other) "dyn_const l = None \<or> dyn_const r = None" "merge_extracts l r = None"
    by (cases "merge_extracts l r"; cases "dyn_const l"; cases "dyn_const r") auto
  then show ?thesis
  proof cases
    case const
    then show ?thesis using assms(1,2) good_eval [of opt \<rho> "Concat l r"]
      by (simp add: ConcatExpr_create_def ConstantExpr_Concat_def concat_constants)
  next
    case merge
    then obtain wl wr where lr: "l = Extract e (off + wr) wl" "r = Extract e off wr" "w = wl + wr" by auto
    then have "makes opt \<rho> (extract e off w) w (take_bit w (drop_bit off (eval \<rho> e)))"
      using assms(1,2) by (intro assms(3) [OF merge(2)]) auto
    moreover have "ConcatExpr_create extract l r = extract e off w"
      using merge by (simp add: ConcatExpr_create_def del: merge_extracts_Some)
    ultimately show ?thesis using lr by (simp add: concat_extracts)
  next
    case other
    then have "ConcatExpr_create extract l r = Some (Concat l r)"
      unfolding ConcatExpr_create_def by (metis (no_types, lifting) option.simps(4))
    then show ?thesis using assms(1,2) by simp
  qed
qed

lemma create_Extract_makes:
  "good opt \<rho> e \<Longrightarrow> 0 < w \<Longrightarrow> off + w \<le> getWidth e \<Longrightarrow>
   makes opt \<rho> (create_Extract e off w) w (take_bit w (drop_bit off (eval \<rho> e)))"
proof (induction e off w rule: create_Extract.induct)
  case (1 e off w)
  have g: "\<not> \<not> (0 < w \<and> off + w \<le> getWidth e)" using 1(7,8) by simp
  show ?case
  proof (cases "w \<noteq> getWidth e \<and> (\<exists>x y. e = Concat x y)")
    case False
    show ?thesis
    proof (cases "w = getWidth e")
      case True
      then have "create_Extract e off w = Some e" using g by (subst create_Extract.simps) simp
      moreover have "off = 0" using g True by simp
      ultimately show ?thesis using 1(6) True good_eval [OF 1(6)] by simp
    next
      case False
      then have "create_Extract e off w = (case dyn_const e of Some (kw, v) \<Rightarrow> Some (ConstantExpr_Extract kw v off w) | None \<Rightarrow> Some (Extract e off w))"
        using g \<open>\<not> (w \<noteq> getWidth e \<and> (\<exists>x y. e = Concat x y))\<close>
        by (subst create_Extract.simps) (cases e; simp add: dyn_const_def)
      then show ?thesis using 1(6) g by (cases "dyn_const e") (auto simp: ConstantExpr_Extract_def const_okI extract_constant)
    qed
  next
    case True
    then obtain x y where e: "e = Concat x y" and w: "w \<noteq> getWidth e" by blast
    note ih = 1(1-5) [OF g w e]
    have xy: "good opt \<rho> x" "good opt \<rho> y" "off + w \<le> getWidth x + getWidth y" using 1(6,8) e by simp_all
    note ex = extract_concat [OF good_eval [OF xy(2)], where a = "eval \<rho> x"]
    consider "getWidth y \<le> off" | "\<not> getWidth y \<le> off" "off + w \<le> getWidth y" | "\<not> getWidth y \<le> off" "\<not> off + w \<le> getWidth y"
      by blast
    then show ?thesis
    proof cases
      case 1
      then have "makes opt \<rho> (create_Extract x (off - getWidth y) w) w (take_bit w (drop_bit (off - getWidth y) (eval \<rho> x)))"
        using xy g by (intro ih(1)) auto
      moreover have "create_Extract e off w = create_Extract x (off - getWidth y) w"
        using 1 g w by (subst create_Extract.simps) (simp add: e)
      ultimately show ?thesis unfolding e eval.simps ex(1) [OF 1] by simp
    next
      case 2
      then have "makes opt \<rho> (create_Extract y off w) w (take_bit w (drop_bit off (eval \<rho> y)))"
        using xy g by (intro ih(2)) auto
      moreover have "create_Extract e off w = create_Extract y off w"
        using 2 g w by (subst create_Extract.simps) (simp add: e)
      ultimately show ?thesis unfolding e eval.simps ex(2) [OF 2(2)] by simp
    next
      case 3
      let ?l = "create_Extract x 0 (w + off - getWidth y)" and ?r = "create_Extract y off (getWidth y - off)"
      have lm: "makes opt \<rho> ?l (w + off - getWidth y) (take_bit (w + off - getWidth y) (drop_bit 0 (eval \<rho> x)))"
        using 3 xy g by (intro ih(3)) auto
      then obtain l where l: "?l = Some l" "good opt \<rho> l" "getWidth l = w + off - getWidth y" by (auto simp: makes_def)
      have rm: "makes opt \<rho> ?r (getWidth y - off) (take_bit (getWidth y - off) (drop_bit off (eval \<rho> y)))"
        using 3 xy g by (intro ih(4) [OF 3 l(1)]) auto
      then obtain r where r: "?r = Some r" "good opt \<rho> r" "getWidth r = getWidth y - off" by (auto simp: makes_def)
      have "makes opt \<rho> (ConcatExpr_create create_Extract l r) (getWidth l + getWidth r) (push_bit (getWidth r) (eval \<rho> l) OR eval \<rho> r)"
        by (rule ConcatExpr_create_makes [OF l(2) r(2) ih(5) [OF 3 l(1) r(1)]])
      moreover have "getWidth l + getWidth r = w" using l(3) r(3) 3 by simp
      ultimately have "makes opt \<rho> (ConcatExpr_create create_Extract l r) w (take_bit w (drop_bit off (eval \<rho> e)))"
        unfolding e eval.simps ex(3) [OF 3 [unfolded not_le], symmetric] using lm rm l(1,3) r(1,3) by simp
      moreover have "create_Extract e off w = ConcatExpr_create create_Extract l r"
        using 3 g w l(1) r(1) by (subst create_Extract.simps) (simp add: e)
      ultimately show ?thesis by simp
    qed
  qed
qed

lemma create_Concat_makes:
  assumes "good opt \<rho> l" "good opt \<rho> r"
  shows "makes opt \<rho> (create_Concat l r) (getWidth l + getWidth r) (push_bit (getWidth r) (eval \<rho> l) OR eval \<rho> r)"
  unfolding create_Concat_def by (rule ConcatExpr_create_makes [OF assms create_Extract_makes])

text \<open>A row of parts of one byte each, the first one most significant.\<close>

fun concat_value :: "contents \<Rightarrow> expr list \<Rightarrow> int" where
  "concat_value \<rho> [] = 0"
| "concat_value \<rho> [kid] = eval \<rho> kid"
| "concat_value \<rho> (kid # kids) = push_bit (sum_list (map getWidth kids)) (eval \<rho> kid) OR concat_value \<rho> kids"

lemma create_ConcatN_makes:
  "kids \<noteq> [] \<Longrightarrow> \<forall>kid \<in> set kids. good opt \<rho> kid \<Longrightarrow>
   makes opt \<rho> (create_ConcatN kids) (sum_list (map getWidth kids)) (concat_value \<rho> kids)"
proof (induction kids rule: create_ConcatN.induct)
  case (3 kid k kids)
  have "makes opt \<rho> (create_ConcatN (k # kids) \<bind> create_Concat kid) (getWidth kid + sum_list (map getWidth (k # kids)))
      (push_bit (sum_list (map getWidth (k # kids))) (eval \<rho> kid) OR concat_value \<rho> (k # kids))"
    by (rule makes_bind [OF 3(1)]) (use 3(3) create_Concat_makes [of opt \<rho> kid] in \<open>auto simp del: concat_value.simps\<close>, metis)
  then show ?case by simp
qed auto

lemma concat_value_ok:
  "kids \<noteq> [] \<Longrightarrow> \<forall>kid \<in> set kids. good opt \<rho> kid \<Longrightarrow> const_ok (sum_list (map getWidth kids)) (concat_value \<rho> kids)"
  using create_ConcatN_makes [of kids opt \<rho>] good_eval by (fastforce simp: makes_def)

lemma or_is_sum: "const_ok w b \<Longrightarrow> push_bit w a OR b = b + 2 ^ w * (a :: int)"
proof -
  assume b: "const_ok w b"
  have "push_bit w a OR b = push_bit w a + b"
    by (rule disjunctive_add [symmetric]) (auto simp: bit_simps dest: const_ok_bit [OF b])
  then show ?thesis by (simp add: push_bit_eq_mult)
qed

lemma byte_widths: "\<forall>kid \<in> set kids. getWidth kid = 8 \<Longrightarrow> sum_list (map getWidth kids) = 8 * length kids"
  by (induction kids) auto

lemma concat_bytes:
  "kids \<noteq> [] \<Longrightarrow> \<forall>kid \<in> set kids. good opt \<rho> kid \<and> getWidth kid = 8 \<Longrightarrow>
   concat_value \<rho> kids = horner_sum id 256 (rev (map (eval \<rho>) kids))"
proof (induction kids rule: create_ConcatN.induct)
  case (3 kid k kids)
  let ?ks = "k # kids"
  have w: "sum_list (map getWidth ?ks) = 8 * length ?ks" using 3(3) by (intro byte_widths) simp
  have "concat_value \<rho> (kid # ?ks) = concat_value \<rho> ?ks + (2 ^ 8) ^ length ?ks * eval \<rho> kid"
    unfolding concat_value.simps power_mult [symmetric] w [symmetric] using 3(3) by (intro or_is_sum [OF concat_value_ok]) auto
  then show ?case using 3(1,3) by (simp add: horner_sum_append algebra_simps)
qed auto

section \<open>Extension and negation\<close>

lemma const_ok_mono: "const_ok w v \<Longrightarrow> w \<le> w' \<Longrightarrow> const_ok w' v"
  by (auto simp: const_ok_def) (meson less_le_trans one_le_numeral power_increasing)

lemma extend_value:
  assumes "good opt \<rho> e" "0 < w" "w < getWidth e"
  shows "take_bit w (signed_of (getWidth e) (eval \<rho> e)) = take_bit w (eval \<rho> e)"
  using extract_constant [of 0 w "getWidth e" "eval \<rho> e"] assms by simp

lemma create_ZExt_makes:
  assumes "good opt \<rho> e" "0 < w"
  shows "makes opt \<rho> (create_ZExt e w) w (take_bit w (eval \<rho> e))"
proof (cases "w < getWidth e")
  case True
  then show ?thesis using create_Extract_makes [OF assms, of 0] by (simp add: create_ZExt_def)
next
  case False
  have "take_bit w (eval \<rho> e) = eval \<rho> e"
    using const_ok_mono [OF good_eval [OF assms(1)]] False by simp
  then show ?thesis
    using False assms good_eval [OF assms(1)] by (cases "dyn_const e") (auto simp: create_ZExt_def ConstantExpr_ZExt_def take_bit_const_ok)
qed

lemma create_SExt_makes:
  assumes "good opt \<rho> e" "0 < w"
  shows "makes opt \<rho> (create_SExt e w) w (take_bit w (signed_of (getWidth e) (eval \<rho> e)))"
proof -
  consider "w < getWidth e" | "w = getWidth e" | "getWidth e < w" by linarith
  then show ?thesis
  proof cases
    case 1
    then show ?thesis using create_Extract_makes [OF assms, of 0] extend_value [OF assms] by (simp add: create_SExt_def)
  next
    case 2
    have "take_bit w (signed_of w (eval \<rho> e)) = take_bit w (eval \<rho> e)"
      using extract_constant [of 0 w w "eval \<rho> e"] by simp
    then show ?thesis using 2 assms(1) good_eval [OF assms(1)] by (simp add: create_SExt_def)
  next
    case 3
    then show ?thesis using assms by (cases "dyn_const e") (auto simp: create_SExt_def ConstantExpr_SExt_def const_okI)
  qed
qed

lemma create_Not_makes:
  "good opt \<rho> e \<Longrightarrow> makes opt \<rho> (create_Not e) (getWidth e) (take_bit (getWidth e) (NOT (eval \<rho> e)))"
  by (cases "dyn_const e") (auto simp: create_Not_def ConstantExpr_Not_def const_okI const_ok_def)

section \<open>Choice and reads\<close>

lemma create_Select_makes:
  assumes c: "good opt \<rho> c" "getWidth c = 1" and t: "good opt \<rho> t" and f: "good opt \<rho> f" "getWidth f = getWidth t"
  shows "makes opt \<rho> (create_Select opt c t f) (getWidth t) (if eval \<rho> c \<noteq> 0 then eval \<rho> t else eval \<rho> f)"
proof -
  consider (const) w v where "c = Constant w v" | (same) "dyn_const c = None" "t = f"
    | (wide) "dyn_const c = None" "t \<noteq> f" "getWidth t \<noteq> 1 \<or> dyn_const t = None \<and> dyn_const f = None"
    | (t) w v where "dyn_const c = None" "t \<noteq> f" "getWidth t = 1" "t = Constant w v"
    | (f) w v where "dyn_const c = None" "t \<noteq> f" "getWidth t = 1" "dyn_const t = None" "f = Constant w v"
    by (cases "dyn_const c"; cases "dyn_const t"; cases "dyn_const f"; cases "t = f"; cases "getWidth t = 1") (auto simp del: One_nat_def)
  then show ?thesis
  proof cases
    case const
    then show ?thesis using assms by (simp add: create_Select_def)
  next
    case same
    then show ?thesis using assms by (simp add: create_Select_def)
  next
    case wide
    then show ?thesis using assms by (auto simp: create_Select_def)
  next
    case t': t
    have f1: "getWidth f = 1" using f(2) t'(3) by simp
    have v: "v = 0 \<or> v = 1" and w: "w = 1" using good_bool [OF t t'(3)] t'(3,4) by auto
    show ?thesis
      using good_bool [OF c] good_bool [OF f(1) f1] v
        create_Or_makes [OF c(1) f(1) c(2) f1] not_first_makes(1) [OF c(1) f(1) c(2) f1]
      unfolding create_Select_def t'(4) w using t'(1,2,4) c(2) f1 w by auto
  next
    case f': f
    have f1: "getWidth f = 1" using f(2) f'(3) by simp
    have v: "v = 0 \<or> v = 1" and w: "w = 1" using good_bool [OF f(1) f1] f1 f'(5) by auto
    show ?thesis
      using good_bool [OF c] good_bool [OF t f'(3)] v
        create_And_makes [OF c(1) t c(2) f'(3)] not_first_makes(2) [OF c(1) t c(2) f'(3)]
      unfolding create_Select_def f'(5) w using f'(1-5) c(2) f1 w by auto
  qed
qed

lemma rollback_makes:
  assumes arr: "array_ok root" "good opt \<rho> index" "getWidth index = domain root"
      "opt \<Longrightarrow> constantValues root \<noteq> [] \<Longrightarrow> eval \<rho> index < int (array_size root)" "good_updates opt \<rho> root head"
  shows "good_updates opt \<rho> root us \<Longrightarrow> lookup_update \<rho> root head (eval \<rho> index) = lookup_update \<rho> root us (eval \<rho> index) \<Longrightarrow>
    makes opt \<rho> (rollback opt root head index us) (range_w root) (lookup_update \<rho> root us (eval \<rho> index))"
proof (induction "size us" arbitrary: us rule: less_induct)
  case (less us)
  show ?case
  proof (cases us)
    case No_Update
    then show ?thesis using arr less.prems(2) by (simp add: good_Read)
  next
    case (Update_Node un_next ix v)
    have un: "good_updates opt \<rho> root un_next" "good opt \<rho> ix" "getWidth ix = domain root" "good opt \<rho> v" "getWidth v = range_w root"
      using less.prems(1) Update_Node by simp_all
    obtain cond where cond: "create_Eq opt index ix = Some cond" "getWidth cond = 1" "eval \<rho> cond = of_bool (eval \<rho> index = eval \<rho> ix)"
      using create_Eq_makes [OF arr(2) un(2) arr(3) un(3)] by (auto simp: makes_def)
    have whole: "good opt \<rho> (Read root head index)" using arr by (simp add: good_Read)
    show ?thesis
    proof (cases "dyn_const cond")
      case None
      then show ?thesis using cond whole less.prems(2) Update_Node by simp
    next
      case (Some a)
      then show ?thesis using cond un less Update_Node by (cases a) (auto split: if_splits)
    qed
  qed
qed

lemma create_Read_makes:
  assumes "good opt \<rho> (Read root us index)"
  shows "makes opt \<rho> (create_Read opt root us index) (range_w root) (eval \<rho> (Read root us index))"
  unfolding create_Read_def eval.simps using assms by (intro rollback_makes) (simp_all add: good_Read)

text \<open>The bytes of a temporary read form a number, the first one least significant.\<close>

lemma temp_byte_makes:
  assumes "array_ok arr" "domain arr = 32" "i < array_size arr" "array_size arr \<le> 2 ^ 32"
  shows "makes opt \<rho> (temp_byte opt arr i) (range_w arr) (initial_byte \<rho> arr (int i))"
proof -
  have "int i < 2 ^ 32" using assms(3,4) by simp
  then have "take_bit 32 (int i) = int i" by (simp add: take_bit_int_eq_self)
  then show ?thesis
    using create_Read_makes [of opt \<rho> arr No_Update "ConstantExpr_alloc (int i) 32"] assms
    by (simp add: temp_byte_def ConstantExpr_alloc_def good_Read const_ok_def)
qed

lemma those_makes:
  "\<forall>x \<in> set xs. makes opt \<rho> (f x) w (v x) \<Longrightarrow>
   \<exists>es. those (map f xs) = Some es \<and> map (eval \<rho>) es = map v xs \<and> (\<forall>e \<in> set es. good opt \<rho> e \<and> getWidth e = w)"
  by (induction xs) (auto simp: makes_def)

lemma createTempRead_makes:
  assumes arr: "array_ok arr" "domain arr = 32" "range_w arr = 8" "w div 8 \<le> array_size arr" "0 < array_size arr" "array_size arr \<le> 2 ^ 32"
    and w: "w \<in> {1, 8, 16, 32, 64}"
  shows "makes opt \<rho> (createTempRead opt arr w) w
    (if w = 1 then take_bit 1 (initial_byte \<rho> arr 0) else horner_sum id 256 (map (\<lambda>i. initial_byte \<rho> arr (int i)) [0..<w div 8]))"
proof -
  have b: "makes opt \<rho> (temp_byte opt arr i) 8 (initial_byte \<rho> arr (int i))" if "i < array_size arr" for i
    using temp_byte_makes [OF arr(1,2) that arr(6)] arr(3) by simp
  consider "w = 1" | "w = 8" | "w \<in> {16, 32, 64}" using w by blast
  then show ?thesis
  proof cases
    case 1
    have "makes opt \<rho> (temp_byte opt arr 0 \<bind> (\<lambda>e. create_ZExt e 1)) 1 (take_bit 1 (initial_byte \<rho> arr 0))"
      by (rule makes_bind [OF b [OF arr(5)]]) (metis create_ZExt_makes int_ops(1) zero_less_one)
    then show ?thesis using 1 by (simp add: createTempRead_def)
  next
    case 2
    then show ?thesis using b [OF arr(5)] by (simp add: createTempRead_def)
  next
    case 3
    have "\<forall>i \<in> set (rev [0..<w div 8]). makes opt \<rho> (temp_byte opt arr i) 8 (initial_byte \<rho> arr (int i))"
      using b arr(4) by auto
    from those_makes [OF this] obtain es where es: "those (map (temp_byte opt arr) (rev [0..<w div 8])) = Some es"
        "map (eval \<rho>) es = map (\<lambda>i. initial_byte \<rho> arr (int i)) (rev [0..<w div 8])" "\<forall>e \<in> set es. good opt \<rho> e \<and> getWidth e = 8"
      by blast
    have len: "length es = w div 8" using arg_cong [OF es(2), of length] by simp
    then have ne: "es \<noteq> []" using 3 by auto
    have "sum_list (map getWidth es) = w" using byte_widths [of es] es(3) len 3 by auto
    moreover have "concat_value \<rho> es = horner_sum id 256 (map (\<lambda>i. initial_byte \<rho> arr (int i)) [0..<w div 8])"
      using concat_bytes [OF ne es(3)] es(2) by (simp add: rev_map)
    ultimately have "makes opt \<rho> (create_ConcatN es) w (horner_sum id 256 (map (\<lambda>i. initial_byte \<rho> arr (int i)) [0..<w div 8]))"
      using create_ConcatN_makes [OF ne, of opt \<rho>] es(3) by simp
    then show ?thesis using 3 es(1) by (auto simp: createTempRead_def)
  qed
qed

section \<open>Rebuilding\<close>

text \<open>The kids of an expression, as \<open>getKid\<close> counts them, and the expression with other kids as it
  would be without any rewriting.\<close>

fun getKids :: "expr \<Rightarrow> expr list" where
  "getKids (Constant w v) = []"
| "getKids (NotOptimized e) = [e]"
| "getKids (Read arr us i) = [i]"
| "getKids (Select c t f) = [c, t, f]"
| "getKids (Concat l r) = [l, r]"
| "getKids (Extract e off w) = [e]"
| "getKids (ZExt e w) = [e]"
| "getKids (SExt e w) = [e]"
| "getKids (NotExpr e) = [e]"
| "getKids (Binary k l r) = [l, r]"

fun with_kids :: "expr \<Rightarrow> expr list \<Rightarrow> expr" where
  "with_kids (NotOptimized e) [a] = NotOptimized a"
| "with_kids (Read arr us i) [a] = Read arr us a"
| "with_kids (Select c t f) [a, b, d] = Select a b d"
| "with_kids (Concat l r) [a, b] = Concat a b"
| "with_kids (Extract e off w) [a] = Extract a off w"
| "with_kids (ZExt e w) [a] = ZExt a w"
| "with_kids (SExt e w) [a] = SExt a w"
| "with_kids (NotExpr e) [a] = NotExpr a"
| "with_kids (Binary k l r) [a, b] = Binary k a b"
| "with_kids e kids = e"

text \<open>The divisor of a division is not zero.\<close>

definition divides :: "contents \<Rightarrow> expr \<Rightarrow> bool" where
  "divides \<rho> e = (case e of Binary k l r \<Rightarrow> is_div k \<longrightarrow> eval \<rho> r \<noteq> 0 | _ \<Rightarrow> True)"

lemma with_kids_same [simp]: "with_kids e (getKids e) = e"
  by (cases e) auto

lemma rebuild_makes:
  assumes "length kids = length (getKids e)" "getKids e \<noteq> []" "good opt \<rho> (with_kids e kids)" "divides \<rho> (with_kids e kids)"
  shows "makes opt \<rho> (rebuild opt e kids) (getWidth (with_kids e kids)) (eval \<rho> (with_kids e kids))"
proof (cases e)
  case (Read arr us i)
  then obtain a where "kids = [a]" using assms(1) by (auto simp: length_Suc_conv)
  then show ?thesis using Read create_Read_makes [of opt \<rho> arr us a] assms(3) by simp
next
  case (Select c t f)
  then obtain a b d where "kids = [a, b, d]" using assms(1) by (auto simp: length_Suc_conv)
  then show ?thesis using Select create_Select_makes [of opt \<rho> a b d] assms(3) by simp
next
  case (Concat l r)
  then obtain a b where "kids = [a, b]" using assms(1) by (auto simp: length_Suc_conv)
  then show ?thesis using Concat create_Concat_makes [of opt \<rho> a b] assms(3) by simp
next
  case (Extract x off w)
  then obtain a where "kids = [a]" using assms(1) by (auto simp: length_Suc_conv)
  then show ?thesis using Extract create_Extract_makes [of opt \<rho> a w off] assms(3) by simp
next
  case (ZExt x w)
  then obtain a where a: "kids = [a]" using assms(1) by (auto simp: length_Suc_conv)
  then have "good opt \<rho> a" "getWidth a \<le> w" using ZExt assms(3) by auto
  moreover have "take_bit w (eval \<rho> a) = eval \<rho> a" using calculation const_ok_mono good_eval by (metis const_ok_take)
  ultimately show ?thesis using ZExt a create_ZExt_makes [of opt \<rho> a w] good_pos [of opt \<rho> a] by simp
next
  case (SExt x w)
  then obtain a where a: "kids = [a]" using assms(1) by (auto simp: length_Suc_conv)
  then have "good opt \<rho> a" "0 < w" using SExt assms(3) good_pos [of opt \<rho> a] by auto
  then show ?thesis using SExt a create_SExt_makes [of opt \<rho> a w] by simp
next
  case (NotExpr x)
  then obtain a where "kids = [a]" using assms(1) by (auto simp: length_Suc_conv)
  then show ?thesis using NotExpr create_Not_makes [of opt \<rho> a] assms(3) by simp
next
  case (Binary k l r)
  then obtain a b where "kids = [a, b]" using assms(1) by (auto simp: length_Suc_conv)
  then show ?thesis using Binary create_binary_makes [of opt \<rho> a b _ k] assms(3,4) by (cases "is_cmp k") (simp_all add: divides_def)
qed (use assms in \<open>auto simp: length_Suc_conv\<close>)

section \<open>Creation from a kind\<close>

text \<open>
  \<open>Expr::createFromKind\<close>, which the parser calls: the arguments are expressions and widths.
  Constants, reads, extracts and, without a case of its own, \<open>Not\<close> are invalid kinds.
\<close>

datatype create_arg = Arg_Expr expr | Arg_Width nat

datatype expr_kind = K_Constant | K_NotOptimized | K_Read | K_Select | K_Concat | K_Extract | K_ZExt | K_SExt | K_Not | K_Binary kind

fun createFromKind :: "bool \<Rightarrow> expr_kind \<Rightarrow> create_arg list \<Rightarrow> expr option" where
  "createFromKind opt K_NotOptimized [Arg_Expr e] = Some (NotOptimized e)"
| "createFromKind opt K_Select [Arg_Expr c, Arg_Expr t, Arg_Expr f] = create_Select opt c t f"
| "createFromKind opt K_Concat [Arg_Expr l, Arg_Expr r] = create_Concat l r"
| "createFromKind opt K_ZExt [Arg_Expr e, Arg_Width w] = create_ZExt e w"
| "createFromKind opt K_SExt [Arg_Expr e, Arg_Width w] = create_SExt e w"
| "createFromKind opt (K_Binary k) [Arg_Expr l, Arg_Expr r] = create_binary opt k l r"
| "createFromKind opt _ _ = None"

text \<open>Creation from the kind and the kids of an expression is rebuilding it.\<close>

fun kind_args :: "expr \<Rightarrow> (expr_kind \<times> create_arg list) option" where
  "kind_args (NotOptimized e) = Some (K_NotOptimized, [Arg_Expr e])"
| "kind_args (Select c t f) = Some (K_Select, [Arg_Expr c, Arg_Expr t, Arg_Expr f])"
| "kind_args (Concat l r) = Some (K_Concat, [Arg_Expr l, Arg_Expr r])"
| "kind_args (ZExt e w) = Some (K_ZExt, [Arg_Expr e, Arg_Width w])"
| "kind_args (SExt e w) = Some (K_SExt, [Arg_Expr e, Arg_Width w])"
| "kind_args (Binary k l r) = Some (K_Binary k, [Arg_Expr l, Arg_Expr r])"
| "kind_args _ = None"

lemma createFromKind_rebuild: "kind_args e = Some (k, args) \<Longrightarrow> createFromKind opt k args = rebuild opt e (getKids e)"
  by (cases e) auto

lemma createFromKind_makes:
  "kind_args e = Some (k, args) \<Longrightarrow> good opt \<rho> e \<Longrightarrow> divides \<rho> e \<Longrightarrow> makes opt \<rho> (createFromKind opt k args) (getWidth e) (eval \<rho> e)"
  using rebuild_makes [of "getKids e" e opt \<rho>] createFromKind_rebuild [of e k args opt] by (cases e) auto

section \<open>Properties\<close>

text \<open>
  C19: Rebuilding an expression with other kids never fails an assertion when the plain
  expression with those kids is well-formed and does not divide by zero, and it returns a
  well-formed expression of the same width and of the same value: every rewriting done by the
  constructors of \<open>src/lib/Expr/Expr.cpp\<close> is type-correct and keeps the meaning, for all kinds
  of expressions and all contents of the arrays. (With constant-array rewriting on, reads of
  constant arrays have to stay inside them.)
\<close>

theorem rebuild_sound:
  assumes "getKids e \<noteq> []" "length kids = length (getKids e)" "wf_expr (with_kids e kids)" "divides \<rho> (with_kids e kids)"
    and "opt \<longrightarrow> reads_in \<rho> (with_kids e kids)"
  shows "\<exists>e'. rebuild opt e kids = Some e' \<and> wf_expr e' \<and> getWidth e' = getWidth (with_kids e kids) \<and>
    eval \<rho> e' = eval \<rho> (with_kids e kids)"
  using rebuild_makes [OF assms(2,1) _ assms(4), of opt] assms(3,5) by (auto simp: makes_def good_def)

definition sample_array :: array where
  "sample_array = \<lparr>array_ref = 0, array_name = ''x'', array_size = 4, domain = 32, range_w = 8, constantValues = []\<rparr>"

definition sample_read :: "nat \<Rightarrow> expr" where
  "sample_read i = Read sample_array No_Update (Constant 32 (int i))"

lemma sample_array_ok [simp]: "array_ok sample_array" "domain sample_array = 32" "range_w sample_array = 8" "constantValues sample_array = []"
  by (simp_all add: array_ok_def sample_array_def)

theorem rebuild_sound_witness:
  "\<exists>e'. rebuild False (Binary Sub (sample_read 0) (Constant 8 3)) [Binary Add (Constant 8 5) (sample_read 1), Constant 8 3] = Some e' \<and>
     wf_expr e' \<and> getWidth e' = 8 \<and> eval (\<lambda>arr i. 7) e' = 9"
  using rebuild_sound [of "Binary Sub (sample_read 0) (Constant 8 3)" "[Binary Add (Constant 8 5) (sample_read 1), Constant 8 3]" "\<lambda>arr i. 7" False]
  by (simp add: sample_read_def const_ok_def divides_def is_div_def is_cmp_def initial_byte_def)

end
