(* ===== verification/Expr_Evaluator.thy ===== *)
theory Expr_Evaluator
  imports Expr_Build
begin

text \<open>
  Evaluation of expressions under an assignment of bytes to arrays: the traversal
  \<open>ExprVisitor::visitActual\<close> of \<open>src/lib/Expr/ExprVisitor.cpp\<close>, the handlers of
  \<open>ExprEvaluator\<close> in \<open>src/lib/Expr/ExprEvaluator.cpp\<close>, and \<open>Assignment\<close> in
  \<open>src/include/klee/util/Assignment.h\<close>. The table of visited expressions is left out
  (\<open>-use-visitor-hash=false\<close>): it returns what the same visit returned before.
\<close>

section \<open>Visitors\<close>

datatype action = SkipChildren | DoChildren | ChangeTo expr

text \<open>
  The case \<open>DoChildren\<close>: the kids are visited, the expression is rebuilt when one changed,
  and the result has its post visit. This is a visitor that is not recursive.
\<close>

definition visit_children :: "bool \<Rightarrow> (expr \<Rightarrow> action) \<Rightarrow> (expr \<Rightarrow> expr option) \<Rightarrow> expr \<Rightarrow> expr option" where
  "visit_children opt visitExprPost visit e =
     do {
       kids \<leftarrow> those (map visit (getKids e));
       e' \<leftarrow> (if kids \<noteq> getKids e then rebuild opt e kids else Some e);
       Some (if dyn_const e' \<noteq> None then e' else case visitExprPost e' of ChangeTo x \<Rightarrow> x | _ \<Rightarrow> e')
     }"

definition visitActual ::
  "bool \<Rightarrow> (expr \<Rightarrow> action option) \<Rightarrow> (expr \<Rightarrow> action option) \<Rightarrow> (expr \<Rightarrow> action) \<Rightarrow> (expr \<Rightarrow> expr option) \<Rightarrow> expr \<Rightarrow> expr option" where
  "visitActual opt visitExpr visitKind visitExprPost visit e =
     (if dyn_const e \<noteq> None then Some e
      else do {
        res \<leftarrow> visitExpr e;
        (case res of
           SkipChildren \<Rightarrow> Some e
         | ChangeTo x \<Rightarrow> Some x
         | DoChildren \<Rightarrow> do {
             res \<leftarrow> visitKind e;
             (case res of
                DoChildren \<Rightarrow> visit_children opt visitExprPost visit e
              | SkipChildren \<Rightarrow> Some e
              | ChangeTo x \<Rightarrow> Some x)
           })
      })"

lemma visit_children_cong [fundef_cong]:
  assumes "opt = opt'" "post = post'" "e = e'" "\<And>k. k \<in> set (getKids e') \<Longrightarrow> visit k = visit' k"
  shows "visit_children opt post visit e = visit_children opt' post' visit' e'"
  using assms by (simp add: visit_children_def cong: map_cong)

lemma visitActual_cong [fundef_cong]:
  assumes "opt = opt'" "ve = ve'" "post = post'" "e = e'" "dyn_const e' = None \<Longrightarrow> vk e' = vk' e'"
    and "\<And>k. dyn_const e' = None \<Longrightarrow> k \<in> set (getKids e') \<Longrightarrow> visit k = visit' k"
  shows "visitActual opt ve vk post visit e = visitActual opt' ve' vk' post' visit' e'"
  using assms visit_children_cong [OF assms(1,3,4), of visit visit']
  by (cases "dyn_const e'") (auto simp: visitActual_def intro!: Option.bind_cong split: action.split)

lemma getKids_size: "k \<in> set (getKids e) \<Longrightarrow> size k < size e"
  by (cases e) auto

section \<open>The evaluator\<close>

definition evaluator_visitExpr :: "bool \<Rightarrow> expr \<Rightarrow> action option" where
  "evaluator_visitExpr opt e =
     (if getKids e = [] \<or> (case e of Read arr us i \<Rightarrow> True | _ \<Rightarrow> False) then Some DoChildren
      else if \<exists>kid \<in> set (getKids e). dyn_const kid = None then Some DoChildren
      else map_option ChangeTo (rebuild opt e (getKids e)))"

definition evaluator_visitExprPost :: "expr \<Rightarrow> action" where
  "evaluator_visitExprPost e = (case e of NotOptimized src \<Rightarrow> ChangeTo src | _ \<Rightarrow> SkipChildren)"

text \<open>\<open>getZExtValue\<close> of a constant of more than 64 bits fails an assertion.\<close>

definition getZExtValue :: "nat \<Rightarrow> int \<Rightarrow> int option" where
  "getZExtValue w v = (if w \<le> 64 then Some v else None)"

text \<open>
  The handlers and the visit call each other. The index of a read is passed as an
  \<open>unsigned\<close>, so it loses its upper bits there.
\<close>

function visit :: "bool \<Rightarrow> (array \<Rightarrow> nat \<Rightarrow> expr option) \<Rightarrow> expr \<Rightarrow> expr option"
  and visitRead :: "bool \<Rightarrow> (array \<Rightarrow> nat \<Rightarrow> expr option) \<Rightarrow> array \<Rightarrow> update_node \<Rightarrow> expr \<Rightarrow> action option"
  and protectedDivOperation :: "bool \<Rightarrow> (array \<Rightarrow> nat \<Rightarrow> expr option) \<Rightarrow> kind \<Rightarrow> expr \<Rightarrow> expr \<Rightarrow> action option"
  and evalRead :: "bool \<Rightarrow> (array \<Rightarrow> nat \<Rightarrow> expr option) \<Rightarrow> array \<Rightarrow> update_node \<Rightarrow> nat \<Rightarrow> expr option"
where
  "visit opt getInitialValue e =
     visitActual opt (evaluator_visitExpr opt)
       (\<lambda>e. case e of
          Read arr us i \<Rightarrow> visitRead opt getInitialValue arr us i
        | Binary k l r \<Rightarrow> if is_div k then protectedDivOperation opt getInitialValue k l r else Some DoChildren
        | _ \<Rightarrow> Some DoChildren)
       evaluator_visitExprPost (visit opt getInitialValue) e"
| "visitRead opt getInitialValue arr us i =
     do {
       v \<leftarrow> visit opt getInitialValue i;
       (case dyn_const v of
          Some (w, c) \<Rightarrow> do {
            index \<leftarrow> getZExtValue w c;
            map_option ChangeTo (evalRead opt getInitialValue arr us (nat (take_bit 32 index)))
          }
        | None \<Rightarrow> Some DoChildren)
     }"
| "protectedDivOperation opt getInitialValue k l r =
     do {
       kid0 \<leftarrow> visit opt getInitialValue l;
       kid \<leftarrow> visit opt getInitialValue r;
       let kid1 = (case dyn_const kid of Some (w, v) \<Rightarrow> (if v = 0 then r else kid) | None \<Rightarrow> kid);
       (if kid0 \<noteq> l \<or> kid1 \<noteq> r then map_option ChangeTo (rebuild opt (Binary k l r) [kid0, kid1])
        else Some SkipChildren)
     }"
| "evalRead opt getInitialValue arr No_Update index =
     (if constantValues arr \<noteq> [] \<and> index < array_size arr then Some (Constant (range_w arr) (constantValues arr ! index))
      else getInitialValue arr index)"
| "evalRead opt getInitialValue arr (Update_Node un_next un_index un_value) index =
     do {
       ui \<leftarrow> visit opt getInitialValue un_index;
       (case dyn_const ui of
          Some (w, c) \<Rightarrow> do {
            i \<leftarrow> getZExtValue w c;
            if i = int index then visit opt getInitialValue un_value
            else evalRead opt getInitialValue arr un_next index
          }
        | None \<Rightarrow> create_Read opt arr (Update_Node un_next un_index un_value) (ConstantExpr_alloc (int index) (domain arr)))
     }"
  by pat_completeness auto

termination
  by (relation "measure (\<lambda>x. case x of
        Inl (Inl (opt, init, e)) \<Rightarrow> 2 * size e + 1
      | Inl (Inr (opt, init, arr, us, i)) \<Rightarrow> 2 * (size us + size i) + 2
      | Inr (Inl (opt, init, k, l, r)) \<Rightarrow> 2 * (size l + size r) + 2
      | Inr (Inr (opt, init, arr, us, index)) \<Rightarrow> 2 * size us)")
    (auto dest: getKids_size)

declare visit.simps [simp del]

section \<open>What evaluation keeps\<close>

text \<open>
  Expressions that can be evaluated: no division by zero, and the indices of arrays fit
  \<open>unsigned\<close>, as the 32 bits of the arrays of the engine do.
\<close>

fun evaluable :: "contents \<Rightarrow> expr \<Rightarrow> bool" and evaluable_updates :: "contents \<Rightarrow> update_node \<Rightarrow> bool" where
  "evaluable \<rho> (Constant w v) = True"
| "evaluable \<rho> (NotOptimized e) = evaluable \<rho> e"
| "evaluable \<rho> (Read arr us i) = (domain arr \<le> 32 \<and> evaluable_updates \<rho> us \<and> evaluable \<rho> i)"
| "evaluable \<rho> (Select c t f) = (evaluable \<rho> c \<and> evaluable \<rho> t \<and> evaluable \<rho> f)"
| "evaluable \<rho> (Concat l r) = (evaluable \<rho> l \<and> evaluable \<rho> r)"
| "evaluable \<rho> (Extract e off w) = evaluable \<rho> e"
| "evaluable \<rho> (ZExt e w) = evaluable \<rho> e"
| "evaluable \<rho> (SExt e w) = evaluable \<rho> e"
| "evaluable \<rho> (NotExpr e) = evaluable \<rho> e"
| "evaluable \<rho> (Binary k l r) = (evaluable \<rho> l \<and> evaluable \<rho> r \<and> (is_div k \<longrightarrow> eval \<rho> r \<noteq> 0))"
| "evaluable_updates \<rho> No_Update = True"
| "evaluable_updates \<rho> (Update_Node un_next ix v) = (evaluable_updates \<rho> un_next \<and> evaluable \<rho> ix \<and> evaluable \<rho> v)"

lemma good_kids: "good opt \<rho> e \<Longrightarrow> k \<in> set (getKids e) \<Longrightarrow> good opt \<rho> k"
  by (cases e) (auto simp: good_Read)

lemma evaluable_kids: "evaluable \<rho> e \<Longrightarrow> k \<in> set (getKids e) \<Longrightarrow> evaluable \<rho> k"
  by (cases e) auto

lemma evaluable_divides: "evaluable \<rho> e \<Longrightarrow> divides \<rho> e"
  by (cases e) (auto simp: divides_def)

text \<open>Kids of the same width and value can stand for one another.\<close>

definition like :: "bool \<Rightarrow> contents \<Rightarrow> expr \<Rightarrow> expr \<Rightarrow> bool" where
  "like opt \<rho> k k' \<longleftrightarrow> good opt \<rho> k' \<and> getWidth k' = getWidth k \<and> eval \<rho> k' = eval \<rho> k"

lemma with_like_kids:
  assumes "good opt \<rho> e" "list_all2 (like opt \<rho>) (getKids e) kids"
  shows "good opt \<rho> (with_kids e kids)" "getWidth (with_kids e kids) = getWidth e" "eval \<rho> (with_kids e kids) = eval \<rho> e"
    "divides \<rho> (with_kids e kids) = divides \<rho> e"
  using assms by (cases e; auto simp: list_all2_Cons1 like_def good_Read divides_def)+

lemma those_like:
  "\<forall>k \<in> set ks. makes opt \<rho> (f k) (getWidth k) (eval \<rho> k) \<Longrightarrow> \<exists>kids. those (map f ks) = Some kids \<and> list_all2 (like opt \<rho>) ks kids"
  by (induction ks) (auto simp: makes_def like_def)

lemma rebuild_like:
  assumes "good opt \<rho> e" "divides \<rho> e" "getKids e \<noteq> []" "list_all2 (like opt \<rho>) (getKids e) kids"
  shows "makes opt \<rho> (rebuild opt e kids) (getWidth e) (eval \<rho> e)"
  using rebuild_makes [of kids e opt \<rho>] with_like_kids [OF assms(1,4)] assms(2,3) list_all2_lengthD [OF assms(4)] by simp

lemma like_refl: "good opt \<rho> e \<Longrightarrow> list_all2 (like opt \<rho>) (getKids e) (getKids e)"
  by (auto simp: list_all2_same like_def dest: good_kids)

text \<open>What a handler of an expression may return.\<close>

definition acts :: "bool \<Rightarrow> contents \<Rightarrow> action option \<Rightarrow> nat \<Rightarrow> int \<Rightarrow> bool" where
  "acts opt \<rho> res w v \<longleftrightarrow> (\<exists>act. res = Some act \<and> (\<forall>x. act = ChangeTo x \<longrightarrow> good opt \<rho> x \<and> getWidth x = w \<and> eval \<rho> x = v))"

lemma acts_ChangeTo: "makes opt \<rho> res w v \<Longrightarrow> acts opt \<rho> (map_option ChangeTo res) w v"
  by (auto simp: acts_def makes_def)

lemma visit_children_makes:
  assumes e: "good opt \<rho> e" "divides \<rho> e" "dyn_const e = None"
    and kids: "\<And>k. k \<in> set (getKids e) \<Longrightarrow> makes opt \<rho> (f k) (getWidth k) (eval \<rho> k)"
    and post: "\<And>e x. good opt \<rho> e \<Longrightarrow> post e = ChangeTo x \<Longrightarrow> like opt \<rho> e x"
  shows "makes opt \<rho> (visit_children opt post f e) (getWidth e) (eval \<rho> e)"
proof -
  obtain kids where ks: "those (map f (getKids e)) = Some kids" "list_all2 (like opt \<rho>) (getKids e) kids"
    using those_like [of "getKids e" opt \<rho> f] kids by blast
  have ne: "getKids e \<noteq> []" using e(3) by (cases e) auto
  let ?r = "if kids \<noteq> getKids e then rebuild opt e kids else Some e"
  have "makes opt \<rho> ?r (getWidth e) (eval \<rho> e)" using rebuild_like [OF e(1,2) ne ks(2)] e(1) by simp
  then have "makes opt \<rho> (?r \<bind> (\<lambda>e'. Some (if dyn_const e' \<noteq> None then e' else case post e' of ChangeTo x \<Rightarrow> x | _ \<Rightarrow> e'))) (getWidth e) (eval \<rho> e)"
    by (rule makes_bind) (use post in \<open>auto simp: like_def split: action.split\<close>)
  then show ?thesis using ks(1) by (simp add: visit_children_def)
qed

lemma visitActual_makes:
  assumes e: "good opt \<rho> e" "divides \<rho> e"
    and ve: "dyn_const e = None \<Longrightarrow> acts opt \<rho> (ve e) (getWidth e) (eval \<rho> e)"
    and vk: "dyn_const e = None \<Longrightarrow> acts opt \<rho> (vk e) (getWidth e) (eval \<rho> e)"
    and kids: "\<And>k. dyn_const e = None \<Longrightarrow> k \<in> set (getKids e) \<Longrightarrow> makes opt \<rho> (f k) (getWidth k) (eval \<rho> k)"
    and post: "\<And>e x. good opt \<rho> e \<Longrightarrow> post e = ChangeTo x \<Longrightarrow> like opt \<rho> e x"
  shows "makes opt \<rho> (visitActual opt ve vk post f e) (getWidth e) (eval \<rho> e)"
proof (cases "dyn_const e")
  case None
  obtain a b where ab: "ve e = Some a" "vk e = Some b" using ve [OF None] vk [OF None] by (auto simp: acts_def)
  have c: "makes opt \<rho> (visit_children opt post f e) (getWidth e) (eval \<rho> e)"
    by (rule visit_children_makes [OF e None kids [OF None] post])
  show ?thesis using ab ve [OF None] vk [OF None] c None e(1)
    by (cases a; cases b) (auto simp: visitActual_def acts_def)
qed (use e in \<open>simp add: visitActual_def\<close>)

lemma evaluator_visitExpr_acts:
  assumes "good opt \<rho> e" "divides \<rho> e"
  shows "acts opt \<rho> (evaluator_visitExpr opt e) (getWidth e) (eval \<rho> e)"
proof -
  have "acts opt \<rho> (map_option ChangeTo (rebuild opt e (getKids e))) (getWidth e) (eval \<rho> e)" if "getKids e \<noteq> []"
    by (rule acts_ChangeTo [OF rebuild_like [OF assms that like_refl [OF assms(1)]]])
  then show ?thesis by (auto simp: evaluator_visitExpr_def acts_def)
qed

lemma evaluator_post: "good opt \<rho> e \<Longrightarrow> evaluator_visitExprPost e = ChangeTo x \<Longrightarrow> like opt \<rho> e x"
  by (cases e) (auto simp: evaluator_visitExprPost_def like_def)

text \<open>Visits of smaller expressions keep width and value.\<close>

definition visits_below :: "bool \<Rightarrow> contents \<Rightarrow> (array \<Rightarrow> nat \<Rightarrow> expr option) \<Rightarrow> nat \<Rightarrow> bool" where
  "visits_below opt \<rho> getInitialValue n \<longleftrightarrow> (\<forall>e. size e < n \<longrightarrow> good opt \<rho> e \<longrightarrow> evaluable \<rho> e \<longrightarrow>
     makes opt \<rho> (visit opt getInitialValue e) (getWidth e) (eval \<rho> e))"

section \<open>Initial values\<close>

text \<open>The contract of the method \<open>getInitialValue\<close>, which an evaluator supplies.\<close>

locale initial_values =
  fixes opt :: bool and \<rho> :: contents and getInitialValue :: "array \<Rightarrow> nat \<Rightarrow> expr option"
  assumes initial_makes: "array_ok arr \<Longrightarrow> constantValues arr = [] \<or> \<not> opt \<and> array_size arr \<le> i \<Longrightarrow> int i < 2 ^ domain arr \<Longrightarrow>
    makes opt \<rho> (getInitialValue arr i) (range_w arr) (take_bit (range_w arr) (\<rho> arr i))"
begin

lemma visits_belowD: "visits_below opt \<rho> getInitialValue n \<Longrightarrow> size e < n \<Longrightarrow> good opt \<rho> e \<Longrightarrow> evaluable \<rho> e \<Longrightarrow>
    makes opt \<rho> (visit opt getInitialValue e) (getWidth e) (eval \<rho> e)"
  by (simp add: visits_below_def)

lemma evalRead_makes:
  assumes arr: "array_ok arr" "domain arr \<le> 32" "int index < 2 ^ domain arr" "opt \<Longrightarrow> constantValues arr \<noteq> [] \<Longrightarrow> index < array_size arr"
    and n: "visits_below opt \<rho> getInitialValue n"
  shows "size us < n \<Longrightarrow> good_updates opt \<rho> arr us \<Longrightarrow> evaluable_updates \<rho> us \<Longrightarrow>
    makes opt \<rho> (evalRead opt getInitialValue arr us index) (range_w arr) (lookup_update \<rho> arr us (int index))"
proof (induction "size us" arbitrary: us rule: less_induct)
  case (less us)
  show ?case
  proof (cases us)
    case No_Update
    have "constantValues arr = [] \<or> length (constantValues arr) = array_size arr"
      "\<forall>v \<in> set (constantValues arr). const_ok (range_w arr) v" using arr(1) by (auto simp: array_ok_def)
    then show ?thesis using initial_makes [OF arr(1) _ arr(3)] arr(4) No_Update by (cases opt) (auto simp: initial_byte_def)
  next
    case (Update_Node un_next ix v)
    have un: "good_updates opt \<rho> arr un_next" "good opt \<rho> ix" "getWidth ix = domain arr" "good opt \<rho> v" "getWidth v = range_w arr"
        "evaluable_updates \<rho> un_next" "evaluable \<rho> ix" "evaluable \<rho> v" "size un_next < n" "size ix < n" "size v < n" "size un_next < size us"
      using less.prems Update_Node by simp_all
    obtain ui where ui: "visit opt getInitialValue ix = Some ui" "getWidth ui = domain arr" "eval \<rho> ui = eval \<rho> ix"
      using visits_belowD [OF n un(10,2,7)] un(3) by (auto simp: makes_def)
    show ?thesis
    proof (cases "dyn_const ui")
      case None
      have i: "take_bit (domain arr) (int index) = int index" using arr(3) by (simp add: take_bit_int_eq_self)
      have d: "0 < domain arr" using arr(1) by (simp add: array_ok_def)
      have "good opt \<rho> (Read arr us (ConstantExpr_alloc (int index) (domain arr)))"
        using arr less.prems i d by (auto simp: good_Read ConstantExpr_alloc_def const_ok_def)
      from create_Read_makes [OF this] show ?thesis using ui(1) None Update_Node i by (simp add: ConstantExpr_alloc_def)
    next
      case (Some a)
      then have c: "ui = Constant (domain arr) (eval \<rho> ix)" using ui(2,3) by (cases a) auto
      show ?thesis
        using ui(1) c arr(2) Update_Node visits_belowD [OF n un(11,4,8)] less.hyps [OF un(12,9,1,6)] un(5)
        by (simp add: getZExtValue_def)
    qed
  qed
qed

lemma visitRead_acts:
  assumes "good opt \<rho> (Read arr us i)" "evaluable \<rho> (Read arr us i)" "visits_below opt \<rho> getInitialValue n" "size us < n" "size i < n"
  shows "acts opt \<rho> (visitRead opt getInitialValue arr us i) (range_w arr) (eval \<rho> (Read arr us i))"
proof -
  have g: "array_ok arr" "good_updates opt \<rho> arr us" "good opt \<rho> i" "getWidth i = domain arr"
      "opt \<Longrightarrow> constantValues arr \<noteq> [] \<Longrightarrow> eval \<rho> i < int (array_size arr)" "domain arr \<le> 32" "evaluable \<rho> i" "evaluable_updates \<rho> us"
    using assms(1,2) by (simp_all add: good_Read)
  obtain x where x: "visit opt getInitialValue i = Some x" "getWidth x = domain arr" "eval \<rho> x = eval \<rho> i"
    using visits_belowD [OF assms(3,5) g(3,7)] g(4) by (auto simp: makes_def)
  show ?thesis
  proof (cases "dyn_const x")
    case None
    then show ?thesis using x(1) by (simp add: acts_def)
  next
    case (Some a)
    then have c: "x = Constant (domain arr) (eval \<rho> i)" using x(2,3) by (cases a) auto
    have ok: "const_ok (domain arr) (eval \<rho> i)" using good_eval [OF g(3)] g(4) by simp
    have t: "take_bit 32 (eval \<rho> i) = eval \<rho> i" "0 \<le> eval \<rho> i" "eval \<rho> i < 2 ^ domain arr"
      using const_ok_mono [OF ok g(6)] ok by (simp_all add: const_ok_def)
    have "makes opt \<rho> (evalRead opt getInitialValue arr us (nat (eval \<rho> i))) (range_w arr) (lookup_update \<rho> arr us (int (nat (eval \<rho> i))))"
      using t g(5) by (intro evalRead_makes [OF g(1,6) _ _ assms(3,4) g(2,8)]) (auto simp: nat_less_iff)
    then show ?thesis using acts_ChangeTo x(1) c g(6) t(1,2) by (simp add: getZExtValue_def)
  qed
qed

lemma protected_acts:
  assumes "good opt \<rho> (Binary k l r)" "evaluable \<rho> (Binary k l r)" "is_div k" "visits_below opt \<rho> getInitialValue n" "size l < n" "size r < n"
  shows "acts opt \<rho> (protectedDivOperation opt getInitialValue k l r) (getWidth (Binary k l r)) (eval \<rho> (Binary k l r))"
proof -
  have g: "good opt \<rho> l" "good opt \<rho> r" "evaluable \<rho> l" "evaluable \<rho> r" "eval \<rho> r \<noteq> 0" using assms(1-3) by simp_all
  obtain x y where xy: "visit opt getInitialValue l = Some x" "like opt \<rho> l x" "visit opt getInitialValue r = Some y" "like opt \<rho> r y"
    using visits_belowD [OF assms(4,5) g(1,3)] visits_belowD [OF assms(4,6) g(2,4)] by (auto simp: makes_def like_def)
  have "(case dyn_const y of Some (w, v) \<Rightarrow> (if v = 0 then r else y) | None \<Rightarrow> y) = y"
    using xy(4) g(5) by (cases "dyn_const y") (auto simp: like_def)
  moreover have "acts opt \<rho> (map_option ChangeTo (rebuild opt (Binary k l r) [x, y])) (getWidth (Binary k l r)) (eval \<rho> (Binary k l r))"
    by (rule acts_ChangeTo [OF rebuild_like [OF assms(1) evaluable_divides [OF assms(2)]]]) (use xy in simp_all)
  ultimately show ?thesis using xy(1,3) by (simp add: acts_def)
qed

lemma visit_makes:
  "good opt \<rho> e \<Longrightarrow> evaluable \<rho> e \<Longrightarrow> makes opt \<rho> (visit opt getInitialValue e) (getWidth e) (eval \<rho> e)"
proof (induction "size e" arbitrary: e rule: less_induct)
  case (less e)
  have n: "visits_below opt \<rho> getInitialValue (size e)" unfolding visits_below_def using less.hyps by blast
  show ?case unfolding visit.simps [of _ _ e]
  proof (rule visitActual_makes [OF less.prems(1) evaluable_divides [OF less.prems(2)]])
    show "acts opt \<rho> (evaluator_visitExpr opt e) (getWidth e) (eval \<rho> e)"
      by (rule evaluator_visitExpr_acts [OF less.prems(1) evaluable_divides [OF less.prems(2)]])
    show "acts opt \<rho> (case e of Read arr us i \<Rightarrow> visitRead opt getInitialValue arr us i
        | Binary k l r \<Rightarrow> if is_div k then protectedDivOperation opt getInitialValue k l r else Some DoChildren
        | _ \<Rightarrow> Some DoChildren) (getWidth e) (eval \<rho> e)"
    proof (cases e)
      case (Read arr us i)
      then show ?thesis using visitRead_acts [of arr us i, OF _ _ n] less.prems by simp
    next
      case (Binary k l r)
      then show ?thesis using protected_acts [of k l r, OF _ _ _ n] less.prems by (auto simp: acts_def)
    qed (simp_all add: acts_def)
    show "makes opt \<rho> (visit opt getInitialValue k) (getWidth k) (eval \<rho> k)" if "k \<in> set (getKids e)" for k
      using visits_belowD [OF n getKids_size [OF that] good_kids [OF less.prems(1) that] evaluable_kids [OF less.prems(2) that]] .
  qed (rule evaluator_post)
qed

end

section \<open>Assignments\<close>

text \<open>
  \<open>Assignment\<close>: the bytes bound to arrays, and whether what is not bound stays free.
\<close>

record assignment =
  allowFreeValues :: bool
  bindings :: "array \<Rightarrow> int list option"

definition Assignment :: "array list \<Rightarrow> int list list \<Rightarrow> bool \<Rightarrow> assignment" where
  "Assignment objects values free =
     \<lparr>allowFreeValues = free,
      bindings = foldl (\<lambda>m (os, arr). if m os = None then m(os \<mapsto> arr) else m) Map.empty (zip objects values)\<rparr>"

text \<open>\<open>Assignment::evaluate\<close> of a byte of an array and of an expression, and \<open>Assignment::satisfies\<close>.\<close>

definition evaluate_byte :: "bool \<Rightarrow> assignment \<Rightarrow> array \<Rightarrow> nat \<Rightarrow> expr option" where
  "evaluate_byte opt a arr index =
     (case bindings a arr of
        Some bytes \<Rightarrow>
          if index < length bytes then Some (ConstantExpr_alloc (bytes ! index) (range_w arr))
          else if allowFreeValues a then create_Read opt arr No_Update (ConstantExpr_alloc (int index) (domain arr))
          else Some (ConstantExpr_alloc 0 (range_w arr))
      | None \<Rightarrow>
          if allowFreeValues a then create_Read opt arr No_Update (ConstantExpr_alloc (int index) (domain arr))
          else Some (ConstantExpr_alloc 0 (range_w arr)))"

definition evaluate :: "bool \<Rightarrow> assignment \<Rightarrow> expr \<Rightarrow> expr option" where
  "evaluate opt a e = visit opt (evaluate_byte opt a) e"

definition isTrue :: "expr \<Rightarrow> bool" where
  "isTrue e = (case dyn_const e of Some (w, v) \<Rightarrow> w = 1 \<and> v \<noteq> 0 | None \<Rightarrow> False)"

fun satisfies :: "bool \<Rightarrow> assignment \<Rightarrow> expr list \<Rightarrow> bool option" where
  "satisfies opt a [] = Some True"
| "satisfies opt a (e # es) = do { v \<leftarrow> evaluate opt a e; if \<not> isTrue v then Some False else satisfies opt a es }"

text \<open>The contents of the arrays under an assignment; what stays free is taken from elsewhere.\<close>

definition contents_of :: "assignment \<Rightarrow> contents \<Rightarrow> contents" where
  "contents_of a \<rho> arr i =
     (case bindings a arr of
        Some bytes \<Rightarrow> if i < length bytes then bytes ! i else if allowFreeValues a then \<rho> arr i else 0
      | None \<Rightarrow> if allowFreeValues a then \<rho> arr i else 0)"

lemma free_byte_makes:
  assumes "array_ok arr" "constantValues arr = [] \<or> \<not> opt \<and> array_size arr \<le> i" "int i < 2 ^ domain arr"
  shows "makes opt \<rho> (create_Read opt arr No_Update (ConstantExpr_alloc (int i) (domain arr))) (range_w arr) (take_bit (range_w arr) (\<rho> arr i))"
proof -
  have i: "take_bit (domain arr) (int i) = int i" using assms(3) by (simp add: take_bit_int_eq_self)
  have "good opt \<rho> (Read arr No_Update (ConstantExpr_alloc (int i) (domain arr)))"
    using assms i by (auto simp: good_Read ConstantExpr_alloc_def const_ok_def array_ok_def)
  from create_Read_makes [OF this] show ?thesis using i assms(1,2)
    by (auto simp: ConstantExpr_alloc_def initial_byte_def array_ok_def)
qed

lemma evaluate_byte_makes:
  assumes "array_ok arr" "constantValues arr = [] \<or> \<not> opt \<and> array_size arr \<le> i" "int i < 2 ^ domain arr"
  shows "makes opt (contents_of a \<rho>) (evaluate_byte opt a arr i) (range_w arr) (take_bit (range_w arr) (contents_of a \<rho> arr i))"
proof -
  have r: "0 < range_w arr" using assms(1) by (simp add: array_ok_def)
  show ?thesis
    using free_byte_makes [OF assms, of "contents_of a \<rho>"] r
    by (auto simp: evaluate_byte_def contents_of_def ConstantExpr_alloc_def const_okI const_ok_zero split: option.splits)
qed

interpretation assigned: initial_values opt "contents_of a \<rho>" "evaluate_byte opt a" for opt a \<rho>
  by unfold_locales (rule evaluate_byte_makes)

section \<open>Full evaluation\<close>

text \<open>
  An opaque constant, \<open>NotOptimized\<close> around a constant, is returned as it is: \<open>visitExpr\<close>
  rebuilds it before \<open>visitExprPost\<close> could unwrap it. Without such subterms, and when the
  initial bytes are constants, the result of a visit is a constant.
\<close>

fun opaque_free :: "expr \<Rightarrow> bool" and opaque_free_updates :: "update_node \<Rightarrow> bool" where
  "opaque_free (Constant w v) = True"
| "opaque_free (NotOptimized e) = (dyn_const e = None \<and> opaque_free e)"
| "opaque_free (Read arr us i) = (opaque_free_updates us \<and> opaque_free i)"
| "opaque_free (Select c t f) = (opaque_free c \<and> opaque_free t \<and> opaque_free f)"
| "opaque_free (Concat l r) = (opaque_free l \<and> opaque_free r)"
| "opaque_free (Extract e off w) = opaque_free e"
| "opaque_free (ZExt e w) = opaque_free e"
| "opaque_free (SExt e w) = opaque_free e"
| "opaque_free (NotExpr e) = opaque_free e"
| "opaque_free (Binary k l r) = (opaque_free l \<and> opaque_free r)"
| "opaque_free_updates No_Update = True"
| "opaque_free_updates (Update_Node un_next ix v) = (opaque_free_updates un_next \<and> opaque_free ix \<and> opaque_free v)"

definition gives_const :: "expr option \<Rightarrow> bool" where
  "gives_const res \<longleftrightarrow> (\<forall>e. res = Some e \<longrightarrow> dyn_const e \<noteq> None)"

lemma makes_const: "makes opt \<rho> res w v \<Longrightarrow> gives_const res \<Longrightarrow> res = Some (Constant w v)"
  by (fastforce simp: makes_def gives_const_def)

lemma create_Extract_const: "gives_const (create_Extract (Constant kw v) off w)"
  by (subst create_Extract.simps) (auto simp: gives_const_def ConstantExpr_Extract_def)

lemma bcreate_const:
  "gives_const (bcreate_r k p q f (Constant w a) (Constant w' b))" "gives_const (bcreate k f (Constant w a) (Constant w' b))"
  by (auto simp: gives_const_def bcreate_r_def bcreate_def ConstantExpr_op_def)

lemma create_binary_const: "gives_const (create_binary opt k (Constant w a) (Constant w' b))"
proof (cases "k = Ne")
  case True
  have e: "create_Eq opt (Constant w a) (Constant w' b) = Some x \<Longrightarrow> \<exists>w v. x = Constant w v" for w a w' b x
    using bcreate_const(1) [of Eq _ _ _ w a w' b] by (fastforce simp: create_Eq_def gives_const_def)
  show ?thesis unfolding True create_binary.simps gives_const_def
    by (auto simp: ConstantExpr_create_def bind_eq_Some_conv dest!: e)
next
  case False
  have "gives_const (create_Add opt (Constant w a) (Constant w' b))" "gives_const (create_Sub opt (Constant w a) (Constant w' b))"
    by (subst create_Add.simps create_Sub.simps, simp add: gives_const_def ConstantExpr_op_def)+
  then show ?thesis using False
    by (cases k) (simp_all add: bcreate_const create_And_def create_Or_def create_Xor_def create_Mul_def create_Eq_def)
qed

lemma rebuild_const:
  assumes "\<forall>k \<in> set kids. dyn_const k \<noteq> None" "\<And>x. e \<noteq> NotOptimized x" "\<And>arr us i. e \<noteq> Read arr us i"
  shows "gives_const (rebuild opt e kids)"
proof (cases "(opt, e, kids)" rule: rebuild.cases)
  case (4 opt l r a b)
  then show ?thesis using assms(1) by (auto simp: gives_const_def create_Concat_def ConcatExpr_create_def ConstantExpr_Concat_def)
next
  case (9 opt k l r a b)
  then show ?thesis using assms(1) create_binary_const by auto
qed (use assms create_Extract_const in \<open>auto simp: gives_const_def create_Select_def create_ZExt_def create_SExt_def create_Not_def
    ConstantExpr_ZExt_def ConstantExpr_SExt_def ConstantExpr_Not_def split: if_splits\<close>)

definition exact_below :: "bool \<Rightarrow> contents \<Rightarrow> (array \<Rightarrow> nat \<Rightarrow> expr option) \<Rightarrow> nat \<Rightarrow> bool" where
  "exact_below opt \<rho> getInitialValue n \<longleftrightarrow> (\<forall>e. size e < n \<longrightarrow> good opt \<rho> e \<longrightarrow> evaluable \<rho> e \<longrightarrow> opaque_free e \<longrightarrow>
     visit opt getInitialValue e = Some (Constant (getWidth e) (eval \<rho> e)))"

lemma exact_belowD: "exact_below opt \<rho> getInitialValue n \<Longrightarrow> size e < n \<Longrightarrow> good opt \<rho> e \<Longrightarrow> evaluable \<rho> e \<Longrightarrow> opaque_free e \<Longrightarrow>
    visit opt getInitialValue e = Some (Constant (getWidth e) (eval \<rho> e))"
  by (simp add: exact_below_def)

lemma opaque_free_kids: "opaque_free e \<Longrightarrow> k \<in> set (getKids e) \<Longrightarrow> opaque_free k"
  by (cases e) auto

lemma those_const:
  "\<forall>k \<in> set ks. f k = Some (g k) \<Longrightarrow> those (map f ks) = Some (map g ks)"
  by (induction ks) auto

locale constant_values = initial_values +
  assumes initial_const: "gives_const (getInitialValue arr i)"
begin

lemma evalRead_exact:
  assumes arr: "array_ok arr" "domain arr \<le> 32" "int index < 2 ^ domain arr" "opt \<Longrightarrow> constantValues arr \<noteq> [] \<Longrightarrow> index < array_size arr"
    and n: "exact_below opt \<rho> getInitialValue n"
  shows "size us < n \<Longrightarrow> good_updates opt \<rho> arr us \<Longrightarrow> evaluable_updates \<rho> us \<Longrightarrow> opaque_free_updates us \<Longrightarrow>
    evalRead opt getInitialValue arr us index = Some (Constant (range_w arr) (lookup_update \<rho> arr us (int index)))"
proof (induction "size us" arbitrary: us rule: less_induct)
  case (less us)
  show ?case
  proof (cases us)
    case No_Update
    have c: "constantValues arr = [] \<or> length (constantValues arr) = array_size arr" using arr(1) by (simp add: array_ok_def)
    have "getInitialValue arr index = Some (Constant (range_w arr) (take_bit (range_w arr) (\<rho> arr index)))"
      if "constantValues arr = [] \<or> \<not> opt \<and> array_size arr \<le> index"
      by (rule makes_const [OF initial_makes [OF arr(1) that arr(3)] initial_const])
    then show ?thesis using c arr(4) No_Update by (cases opt) (auto simp: initial_byte_def)
  next
    case (Update_Node un_next ix v)
    have un: "good_updates opt \<rho> arr un_next" "good opt \<rho> ix" "getWidth ix = domain arr" "good opt \<rho> v" "getWidth v = range_w arr"
        "evaluable_updates \<rho> un_next" "evaluable \<rho> ix" "evaluable \<rho> v" "size un_next < n" "size ix < n" "size v < n" "size un_next < size us"
        "opaque_free_updates un_next" "opaque_free ix" "opaque_free v"
      using less.prems Update_Node by simp_all
    show ?thesis
      using exact_belowD [OF n un(10,2,7,14)] exact_belowD [OF n un(11,4,8,15)] less.hyps [OF un(12,9,1,6,13)] un(3,5) arr(2) Update_Node
      by (simp add: getZExtValue_def)
  qed
qed

lemma visitRead_exact:
  assumes "good opt \<rho> (Read arr us i)" "evaluable \<rho> (Read arr us i)" "opaque_free (Read arr us i)"
    "exact_below opt \<rho> getInitialValue n" "size us < n" "size i < n"
  shows "visitRead opt getInitialValue arr us i = Some (ChangeTo (Constant (range_w arr) (eval \<rho> (Read arr us i))))"
proof -
  have g: "array_ok arr" "good_updates opt \<rho> arr us" "good opt \<rho> i" "getWidth i = domain arr"
      "opt \<Longrightarrow> constantValues arr \<noteq> [] \<Longrightarrow> eval \<rho> i < int (array_size arr)" "domain arr \<le> 32" "evaluable \<rho> i" "evaluable_updates \<rho> us"
      "opaque_free i" "opaque_free_updates us"
    using assms(1-3) by (simp_all add: good_Read)
  have ok: "const_ok (domain arr) (eval \<rho> i)" using good_eval [OF g(3)] g(4) by simp
  have t: "take_bit 32 (eval \<rho> i) = eval \<rho> i" "0 \<le> eval \<rho> i" "eval \<rho> i < 2 ^ domain arr"
    using const_ok_mono [OF ok g(6)] ok by (simp_all add: const_ok_def)
  have "evalRead opt getInitialValue arr us (nat (eval \<rho> i)) = Some (Constant (range_w arr) (lookup_update \<rho> arr us (int (nat (eval \<rho> i)))))"
    using t g(5) by (intro evalRead_exact [OF g(1,6) _ _ assms(4,5) g(2,8,10)]) (auto simp: nat_less_iff)
  then show ?thesis using exact_belowD [OF assms(4,6) g(3,7,9)] g(4,6) t(1,2) by (simp add: getZExtValue_def)
qed

lemma protected_exact:
  assumes "good opt \<rho> (Binary k l r)" "evaluable \<rho> (Binary k l r)" "opaque_free (Binary k l r)" "is_div k"
    "dyn_const l = None \<or> dyn_const r = None" "exact_below opt \<rho> getInitialValue n" "size l < n" "size r < n"
  shows "protectedDivOperation opt getInitialValue k l r = Some (ChangeTo (Constant (getWidth (Binary k l r)) (eval \<rho> (Binary k l r))))"
proof -
  have g: "good opt \<rho> l" "good opt \<rho> r" "evaluable \<rho> l" "evaluable \<rho> r" "eval \<rho> r \<noteq> 0" "opaque_free l" "opaque_free r"
    using assms(1-4) by simp_all
  let ?l = "Constant (getWidth l) (eval \<rho> l)" and ?r = "Constant (getWidth r) (eval \<rho> r)"
  have v: "visit opt getInitialValue l = Some ?l" "visit opt getInitialValue r = Some ?r"
    using exact_belowD [OF assms(6,7) g(1,3,6)] exact_belowD [OF assms(6,8) g(2,4,7)] by simp_all
  have "list_all2 (like opt \<rho>) (getKids (Binary k l r)) [?l, ?r]" using good_eval [OF g(1)] good_eval [OF g(2)] by (simp add: like_def)
  then have "rebuild opt (Binary k l r) [?l, ?r] = Some (Constant (getWidth (Binary k l r)) (eval \<rho> (Binary k l r)))"
    by (intro makes_const [OF rebuild_like [OF assms(1) evaluable_divides [OF assms(2)]] rebuild_const]) auto
  moreover have "?l \<noteq> l \<or> ?r \<noteq> r" using assms(5) by (metis dyn_const_Constant option.distinct(1))
  ultimately show ?thesis using v g(5) by simp
qed

lemma children_exact:
  assumes e: "good opt \<rho> e" "evaluable \<rho> e" "opaque_free e" "\<And>arr us i. e \<noteq> Read arr us i"
    and some: "\<exists>k \<in> set (getKids e). dyn_const k = None" and n: "exact_below opt \<rho> getInitialValue (size e)"
  shows "visit_children opt evaluator_visitExprPost (visit opt getInitialValue) e = Some (Constant (getWidth e) (eval \<rho> e))"
proof -
  let ?c = "\<lambda>k. Constant (getWidth k) (eval \<rho> k)"
  let ?kids = "map ?c (getKids e)"
  have "those (map (visit opt getInitialValue) (getKids e)) = Some ?kids"
    by (rule those_const) (use exact_belowD [OF n getKids_size good_kids [OF e(1)] evaluable_kids [OF e(2)] opaque_free_kids [OF e(3)]] in blast)
  moreover have "list_all2 (like opt \<rho>) (getKids e) ?kids"
    by (auto simp: list_all2_map2 list_all2_same like_def dest!: good_kids [OF e(1)] good_eval)
  then have m: "makes opt \<rho> (rebuild opt e ?kids) (getWidth e) (eval \<rho> e)"
    using some by (intro rebuild_like [OF e(1) evaluable_divides [OF e(2)]]) auto
  moreover have "?kids \<noteq> getKids e"
  proof
    assume "?kids = getKids e"
    then have "\<forall>k \<in> set (getKids e). ?c k = k" by (metis map_eq_conv map_ident)
    then show False using some by (metis dyn_const_Constant option.distinct(1))
  qed
  ultimately show ?thesis
  proof (cases "\<exists>x. e = NotOptimized x")
    case True
    then show ?thesis using \<open>those _ = _\<close> \<open>?kids \<noteq> getKids e\<close>
      by (auto simp: visit_children_def evaluator_visitExprPost_def dyn_const_def)
  next
    case False
    then have "rebuild opt e ?kids = Some (Constant (getWidth e) (eval \<rho> e))"
      using e(4) by (intro makes_const [OF m rebuild_const]) auto
    then show ?thesis using \<open>those _ = _\<close> \<open>?kids \<noteq> getKids e\<close> by (simp add: visit_children_def)
  qed
qed

lemma visit_exact:
  "good opt \<rho> e \<Longrightarrow> evaluable \<rho> e \<Longrightarrow> opaque_free e \<Longrightarrow>
   visit opt getInitialValue e = Some (Constant (getWidth e) (eval \<rho> e))"
proof (induction "size e" arbitrary: e rule: less_induct)
  case (less e)
  have n: "exact_below opt \<rho> getInitialValue (size e)" unfolding exact_below_def using less.hyps by blast
  consider (const) w v where "e = Constant w v" | (read) arr us i where "e = Read arr us i"
    | (fold) "getKids e \<noteq> []" "\<forall>k \<in> set (getKids e). dyn_const k \<noteq> None" "\<And>arr us i. e \<noteq> Read arr us i"
    | (div) k l r where "e = Binary k l r" "is_div k" "\<exists>k \<in> set (getKids e). dyn_const k = None"
    | (kids) "\<exists>k \<in> set (getKids e). dyn_const k = None" "\<And>arr us i. e \<noteq> Read arr us i" "\<And>k l r. e = Binary k l r \<Longrightarrow> \<not> is_div k"
    by (cases e; cases "\<exists>k \<in> set (getKids e). dyn_const k = None") auto
  then show ?case
  proof cases
    case const
    then show ?thesis by (simp add: visit.simps visitActual_def)
  next
    case (read arr us i)
    have "visitRead opt getInitialValue arr us i = Some (ChangeTo (Constant (range_w arr) (eval \<rho> (Read arr us i))))"
      by (rule visitRead_exact [OF less.prems [unfolded read] n]) (use read in simp_all)
    then show ?thesis using read by (simp add: visit.simps visitActual_def evaluator_visitExpr_def dyn_const_def)
  next
    case fold
    have "rebuild opt e (getKids e) = Some (Constant (getWidth e) (eval \<rho> e))"
      by (rule makes_const [OF rebuild_like [OF less.prems(1) evaluable_divides [OF less.prems(2)] fold(1) like_refl [OF less.prems(1)]] rebuild_const])
        (use fold less.prems(3) in auto)
    moreover have "dyn_const e = None" using fold(1) by (cases e) (auto simp: dyn_const_def)
    ultimately show ?thesis using fold by (auto simp: visit.simps [of _ _ e] visitActual_def evaluator_visitExpr_def split: expr.split)
  next
    case (div k l r)
    have "protectedDivOperation opt getInitialValue k l r = Some (ChangeTo (Constant (getWidth (Binary k l r)) (eval \<rho> (Binary k l r))))"
      by (rule protected_exact [OF less.prems [unfolded div(1)] div(2) _ n]) (use div in auto)
    moreover have "dyn_const e = None" "evaluator_visitExpr opt e = Some DoChildren"
      using div by (auto simp: dyn_const_def evaluator_visitExpr_def)
    ultimately show ?thesis using div(2) unfolding visit.simps [of _ _ e] visitActual_def
      by (simp add: div(1) del: protectedDivOperation.simps)
  next
    case kids
    note c = children_exact [OF less.prems kids(2,1) n]
    have "dyn_const e = None" using kids(1) by (cases e) (auto simp: dyn_const_def)
    moreover have "evaluator_visitExpr opt e = Some DoChildren" using kids(1) by (simp add: evaluator_visitExpr_def)
    moreover have "(case e of Read arr us i \<Rightarrow> visitRead opt getInitialValue arr us i
        | Binary k l r \<Rightarrow> if is_div k then protectedDivOperation opt getInitialValue k l r else Some DoChildren
        | _ \<Rightarrow> Some DoChildren) = Some DoChildren" using kids(2,3) by (cases e) auto
    ultimately show ?thesis using c by (simp add: visit.simps [of _ _ e] visitActual_def)
  qed
qed

end

lemma evaluate_byte_const: "\<not> allowFreeValues a \<Longrightarrow> gives_const (evaluate_byte opt a arr i)"
  by (auto simp: evaluate_byte_def gives_const_def ConstantExpr_alloc_def split: option.splits)

text \<open>Assignments that bind everything.\<close>

definition closed :: "assignment \<Rightarrow> assignment" where
  "closed a = a\<lparr>allowFreeValues := False\<rparr>"

lemma closed_same: "\<not> allowFreeValues a \<Longrightarrow> closed a = a"
  by (simp add: closed_def)

interpretation total: constant_values opt "contents_of (closed a) \<rho>" "evaluate_byte opt (closed a)" for opt a \<rho>
  by unfold_locales (rule evaluate_byte_const, simp add: closed_def)

lemma evaluate_closed:
  assumes "\<not> allowFreeValues a" "good opt (contents_of a \<rho>) e" "evaluable (contents_of a \<rho>) e" "opaque_free e"
  shows "evaluate opt a e = Some (Constant (getWidth e) (eval (contents_of a \<rho>) e))"
  using total.visit_exact [of opt a \<rho> e] assms by (simp add: evaluate_def closed_same)

lemma satisfies_closed:
  assumes "\<not> allowFreeValues a"
  shows "\<forall>e \<in> set es. good opt (contents_of a \<rho>) e \<and> evaluable (contents_of a \<rho>) e \<and> opaque_free e \<and> getWidth e = 1 \<Longrightarrow>
    satisfies opt a es = Some (\<forall>e \<in> set es. eval (contents_of a \<rho>) e \<noteq> 0)"
  by (induction es) (auto simp: evaluate_closed [OF assms, of opt \<rho>] isTrue_def)

section \<open>Properties\<close>


definition sample_assignment :: "bool \<Rightarrow> assignment" where
  "sample_assignment free = Assignment [sample_array] [[10, 20]] free"

lemma sample_bindings [simp]: "bindings (sample_assignment free) sample_array = Some [10, 20]" "allowFreeValues (sample_assignment free) = free"
  by (simp_all add: sample_assignment_def Assignment_def)


text \<open>
  C21: Under a total assignment, \<open>satisfies\<close> returns and says exactly whether every
  constraint is true in the contents that the assignment describes. Constraints are boolean
  expressions without divisions by zero and without opaque constants.
\<close>

theorem satisfies_exact:
  assumes "\<not> allowFreeValues a"
    and "\<forall>e \<in> set es. wf_expr e \<and> getWidth e = 1 \<and> (opt \<longrightarrow> reads_in (contents_of a \<rho>) e) \<and> evaluable (contents_of a \<rho>) e \<and> opaque_free e"
  shows "satisfies opt a es = Some (\<forall>e \<in> set es. eval (contents_of a \<rho>) e = 1)"
proof -
  have g: "\<forall>e \<in> set es. good opt (contents_of a \<rho>) e" using assms(2) by (simp add: good_def)
  have "eval (contents_of a \<rho>) e \<noteq> 0 \<longleftrightarrow> eval (contents_of a \<rho>) e = 1" if "e \<in> set es" for e
    using good_bool [of opt "contents_of a \<rho>" e] g assms(2) that by auto
  then show ?thesis using satisfies_closed [OF assms(1), of es opt \<rho>] assms(2) g by auto
qed

theorem satisfies_exact_witness:
  "satisfies False (sample_assignment False) [Binary Ult (sample_read 0) (sample_read 1), Binary Eq (sample_read 2) (Constant 8 0)] = Some True"
  using satisfies_exact [of "sample_assignment False" "[Binary Ult (sample_read 0) (sample_read 1), Binary Eq (sample_read 2) (Constant 8 0)]" False "\<lambda>arr i. 0"]
  by (simp add: sample_read_def const_ok_def is_div_def is_cmp_def initial_byte_def contents_of_def)

lemma evaluate_opaque: "evaluate opt a (NotOptimized (Constant w v)) = Some (NotOptimized (Constant w v))"
  by (simp add: evaluate_def visit.simps visitActual_def evaluator_visitExpr_def dyn_const_def)

end
