(* ===== verification/Klee_Solver.thy ===== *)
theory Klee_Solver
  imports Expr_Evaluator
begin

text \<open>
  Queries and the solver interface of the symbolic executor: \<open>src/include/klee/Solver.h\<close>,
  \<open>src/lib/Solver/Solver.cpp\<close>, \<open>src/lib/Solver/SolverImpl.cpp\<close>. A solver implementation
  is a record of its virtual methods over a state of its own, so that a layer such as a cache is
  a function from implementations to implementations. A call answers, fails (the method returns
  false), or aborts on an assertion.
\<close>

section \<open>Calls\<close>

datatype 'a answer = Answer 'a | Failure | Abort

type_synonym ('s, 'a) call = "'s \<Rightarrow> 'a answer \<times> 's"

definition answer :: "'a \<Rightarrow> ('s, 'a) call" where
  "answer a s = (Answer a, s)"

definition abort :: "('s, 'a) call" where
  "abort s = (Abort, s)"

definition and_then :: "('s, 'a) call \<Rightarrow> ('a \<Rightarrow> ('s, 'b) call) \<Rightarrow> ('s, 'b) call" where
  "and_then m f s = (case m s of (Answer a, s') \<Rightarrow> f a s' | (Failure, s') \<Rightarrow> (Failure, s') | (Abort, s') \<Rightarrow> (Abort, s'))"

text \<open>A construction of an expression aborts where it fails an assertion; a caller may assert success.\<close>

definition build :: "'a option \<Rightarrow> ('s, 'a) call" where
  "build x s = (case x of Some a \<Rightarrow> (Answer a, s) | None \<Rightarrow> (Abort, s))"

definition asserted :: "('s, 'a) call \<Rightarrow> ('s, 'a) call" where
  "asserted m s = (case m s of (Failure, s') \<Rightarrow> (Abort, s') | r \<Rightarrow> r)"

section \<open>Queries\<close>

record query =
  constraints :: "expr list"
  qexpr :: expr

definition Query :: "expr list \<Rightarrow> expr \<Rightarrow> query" where
  "Query cs e = \<lparr>constraints = cs, qexpr = e\<rparr>"

definition withExpr :: "query \<Rightarrow> expr \<Rightarrow> query" where
  "withExpr q e = Query (constraints q) e"

definition withFalse :: "query \<Rightarrow> query" where
  "withFalse q = Query (constraints q) (ConstantExpr_alloc 0 1)"

definition negateExpr :: "bool \<Rightarrow> query \<Rightarrow> query option" where
  "negateExpr opt q = map_option (withExpr q) (createIsZero opt (qexpr q))"

datatype validity = V_True | V_False | V_Unknown

record 's solver_impl =
  computeTruth :: "query \<Rightarrow> ('s, bool) call"
  computeValidity :: "query \<Rightarrow> ('s, validity) call"
  computeValue :: "query \<Rightarrow> ('s, expr) call"
  computeInitialValues :: "query \<Rightarrow> array list \<Rightarrow> ('s, int list list option) call"

text \<open>\<open>SolverImpl::computeValidity\<close>, the version an implementation may inherit.\<close>

definition default_computeValidity :: "bool \<Rightarrow> (query \<Rightarrow> ('s, bool) call) \<Rightarrow> query \<Rightarrow> ('s, validity) call" where
  "default_computeValidity opt truth q =
     and_then (truth q) (\<lambda>isTrue.
       if isTrue then answer V_True
       else and_then (build (negateExpr opt q)) (\<lambda>n. and_then (truth n) (\<lambda>isFalse. answer (if isFalse then V_False else V_Unknown))))"

section \<open>The solver\<close>

definition evaluate_query :: "'s solver_impl \<Rightarrow> query \<Rightarrow> ('s, validity) call" where
  "evaluate_query impl q =
     (if getWidth (qexpr q) \<noteq> 1 then abort
      else case dyn_const (qexpr q) of
          Some (w, v) \<Rightarrow> answer (if v \<noteq> 0 then V_True else V_False)
        | None \<Rightarrow> computeValidity impl q)"

definition mustBeTrue :: "'s solver_impl \<Rightarrow> query \<Rightarrow> ('s, bool) call" where
  "mustBeTrue impl q =
     (if getWidth (qexpr q) \<noteq> 1 then abort
      else case dyn_const (qexpr q) of
          Some (w, v) \<Rightarrow> answer (v \<noteq> 0)
        | None \<Rightarrow> computeTruth impl q)"

definition mustBeFalse :: "bool \<Rightarrow> 's solver_impl \<Rightarrow> query \<Rightarrow> ('s, bool) call" where
  "mustBeFalse opt impl q = and_then (build (negateExpr opt q)) (mustBeTrue impl)"

definition mayBeTrue :: "bool \<Rightarrow> 's solver_impl \<Rightarrow> query \<Rightarrow> ('s, bool) call" where
  "mayBeTrue opt impl q = and_then (mustBeFalse opt impl q) (\<lambda>res. answer (\<not> res))"

definition mayBeFalse :: "'s solver_impl \<Rightarrow> query \<Rightarrow> ('s, bool) call" where
  "mayBeFalse impl q = and_then (mustBeTrue impl q) (\<lambda>res. answer (\<not> res))"

definition getValue :: "'s solver_impl \<Rightarrow> query \<Rightarrow> ('s, expr) call" where
  "getValue impl q =
     (if dyn_const (qexpr q) \<noteq> None then answer (qexpr q)
      else and_then (computeValue impl q) (\<lambda>tmp. if dyn_const tmp \<noteq> None then answer tmp else abort))"

definition getInitialValues :: "'s solver_impl \<Rightarrow> query \<Rightarrow> array list \<Rightarrow> ('s, int list list) call" where
  "getInitialValues impl q objects =
     and_then (computeInitialValues impl q objects) (\<lambda>sol s. case sol of Some values \<Rightarrow> (Answer values, s) | None \<Rightarrow> (Failure, s))"

text \<open>
  \<open>Solver::getRange\<close>. Its three searches have one form: halve an interval until it is a point,
  keeping the lower half when the question about its upper end is answered with yes.
\<close>

function range_search :: "(int \<Rightarrow> ('s, bool) call) \<Rightarrow> int \<Rightarrow> int \<Rightarrow> ('s, int) call" where
  "range_search ask lo hi s =
     (if lo < hi then
        (case asserted (ask (lo + (hi - lo) div 2)) s of
           (Answer res, s') \<Rightarrow>
             if res then range_search ask lo (lo + (hi - lo) div 2) s'
             else range_search ask (lo + (hi - lo) div 2 + 1) hi s'
         | (Failure, s') \<Rightarrow> (Failure, s')
         | (Abort, s') \<Rightarrow> (Abort, s'))
      else (Answer lo, s))"
  by pat_completeness auto
termination
  by (relation "measure (\<lambda>(ask, lo, hi, s). nat (hi - lo))") auto

declare range_search.simps [simp del]

definition maxValueOfNBits :: "int \<Rightarrow> int" where
  "maxValueOfNBits N = (if N = 0 then 0 else drop_bit (64 - nat N) (mask 64))"

text \<open>The questions about the expression: is it below two to the power of \<open>mid\<close>, is it zero, is it at most \<open>mid\<close>.\<close>

definition shifted_out :: "bool \<Rightarrow> expr \<Rightarrow> int \<Rightarrow> expr option" where
  "shifted_out opt e mid =
     do { c \<leftarrow> ConstantExpr_create mid (getWidth e); z \<leftarrow> ConstantExpr_create 0 (getWidth e); sh \<leftarrow> create_binary opt LShr e c; create_Eq opt sh z }"

definition equal_to :: "bool \<Rightarrow> expr \<Rightarrow> int \<Rightarrow> expr option" where
  "equal_to opt e v = do { c \<leftarrow> ConstantExpr_create v (getWidth e); create_Eq opt e c }"

definition at_most :: "bool \<Rightarrow> expr \<Rightarrow> int \<Rightarrow> expr option" where
  "at_most opt e v = do { c \<leftarrow> ConstantExpr_create v (getWidth e); create_binary opt Ule e c }"

definition ask_must :: "'s solver_impl \<Rightarrow> query \<Rightarrow> (int \<Rightarrow> expr option) \<Rightarrow> int \<Rightarrow> ('s, bool) call" where
  "ask_must impl q f v = and_then (build (f v)) (\<lambda>e. mustBeTrue impl (withExpr q e))"

definition ask_may :: "bool \<Rightarrow> 's solver_impl \<Rightarrow> query \<Rightarrow> (int \<Rightarrow> expr option) \<Rightarrow> int \<Rightarrow> ('s, bool) call" where
  "ask_may opt impl q f v = and_then (build (f v)) (\<lambda>e. mayBeTrue opt impl (withExpr q e))"

definition getRange_values :: "bool \<Rightarrow> 's solver_impl \<Rightarrow> query \<Rightarrow> ('s, int \<times> int) call" where
  "getRange_values opt impl q =
     (let e = qexpr q; width = getWidth e in
      if width = 1 then
        and_then (asserted (evaluate_query impl q)) (\<lambda>result. answer (case result of V_True \<Rightarrow> (1, 1) | V_False \<Rightarrow> (0, 0) | V_Unknown \<Rightarrow> (0, 1)))
      else case dyn_const e of
          Some (w, v) \<Rightarrow> and_then (build (getZExtValue w v)) (\<lambda>v. answer (v, v))
        | None \<Rightarrow>
            and_then (range_search (ask_must impl q (shifted_out opt e)) 0 (int width)) (\<lambda>bits.
            and_then (asserted (ask_may opt impl q (equal_to opt e) 0)) (\<lambda>res.
            and_then (if res then answer 0 else range_search (ask_may opt impl q (at_most opt e)) 0 (maxValueOfNBits bits)) (\<lambda>min.
            and_then (range_search (ask_must impl q (at_most opt e)) min (maxValueOfNBits bits)) (\<lambda>max.
            answer (min, max))))))"

definition getRange :: "bool \<Rightarrow> 's solver_impl \<Rightarrow> query \<Rightarrow> ('s, expr \<times> expr) call" where
  "getRange opt impl q =
     and_then (getRange_values opt impl q) (\<lambda>(min, max).
       build (do { l \<leftarrow> ConstantExpr_create min (getWidth (qexpr q)); h \<leftarrow> ConstantExpr_create max (getWidth (qexpr q)); Some (l, h) }))"

section \<open>What solvers promise\<close>

text \<open>Contents that satisfy the constraints, and the formula that a query stands for.\<close>

definition models :: "contents \<Rightarrow> expr list \<Rightarrow> bool" where
  "models \<rho> cs \<longleftrightarrow> (\<forall>c \<in> set cs. eval \<rho> c \<noteq> 0)"

definition valid :: "query \<Rightarrow> bool" where
  "valid q \<longleftrightarrow> (\<forall>\<rho>. models \<rho> (constraints q) \<longrightarrow> eval \<rho> (qexpr q) \<noteq> 0)"

definition unsatisfiable :: "query \<Rightarrow> bool" where
  "unsatisfiable q \<longleftrightarrow> (\<forall>\<rho>. models \<rho> (constraints q) \<longrightarrow> eval \<rho> (qexpr q) = 0)"

definition formula :: "expr \<Rightarrow> bool" where
  "formula e \<longleftrightarrow> wf_expr e \<and> getWidth e = 1"

text \<open>Queries have boolean constraints that can be satisfied together, as the path conditions of states do.\<close>

definition query_ok :: "query \<Rightarrow> bool" where
  "query_ok q \<longleftrightarrow> (\<forall>c \<in> set (constraints q). formula c) \<and> wf_expr (qexpr q) \<and> (\<exists>\<rho>. models \<rho> (constraints q))"

definition bool_query :: "query \<Rightarrow> bool" where
  "bool_query q \<longleftrightarrow> query_ok q \<and> getWidth (qexpr q) = 1"

text \<open>Contents that agree on the bytes of some arrays, and the contents that a solution gives.\<close>

definition agree_on :: "array set \<Rightarrow> contents \<Rightarrow> contents \<Rightarrow> bool" where
  "agree_on A \<rho> \<rho>' \<longleftrightarrow> (\<forall>arr \<in> A. \<forall>i. int i < 2 ^ domain arr \<longrightarrow> take_bit (range_w arr) (\<rho> arr i) = take_bit (range_w arr) (\<rho>' arr i))"

definition solution :: "array list \<Rightarrow> int list list \<Rightarrow> contents" where
  "solution objects values = contents_of (Assignment objects values False) (\<lambda>arr i. 0)"

text \<open>
  The contract of an implementation: it never aborts on a query that is well-formed, keeps its
  invariant, and what it answers is true of the query. A solver that is \<open>sure\<close> never fails.
\<close>

definition right_validity :: "query \<Rightarrow> validity \<Rightarrow> bool" where
  "right_validity q v = (case v of V_True \<Rightarrow> valid q | V_False \<Rightarrow> unsatisfiable q | V_Unknown \<Rightarrow> \<not> valid q \<and> \<not> unsatisfiable q)"

definition right_value :: "query \<Rightarrow> expr \<Rightarrow> bool" where
  "right_value q e \<longleftrightarrow> (\<exists>v \<rho>. e = Constant (getWidth (qexpr q)) v \<and> models \<rho> (constraints q) \<and> eval \<rho> (qexpr q) = v)"

definition right_values :: "query \<Rightarrow> array list \<Rightarrow> int list list option \<Rightarrow> bool" where
  "right_values q objects sol =
     (case sol of
        None \<Rightarrow> valid q
      | Some values \<Rightarrow> length values = length objects \<and>
          (\<exists>\<rho>. models \<rho> (constraints q) \<and> eval \<rho> (qexpr q) = 0 \<and> agree_on (set objects) (solution objects values) \<rho>))"

definition sound_call :: "bool \<Rightarrow> ('s \<Rightarrow> bool) \<Rightarrow> ('a \<Rightarrow> bool) \<Rightarrow> ('s, 'a) call \<Rightarrow> bool" where
  "sound_call sure ok right m \<longleftrightarrow>
     (\<forall>s a s'. ok s \<longrightarrow> m s = (a, s') \<longrightarrow> (case a of Answer x \<Rightarrow> right x \<and> ok s' | Failure \<Rightarrow> \<not> sure \<and> ok s' | Abort \<Rightarrow> False))"

locale sound_solver =
  fixes impl :: "'s solver_impl" and ok :: "'s \<Rightarrow> bool" and sure :: bool
  assumes truth_right: "bool_query q \<Longrightarrow> sound_call sure ok (\<lambda>b. b = valid q) (computeTruth impl q)"
    and validity_right: "bool_query q \<Longrightarrow> sound_call sure ok (right_validity q) (computeValidity impl q)"
    and values_right: "query_ok q \<Longrightarrow> sound_call sure ok (right_value q) (computeValue impl q)"
    and initial_right: "bool_query q \<Longrightarrow> distinct objects \<Longrightarrow> sound_call sure ok (right_values q objects) (computeInitialValues impl q objects)"

section \<open>Calls keep the contract\<close>

lemma sound_answer [intro]: "right a \<Longrightarrow> sound_call sure ok right (answer a)"
  by (simp add: sound_call_def answer_def)

lemma sound_build: "x = Some a \<Longrightarrow> right a \<Longrightarrow> sound_call sure ok right (build x)"
  by (simp add: sound_call_def build_def)

lemma sound_callD:
  assumes "sound_call sure ok R m" "ok s"
  obtains (Answer) a s' where "m s = (Answer a, s')" "R a" "ok s'" | (Failure) s' where "m s = (Failure, s')" "\<not> sure" "ok s'"
proof -
  obtain a s' where m: "m s = (a, s')" by (cases "m s")
  then have "case a of Answer x \<Rightarrow> R x \<and> ok s' | Failure \<Rightarrow> \<not> sure \<and> ok s' | Abort \<Rightarrow> False"
    using assms unfolding sound_call_def by blast
  then show ?thesis using m that by (cases a) auto
qed

lemma sound_callI:
  assumes "\<And>s. ok s \<Longrightarrow> (\<exists>a s'. m s = (Answer a, s') \<and> R a \<and> ok s') \<or> (\<exists>s'. m s = (Failure, s') \<and> \<not> sure \<and> ok s')"
  shows "sound_call sure ok R m"
  unfolding sound_call_def
proof (intro allI impI)
  fix s a s' assume "ok s" "m s = (a, s')"
  then show "case a of Answer x \<Rightarrow> R x \<and> ok s' | Failure \<Rightarrow> \<not> sure \<and> ok s' | Abort \<Rightarrow> False"
    using assms [of s] by auto
qed

lemma sound_and_then:
  assumes m: "sound_call sure ok R m" and f: "\<And>a. R a \<Longrightarrow> sound_call sure ok Q (f a)"
  shows "sound_call sure ok Q (and_then m f)"
proof (rule sound_callI)
  fix s assume s: "ok s"
  from m s show "(\<exists>a s'. and_then m f s = (Answer a, s') \<and> Q a \<and> ok s') \<or> (\<exists>s'. and_then m f s = (Failure, s') \<and> \<not> sure \<and> ok s')"
  proof (cases rule: sound_callD)
    case (Answer a s')
    from f [OF Answer(2)] Answer(3) show ?thesis by (cases rule: sound_callD) (simp_all add: and_then_def Answer(1))
  qed (simp add: and_then_def)
qed

lemma sound_weaken: "sound_call sure ok R m \<Longrightarrow> (\<And>a. R a \<Longrightarrow> Q a) \<Longrightarrow> sound_call sure ok Q m"
  by (rule sound_callI) (erule sound_callD, auto)

lemma sound_asserted: "sound_call True ok R m \<Longrightarrow> sound_call True ok R (asserted m)"
  by (rule sound_callI) (erule sound_callD, auto simp: asserted_def)

text \<open>The halving search finds the least point that satisfies a monotone predicate.\<close>

lemma range_search_least:
  assumes mono: "\<And>x y. x \<le> y \<Longrightarrow> P x \<Longrightarrow> P y"
    and ask: "\<And>v. lo \<le> v \<Longrightarrow> v < hi \<Longrightarrow> sound_call True ok (\<lambda>b. b = P v) (ask v)"
    and "lo \<le> hi" "P hi"
  shows "sound_call True ok (\<lambda>x. lo \<le> x \<and> x \<le> hi \<and> P x \<and> (\<forall>y. lo \<le> y \<longrightarrow> y < x \<longrightarrow> \<not> P y)) (range_search ask lo hi)"
  using ask assms(3,4)
proof (induction "nat (hi - lo)" arbitrary: lo hi rule: less_induct)
  case less
  show ?case
  proof (cases "lo < hi")
    case False
    then have "range_search ask lo hi = answer lo" by (intro ext) (simp add: range_search.simps answer_def)
    then show ?thesis using False less.prems by auto
  next
    case True
    define mid where "mid = lo + (hi - lo) div 2"
    have mid: "lo \<le> mid" "mid < hi" using True by (auto simp: mid_def)
    have step: "range_search ask lo hi = and_then (asserted (ask mid)) (\<lambda>res. if res then range_search ask lo mid else range_search ask (mid + 1) hi)"
      by (intro ext) (simp add: range_search.simps [of _ lo] True and_then_def mid_def split: prod.split answer.split)
    have low: "sound_call True ok (\<lambda>x. lo \<le> x \<and> x \<le> mid \<and> P x \<and> (\<forall>y. lo \<le> y \<longrightarrow> y < x \<longrightarrow> \<not> P y)) (range_search ask lo mid)" if "P mid"
      using less.hyps [of mid lo] less.prems(1) mid that by simp
    have high: "sound_call True ok (\<lambda>x. mid + 1 \<le> x \<and> x \<le> hi \<and> P x \<and> (\<forall>y. mid + 1 \<le> y \<longrightarrow> y < x \<longrightarrow> \<not> P y)) (range_search ask (mid + 1) hi)"
      using less.hyps [of hi "mid + 1"] less.prems mid by simp
    have "sound_call True ok (\<lambda>x. lo \<le> x \<and> x \<le> hi \<and> P x \<and> (\<forall>y. lo \<le> y \<longrightarrow> y < x \<longrightarrow> \<not> P y))
        (if res then range_search ask lo mid else range_search ask (mid + 1) hi)" if res: "res = P mid" for res
    proof (cases res)
      case True
      then have "P mid" using res by simp
      from sound_weaken [OF low [OF this]] show ?thesis using mid True by simp
    next
      case False
      have "\<not> P y" if "y \<le> mid" for y using mono [OF that] res False by blast
      then have n: "\<not> P y" if "\<forall>y. mid + 1 \<le> y \<longrightarrow> y < x \<longrightarrow> \<not> P y" "y < x" for x y
        using that by (cases "y \<le> mid") auto
      have "sound_call True ok (\<lambda>x. lo \<le> x \<and> x \<le> hi \<and> P x \<and> (\<forall>y. lo \<le> y \<longrightarrow> y < x \<longrightarrow> \<not> P y)) (range_search ask (mid + 1) hi)"
        by (rule sound_weaken [OF high]) (use n mid in auto)
      then show ?thesis using False by simp
    qed
    then show ?thesis unfolding step by (rule sound_and_then [OF sound_asserted [OF less.prems(1) [OF mid]]])
  qed
qed

section \<open>Expressions under all contents\<close>

lemma always_makes:
  assumes "\<And>\<rho>. makes False \<rho> res w (v \<rho>)"
  obtains e where "res = Some e" "wf_expr e" "getWidth e = w" "\<And>\<rho>. eval \<rho> e = v \<rho>"
proof -
  obtain e where e: "res = Some e" "wf_expr e" "getWidth e = w" using assms [of "\<lambda>_ _. 0"] by (auto simp: makes_def good_def)
  then have "eval \<rho> e = v \<rho>" for \<rho> using assms [of \<rho>] by simp
  then show ?thesis using that e by blast
qed

lemma good_wf [simp]: "good False \<rho> e = wf_expr e"
  by (simp add: good_def)

lemma formula_bool: "formula e \<Longrightarrow> eval \<rho> e = 0 \<or> eval \<rho> e = 1"
  using good_bool [of False \<rho> e] by (simp add: formula_def)

lemma bool_query_formula: "bool_query q \<longleftrightarrow> query_ok q \<and> formula (qexpr q)"
  by (auto simp: bool_query_def formula_def query_ok_def)

lemma query_sel [simp]: "constraints (Query cs e) = cs" "qexpr (Query cs e) = e" "constraints (withExpr q e) = constraints q" "qexpr (withExpr q e) = e"
    "constraints (withFalse q) = constraints q" "qexpr (withFalse q) = Constant 1 0"
  by (simp_all add: Query_def withExpr_def withFalse_def ConstantExpr_alloc_def)

lemma query_ok_withExpr: "query_ok q \<Longrightarrow> wf_expr e \<Longrightarrow> query_ok (withExpr q e)"
  by (simp add: query_ok_def)

lemma negateExpr_ok:
  assumes "bool_query q"
  obtains n where "negateExpr False q = Some n" "bool_query n" "constraints n = constraints q"
    "\<And>\<rho>. eval \<rho> (qexpr n) = of_bool (eval \<rho> (qexpr q) = 0)"
proof -
  have "makes False \<rho> (createIsZero False (qexpr q)) 1 (of_bool (eval \<rho> (qexpr q) = 0))" for \<rho>
    using createIsZero_makes [of False \<rho> "qexpr q"] assms by (simp add: bool_query_def query_ok_def)
  then obtain e where e: "createIsZero False (qexpr q) = Some e" "wf_expr e" "getWidth e = 1" "\<And>\<rho>. eval \<rho> e = of_bool (eval \<rho> (qexpr q) = 0)"
    by (rule always_makes) blast
  show ?thesis by (rule that [of "withExpr q e"]) (use e assms in \<open>auto simp: negateExpr_def bool_query_def query_ok_def\<close>)
qed

lemma negated_validity:
  assumes "constraints n = constraints q" "\<And>\<rho>. eval \<rho> (qexpr n) = of_bool (eval \<rho> (qexpr q) = 0)"
  shows "valid n = unsatisfiable q" "unsatisfiable n = valid q"
  using assms by (auto simp: valid_def unsatisfiable_def)

lemma valid_sat: "query_ok q \<Longrightarrow> valid q \<Longrightarrow> \<not> unsatisfiable q"
  by (auto simp: valid_def unsatisfiable_def query_ok_def)

section \<open>The solver on a sound implementation\<close>

lemma default_validity_right:
  assumes "\<And>q. bool_query q \<Longrightarrow> sound_call sure ok (\<lambda>b. b = valid q) (truth q)" "bool_query q"
  shows "sound_call sure ok (right_validity q) (default_computeValidity False truth q)"
proof -
  obtain n where n: "negateExpr False q = Some n" "bool_query n" "constraints n = constraints q"
      "\<And>\<rho>. eval \<rho> (qexpr n) = of_bool (eval \<rho> (qexpr q) = 0)"
    by (rule negateExpr_ok [OF assms(2)]) blast
  note neg = negated_validity [OF n(3,4)]
  have "sound_call sure ok (right_validity q)
      (and_then (build (negateExpr False q)) (\<lambda>n. and_then (truth n) (\<lambda>isFalse. answer (if isFalse then V_False else V_Unknown))))"
    if "\<not> valid q"
    by (rule sound_and_then [OF sound_build [where right = "\<lambda>m. m = n", OF n(1) refl]])
      (auto intro!: sound_and_then [OF assms(1) [OF n(2)]] simp: right_validity_def neg that)
  moreover have "right_validity q V_True" if "valid q" using that by (simp add: right_validity_def)
  ultimately show ?thesis unfolding default_computeValidity_def
    by (intro sound_and_then [OF assms(1) [OF assms(2)]]) auto
qed

lemma constant_query: "query_ok q \<Longrightarrow> qexpr q = Constant w v \<Longrightarrow> valid q = (v \<noteq> 0) \<and> unsatisfiable q = (v = 0)"
  by (auto simp: valid_def unsatisfiable_def query_ok_def)

context sound_solver
begin

lemma mustBeTrue_right: "bool_query q \<Longrightarrow> sound_call sure ok (\<lambda>b. b = valid q) (mustBeTrue impl q)"
  using truth_right [of q] constant_query [of q]
  by (cases "dyn_const (qexpr q)") (auto simp: mustBeTrue_def bool_query_def intro!: sound_answer)

lemma evaluate_query_right: "bool_query q \<Longrightarrow> sound_call sure ok (right_validity q) (evaluate_query impl q)"
  using validity_right [of q] constant_query [of q]
  by (cases "dyn_const (qexpr q)") (auto simp: evaluate_query_def bool_query_def right_validity_def intro!: sound_answer)

lemma mustBeFalse_right:
  assumes "bool_query q"
  shows "sound_call sure ok (\<lambda>b. b = unsatisfiable q) (mustBeFalse False impl q)"
proof -
  obtain n where n: "negateExpr False q = Some n" "bool_query n" "constraints n = constraints q"
      "\<And>\<rho>. eval \<rho> (qexpr n) = of_bool (eval \<rho> (qexpr q) = 0)"
    by (rule negateExpr_ok [OF assms]) blast
  show ?thesis unfolding mustBeFalse_def
    by (rule sound_and_then [OF sound_build [where right = "\<lambda>m. m = n", OF n(1) refl]])
      (use mustBeTrue_right [OF n(2)] negated_validity [OF n(3,4)] in simp)
qed

lemma mayBeTrue_right: "bool_query q \<Longrightarrow> sound_call sure ok (\<lambda>b. b = (\<not> unsatisfiable q)) (mayBeTrue False impl q)"
  unfolding mayBeTrue_def by (rule sound_and_then [OF mustBeFalse_right]) auto

lemma mayBeFalse_right: "bool_query q \<Longrightarrow> sound_call sure ok (\<lambda>b. b = (\<not> valid q)) (mayBeFalse impl q)"
  unfolding mayBeFalse_def by (rule sound_and_then [OF mustBeTrue_right]) auto

lemma getValue_right: "query_ok q \<Longrightarrow> sound_call sure ok (right_value q) (getValue impl q)"
  unfolding getValue_def
proof (cases "dyn_const (qexpr q)")
  case (Some wv)
  assume "query_ok q"
  then have "right_value q (qexpr q)" using Some by (cases wv) (auto simp: right_value_def query_ok_def)
  then show "sound_call sure ok (right_value q) (if dyn_const (qexpr q) \<noteq> None then answer (qexpr q)
      else and_then (computeValue impl q) (\<lambda>tmp. if dyn_const tmp \<noteq> None then answer tmp else abort))"
    using Some by (auto intro!: sound_answer)
next
  case None
  assume "query_ok q"
  then show "sound_call sure ok (right_value q) (if dyn_const (qexpr q) \<noteq> None then answer (qexpr q)
      else and_then (computeValue impl q) (\<lambda>tmp. if dyn_const tmp \<noteq> None then answer tmp else abort))"
    using None by (auto intro!: sound_and_then [OF values_right] sound_answer simp: right_value_def) blast
qed

lemma ask_right:
  assumes "query_ok q" "\<And>\<rho>. makes False \<rho> (f v) 1 (of_bool (P (eval \<rho> (qexpr q))))"
  shows "sound_call sure ok (\<lambda>b. b = (\<forall>\<rho>. models \<rho> (constraints q) \<longrightarrow> P (eval \<rho> (qexpr q)))) (ask_must impl q f v)"
    and "sound_call sure ok (\<lambda>b. b = (\<exists>\<rho>. models \<rho> (constraints q) \<and> P (eval \<rho> (qexpr q)))) (ask_may False impl q f v)"
proof -
  obtain e where e: "f v = Some e" "wf_expr e" "getWidth e = 1" "\<And>\<rho>. eval \<rho> e = of_bool (P (eval \<rho> (qexpr q)))"
    by (rule always_makes [of "f v", OF assms(2)]) blast
  have q: "bool_query (withExpr q e)" using e(2,3) assms(1) by (simp add: bool_query_def query_ok_withExpr)
  have v: "valid (withExpr q e) = (\<forall>\<rho>. models \<rho> (constraints q) \<longrightarrow> P (eval \<rho> (qexpr q)))"
      "unsatisfiable (withExpr q e) = (\<not> (\<exists>\<rho>. models \<rho> (constraints q) \<and> P (eval \<rho> (qexpr q))))"
    using e(4) by (auto simp: valid_def unsatisfiable_def)
  show "sound_call sure ok (\<lambda>b. b = (\<forall>\<rho>. models \<rho> (constraints q) \<longrightarrow> P (eval \<rho> (qexpr q)))) (ask_must impl q f v)"
    unfolding ask_must_def
    by (rule sound_and_then [OF sound_build [where right = "\<lambda>x. x = e", OF e(1) refl]]) (use mustBeTrue_right [OF q] v in simp)
  show "sound_call sure ok (\<lambda>b. b = (\<exists>\<rho>. models \<rho> (constraints q) \<and> P (eval \<rho> (qexpr q)))) (ask_may False impl q f v)"
    unfolding ask_may_def
    by (rule sound_and_then [OF sound_build [where right = "\<lambda>x. x = e", OF e(1) refl]]) (use mayBeTrue_right [OF q] v in simp)
qed

end

section \<open>Ranges\<close>

lemma max_value: "0 \<le> n \<Longrightarrow> n \<le> 64 \<Longrightarrow> maxValueOfNBits n = 2 ^ nat n - 1"
proof -
  assume n: "0 \<le> n" "n \<le> 64"
  have "drop_bit (64 - nat n) (mask 64 :: int) = mask (nat n)"
    by (rule bit_eqI) (use n in \<open>auto simp: bit_simps\<close>)
  then show ?thesis by (simp add: maxValueOfNBits_def mask_eq_exp_minus_1)
qed

lemma question_makes:
  assumes "wf_expr e" "getWidth e \<le> 64" "0 \<le> v" "v < 2 ^ getWidth e"
  shows "makes False \<rho> (equal_to False e v) 1 (of_bool (eval \<rho> e = v))"
    and "makes False \<rho> (at_most False e v) 1 (of_bool (eval \<rho> e \<le> v))"
    and "v < int (getWidth e) \<Longrightarrow> makes False \<rho> (shifted_out False e v) 1 (of_bool (eval \<rho> e < 2 ^ nat v))"
proof -
  have w: "0 < getWidth e" using good_pos [of False "\<lambda>_ _. 0" e] assms(1) by simp
  have c: "ConstantExpr_create v (getWidth e) = Some (Constant (getWidth e) v)" "ConstantExpr_create 0 (getWidth e) = Some (Constant (getWidth e) 0)"
    using assms w by (simp_all add: ConstantExpr_create_def take_bit_int_eq_self)
  have g: "good False \<rho> (Constant (getWidth e) v)" "good False \<rho> (Constant (getWidth e) 0)" "good False \<rho> e"
    using assms w by (simp_all add: const_ok_def)
  show "makes False \<rho> (equal_to False e v) 1 (of_bool (eval \<rho> e = v))"
    using create_Eq_makes [OF g(3,1)] c by (simp add: equal_to_def)
  show "makes False \<rho> (at_most False e v) 1 (of_bool (eval \<rho> e \<le> v))"
    using create_binary_makes [OF g(3,1), of "getWidth e" Ule] c by (simp add: at_most_def is_cmp_def is_div_def)
  show "makes False \<rho> (shifted_out False e v) 1 (of_bool (eval \<rho> e < 2 ^ nat v))" if v: "v < int (getWidth e)"
  proof -
    have ev: "0 \<le> eval \<rho> e" using good_eval [OF g(3)] by (simp add: const_ok_def)
    have "makes False \<rho> (create_binary False LShr e (Constant (getWidth e) v)) (getWidth e) (drop_bit (nat v) (eval \<rho> e))"
      using create_binary_makes [OF g(3,1), of "getWidth e" LShr] v by (simp add: is_cmp_def is_div_def)
    then have "makes False \<rho> (create_binary False LShr e (Constant (getWidth e) v) \<bind> (\<lambda>sh. create_Eq False sh (Constant (getWidth e) 0))) 1
        (of_bool (drop_bit (nat v) (eval \<rho> e) = 0))"
      by (rule makes_bind) (use create_Eq_makes [OF _ g(2)] in fastforce)
    moreover have "drop_bit (nat v) (eval \<rho> e) = 0 \<longleftrightarrow> eval \<rho> e < 2 ^ nat v"
      using ev by (auto simp: drop_bit_eq_div zdiv_eq_0_iff)
    ultimately show ?thesis using c by (simp add: shifted_out_def)
  qed
qed

text \<open>The least and the greatest value of an expression, both attained.\<close>

definition value_range :: "query \<Rightarrow> int \<Rightarrow> int \<Rightarrow> bool" where
  "value_range q lo hi \<longleftrightarrow>
     (\<forall>\<rho>. models \<rho> (constraints q) \<longrightarrow> lo \<le> eval \<rho> (qexpr q) \<and> eval \<rho> (qexpr q) \<le> hi) \<and>
     (\<exists>\<rho>. models \<rho> (constraints q) \<and> eval \<rho> (qexpr q) = lo) \<and> (\<exists>\<rho>. models \<rho> (constraints q) \<and> eval \<rho> (qexpr q) = hi)"

lemma eval_bounds: "wf_expr e \<Longrightarrow> 0 \<le> eval \<rho> e \<and> eval \<rho> e < 2 ^ getWidth e"
  using good_eval [of False \<rho> e] by (simp add: const_ok_def)

lemma least_attained:
  assumes "query_ok q" "\<exists>\<rho>. models \<rho> (constraints q) \<and> eval \<rho> (qexpr q) \<le> m"
    and "\<forall>y. 0 \<le> y \<longrightarrow> y < m \<longrightarrow> \<not> (\<exists>\<rho>. models \<rho> (constraints q) \<and> eval \<rho> (qexpr q) \<le> y)"
  shows "(\<exists>\<rho>. models \<rho> (constraints q) \<and> eval \<rho> (qexpr q) = m) \<and> (\<forall>\<rho>. models \<rho> (constraints q) \<longrightarrow> m \<le> eval \<rho> (qexpr q))"
proof -
  have e: "0 \<le> eval \<rho> (qexpr q)" for \<rho> using eval_bounds assms(1) by (simp add: query_ok_def)
  have all: "m \<le> eval \<rho> (qexpr q)" if "models \<rho> (constraints q)" for \<rho>
    using assms(3) [rule_format, of "eval \<rho> (qexpr q)"] e [of \<rho>] that by (meson not_le order_refl)
  then show ?thesis using assms(2) by (meson antisym)
qed

lemma greatest_attained:
  assumes "lo < m" "\<forall>\<rho>. models \<rho> (constraints q) \<longrightarrow> eval \<rho> (qexpr q) \<le> m"
    and "\<forall>y. lo \<le> y \<longrightarrow> y < m \<longrightarrow> \<not> (\<forall>\<rho>. models \<rho> (constraints q) \<longrightarrow> eval \<rho> (qexpr q) \<le> y)"
  shows "\<exists>\<rho>. models \<rho> (constraints q) \<and> eval \<rho> (qexpr q) = m"
proof -
  obtain \<rho> where "models \<rho> (constraints q)" "\<not> eval \<rho> (qexpr q) \<le> m - 1" using assms(1) assms(3) [rule_format, of "m - 1"] by auto
  then show ?thesis using assms(2) by (intro exI [of _ \<rho>]) force
qed

context sound_solver
begin

lemma wide_range_right:
  assumes sure: "sure" and q: "query_ok q" and w: "getWidth (qexpr q) \<le> 64"
  shows "sound_call sure ok (\<lambda>(lo, hi). value_range q lo hi)
    (and_then (range_search (ask_must impl q (shifted_out False (qexpr q))) 0 (int (getWidth (qexpr q)))) (\<lambda>bits.
     and_then (asserted (ask_may False impl q (equal_to False (qexpr q)) 0)) (\<lambda>res.
     and_then (if res then answer 0 else range_search (ask_may False impl q (at_most False (qexpr q))) 0 (maxValueOfNBits bits)) (\<lambda>min.
     and_then (range_search (ask_must impl q (at_most False (qexpr q))) min (maxValueOfNBits bits)) (\<lambda>max.
     answer (min, max))))))"
proof -
  let ?e = "qexpr q" and ?M = "\<lambda>\<rho>. models \<rho> (constraints q)"
  let ?w = "getWidth ?e"
  have wf: "wf_expr ?e" and sat: "\<exists>\<rho>. ?M \<rho>" using q by (simp_all add: query_ok_def)
  note bounds = eval_bounds [OF wf]
  note must = ask_right(1) [OF q] and may = ask_right(2) [OF q]
  let ?small = "\<lambda>b. \<forall>\<rho>. ?M \<rho> \<longrightarrow> eval \<rho> ?e < 2 ^ nat b"
  let ?reached = "\<lambda>v. \<exists>\<rho>. ?M \<rho> \<and> eval \<rho> ?e \<le> v"
  let ?above = "\<lambda>v. \<forall>\<rho>. ?M \<rho> \<longrightarrow> eval \<rho> ?e \<le> v"
  have less_pow: "int n < 2 ^ n" for n by (metis less_exp of_nat_less_iff of_nat_numeral of_nat_power)
  have bits: "sound_call True ok (\<lambda>b. 0 \<le> b \<and> b \<le> int ?w \<and> ?small b \<and> (\<forall>y. 0 \<le> y \<longrightarrow> y < b \<longrightarrow> \<not> ?small y))
      (range_search (ask_must impl q (shifted_out False ?e)) 0 (int ?w))"
  proof (rule range_search_least)
    show "?small y" if "x \<le> y" "?small x" for x y
      using that by (meson less_le_trans nat_mono one_le_numeral power_increasing)
    show "sound_call True ok (\<lambda>b. b = ?small v) (ask_must impl q (shifted_out False ?e) v)" if "0 \<le> v" "v < int ?w" for v
      using must [of "shifted_out False ?e" v "\<lambda>x. x < 2 ^ nat v"] question_makes(3) [OF wf w that(1) _ that(2)] that(2) less_pow [of ?w] sure by simp
  qed (use bounds in auto)
  show ?thesis unfolding eqTrueI [OF sure]
  proof (rule sound_and_then [OF bits])
    fix b assume b: "0 \<le> b \<and> b \<le> int ?w \<and> ?small b \<and> (\<forall>y. 0 \<le> y \<longrightarrow> y < b \<longrightarrow> \<not> ?small y)"
    let ?hi = "maxValueOfNBits b"
    have hi: "?hi = 2 ^ nat b - 1" using b w by (intro max_value) auto
    have "(2::int) ^ nat b \<le> 2 ^ ?w" using b by (intro power_increasing) auto
    then have small: "v < 2 ^ ?w" if "v < ?hi" for v using that hi by linarith
    have hi0: "0 \<le> ?hi" and top: "?above ?hi" using b hi by auto
    have most: "sound_call True ok (\<lambda>r. r = ?reached v) (ask_may False impl q (at_most False ?e) v)"
        "sound_call True ok (\<lambda>r. r = ?above v) (ask_must impl q (at_most False ?e) v)" if "0 \<le> v" "v < ?hi" for v
      using may [of "at_most False ?e" v "\<lambda>x. x \<le> v"] must [of "at_most False ?e" v "\<lambda>x. x \<le> v"]
        question_makes(2) [OF wf w that(1) small [OF that(2)]] sure by simp_all
    have zero: "sound_call True ok (\<lambda>r. r = (\<exists>\<rho>. ?M \<rho> \<and> eval \<rho> ?e = 0)) (ask_may False impl q (equal_to False ?e) 0)"
      using may [of "equal_to False ?e" 0 "\<lambda>x. x = 0"] question_makes(1) [OF wf w, of 0] sure by simp
    let ?least = "\<lambda>m. 0 \<le> m \<and> m \<le> ?hi \<and> ?reached m \<and> (\<forall>y. 0 \<le> y \<longrightarrow> y < m \<longrightarrow> \<not> ?reached y)"
    have low: "sound_call True ok ?least (if res then answer 0 else range_search (ask_may False impl q (at_most False ?e)) 0 ?hi)"
      if "res = (\<exists>\<rho>. ?M \<rho> \<and> eval \<rho> ?e = 0)" for res
    proof (cases res)
      case True
      then show ?thesis using that hi0 by (auto intro!: sound_answer)
    next
      case False
      have "sound_call True ok ?least (range_search (ask_may False impl q (at_most False ?e)) 0 ?hi)"
        by (rule range_search_least [OF _ most(1) hi0]) (use sat top in \<open>meson order_trans\<close>)+
      then show ?thesis using False by simp
    qed
    have high: "sound_call True ok (\<lambda>x. m \<le> x \<and> x \<le> ?hi \<and> ?above x \<and> (\<forall>y. m \<le> y \<longrightarrow> y < x \<longrightarrow> \<not> ?above y))
        (range_search (ask_must impl q (at_most False ?e)) m ?hi)" if "?least m" for m
      by (rule range_search_least [OF _ most(2)]) (use top that in \<open>auto intro: order_trans\<close>)
    have range: "value_range q m x" if m: "?least m" and x: "m \<le> x \<and> x \<le> ?hi \<and> ?above x \<and> (\<forall>y. m \<le> y \<longrightarrow> y < x \<longrightarrow> \<not> ?above y)" for m x
    proof -
      have l: "(\<exists>\<rho>. ?M \<rho> \<and> eval \<rho> ?e = m) \<and> (\<forall>\<rho>. ?M \<rho> \<longrightarrow> m \<le> eval \<rho> ?e)" by (rule least_attained [OF q]) (use m in auto)
      moreover have "\<exists>\<rho>. ?M \<rho> \<and> eval \<rho> ?e = x" using greatest_attained [of m x q] x l by (cases "m = x") auto
      ultimately show ?thesis using x by (simp add: value_range_def)
    qed
    show "sound_call True ok (\<lambda>(lo, hi). value_range q lo hi)
        (and_then (asserted (ask_may False impl q (equal_to False ?e) 0)) (\<lambda>res.
         and_then (if res then answer 0 else range_search (ask_may False impl q (at_most False ?e)) 0 ?hi) (\<lambda>min.
         and_then (range_search (ask_must impl q (at_most False ?e)) min ?hi) (\<lambda>max. answer (min, max)))))"
      by (rule sound_and_then [OF sound_asserted [OF zero] sound_and_then [OF low sound_and_then [OF high]]]) (use range in auto)
  qed
qed

lemma getRange_values_right:
  assumes sure: "sure" and q: "query_ok q" and w: "getWidth (qexpr q) \<le> 64"
  shows "sound_call sure ok (\<lambda>(lo, hi). value_range q lo hi) (getRange_values False impl q)"
proof -
  have wf: "wf_expr (qexpr q)" and sat: "\<exists>\<rho>. models \<rho> (constraints q)" using q by (simp_all add: query_ok_def)
  consider (bool) "getWidth (qexpr q) = 1" | (const) w v where "getWidth (qexpr q) \<noteq> 1" "qexpr q = Constant w v"
    | (wide) "getWidth (qexpr q) \<noteq> 1" "dyn_const (qexpr q) = None"
    by (cases "getWidth (qexpr q) = 1"; cases "dyn_const (qexpr q)") (auto simp del: One_nat_def)
  then show ?thesis
  proof cases
    case bool
    have b: "bool_query q" using q bool by (simp add: bool_query_def)
    have v: "eval \<rho> (qexpr q) = 0 \<or> eval \<rho> (qexpr q) = 1" for \<rho> using formula_bool [of "qexpr q"] wf bool by (simp add: formula_def)
    have r: "case (case x of V_True \<Rightarrow> (1, 1) | V_False \<Rightarrow> (0, 0) | V_Unknown \<Rightarrow> (0, 1)) of (lo, hi) \<Rightarrow> value_range q lo hi"
      if "right_validity q x" for x
    proof (cases x)
      case V_Unknown
      then have "\<exists>\<rho>. models \<rho> (constraints q) \<and> eval \<rho> (qexpr q) = 0" "\<exists>\<rho>. models \<rho> (constraints q) \<and> eval \<rho> (qexpr q) = 1"
        using that v by (auto simp: right_validity_def valid_def unsatisfiable_def)
      moreover have "0 \<le> eval \<rho> (qexpr q) \<and> eval \<rho> (qexpr q) \<le> 1" for \<rho> using v [of \<rho>] by auto
      ultimately show ?thesis using V_Unknown by (simp add: value_range_def)
    qed (use that v sat in \<open>force simp: right_validity_def valid_def unsatisfiable_def value_range_def\<close>)+
    have "sound_call True ok (\<lambda>(lo, hi). value_range q lo hi) (and_then (asserted (evaluate_query impl q))
        (\<lambda>result. answer (case result of V_True \<Rightarrow> (1, 1) | V_False \<Rightarrow> (0, 0) | V_Unknown \<Rightarrow> (0, 1))))"
      by (rule sound_and_then [where R = "right_validity q"])
        (use evaluate_query_right [OF b] sure in \<open>simp add: sound_asserted\<close>, rule sound_answer, erule r)
    then show ?thesis using bool sure by (simp add: getRange_values_def Let_def)
  next
    case const
    then have "value_range q v v" using sat by (simp add: value_range_def)
    then show ?thesis using const w
      by (auto simp: getRange_values_def Let_def getZExtValue_def build_def and_then_def answer_def sound_call_def)
  next
    case wide
    then show ?thesis using wide_range_right [OF assms] by (simp add: getRange_values_def Let_def)
  qed
qed

lemma getRange_right:
  assumes sure: "sure" and q: "query_ok q" and w: "getWidth (qexpr q) \<le> 64"
  shows "sound_call sure ok (\<lambda>(l, h). \<exists>lo hi. l = Constant (getWidth (qexpr q)) lo \<and> h = Constant (getWidth (qexpr q)) hi \<and> value_range q lo hi)
    (getRange False impl q)"
  unfolding getRange_def
proof (rule sound_and_then [OF getRange_values_right [OF assms]], clarsimp)
  fix lo hi assume r: "value_range q lo hi"
  have wf: "wf_expr (qexpr q)" using q by (simp add: query_ok_def)
  have "0 \<le> x \<and> x < 2 ^ getWidth (qexpr q)" if "x = lo \<or> x = hi" for x using that r eval_bounds [OF wf] by (auto simp: value_range_def)
  then have "ConstantExpr_create x (getWidth (qexpr q)) = Some (Constant (getWidth (qexpr q)) x)" if "x = lo \<or> x = hi" for x
    using that w good_pos [of False "\<lambda>_ _. 0" "qexpr q"] wf by (simp add: ConstantExpr_create_def take_bit_int_eq_self)
  then show "sound_call sure ok (\<lambda>(l, h). \<exists>lo. l = Constant (getWidth (qexpr q)) lo \<and> (\<exists>hi. h = Constant (getWidth (qexpr q)) hi \<and> value_range q lo hi))
      (build (ConstantExpr_create lo (getWidth (qexpr q)) \<bind> (\<lambda>l. ConstantExpr_create hi (getWidth (qexpr q)) \<bind> (\<lambda>h. Some (l, h)))))"
    using r by (intro sound_build) auto
qed

end

section \<open>Contents that agree\<close>

text \<open>The arrays that an expression reads.\<close>

fun arrays :: "expr \<Rightarrow> array set" and arrays_updates :: "update_node \<Rightarrow> array set" where
  "arrays (Constant w v) = {}"
| "arrays (NotOptimized e) = arrays e"
| "arrays (Read arr us i) = insert arr (arrays_updates us \<union> arrays i)"
| "arrays (Select c t f) = arrays c \<union> arrays t \<union> arrays f"
| "arrays (Concat l r) = arrays l \<union> arrays r"
| "arrays (Extract e off w) = arrays e"
| "arrays (ZExt e w) = arrays e"
| "arrays (SExt e w) = arrays e"
| "arrays (NotExpr e) = arrays e"
| "arrays (Binary k l r) = arrays l \<union> arrays r"
| "arrays_updates No_Update = {}"
| "arrays_updates (Update_Node un_next ix v) = arrays_updates un_next \<union> arrays ix \<union> arrays v"

lemma agree_Un [simp]: "agree_on (A \<union> B) \<rho> \<rho>' \<longleftrightarrow> agree_on A \<rho> \<rho>' \<and> agree_on B \<rho> \<rho>'"
  "agree_on (insert arr (A \<union> B)) \<rho> \<rho>' \<longleftrightarrow> agree_on {arr} \<rho> \<rho>' \<and> agree_on (A \<union> B) \<rho> \<rho>'"
  by (auto simp: agree_on_def)

lemma eval_agree:
  "wf_expr e \<Longrightarrow> agree_on (arrays e) \<rho> \<rho>' \<Longrightarrow> eval \<rho> e = eval \<rho>' e"
  and lookup_agree:
  "wf_updates arr us \<Longrightarrow> agree_on {arr} \<rho> \<rho>' \<Longrightarrow> agree_on (arrays_updates us) \<rho> \<rho>' \<Longrightarrow> 0 \<le> i \<Longrightarrow> i < 2 ^ domain arr \<Longrightarrow>
   lookup_update \<rho> arr us i = lookup_update \<rho>' arr us i"
proof (induction \<rho> e and \<rho> arr us i rule: eval_lookup_update.induct)
  case (3 \<rho> arr us i)
  have a: "agree_on (arrays i) \<rho> \<rho>'" "agree_on {arr} \<rho> \<rho>'" "agree_on (arrays_updates us) \<rho> \<rho>'" "wf_updates arr us" "wf_expr i" "getWidth i = domain arr"
    using 3(3,4) by simp_all
  have "lookup_update \<rho> arr us (eval \<rho> i) = lookup_update \<rho>' arr us (eval \<rho> i)"
    using 3(2) [OF a(4,2,3)] eval_bounds [OF a(5), of \<rho>] a(6) by simp
  then show ?case using 3(1) [OF a(5,1)] by simp
next
  case (11 \<rho> arr i)
  then have "take_bit (range_w arr) (\<rho> arr (nat i)) = take_bit (range_w arr) (\<rho>' arr (nat i))" by (simp add: agree_on_def)
  then show ?case by (simp add: initial_byte_def)
qed auto

lemma models_agree:
  "\<forall>c \<in> set cs. formula c \<Longrightarrow> agree_on (\<Union> (arrays ` set cs)) \<rho> \<rho>' \<Longrightarrow> models \<rho> cs = models \<rho>' cs"
proof -
  assume a: "\<forall>c \<in> set cs. formula c" "agree_on (\<Union> (arrays ` set cs)) \<rho> \<rho>'"
  have "eval \<rho> c = eval \<rho>' c" if "c \<in> set cs" for c
    by (rule eval_agree) (use a that in \<open>auto simp: formula_def agree_on_def\<close>)
  then show ?thesis by (simp add: models_def)
qed

text \<open>The bytes of contents, for the arrays of a list.\<close>

definition bytes_of :: "contents \<Rightarrow> array list \<Rightarrow> int list list" where
  "bytes_of \<rho> objects = map (\<lambda>arr. map (\<rho> arr) [0..<2 ^ domain arr]) objects"

lemma Assignment_bindings:
  "distinct objects \<Longrightarrow> length values = length objects \<Longrightarrow> bindings (Assignment objects values free) = map_of (zip objects values)"
proof -
  have "foldl (\<lambda>m (os, arr). if m os = None then m(os \<mapsto> arr) else m) m xs = m ++ map_of xs"
    if "distinct (map fst xs)" "\<forall>x \<in> set xs. m (fst x) = None" for m and xs :: "(array \<times> int list) list"
    using that
  proof (induction xs arbitrary: m)
    case (Cons x xs)
    obtain a b where x: "x = (a, b)" by fastforce
    have "foldl (\<lambda>m (os, arr). if m os = None then m(os \<mapsto> arr) else m) m (x # xs) =
        foldl (\<lambda>m (os, arr). if m os = None then m(os \<mapsto> arr) else m) (m(a \<mapsto> b)) xs" using Cons.prems x by simp
    also have "\<dots> = m(a \<mapsto> b) ++ map_of xs"
      using Cons.prems x by (intro Cons.IH) (auto simp: image_iff)
    also have "\<dots> = m ++ map_of ((a, b) # xs)"
    proof -
      have "map_of xs a = None" using Cons.prems(1) x by (simp add: map_of_eq_None_iff)
      then show ?thesis by (intro ext) (simp add: map_add_def split: option.split)
    qed
    finally show ?case unfolding x .
  qed simp
  from this [of "zip objects values" Map.empty] show "distinct objects \<Longrightarrow> length values = length objects \<Longrightarrow> ?thesis"
    by (simp add: Assignment_def)
qed

lemma bytes_of_agree:
  assumes "distinct objects"
  shows "agree_on (set objects) (solution objects (bytes_of \<rho> objects)) \<rho>"
proof -
  have "solution objects (bytes_of \<rho> objects) arr i = \<rho> arr i" if "arr \<in> set objects" "int i < 2 ^ domain arr" for arr i
  proof -
    have "map_of (zip objects (bytes_of \<rho> objects)) arr = Some (map (\<rho> arr) [0..<2 ^ domain arr])"
      using that(1) assms by (simp add: bytes_of_def map_of_zip_map)
    moreover have "i < 2 ^ domain arr" using that(2) by (metis of_nat_less_iff of_nat_numeral of_nat_power)
    ultimately show ?thesis using assms by (simp add: solution_def contents_of_def Assignment_bindings bytes_of_def)
  qed
  then show ?thesis by (simp add: agree_on_def)
qed

section \<open>Solvers\<close>

text \<open>\<open>DummySolver\<close>, which fails on every query.\<close>

definition DummySolver :: "'s solver_impl" where
  "DummySolver = \<lparr>computeTruth = \<lambda>q s. (Failure, s), computeValidity = \<lambda>q s. (Failure, s), computeValue = \<lambda>q s. (Failure, s),
     computeInitialValues = \<lambda>q objects s. (Failure, s)\<rparr>"

interpretation dummy: sound_solver DummySolver "\<lambda>s. True" False
  by unfold_locales (simp_all add: sound_call_def DummySolver_def)

text \<open>
  What a core solver decides: the answers as the interface documents them. The satisfying
  contents that it returns are some contents of this kind.
\<close>

definition some_model :: "query \<Rightarrow> (int \<Rightarrow> bool) \<Rightarrow> contents" where
  "some_model q P = (SOME \<rho>. models \<rho> (constraints q) \<and> P (eval \<rho> (qexpr q)))"

definition core_solver :: "'s solver_impl" where
  "core_solver =
     \<lparr>computeTruth = \<lambda>q s. (Answer (valid q), s),
      computeValidity = \<lambda>q s. (Answer (if valid q then V_True else if unsatisfiable q then V_False else V_Unknown), s),
      computeValue = \<lambda>q s. (Answer (Constant (getWidth (qexpr q)) (eval (some_model q (\<lambda>v. True)) (qexpr q))), s),
      computeInitialValues = \<lambda>q objects s.
        (Answer (if valid q then None else Some (bytes_of (some_model q (\<lambda>v. v = 0)) objects)), s)\<rparr>"

lemma some_model_ok: "models \<rho> (constraints q) \<Longrightarrow> P (eval \<rho> (qexpr q)) \<Longrightarrow>
    models (some_model q P) (constraints q) \<and> P (eval (some_model q P) (qexpr q))"
  unfolding some_model_def using someI [of "\<lambda>\<rho>. models \<rho> (constraints q) \<and> P (eval \<rho> (qexpr q))" \<rho>] by simp

lemma core_initial_values:
  assumes "distinct objects" "\<not> valid q"
  shows "right_values q objects (Some (bytes_of (some_model q (\<lambda>v. v = 0)) objects))"
proof -
  let ?\<rho> = "some_model q (\<lambda>v. v = 0)"
  have "models ?\<rho> (constraints q)" "eval ?\<rho> (qexpr q) = 0"
    using some_model_ok [of _ q "\<lambda>v. v = 0"] assms(2) by (auto simp: valid_def)
  then show ?thesis using bytes_of_agree [OF assms(1), of ?\<rho>] by (auto simp: right_values_def bytes_of_def)
qed

interpretation core: sound_solver core_solver "\<lambda>s. True" True
proof unfold_locales
  show "query_ok q \<Longrightarrow> sound_call True (\<lambda>s. True) (right_value q) (computeValue core_solver q)" for q
    using some_model_ok [of _ q "\<lambda>v. True"] by (auto simp: sound_call_def core_solver_def right_value_def query_ok_def)
  show "bool_query q \<Longrightarrow> distinct objects \<Longrightarrow> sound_call True (\<lambda>s. True) (right_values q objects) (computeInitialValues core_solver q objects)" for q objects
    using core_initial_values [of objects q] by (auto simp: sound_call_def core_solver_def right_values_def)
qed (auto simp: sound_call_def core_solver_def right_validity_def)

section \<open>Properties\<close>

text \<open>
  C23: On any sound core solver that does not fail, \<open>getRange\<close> returns the exact range of an
  expression of at most 64 bits under satisfiable constraints: both ends are values that the
  expression takes, and it takes none outside. The three binary searches end and ask only
  well-formed queries.
\<close>

theorem getRange_exact:
  assumes "sound_solver impl ok True" "ok s" "query_ok q" "getWidth (qexpr q) \<le> 64"
  shows "\<exists>lo hi s'. getRange False impl q s = (Answer (Constant (getWidth (qexpr q)) lo, Constant (getWidth (qexpr q)) hi), s') \<and>
    value_range q lo hi"
  by (rule sound_callD [OF sound_solver.getRange_right [OF assms(1) TrueI assms(3,4)] assms(2)]) auto

definition sample_query :: query where
  "sample_query = Query [Binary Ult (sample_read 0) (Constant 8 10)] (sample_read 0)"

lemma sample_query_ok: "query_ok sample_query" "getWidth (qexpr sample_query) = 8"
proof -
  have "models (\<lambda>arr i. 0) (constraints sample_query)" by (simp add: models_def sample_query_def sample_read_def initial_byte_def)
  then show "query_ok sample_query" by (auto simp: query_ok_def sample_query_def sample_read_def formula_def const_ok_def is_cmp_def)
qed (simp add: sample_query_def sample_read_def)

lemma sample_value: "0 \<le> v \<Longrightarrow> v < 10 \<Longrightarrow> \<exists>\<rho>. models \<rho> (constraints sample_query) \<and> eval \<rho> (qexpr sample_query) = v"
  by (rule exI [of _ "\<lambda>arr i. v"]) (simp add: models_def sample_query_def sample_read_def initial_byte_def take_bit_int_eq_self)

theorem getRange_exact_witness:
  "\<exists>s'. getRange False core_solver sample_query () = (Answer (Constant 8 0, Constant 8 9), s')"
proof -
  obtain lo hi s' where r: "getRange False core_solver sample_query () = (Answer (Constant 8 lo, Constant 8 hi), s')" "value_range sample_query lo hi"
    using getRange_exact [OF core.sound_solver_axioms TrueI sample_query_ok(1), of "()"] sample_query_ok(2) by auto
  have "lo \<le> 0" "9 \<le> hi" using r(2) sample_value [of 0] sample_value [of 9] by (auto simp: value_range_def)
  moreover have "0 \<le> lo" "hi \<le> 9" using r(2) eval_bounds [of "qexpr sample_query"] sample_query_ok(1)
    by (auto simp: value_range_def query_ok_def models_def sample_query_def)
  ultimately show ?thesis using r(1) by (metis antisym)
qed

end
