(* ===== verification/Solver_Caches.thy ===== *)
theory Solver_Caches
  imports Klee_Solver
begin

text \<open>
  Layers on top of a core solver: the staging of an incomplete solver before a complete one
  (\<open>src/lib/Solver/IncompleteSolver.cpp\<close>) and the cache of validity results
  (\<open>src/lib/Solver/CachingSolver.cpp\<close>). Each is shown to keep the contract of a solver.
  Counters of hits and misses are left out.
\<close>

section \<open>Partial answers\<close>

datatype partial_validity = MustBeTrue | MustBeFalse | MayBeTrue | MayBeFalse | TrueOrFalse | PV_None

fun negatePartialValidity :: "partial_validity \<Rightarrow> partial_validity option" where
  "negatePartialValidity MustBeTrue = Some MustBeFalse"
| "negatePartialValidity MustBeFalse = Some MustBeTrue"
| "negatePartialValidity MayBeTrue = Some MayBeFalse"
| "negatePartialValidity MayBeFalse = Some MayBeTrue"
| "negatePartialValidity TrueOrFalse = Some TrueOrFalse"
| "negatePartialValidity PV_None = None"

record incomplete_solver =
  inc_truth :: "query \<Rightarrow> partial_validity"
  inc_value :: "query \<Rightarrow> expr option"
  inc_initial_values :: "query \<Rightarrow> array list \<Rightarrow> int list list option option"

text \<open>\<open>IncompleteSolver::computeValidity\<close>.\<close>

definition inc_computeValidity :: "bool \<Rightarrow> incomplete_solver \<Rightarrow> query \<Rightarrow> partial_validity option" where
  "inc_computeValidity opt inc q =
     (if inc_truth inc q = MustBeTrue then Some MustBeTrue
      else do {
        n \<leftarrow> negateExpr opt q;
        (if inc_truth inc n = MustBeTrue then Some MustBeFalse
         else if inc_truth inc q \<noteq> PV_None \<and> inc_truth inc n \<noteq> PV_None then Some TrueOrFalse
         else if inc_truth inc q \<noteq> PV_None then Some MayBeFalse
         else if inc_truth inc n \<noteq> PV_None then Some MayBeTrue
         else Some PV_None)
      })"

text \<open>\<open>StagedSolverImpl\<close>.\<close>

definition staged_computeTruth :: "incomplete_solver \<Rightarrow> 's solver_impl \<Rightarrow> query \<Rightarrow> ('s, bool) call" where
  "staged_computeTruth primary secondary q =
     (if inc_truth primary q \<noteq> PV_None then answer (inc_truth primary q = MustBeTrue) else computeTruth secondary q)"

definition staged_computeValidity :: "bool \<Rightarrow> incomplete_solver \<Rightarrow> 's solver_impl \<Rightarrow> query \<Rightarrow> ('s, validity) call" where
  "staged_computeValidity opt primary secondary q =
     and_then (build (inc_computeValidity opt primary q)) (\<lambda>pv.
       case pv of
         MustBeTrue \<Rightarrow> answer V_True
       | MustBeFalse \<Rightarrow> answer V_False
       | TrueOrFalse \<Rightarrow> answer V_Unknown
       | MayBeTrue \<Rightarrow> and_then (computeTruth secondary q) (\<lambda>tmp. answer (if tmp then V_True else V_Unknown))
       | MayBeFalse \<Rightarrow> and_then (build (negateExpr opt q)) (\<lambda>n. and_then (computeTruth secondary n) (\<lambda>tmp. answer (if tmp then V_False else V_Unknown)))
       | PV_None \<Rightarrow> computeValidity secondary q)"

definition staged_computeValue :: "incomplete_solver \<Rightarrow> 's solver_impl \<Rightarrow> query \<Rightarrow> ('s, expr) call" where
  "staged_computeValue primary secondary q =
     (case inc_value primary q of Some result \<Rightarrow> answer result | None \<Rightarrow> computeValue secondary q)"

definition staged_computeInitialValues :: "incomplete_solver \<Rightarrow> 's solver_impl \<Rightarrow> query \<Rightarrow> array list \<Rightarrow> ('s, int list list option) call" where
  "staged_computeInitialValues primary secondary q objects =
     (case inc_initial_values primary q objects of Some sol \<Rightarrow> answer sol | None \<Rightarrow> computeInitialValues secondary q objects)"

definition StagedSolver :: "bool \<Rightarrow> incomplete_solver \<Rightarrow> 's solver_impl \<Rightarrow> 's solver_impl" where
  "StagedSolver opt primary secondary =
     \<lparr>computeTruth = staged_computeTruth primary secondary, computeValidity = staged_computeValidity opt primary secondary,
      computeValue = staged_computeValue primary secondary, computeInitialValues = staged_computeInitialValues primary secondary\<rparr>"

section \<open>The cache of validity results\<close>

type_synonym cache_map = "expr list \<times> expr \<Rightarrow> partial_validity option"

text \<open>The state of a layer is the state below and its own.\<close>

definition below :: "('s, 'a) call \<Rightarrow> ('s \<times> 'c, 'a) call" where
  "below m sc = (case m (fst sc) of (a, s') \<Rightarrow> (a, (s', snd sc)))"

definition get_own :: "('s \<times> 'c, 'c) call" where
  "get_own sc = (Answer (snd sc), sc)"

definition put_own :: "'c \<Rightarrow> ('s \<times> 'c, unit) call" where
  "put_own c sc = (Answer (), (fst sc, c))"

text \<open>
  The canonical form of a query is the smaller one of the query and its negation in the order of
  expressions. \<open>insert\<close> of the hash map keeps an entry that is there.
\<close>

definition canonicalizeQuery :: "bool \<Rightarrow> (expr \<Rightarrow> expr \<Rightarrow> bool) \<Rightarrow> expr \<Rightarrow> (expr \<times> bool) option" where
  "canonicalizeQuery opt lt e = do { negated \<leftarrow> createIsZero opt e; Some (if lt e negated then (e, False) else (negated, True)) }"

definition cacheLookup :: "bool \<Rightarrow> (expr \<Rightarrow> expr \<Rightarrow> bool) \<Rightarrow> query \<Rightarrow> cache_map \<Rightarrow> partial_validity option option" where
  "cacheLookup opt lt q cache =
     do {
       (canonical, negationUsed) \<leftarrow> canonicalizeQuery opt lt (qexpr q);
       (case cache (constraints q, canonical) of
          Some pv \<Rightarrow> map_option Some (if negationUsed then negatePartialValidity pv else Some pv)
        | None \<Rightarrow> Some None)
     }"

definition cacheInsert :: "bool \<Rightarrow> (expr \<Rightarrow> expr \<Rightarrow> bool) \<Rightarrow> query \<Rightarrow> partial_validity \<Rightarrow> cache_map \<Rightarrow> cache_map option" where
  "cacheInsert opt lt q result cache =
     do {
       (canonical, negationUsed) \<leftarrow> canonicalizeQuery opt lt (qexpr q);
       cached \<leftarrow> (if negationUsed then negatePartialValidity result else Some result);
       Some (if cache (constraints q, canonical) = None then cache((constraints q, canonical) \<mapsto> cached) else cache)
     }"

definition lookup_call :: "bool \<Rightarrow> (expr \<Rightarrow> expr \<Rightarrow> bool) \<Rightarrow> query \<Rightarrow> ('s \<times> cache_map, partial_validity option) call" where
  "lookup_call opt lt q = and_then get_own (\<lambda>cache. build (cacheLookup opt lt q cache))"

definition insert_call :: "bool \<Rightarrow> (expr \<Rightarrow> expr \<Rightarrow> bool) \<Rightarrow> query \<Rightarrow> partial_validity \<Rightarrow> ('s \<times> cache_map, unit) call" where
  "insert_call opt lt q pv = and_then get_own (\<lambda>cache. and_then (build (cacheInsert opt lt q pv cache)) put_own)"

definition caching_computeTruth ::
  "bool \<Rightarrow> (expr \<Rightarrow> expr \<Rightarrow> bool) \<Rightarrow> 's solver_impl \<Rightarrow> query \<Rightarrow> ('s \<times> cache_map, bool) call" where
  "caching_computeTruth opt lt impl q =
     and_then (lookup_call opt lt q) (\<lambda>hit.
       if hit \<noteq> None \<and> hit \<noteq> Some MayBeTrue then answer (hit = Some MustBeTrue)
       else and_then (below (computeTruth impl q)) (\<lambda>isValid.
         and_then (insert_call opt lt q (if isValid then MustBeTrue else if hit \<noteq> None then TrueOrFalse else MayBeFalse)) (\<lambda>_.
           answer isValid)))"

text \<open>What the two branches for a half-known result do: ask for the other half, store and return the full result.\<close>

definition caching_refine ::
  "bool \<Rightarrow> (expr \<Rightarrow> expr \<Rightarrow> bool) \<Rightarrow> 's solver_impl \<Rightarrow> query \<Rightarrow> query \<Rightarrow> partial_validity \<Rightarrow> validity \<Rightarrow> ('s \<times> cache_map, validity) call" where
  "caching_refine opt lt impl q asked pv v =
     and_then (below (computeTruth impl asked)) (\<lambda>tmp.
       and_then (insert_call opt lt q (if tmp then pv else TrueOrFalse)) (\<lambda>_. answer (if tmp then v else V_Unknown)))"

definition caching_computeValidity ::
  "bool \<Rightarrow> (expr \<Rightarrow> expr \<Rightarrow> bool) \<Rightarrow> 's solver_impl \<Rightarrow> query \<Rightarrow> ('s \<times> cache_map, validity) call" where
  "caching_computeValidity opt lt impl q =
     and_then (lookup_call opt lt q) (\<lambda>hit.
       case hit of
         Some MustBeTrue \<Rightarrow> answer V_True
       | Some MustBeFalse \<Rightarrow> answer V_False
       | Some TrueOrFalse \<Rightarrow> answer V_Unknown
       | Some MayBeTrue \<Rightarrow> caching_refine opt lt impl q q MustBeTrue V_True
       | Some MayBeFalse \<Rightarrow> and_then (build (negateExpr opt q)) (\<lambda>n. caching_refine opt lt impl q n MustBeFalse V_False)
       | Some PV_None \<Rightarrow> abort
       | None \<Rightarrow>
           and_then (below (computeValidity impl q)) (\<lambda>result.
             and_then (insert_call opt lt q (case result of V_True \<Rightarrow> MustBeTrue | V_False \<Rightarrow> MustBeFalse | V_Unknown \<Rightarrow> TrueOrFalse)) (\<lambda>_.
               answer result)))"

definition CachingSolver :: "bool \<Rightarrow> (expr \<Rightarrow> expr \<Rightarrow> bool) \<Rightarrow> 's solver_impl \<Rightarrow> ('s \<times> cache_map) solver_impl" where
  "CachingSolver opt lt impl =
     \<lparr>computeTruth = caching_computeTruth opt lt impl, computeValidity = caching_computeValidity opt lt impl,
      computeValue = \<lambda>q. below (computeValue impl q), computeInitialValues = \<lambda>q objects. below (computeInitialValues impl q objects)\<rparr>"

section \<open>What the layers rely on and promise\<close>

text \<open>What a partial answer says of a query.\<close>

definition right_partial :: "query \<Rightarrow> partial_validity \<Rightarrow> bool" where
  "right_partial q pv =
     (case pv of
        MustBeTrue \<Rightarrow> valid q
      | MustBeFalse \<Rightarrow> unsatisfiable q
      | MayBeTrue \<Rightarrow> \<not> unsatisfiable q
      | MayBeFalse \<Rightarrow> \<not> valid q
      | TrueOrFalse \<Rightarrow> \<not> valid q \<and> \<not> unsatisfiable q
      | PV_None \<Rightarrow> True)"

text \<open>
  The contract of an incomplete solver. Its truth is about validity: whatever it answers besides
  \<open>MustBeTrue\<close> and \<open>None\<close> says that the query is not valid, as the comments of
  \<open>computeValidity\<close> have it.
\<close>

definition sound_incomplete :: "incomplete_solver \<Rightarrow> bool" where
  "sound_incomplete inc \<longleftrightarrow>
     (\<forall>q. bool_query q \<longrightarrow> inc_truth inc q \<noteq> PV_None \<longrightarrow> valid q = (inc_truth inc q = MustBeTrue)) \<and>
     (\<forall>q e. query_ok q \<longrightarrow> inc_value inc q = Some e \<longrightarrow> right_value q e) \<and>
     (\<forall>q objects sol. bool_query q \<longrightarrow> distinct objects \<longrightarrow> inc_initial_values inc q objects = Some sol \<longrightarrow> right_values q objects sol)"

lemma inc_validity_right:
  assumes "sound_incomplete inc" "bool_query q"
  shows "\<exists>pv. inc_computeValidity False inc q = Some pv \<and> right_partial q pv"
proof -
  obtain n where n: "negateExpr False q = Some n" "bool_query n" "constraints n = constraints q"
      "\<And>\<rho>. eval \<rho> (qexpr n) = of_bool (eval \<rho> (qexpr q) = 0)"
    by (rule negateExpr_ok [OF assms(2)]) blast
  note neg = negated_validity [OF n(3,4)]
  have truth: "inc_truth inc q \<noteq> PV_None \<Longrightarrow> valid q = (inc_truth inc q = MustBeTrue)" if "bool_query q" for q
    using assms(1) that unfolding sound_incomplete_def by blast
  show ?thesis using truth [OF assms(2)] truth [OF n(2)]
    by (simp add: inc_computeValidity_def n(1) right_partial_def neg split: partial_validity.split)
qed

section \<open>Staging\<close>

lemma staged_validity_right:
  assumes "sound_incomplete inc" "sound_solver impl ok sure" "bool_query q"
  shows "sound_call sure ok (right_validity q) (staged_computeValidity False inc impl q)"
proof -
  obtain pv where pv: "inc_computeValidity False inc q = Some pv" "right_partial q pv"
    using inc_validity_right [OF assms(1,3)] by blast
  obtain n where n: "negateExpr False q = Some n" "bool_query n" "constraints n = constraints q"
      "\<And>\<rho>. eval \<rho> (qexpr n) = of_bool (eval \<rho> (qexpr q) = 0)"
    by (rule negateExpr_ok [OF assms(3)]) blast
  note truth = sound_solver.truth_right [OF assms(2)]
  have may: "sound_call sure ok (right_validity q) (and_then (computeTruth impl q) (\<lambda>tmp. answer (if tmp then V_True else V_Unknown)))"
    if "\<not> unsatisfiable q"
    by (rule sound_and_then [OF truth [OF assms(3)]]) (auto simp: right_validity_def that)
  have not: "sound_call sure ok (right_validity q)
      (and_then (build (negateExpr False q)) (\<lambda>n. and_then (computeTruth impl n) (\<lambda>tmp. answer (if tmp then V_False else V_Unknown))))"
    if "\<not> valid q"
    by (rule sound_and_then [OF sound_build [where right = "\<lambda>m. m = n", OF n(1) refl]])
      (auto intro!: sound_and_then [OF truth [OF n(2)]] simp: right_validity_def negated_validity [OF n(3,4)] that)
  show ?thesis unfolding staged_computeValidity_def
  proof (rule sound_and_then [OF sound_build [where right = "\<lambda>x. x = pv", OF pv(1) refl]], hypsubst)
    show "sound_call sure ok (right_validity q)
      (case pv of
         MustBeTrue \<Rightarrow> answer V_True
       | MustBeFalse \<Rightarrow> answer V_False
       | MayBeTrue \<Rightarrow> and_then (computeTruth impl q) (\<lambda>tmp. answer (if tmp then V_True else V_Unknown))
       | MayBeFalse \<Rightarrow> and_then (build (negateExpr False q)) (\<lambda>n. and_then (computeTruth impl n) (\<lambda>tmp. answer (if tmp then V_False else V_Unknown)))
       | TrueOrFalse \<Rightarrow> answer V_Unknown
       | PV_None \<Rightarrow> computeValidity impl q)"
      using pv(2) may not sound_solver.validity_right [OF assms(2,3)]
      by (cases pv) (auto simp: right_partial_def right_validity_def intro!: sound_answer)
  qed
qed

lemma staged_sound:
  assumes "sound_incomplete inc" "sound_solver impl ok sure"
  shows "sound_solver (StagedSolver False inc impl) ok sure"
proof
  fix q
  have truth: "inc_truth inc q \<noteq> PV_None \<Longrightarrow> valid q = (inc_truth inc q = MustBeTrue)" if "bool_query q"
    using assms(1) that unfolding sound_incomplete_def by blast
  have val: "inc_value inc q = Some e \<Longrightarrow> right_value q e" if "query_ok q" for e
    using assms(1) that unfolding sound_incomplete_def by blast
  have initial: "inc_initial_values inc q objects = Some sol \<Longrightarrow> right_values q objects sol" if "bool_query q" "distinct objects" for objects sol
    using assms(1) that unfolding sound_incomplete_def by blast
  show "sound_call sure ok (\<lambda>b. b = valid q) (computeTruth (StagedSolver False inc impl) q)" if "bool_query q"
    using truth [OF that] sound_solver.truth_right [OF assms(2) that]
    by (auto simp: StagedSolver_def staged_computeTruth_def intro!: sound_answer)
  show "sound_call sure ok (right_validity q) (computeValidity (StagedSolver False inc impl) q)" if "bool_query q"
    using staged_validity_right [OF assms that] by (simp add: StagedSolver_def)
  show "sound_call sure ok (right_value q) (computeValue (StagedSolver False inc impl) q)" if "query_ok q"
    using val [OF that] sound_solver.values_right [OF assms(2) that]
    by (auto simp: StagedSolver_def staged_computeValue_def intro!: sound_answer split: option.split)
  show "sound_call sure ok (right_values q objects) (computeInitialValues (StagedSolver False inc impl) q objects)"
    if "bool_query q" "distinct objects" for objects
    using initial [OF that] sound_solver.initial_right [OF assms(2) that]
    by (auto simp: StagedSolver_def staged_computeInitialValues_def intro!: sound_answer split: option.split)
qed

section \<open>Caching\<close>

text \<open>Every entry of the cache is true of the queries that it stands for.\<close>

definition cache_ok :: "cache_map \<Rightarrow> bool" where
  "cache_ok cache \<longleftrightarrow> (\<forall>q pv. bool_query q \<longrightarrow> cache (constraints q, qexpr q) = Some pv \<longrightarrow> pv \<noteq> PV_None \<and> right_partial q pv)"

definition layer_ok :: "('s \<Rightarrow> bool) \<Rightarrow> ('c \<Rightarrow> bool) \<Rightarrow> 's \<times> 'c \<Rightarrow> bool" where
  "layer_ok ok own sc \<longleftrightarrow> ok (fst sc) \<and> own (snd sc)"

lemma sound_below: "sound_call sure ok R m \<Longrightarrow> sound_call sure (layer_ok ok own) R (below m)"
proof (rule sound_callI)
  fix sc assume "sound_call sure ok R m" "layer_ok ok own sc"
  then show "(\<exists>a s'. below m sc = (Answer a, s') \<and> R a \<and> layer_ok ok own s') \<or> (\<exists>s'. below m sc = (Failure, s') \<and> \<not> sure \<and> layer_ok ok own s')"
    by (auto simp: layer_ok_def below_def elim: sound_callD [of sure ok R m "fst sc"])
qed

lemma sound_get_own: "sound_call sure (layer_ok ok own) own get_own"
  by (rule sound_callI) (simp add: get_own_def layer_ok_def)

lemma sound_put_own: "own c \<Longrightarrow> sound_call sure (layer_ok ok own) (\<lambda>_. True) (put_own c)"
  by (rule sound_callI) (simp add: put_own_def layer_ok_def)

lemma negate_partial:
  assumes "constraints n = constraints q" "\<And>\<rho>. eval \<rho> (qexpr n) = of_bool (eval \<rho> (qexpr q) = 0)" "pv \<noteq> PV_None"
  shows "\<exists>pv'. negatePartialValidity pv = Some pv' \<and> pv' \<noteq> PV_None \<and> right_partial n pv' = right_partial q pv \<and> right_partial q pv' = right_partial n pv"
  using assms(3) by (cases pv) (auto simp: right_partial_def negated_validity [OF assms(1,2)])

text \<open>The canonical query is the query or its negation.\<close>

lemma canonical_cases:
  assumes "bool_query q"
  obtains (same) "canonicalizeQuery False lt (qexpr q) = Some (qexpr q, False)"
    | (negated) n where "canonicalizeQuery False lt (qexpr q) = Some (qexpr n, True)" "bool_query n" "constraints n = constraints q"
        "\<And>\<rho>. eval \<rho> (qexpr n) = of_bool (eval \<rho> (qexpr q) = 0)"
proof -
  obtain n where n: "negateExpr False q = Some n" "bool_query n" "constraints n = constraints q"
      "\<And>\<rho>. eval \<rho> (qexpr n) = of_bool (eval \<rho> (qexpr q) = 0)"
    by (rule negateExpr_ok [OF assms]) blast
  then have "createIsZero False (qexpr q) = Some (qexpr n)" by (auto simp: negateExpr_def)
  then show ?thesis using same negated [OF _ n(2-4)] by (cases "lt (qexpr q) (qexpr n)") (simp_all add: canonicalizeQuery_def)
qed

lemma cacheLookup_right:
  assumes "bool_query q" "cache_ok cache"
  shows "\<exists>hit. cacheLookup False lt q cache = Some hit \<and> (\<forall>pv. hit = Some pv \<longrightarrow> pv \<noteq> PV_None \<and> right_partial q pv)"
  using assms(1)
proof (cases rule: canonical_cases [of q lt])
  case same
  then show ?thesis using assms by (auto simp: cacheLookup_def cache_ok_def split: option.split)
next
  case (negated n)
  show ?thesis
  proof (cases "cache (constraints q, qexpr n)")
    case (Some pv)
    then have "pv \<noteq> PV_None \<and> right_partial n pv" using assms(2) negated(2,3) by (simp add: cache_ok_def)
    then obtain pv' where "negatePartialValidity pv = Some pv'" "pv' \<noteq> PV_None" "right_partial q pv'"
      using negate_partial [OF negated(3,4), of pv] by blast
    then show ?thesis using Some negated(1) by (simp add: cacheLookup_def)
  qed (use negated(1) in \<open>simp add: cacheLookup_def\<close>)
qed

lemma cache_ok_update:
  assumes "cache_ok cache" "\<And>q. bool_query q \<Longrightarrow> constraints q = cs \<Longrightarrow> qexpr q = e \<Longrightarrow> pv \<noteq> PV_None \<and> right_partial q pv"
  shows "cache_ok (cache((cs, e) \<mapsto> pv))"
  using assms unfolding cache_ok_def by (metis Pair_inject fun_upd_apply option.inject)

lemma right_partial_cong: "constraints q = constraints q' \<Longrightarrow> qexpr q = qexpr q' \<Longrightarrow> right_partial q = right_partial q'"
  by (metis query.equality old.unit.exhaust)

lemma cacheInsert_right:
  assumes "bool_query q" "cache_ok cache" "pv \<noteq> PV_None" "right_partial q pv"
  shows "\<exists>cache'. cacheInsert False lt q pv cache = Some cache' \<and> cache_ok cache'"
  using assms(1)
proof (cases rule: canonical_cases [of q lt])
  case same
  have "cache_ok (cache((constraints q, qexpr q) \<mapsto> pv))"
    by (rule cache_ok_update [OF assms(2)]) (use assms(3,4) right_partial_cong in metis)
  then show ?thesis using same assms(2) by (simp add: cacheInsert_def)
next
  case (negated n)
  obtain pv' where pv': "negatePartialValidity pv = Some pv'" "pv' \<noteq> PV_None" "right_partial n pv'"
    using negate_partial [OF negated(3,4) assms(3)] assms(4) by blast
  have "cache_ok (cache((constraints q, qexpr n) \<mapsto> pv'))"
    by (rule cache_ok_update [OF assms(2)]) (use pv'(2,3) right_partial_cong negated(3) in metis)
  then show ?thesis using negated(1) pv'(1) assms(2) by (simp add: cacheInsert_def)
qed

lemma lookup_call_right:
  "bool_query q \<Longrightarrow> sound_call sure (layer_ok ok cache_ok) (\<lambda>hit. \<forall>pv. hit = Some pv \<longrightarrow> pv \<noteq> PV_None \<and> right_partial q pv) (lookup_call False lt q)"
  unfolding lookup_call_def
  by (rule sound_and_then [OF sound_get_own]) (use cacheLookup_right in \<open>blast intro: sound_build\<close>)

lemma insert_call_right:
  "bool_query q \<Longrightarrow> pv \<noteq> PV_None \<Longrightarrow> right_partial q pv \<Longrightarrow> sound_call sure (layer_ok ok cache_ok) (\<lambda>_. True) (insert_call False lt q pv)"
  unfolding insert_call_def
proof (rule sound_and_then [OF sound_get_own])
  fix cache assume a: "bool_query q" "pv \<noteq> PV_None" "right_partial q pv" "cache_ok cache"
  obtain cache' where "cacheInsert False lt q pv cache = Some cache'" "cache_ok cache'" using cacheInsert_right [OF a(1,4,2,3)] by blast
  then show "sound_call sure (layer_ok ok cache_ok) (\<lambda>_. True) (and_then (build (cacheInsert False lt q pv cache)) put_own)"
    by (intro sound_and_then [where R = cache_ok]) (auto intro: sound_build sound_put_own)
qed

lemma sound_then: "sound_call sure ok (\<lambda>_. True) m \<Longrightarrow> sound_call sure ok Q f \<Longrightarrow> sound_call sure ok Q (and_then m (\<lambda>_. f))"
  by (rule sound_and_then)

lemma caching_truth_right:
  assumes "sound_solver impl ok sure" "bool_query q"
  shows "sound_call sure (layer_ok ok cache_ok) (\<lambda>b. b = valid q) (caching_computeTruth False lt impl q)"
  unfolding caching_computeTruth_def
proof (rule sound_and_then [OF lookup_call_right [OF assms(2)]])
  fix hit assume hit: "\<forall>pv. hit = Some pv \<longrightarrow> pv \<noteq> PV_None \<and> right_partial q pv"
  have sat: "valid q \<Longrightarrow> \<not> unsatisfiable q" using valid_sat assms(2) by (auto simp: bool_query_def)
  have known: "(hit = Some MustBeTrue) = valid q" if "hit \<noteq> None" "hit \<noteq> Some MayBeTrue"
  proof (cases hit)
    case (Some pv)
    then show ?thesis using hit that(2) sat by (cases pv) (auto simp: right_partial_def)
  qed (use that(1) in simp)
  have ask: "sound_call sure (layer_ok ok cache_ok) (\<lambda>b. b = valid q) (and_then (below (computeTruth impl q)) (\<lambda>isValid.
         and_then (insert_call False lt q (if isValid then MustBeTrue else if hit \<noteq> None then TrueOrFalse else MayBeFalse)) (\<lambda>_. answer isValid)))"
    if h: "hit = None \<or> hit = Some MayBeTrue"
  proof (rule sound_and_then [OF sound_below [OF sound_solver.truth_right [OF assms]]])
    fix isValid assume "isValid = valid q"
    then show "sound_call sure (layer_ok ok cache_ok) (\<lambda>b. b = valid q)
        (and_then (insert_call False lt q (if isValid then MustBeTrue else if hit \<noteq> None then TrueOrFalse else MayBeFalse)) (\<lambda>_. answer isValid))"
      using h hit by (intro sound_then insert_call_right assms(2) sound_answer) (auto simp: right_partial_def)
  qed
  show "sound_call sure (layer_ok ok cache_ok) (\<lambda>b. b = valid q)
      (if hit \<noteq> None \<and> hit \<noteq> Some MayBeTrue then answer (hit = Some MustBeTrue)
       else and_then (below (computeTruth impl q)) (\<lambda>isValid.
         and_then (insert_call False lt q (if isValid then MustBeTrue else if hit \<noteq> None then TrueOrFalse else MayBeFalse)) (\<lambda>_. answer isValid)))"
    using known ask by (auto intro!: sound_answer)
qed

lemma caching_refine_right:
  assumes "sound_solver impl ok sure" "bool_query q" "bool_query asked"
    and "valid asked \<Longrightarrow> pv \<noteq> PV_None \<and> right_partial q pv \<and> right_validity q v"
    and "\<not> valid asked \<Longrightarrow> \<not> valid q \<and> \<not> unsatisfiable q"
  shows "sound_call sure (layer_ok ok cache_ok) (right_validity q) (caching_refine False lt impl q asked pv v)"
  unfolding caching_refine_def
proof (rule sound_and_then [OF sound_below [OF sound_solver.truth_right [OF assms(1,3)]]])
  fix tmp assume "tmp = valid asked"
  then show "sound_call sure (layer_ok ok cache_ok) (right_validity q)
      (and_then (insert_call False lt q (if tmp then pv else TrueOrFalse)) (\<lambda>_. answer (if tmp then v else V_Unknown)))"
    using assms(4,5) by (intro sound_then insert_call_right assms(2) sound_answer) (auto simp: right_partial_def right_validity_def)
qed

lemma caching_miss_right:
  assumes "sound_solver impl ok sure" "bool_query q"
  shows "sound_call sure (layer_ok ok cache_ok) (right_validity q)
    (and_then (below (computeValidity impl q)) (\<lambda>result.
      and_then (insert_call False lt q (case result of V_True \<Rightarrow> MustBeTrue | V_False \<Rightarrow> MustBeFalse | V_Unknown \<Rightarrow> TrueOrFalse)) (\<lambda>_. answer result)))"
proof (rule sound_and_then [OF sound_below [OF sound_solver.validity_right [OF assms]]])
  fix result assume "right_validity q result"
  then show "sound_call sure (layer_ok ok cache_ok) (right_validity q)
      (and_then (insert_call False lt q (case result of V_True \<Rightarrow> MustBeTrue | V_False \<Rightarrow> MustBeFalse | V_Unknown \<Rightarrow> TrueOrFalse)) (\<lambda>_. answer result))"
    by (intro sound_then insert_call_right assms(2) sound_answer) (cases result; simp add: right_partial_def right_validity_def)+
qed

lemma caching_validity_right:
  assumes "sound_solver impl ok sure" "bool_query q"
  shows "sound_call sure (layer_ok ok cache_ok) (right_validity q) (caching_computeValidity False lt impl q)"
  unfolding caching_computeValidity_def
proof (rule sound_and_then [OF lookup_call_right [OF assms(2)]])
  fix hit assume hit: "\<forall>pv. hit = Some pv \<longrightarrow> pv \<noteq> PV_None \<and> right_partial q pv"
  obtain n where n: "negateExpr False q = Some n" "bool_query n" "constraints n = constraints q"
      "\<And>\<rho>. eval \<rho> (qexpr n) = of_bool (eval \<rho> (qexpr q) = 0)"
    by (rule negateExpr_ok [OF assms(2)]) blast
  note neg = negated_validity [OF n(3,4)]
  have may: "sound_call sure (layer_ok ok cache_ok) (right_validity q) (caching_refine False lt impl q q MustBeTrue V_True)" if "\<not> unsatisfiable q"
    by (rule caching_refine_right [OF assms assms(2)]) (use that in \<open>simp_all add: right_partial_def right_validity_def\<close>)
  have not: "sound_call sure (layer_ok ok cache_ok) (right_validity q)
      (and_then (build (negateExpr False q)) (\<lambda>n. caching_refine False lt impl q n MustBeFalse V_False))" if "\<not> valid q"
    by (rule sound_and_then [OF sound_build [where right = "\<lambda>m. m = n", OF n(1) refl]], hypsubst, rule caching_refine_right [OF assms n(2)])
      (use that in \<open>simp_all add: neg right_partial_def right_validity_def\<close>)
  show "sound_call sure (layer_ok ok cache_ok) (right_validity q)
     (case hit of
         Some MustBeTrue \<Rightarrow> answer V_True
       | Some MustBeFalse \<Rightarrow> answer V_False
       | Some TrueOrFalse \<Rightarrow> answer V_Unknown
       | Some MayBeTrue \<Rightarrow> caching_refine False lt impl q q MustBeTrue V_True
       | Some MayBeFalse \<Rightarrow> and_then (build (negateExpr False q)) (\<lambda>n. caching_refine False lt impl q n MustBeFalse V_False)
       | Some PV_None \<Rightarrow> abort
       | None \<Rightarrow>
           and_then (below (computeValidity impl q)) (\<lambda>result.
             and_then (insert_call False lt q (case result of V_True \<Rightarrow> MustBeTrue | V_False \<Rightarrow> MustBeFalse | V_Unknown \<Rightarrow> TrueOrFalse)) (\<lambda>_.
               answer result)))"
  proof (cases hit)
    case None
    then show ?thesis using caching_miss_right [OF assms] by simp
  next
    case (Some pv)
    then show ?thesis using hit may not by (cases pv) (auto simp: right_partial_def right_validity_def intro!: sound_answer)
  qed
qed

lemma caching_sound:
  assumes "sound_solver impl ok sure"
  shows "sound_solver (CachingSolver False lt impl) (layer_ok ok cache_ok) sure"
  by unfold_locales
    (simp_all add: CachingSolver_def caching_truth_right [OF assms] caching_validity_right [OF assms] sound_below
      sound_solver.values_right [OF assms] sound_solver.initial_right [OF assms])

interpretation cached: sound_solver "CachingSolver False lt core_solver" "layer_ok (\<lambda>s. True) cache_ok" True for lt
  by (rule caching_sound) (rule core.sound_solver_axioms)

text \<open>A query with a cached result: \<open>cacheInsert\<close> leaves the cache as it is.\<close>

lemma cacheInsert_keeps:
  "cacheLookup opt lt q cache = Some (Some old) \<Longrightarrow> cacheInsert opt lt q pv cache = Some cache' \<Longrightarrow> cache' = cache"
  by (auto simp: cacheLookup_def cacheInsert_def split: option.splits bind_splits)

section \<open>Properties\<close>

text \<open>
  C24: The cache of validity results in front of a complete solver is invisible: whatever true
  results the cache holds, and whichever of a query and its negation it stores, a query is
  answered as it is without the cache, and the cache stays true.
\<close>

theorem caching_invisible:
  assumes "sound_solver impl ok True" "ok s" "cache_ok cache" "bool_query q"
  shows "\<exists>s' cache'. evaluate_query (CachingSolver False lt impl) q (s, cache) =
      (Answer (if valid q then V_True else if unsatisfiable q then V_False else V_Unknown), (s', cache')) \<and> ok s' \<and> cache_ok cache'"
    (is "\<exists>s' cache'. ?lhs = (Answer ?v, _) \<and> _")
proof -
  have ok: "layer_ok ok cache_ok (s, cache)" using assms(2,3) by (simp add: layer_ok_def)
  have right: "v = ?v" if "right_validity q v" for v
    using that valid_sat [of q] assms(4) by (cases v) (auto simp: right_validity_def bool_query_def)
  from sound_solver.evaluate_query_right [OF caching_sound [OF assms(1)] assms(4)] ok show ?thesis
    by (cases rule: sound_callD) (use right in \<open>fastforce simp: layer_ok_def\<close>, simp)
qed

text \<open>A read below four, asked of an empty cache and then of the cache that this fills.\<close>

definition cached_query :: query where
  "cached_query = Query [Binary Ult (sample_read 0) (Constant 8 10)] (Binary Ult (sample_read 0) (Constant 8 4))"

lemma cached_query_facts: "bool_query cached_query" "\<not> valid cached_query" "\<not> unsatisfiable cached_query"
proof -
  have m: "models (\<lambda>arr i. v) (constraints cached_query)" if "0 \<le> v" "v < 10" for v
    using that by (simp add: models_def cached_query_def sample_read_def initial_byte_def take_bit_int_eq_self)
  from m [of 0] show "bool_query cached_query"
    by (auto simp: bool_query_def query_ok_def cached_query_def sample_read_def formula_def const_ok_def is_cmp_def)
  show "\<not> valid cached_query" using m [of 5]
    by (auto simp: valid_def cached_query_def sample_read_def initial_byte_def take_bit_int_eq_self intro!: exI [of _ "\<lambda>arr i. 5"])
  show "\<not> unsatisfiable cached_query" using m [of 1]
    by (auto simp: unsatisfiable_def cached_query_def sample_read_def initial_byte_def take_bit_int_eq_self intro!: exI [of _ "\<lambda>arr i. 1"])
qed

theorem caching_invisible_witness:
  "\<exists>cache' cache''. evaluate_query (CachingSolver False (\<lambda>a b. False) core_solver) cached_query ((), Map.empty) = (Answer V_Unknown, ((), cache')) \<and>
     evaluate_query (CachingSolver False (\<lambda>a b. True) core_solver) cached_query ((), cache') = (Answer V_Unknown, ((), cache''))"
proof -
  have "cache_ok Map.empty" by (simp add: cache_ok_def)
  then obtain cache' where c: "evaluate_query (CachingSolver False (\<lambda>a b. False) core_solver) cached_query ((), Map.empty) = (Answer V_Unknown, ((), cache'))" "cache_ok cache'"
    using caching_invisible [OF core.sound_solver_axioms TrueI _ cached_query_facts(1), of Map.empty "\<lambda>a b. False" "()"] cached_query_facts(2,3) by auto
  then show ?thesis
    using caching_invisible [OF core.sound_solver_axioms TrueI c(2) cached_query_facts(1), of "\<lambda>a b. True" "()"] cached_query_facts(2,3) by auto
qed

end
