(* ===== verification/Map_Of_Sets.thy ===== *)
theory Map_Of_Sets
  imports Castan_Prelude "HOL-Library.Sublist"
begin

text \<open>
  The index of sets \<open>MapOfSets\<close> in \<open>src/include/klee/Internal/ADT/MapOfSets.h\<close>, a tree whose
  paths are sets in increasing order. A node has a value when it ends a set, and its children in the
  order of their keys, as the iterators of \<open>std::map\<close> give them; sets are the increasing lists
  that the iterators of \<open>std::set\<close> give. The counterexample cache looks for subsets and
  supersets of a query here.
\<close>

section \<open>The tree\<close>

datatype ('k, 'v) node = Node (node_value: "'v option") (node_children: "('k \<times> ('k, 'v) node) list")

definition new_node :: "('k, 'v) node" where
  "new_node = Node None []"

text \<open>A child is replaced, or inserted at its place.\<close>

fun put_child :: "'k::linorder \<Rightarrow> 'n \<Rightarrow> ('k \<times> 'n) list \<Rightarrow> ('k \<times> 'n) list" where
  "put_child k n [] = [(k, n)]"
| "put_child k n ((k', n') # cs) =
     (if k = k' then (k, n) # cs else if k < k' then (k, n) # (k', n') # cs else (k', n') # put_child k n cs)"

fun insert_set :: "'k::linorder list \<Rightarrow> 'v \<Rightarrow> ('k, 'v) node \<Rightarrow> ('k, 'v) node" where
  "insert_set [] v n = Node (Some v) (node_children n)"
| "insert_set (x # xs) v n =
     (let kid = (case map_of (node_children n) x of Some kid \<Rightarrow> kid | None \<Rightarrow> new_node)
      in Node (node_value n) (put_child x (insert_set xs v kid) (node_children n)))"

fun lookup_set :: "'k::linorder list \<Rightarrow> ('k, 'v) node \<Rightarrow> 'v option" where
  "lookup_set [] n = node_value n"
| "lookup_set (x # xs) n = (case map_of (node_children n) x of Some kid \<Rightarrow> lookup_set xs kid | None \<Rightarrow> None)"

text \<open>A node that ends a set with a value of the wanted kind.\<close>

definition ends_in :: "('v \<Rightarrow> bool) \<Rightarrow> 'v option \<Rightarrow> bool" where
  "ends_in p e = (case e of Some v \<Rightarrow> p v | None \<Rightarrow> False)"

section \<open>Subsets\<close>

text \<open>
  \<open>findSubsets\<close> returns all stored subsets with their values; \<open>subset_kids\<close> is its loop over
  the elements.
\<close>

fun findSubsets :: "('k::linorder, 'v) node \<Rightarrow> 'k set \<Rightarrow> 'k list \<Rightarrow> ('k set \<times> 'v) list"
  and subset_kids :: "('k::linorder, 'v) node \<Rightarrow> 'k set \<Rightarrow> 'k list \<Rightarrow> ('k set \<times> 'v) list" where
  "findSubsets n accum xs = (case node_value n of Some v \<Rightarrow> [(accum, v)] | None \<Rightarrow> []) @ subset_kids n accum xs"
| "subset_kids n accum [] = []"
| "subset_kids n accum (elt # xs) =
     (case map_of (node_children n) elt of Some kid \<Rightarrow> findSubsets kid (insert elt accum) xs | None \<Rightarrow> []) @
     subset_kids n accum xs"

text \<open>
  \<open>findSubset\<close> returns one value that satisfies a predicate. Its loop walks over the elements and
  the children side by side: a step of \<open>subset_loop\<close> advances the element that is smaller,
  the child that is smaller, or descends where they are equal.
\<close>

function findSubset :: "('v \<Rightarrow> bool) \<Rightarrow> ('k::linorder, 'v) node \<Rightarrow> 'k list \<Rightarrow> 'v option"
  and subset_loop :: "('v \<Rightarrow> bool) \<Rightarrow> ('k::linorder \<times> ('k, 'v) node) list \<Rightarrow> 'k list \<Rightarrow> 'v option" where
  "findSubset p n xs =
     (if ends_in p (node_value n) then node_value n
      else if xs = [] then None
      else subset_loop p (dropWhile (\<lambda>(k, c). k < hd xs) (node_children n)) xs)"
| "subset_loop p [] xs = None"
| "subset_loop p (kc # kids) [] = None"
| "subset_loop p ((k, c) # kids) (x # xs) =
     (if x < k then subset_loop p ((k, c) # kids) xs
      else if x = k then
        (case findSubset p c xs of Some v \<Rightarrow> Some v | None \<Rightarrow> subset_loop p ((k, c) # kids) xs)
      else subset_loop p kids (x # xs))"
  by pat_completeness auto
termination
  by (relation "inv_image (less_than <*lex*> less_than <*lex*> less_than)
      (\<lambda>x. case x of Inl (p, n, xs) \<Rightarrow> (length xs, 1, 0) | Inr (p, kids, xs) \<Rightarrow> (length xs, 0, length kids))") auto

declare findSubset.simps [simp del]

section \<open>Supersets\<close>

fun findSupersets :: "('k::linorder, 'v) node \<Rightarrow> 'k set \<Rightarrow> 'k list \<Rightarrow> ('k set \<times> 'v) list"
  and superset_kids :: "('k::linorder \<times> ('k, 'v) node) list \<Rightarrow> 'k set \<Rightarrow> 'k list \<Rightarrow> ('k set \<times> 'v) list" where
  "findSupersets (Node e cs) accum xs =
     (if xs = [] then (case e of Some v \<Rightarrow> [(accum, v)] | None \<Rightarrow> []) else []) @ superset_kids cs accum xs"
| "superset_kids [] accum xs = []"
| "superset_kids ((k, c) # cs) accum xs =
     (case xs of
        [] \<Rightarrow> findSupersets c (insert k accum) [] @ superset_kids cs accum []
      | elt # xs' \<Rightarrow>
          if elt = k then findSupersets c (insert k accum) xs' @ superset_kids cs accum xs
          else if k < elt then findSupersets c (insert k accum) xs @ superset_kids cs accum xs
          else [])"

text \<open>
  \<open>findSuperset\<close>: \<open>superset_first\<close> is its loop over the children. When elements remain, it
  first looks below every child for all of them, then below the child of the first one for the
  others.
\<close>

fun findSuperset :: "('v \<Rightarrow> bool) \<Rightarrow> ('k::linorder, 'v) node \<Rightarrow> 'k list \<Rightarrow> 'v option"
  and superset_first :: "('v \<Rightarrow> bool) \<Rightarrow> ('k::linorder \<times> ('k, 'v) node) list \<Rightarrow> 'k list \<Rightarrow> 'v option"
  and superset_mid :: "('v \<Rightarrow> bool) \<Rightarrow> ('k::linorder \<times> ('k, 'v) node) list \<Rightarrow> 'k list \<Rightarrow> 'v option" where
  "findSuperset p (Node e cs) xs =
     (if xs = [] \<and> ends_in p e then e
      else case superset_first p cs xs of Some v \<Rightarrow> Some v | None \<Rightarrow> superset_mid p cs xs)"
| "superset_first p [] xs = None"
| "superset_first p ((k, c) # cs) xs = (case findSuperset p c xs of Some v \<Rightarrow> Some v | None \<Rightarrow> superset_first p cs xs)"
| "superset_mid p [] xs = None"
| "superset_mid p ((k, c) # cs) xs =
     (case xs of
        [] \<Rightarrow> None
      | x # xs' \<Rightarrow> if k < x then superset_mid p cs xs else if x = k then findSuperset p c xs' else None)"

section \<open>Lookup after insertion\<close>

lemma map_of_put_child [simp]: "map_of (put_child k n cs) k' = (if k' = k then Some n else map_of cs k')"
  by (induction k n cs rule: put_child.induct) auto

lemma lookup_new [simp]: "lookup_set ys new_node = None"
  by (cases ys) (simp_all add: new_node_def)

lemma lookup_insert: "lookup_set ys (insert_set xs v n) = (if ys = xs then Some v else lookup_set ys n)"
proof (induction xs arbitrary: ys n)
  case Nil
  then show ?case by (cases ys) simp_all
next
  case (Cons x xs)
  then show ?case by (cases ys) (auto simp: Let_def split: option.split)
qed

section \<open>Paths are increasing\<close>

fun wf_node :: "('k::linorder, 'v) node \<Rightarrow> bool" where
  "wf_node (Node e cs) \<longleftrightarrow> sorted_wrt (<) (map fst cs) \<and>
     (\<forall>kc \<in> set cs. wf_node (snd kc) \<and> (\<forall>k' \<in> fst ` set (node_children (snd kc)). fst kc < k'))"

lemma wf_new [simp]: "wf_node new_node"
  by (simp add: new_node_def)

lemma wf_nodeD:
  assumes "wf_node n" "map_of (node_children n) k = Some c"
  shows "wf_node c" "\<forall>k' \<in> fst ` set (node_children c). k < k'"
  using assms map_of_SomeD [OF assms(2)] by (cases n; force)+

lemma keys_put_child: "fst ` set (put_child k n cs) = insert k (fst ` set cs)"
  by (induction k n cs rule: put_child.induct) auto

lemma set_put_child: "kc \<in> set (put_child k n cs) \<Longrightarrow> kc = (k, n) \<or> kc \<in> set cs"
  by (induction k n cs rule: put_child.induct) (auto split: if_splits)

lemma sorted_put_child:
  "sorted_wrt (<) (map fst cs) \<Longrightarrow> sorted_wrt (<) (map fst (put_child k n cs))"
proof (induction k n cs rule: put_child.induct)
  case (2 k n k' n' cs)
  have keys: "fst ` set (put_child k n cs) = insert k (fst ` set cs)" by (rule keys_put_child)
  show ?case
  proof (cases "k < k' \<or> k = k'")
    case False
    then have "\<forall>y \<in> set (map fst (put_child k n cs)). k' < y" using 2(2) keys by (auto simp: image_iff)
    then show ?thesis using 2 False by auto
  qed (use 2 in auto)
qed simp

lemma keys_insert_set: "fst ` set (node_children (insert_set xs v n)) = set (take 1 xs) \<union> fst ` set (node_children n)"
  by (cases xs) (auto simp: keys_put_child Let_def)

lemma wf_insert_set: "wf_node n \<Longrightarrow> sorted_wrt (<) xs \<Longrightarrow> wf_node (insert_set xs v n)"
proof (induction xs arbitrary: n)
  case Nil
  then show ?case by (cases n) simp
next
  case (Cons x xs)
  define kid where "kid = (case map_of (node_children n) x of Some kid \<Rightarrow> kid | None \<Rightarrow> new_node)"
  have kid: "wf_node kid" "\<forall>k' \<in> fst ` set (node_children kid). x < k'"
    using Cons.prems(1) wf_nodeD [of n x] by (auto simp: kid_def new_node_def split: option.split)
  have new: "wf_node (insert_set xs v kid)" "\<forall>k' \<in> fst ` set (node_children (insert_set xs v kid)). x < k'"
    using Cons.IH [OF kid(1)] Cons.prems(2) kid(2) unfolding keys_insert_set by (auto dest: in_set_takeD)
  have cs: "sorted_wrt (<) (map fst (node_children n))"
      "\<forall>kc \<in> set (node_children n). wf_node (snd kc) \<and> (\<forall>k' \<in> fst ` set (node_children (snd kc)). fst kc < k')"
    using Cons.prems(1) by (cases n; simp)+
  show ?case using cs new
    by (auto simp: Let_def kid_def [symmetric] sorted_put_child dest!: set_put_child) force
qed

lemma lookup_sorted: "wf_node n \<Longrightarrow> lookup_set ys n = Some v \<Longrightarrow> sorted_wrt (<) ys \<and> set (take 1 ys) \<subseteq> fst ` set (node_children n)"
proof (induction ys arbitrary: n)
  case (Cons y ys)
  then obtain c where c: "map_of (node_children n) y = Some c" "lookup_set ys c = Some v" by (auto split: option.splits)
  have "sorted_wrt (<) ys" "\<forall>z \<in> set (take 1 ys). y < z"
    using Cons.IH [OF wf_nodeD(1) [OF Cons.prems(1) c(1)] c(2)] wf_nodeD(2) [OF Cons.prems(1) c(1)] by auto
  then have "sorted_wrt (<) (y # ys)" by (cases ys) (auto intro: less_trans)
  then show ?case using map_of_SomeD [OF c(1)] by (auto simp: image_iff intro!: bexI [of _ "(y, c)"])
qed simp

section \<open>Searching subsets\<close>

lemma findSubsets_paths:
  "(S, v) \<in> set (findSubsets n accum xs) \<longleftrightarrow> (\<exists>ys. S = accum \<union> set ys \<and> subseq ys xs \<and> lookup_set ys n = Some v)"
  and subset_kids_paths:
  "(S, v) \<in> set (subset_kids n accum xs) \<longleftrightarrow> (\<exists>ys. S = accum \<union> set ys \<and> ys \<noteq> [] \<and> subseq ys xs \<and> lookup_set ys n = Some v)"
proof (induction n accum xs and n accum xs rule: findSubsets_subset_kids.induct)
  case (1 n accum xs)
  have "(\<exists>ys. S = accum \<union> set ys \<and> subseq ys xs \<and> lookup_set ys n = Some v) \<longleftrightarrow>
      S = accum \<and> node_value n = Some v \<or> (\<exists>ys. S = accum \<union> set ys \<and> ys \<noteq> [] \<and> subseq ys xs \<and> lookup_set ys n = Some v)"
    by (metis Un_empty_right list.set(1) lookup_set.simps(1) list_emb_Nil)
  moreover have "(S, v) \<in> set (case node_value n of Some v \<Rightarrow> [(accum, v)] | None \<Rightarrow> []) \<longleftrightarrow> S = accum \<and> node_value n = Some v"
    by (auto split: option.split)
  ultimately show ?case using 1 by simp
next
  case (3 n accum elt xs)
  have "(\<exists>ys. S = accum \<union> set ys \<and> ys \<noteq> [] \<and> subseq ys (elt # xs) \<and> lookup_set ys n = Some v) \<longleftrightarrow>
      (\<exists>kid ys. map_of (node_children n) elt = Some kid \<and> S = insert elt accum \<union> set ys \<and> subseq ys xs \<and> lookup_set ys kid = Some v) \<or>
      (\<exists>ys. S = accum \<union> set ys \<and> ys \<noteq> [] \<and> subseq ys xs \<and> lookup_set ys n = Some v)" (is "?l \<longleftrightarrow> ?a \<or> ?b")
  proof
    assume ?l
    then obtain ys where ys: "S = accum \<union> set ys" "ys \<noteq> []" "subseq ys (elt # xs)" "lookup_set ys n = Some v" by blast
    then obtain y zs where z: "ys = y # zs" by (cases ys) auto
    show "?a \<or> ?b"
    proof (cases "y = elt")
      case True
      then obtain kid where "map_of (node_children n) elt = Some kid" "lookup_set zs kid = Some v" using ys(4) z by (auto split: option.splits)
      moreover have "subseq zs xs" using ys(3) z True by simp
      ultimately show ?thesis using ys(1) z True by auto
    next
      case False
      then have "subseq ys xs" using ys(3) z by simp
      then show ?thesis using ys by blast
    qed
  next
    assume "?a \<or> ?b"
    then show ?l
    proof
      assume ?a
      then obtain kid ys where "map_of (node_children n) elt = Some kid" "S = insert elt accum \<union> set ys" "subseq ys xs" "lookup_set ys kid = Some v" by blast
      then show ?l by (intro exI [of _ "elt # ys"]) auto
    qed blast
  qed
  moreover have "(S, v) \<in> set (case map_of (node_children n) elt of Some kid \<Rightarrow> findSubsets kid (insert elt accum) xs | None \<Rightarrow> []) \<longleftrightarrow>
      (\<exists>kid ys. map_of (node_children n) elt = Some kid \<and> S = insert elt accum \<union> set ys \<and> subseq ys xs \<and> lookup_set ys kid = Some v)"
    using 3(1) by (cases "map_of (node_children n) elt") (simp_all del: findSubsets.simps)
  ultimately show ?case using 3(2) by (simp del: findSubsets.simps)
qed simp

lemma subseq_set: "subseq ys xs \<Longrightarrow> set ys \<subseteq> set xs"
  by (induction rule: list_emb.induct) auto

lemma sorted_subseq: "subseq ys xs \<Longrightarrow> sorted_wrt P xs \<Longrightarrow> sorted_wrt P ys"
  by (induction rule: list_emb.induct) (auto dest: subseq_set)

lemma subseq_sorted_iff:
  fixes xs :: "'k::linorder list"
  assumes "sorted_wrt (<) xs"
  shows "subseq ys xs \<longleftrightarrow> sorted_wrt (<) ys \<and> set ys \<subseteq> set xs"
proof
  assume "subseq ys xs"
  then show "sorted_wrt (<) ys \<and> set ys \<subseteq> set xs"
    using assms sorted_subseq subseq_set by blast
next
  assume "sorted_wrt (<) ys \<and> set ys \<subseteq> set xs"
  then show "subseq ys xs" using assms
  proof (induction xs arbitrary: ys)
    case (Cons x xs)
    show ?case
    proof (cases ys)
      case (Cons y zs)
      show ?thesis
      proof (cases "y = x")
        case True
        have "set zs \<subseteq> set xs" using Cons.prems(1) \<open>ys = y # zs\<close> True by auto
        then show ?thesis using Cons.IH [of zs] Cons.prems \<open>ys = y # zs\<close> True by simp
      next
        case False
        then have "x < y" using Cons.prems \<open>ys = y # zs\<close> by auto
        moreover have "\<forall>z \<in> set ys. \<not> z < y" using Cons.prems(1) \<open>ys = y # zs\<close> by (auto dest: less_asym)
        ultimately have "x \<notin> set ys" by blast
        then show ?thesis using Cons.IH [of ys] Cons.prems by auto
      qed
    qed simp
  qed simp
qed

lemma in_dropWhile: "x \<in> set xs \<Longrightarrow> \<not> P x \<Longrightarrow> x \<in> set (dropWhile P xs)"
  by (induction xs) auto

lemma sorted_dropWhile: "sorted_wrt Q (map f xs) \<Longrightarrow> sorted_wrt Q (map f (dropWhile P xs))"
  by (induction xs) auto

text \<open>The children of a node below which a set can be found.\<close>

lemma wf_children:
  assumes "wf_node n"
  shows "sorted_wrt (<) (map fst (node_children n))" "\<forall>kc \<in> set (node_children n). wf_node (snd kc)"
    "(k, c) \<in> set (node_children n) \<longleftrightarrow> map_of (node_children n) k = Some c"
proof -
  show s: "sorted_wrt (<) (map fst (node_children n))" and "\<forall>kc \<in> set (node_children n). wf_node (snd kc)"
    using assms by (cases n; simp)+
  have "distinct (map fst (node_children n))" using s strict_sorted_iff by blast
  then show "(k, c) \<in> set (node_children n) \<longleftrightarrow> map_of (node_children n) k = Some c" by (simp add: map_of_eq_Some_iff)
qed

lemma findSubset_sound:
  "findSubset p n xs = Some v \<Longrightarrow> wf_node n \<Longrightarrow> p v \<and> (\<exists>ys. subseq ys xs \<and> lookup_set ys n = Some v)"
  and subset_loop_sound:
  "subset_loop p kids xs = Some v \<Longrightarrow> \<forall>kc \<in> set kids. wf_node (snd kc) \<Longrightarrow>
     p v \<and> (\<exists>k c ys. (k, c) \<in> set kids \<and> subseq (k # ys) xs \<and> lookup_set ys c = Some v)"
proof (induction p n xs and p kids xs rule: findSubset_subset_loop.induct)
  case (1 p n xs)
  show ?case
  proof (cases "ends_in p (node_value n)")
    case True
    then show ?thesis using 1(2) by (auto simp: findSubset.simps ends_in_def split: option.splits intro!: exI [of _ "[]"])
  next
    case False
    then have ne: "xs \<noteq> []" and l: "subset_loop p (dropWhile (\<lambda>(k, c). k < hd xs) (node_children n)) xs = Some v"
      using 1(2) by (auto simp: findSubset.simps split: if_splits)
    have sub: "set (dropWhile (\<lambda>(k, c). k < hd xs) (node_children n)) \<subseteq> set (node_children n)" using set_dropWhileD by fastforce
    obtain k c ys where "p v" "(k, c) \<in> set (node_children n)" "subseq (k # ys) xs" "lookup_set ys c = Some v"
      using 1(1) [OF False ne l] wf_children(2) [OF 1(3)] sub by blast
    then show ?thesis using wf_children(3) [OF 1(3)] by (intro conjI exI [of _ "k # ys"]) auto
  qed
next
  case (4 p k c kids x xs)
  let ?found = "\<lambda>kids xs. p v \<and> (\<exists>k c ys. (k, c) \<in> set kids \<and> subseq (k # ys) xs \<and> lookup_set ys c = Some v)"
  have skip: "?found kids xs \<Longrightarrow> ?found kids (x # xs)" for kids using list_emb_Cons by fast
  consider "x < k" | "x = k" "findSubset p c xs = None" | "x = k" "findSubset p c xs = Some v" | "\<not> x < k" "x \<noteq> k"
    using 4(5) by (cases "x = k"; cases "findSubset p c xs") auto
  then show ?case
  proof cases
    case 1
    then have "subset_loop p ((k, c) # kids) xs = Some v" using 4(5) by simp
    from 4(1) [OF 1 this 4(6)] show ?thesis by (rule skip)
  next
    case 2
    then have "subset_loop p ((k, c) # kids) xs = Some v" using 4(5) by simp
    from 4(3) [OF _ 2 this 4(6)] show ?thesis using 2(1) by (intro skip) simp
  next
    case 3
    then have "p v \<and> (\<exists>ys. subseq ys xs \<and> lookup_set ys c = Some v)" using 4(2) 4(6) by simp
    then show ?thesis using 3(1) by auto
  next
    case later: 4
    then have "subset_loop p kids (x # xs) = Some v" using 4(5) by simp
    from 4(4) [OF later this] have "?found kids (x # xs)" using 4(6) by simp
    then show ?thesis by (metis list.set_intros(2))
  qed
qed auto

lemma findSubset_complete:
  "wf_node n \<Longrightarrow> sorted_wrt (<) xs \<Longrightarrow> subseq ys xs \<Longrightarrow> lookup_set ys n = Some v \<Longrightarrow> p v \<Longrightarrow> findSubset p n xs \<noteq> None"
  and subset_loop_complete:
  "\<forall>kc \<in> set kids. wf_node (snd kc) \<Longrightarrow> sorted_wrt (<) (map fst kids) \<Longrightarrow> sorted_wrt (<) xs \<Longrightarrow>
   (k, c) \<in> set kids \<Longrightarrow> subseq (k # ys) xs \<Longrightarrow> lookup_set ys c = Some v \<Longrightarrow> p v \<Longrightarrow> subset_loop p kids xs \<noteq> None"
proof (induction p n xs and p kids xs arbitrary: ys and k c ys rule: findSubset_subset_loop.induct)
  case (1 p n xs)
  show ?case
  proof (cases "ends_in p (node_value n)")
    case True
    then show ?thesis by (auto simp: findSubset.simps ends_in_def split: option.splits)
  next
    case False
    then obtain k zs where ys: "ys = k # zs" using 1(5,6) by (cases ys) (auto simp: ends_in_def)
    then obtain c where c: "map_of (node_children n) k = Some c" "lookup_set zs c = Some v" using 1(5) by (auto split: option.splits)
    have ne: "xs \<noteq> []" and k: "k \<in> set xs" using subseq_set [OF 1(4)] ys by auto
    let ?d = "dropWhile (\<lambda>(k, c). k < hd xs) (node_children n)"
    have "hd xs \<le> k" using k 1(3) by (cases xs) auto
    then have "(k, c) \<in> set ?d" using map_of_SomeD [OF c(1)] by (intro in_dropWhile) auto
    moreover have "\<forall>kc \<in> set ?d. wf_node (snd kc)" using wf_children(2) [OF 1(2)] by (auto dest: set_dropWhileD)
    moreover have "sorted_wrt (<) (map fst ?d)" using wf_children(1) [OF 1(2)] by (rule sorted_dropWhile)
    ultimately show ?thesis using 1(1) [OF False ne, of k c zs] 1(3,4,6) ys c(2) False ne by (simp add: findSubset.simps)
  qed
next
  case (4 p k' c' kids x xs)
  note wf = 4(5) and sorted = 4(6,7) and found = 4(8-11)
  have kk: "k' < k \<or> k = k' \<and> c = c'" "k' < k \<Longrightarrow> (k, c) \<in> set kids" using found(1) sorted(1) by force+
  have step: "subseq (k # ys) xs" if "k \<noteq> x" using found(2) that by simp
  consider "x < k'" | "x = k'" "k = k'" "c = c'" | "x = k'" "k' < k" | "k' < x" using kk(1) by (metis linorder_cases)
  then show ?case
  proof cases
    case 1
    then have "k \<noteq> x" using kk(1) by auto
    then show ?thesis using 4(1) [OF 1 wf sorted(1) _ found(1) step found(3,4)] sorted(2) 1 by simp
  next
    case 2
    then have "subseq ys xs" using found(2) by simp
    then have "findSubset p c' xs \<noteq> None" using 4(2) [of ys] 2 wf sorted(2) found(3,4) by simp
    then show ?thesis using 2 by auto
  next
    case 3
    then have "subset_loop p ((k', c') # kids) xs \<noteq> None" if "findSubset p c' xs = None"
      using 4(3) [OF _ 3(1) that wf sorted(1) _ found(1) step found(3,4)] sorted(2) by simp
    then show ?thesis using 3 by (auto split: option.split)
  next
    case later: 4
    have "k \<in> set (x # xs)" using subseq_set [OF found(2)] by simp
    then have "k' < k" using later sorted(2) by auto
    from 4(4) [OF _ _ _ _ sorted(2) kk(2) [OF this] found(2-4)] have "subset_loop p kids (x # xs) \<noteq> None"
      using later wf sorted(1) by auto
    then show ?thesis using later by auto
  qed
qed auto

section \<open>Searching supersets\<close>

text \<open>The children of a well-formed node, as the loops see them.\<close>

definition wf_kids :: "('k::linorder \<times> ('k, 'v) node) list \<Rightarrow> bool" where
  "wf_kids cs \<longleftrightarrow> sorted_wrt (<) (map fst cs) \<and>
     (\<forall>kc \<in> set cs. wf_node (snd kc) \<and> (\<forall>k' \<in> fst ` set (node_children (snd kc)). fst kc < k'))"

lemma wf_node_kids [simp]: "wf_node (Node e cs) = wf_kids cs"
  by (simp add: wf_kids_def)

declare wf_node.simps [simp del]

lemma wf_kids_Cons: "wf_kids ((k, c) # cs) \<Longrightarrow> wf_node c \<and> wf_kids cs \<and> (\<forall>k' \<in> fst ` set cs. k < k')"
  by (auto simp: wf_kids_def)

lemma kid_path:
  assumes "wf_kids cs" "(k, c) \<in> set cs" "lookup_set ys c = Some v"
  shows "sorted_wrt (<) (k # ys)"
proof -
  have c: "wf_node c" "\<forall>k' \<in> fst ` set (node_children c). k < k'" using assms(1,2) by (force simp: wf_kids_def)+
  have "sorted_wrt (<) ys" "set (take 1 ys) \<subseteq> fst ` set (node_children c)" using lookup_sorted [OF c(1) assms(3)] by auto
  then show ?thesis using c(2) by (cases ys) (auto intro: less_trans)
qed

lemma lookup_kids: "wf_kids cs \<Longrightarrow> (\<exists>ys. P ys \<and> lookup_set ys (Node e cs) = Some v) \<longleftrightarrow>
    P [] \<and> e = Some v \<or> (\<exists>k c ys. (k, c) \<in> set cs \<and> P (k # ys) \<and> lookup_set ys c = Some v)"
proof -
  assume "wf_kids cs"
  then have m: "(k, c) \<in> set cs \<longleftrightarrow> map_of cs k = Some c" for k c using wf_children(3) [of "Node e cs" k c] by simp
  show ?thesis
  proof
    assume "\<exists>ys. P ys \<and> lookup_set ys (Node e cs) = Some v"
    then obtain ys where "P ys" "lookup_set ys (Node e cs) = Some v" by blast
    then show "P [] \<and> e = Some v \<or> (\<exists>k c ys. (k, c) \<in> set cs \<and> P (k # ys) \<and> lookup_set ys c = Some v)"
      using m by (cases ys) (auto split: option.splits)
  next
    assume "P [] \<and> e = Some v \<or> (\<exists>k c ys. (k, c) \<in> set cs \<and> P (k # ys) \<and> lookup_set ys c = Some v)"
    then show "\<exists>ys. P ys \<and> lookup_set ys (Node e cs) = Some v"
    proof
      assume "\<exists>k c ys. (k, c) \<in> set cs \<and> P (k # ys) \<and> lookup_set ys c = Some v"
      then obtain k c ys where "(k, c) \<in> set cs" "P (k # ys)" "lookup_set ys c = Some v" by blast
      then show ?thesis using m by (intro exI [of _ "k # ys"]) auto
    qed (auto intro!: exI [of _ "[]"])
  qed
qed

lemma findSupersets_paths:
  "wf_node n \<Longrightarrow> (S, v) \<in> set (findSupersets n accum xs) \<longleftrightarrow> (\<exists>ys. (S = accum \<union> set ys \<and> subseq xs ys) \<and> lookup_set ys n = Some v)"
  and superset_kids_paths:
  "wf_kids cs \<Longrightarrow> (S, v) \<in> set (superset_kids cs accum xs) \<longleftrightarrow>
    (\<exists>k c ys. (k, c) \<in> set cs \<and> (S = accum \<union> set (k # ys) \<and> subseq xs (k # ys)) \<and> lookup_set ys c = Some v)"
proof (induction n accum xs and cs accum xs rule: findSupersets_superset_kids.induct)
  case (1 e cs accum xs)
  have wf: "wf_kids cs" using 1(2) by simp
  have "(S, v) \<in> set (if xs = [] then (case e of Some v \<Rightarrow> [(accum, v)] | None \<Rightarrow> []) else []) \<longleftrightarrow> (S = accum \<union> set [] \<and> subseq xs []) \<and> e = Some v"
    by (cases xs; cases e) auto
  then show ?case
    unfolding findSupersets.simps set_append Un_iff 1(1) [OF wf] lookup_kids [OF wf, of "\<lambda>ys. S = accum \<union> set ys \<and> subseq xs ys" e v]
    by (rule disj_cong) (rule refl)
next
  case (3 k c cs accum xs)
  note wf = wf_kids_Cons [OF 3(7)]
  let ?Q = "\<lambda>cs. \<exists>k c ys. (k, c) \<in> set cs \<and> (S = accum \<union> set (k # ys) \<and> subseq xs (k # ys)) \<and> lookup_set ys c = Some v"
  have split: "?Q ((k, c) # cs) \<longleftrightarrow> (\<exists>ys. (S = insert k accum \<union> set ys \<and> subseq xs (k # ys)) \<and> lookup_set ys c = Some v) \<or> ?Q cs" by auto
  show ?case
  proof (cases xs)
    case Nil
    then show ?thesis using 3(1,2) wf unfolding split by (simp del: findSupersets.simps)
  next
    case (Cons elt xs')
    have above: "\<not> ?Q cs" if "\<not> k < elt"
    proof
      assume "?Q cs"
      then obtain k' c' ys where q: "(k', c') \<in> set cs" "subseq xs (k' # ys)" "lookup_set ys c' = Some v" by blast
      have "sorted_wrt (<) (k' # ys)" using kid_path [OF _ q(1,3)] wf by blast
      moreover have "elt \<in> set (k' # ys)" using subseq_set [OF q(2)] Cons by auto
      moreover have "k < k'" using wf q(1) by force
      ultimately show False using that by auto
    qed
    consider "elt = k" | "k < elt" "elt \<noteq> k" | "\<not> k < elt" "elt \<noteq> k" by blast
    then show ?thesis
    proof cases
      case 1
      then show ?thesis using 3(3,4) [OF Cons 1] wf Cons unfolding split by (simp del: findSupersets.simps)
    next
      case 2
      then show ?thesis using 3(5,6) [OF Cons 2(2,1)] wf Cons unfolding split by (simp del: findSupersets.simps)
    next
      case 3
      have "\<not> subseq xs (k # ys)" if "lookup_set ys c = Some v" for ys
      proof
        assume s: "subseq xs (k # ys)"
        have "sorted_wrt (<) (k # ys)" by (rule kid_path [OF \<open>wf_kids ((k, c) # cs)\<close> _ that]) simp
        moreover have "elt \<in> set (k # ys)" using subseq_set [OF s] Cons by auto
        ultimately show False using 3 by auto
      qed
      then show ?thesis using above [OF 3(1)] 3 Cons unfolding split by auto
    qed
  qed
qed auto

lemma findSuperset_sound:
  "findSuperset p n xs = Some v \<Longrightarrow> wf_node n \<Longrightarrow> p v \<and> (\<exists>ys. subseq xs ys \<and> lookup_set ys n = Some v)"
  and superset_first_sound:
  "superset_first p cs xs = Some v \<Longrightarrow> wf_kids cs \<Longrightarrow> p v \<and> (\<exists>k c ys. (k, c) \<in> set cs \<and> subseq xs ys \<and> lookup_set ys c = Some v)"
  and superset_mid_sound:
  "superset_mid p cs xs = Some v \<Longrightarrow> wf_kids cs \<Longrightarrow> p v \<and> (\<exists>k c ys. (k, c) \<in> set cs \<and> subseq xs (k # ys) \<and> lookup_set ys c = Some v)"
proof (induction p n xs and p cs xs and p cs xs rule: findSuperset_superset_first_superset_mid.induct)
  case (1 p e cs xs)
  have wf: "wf_kids cs" using 1(4) by simp
  show ?case
  proof (cases "xs = [] \<and> ends_in p e")
    case True
    then show ?thesis using 1(3) by (auto simp: ends_in_def split: option.splits intro!: exI [of _ "[]"])
  next
    case False
    have "p v \<and> (\<exists>k c ys. (k, c) \<in> set cs \<and> subseq xs (k # ys) \<and> lookup_set ys c = Some v)"
    proof (cases "superset_first p cs xs")
      case None
      then show ?thesis using 1(2) [OF False None] 1(3) False wf by (auto split: if_splits)
    next
      case (Some u)
      then have "superset_first p cs xs = Some v" using 1(3) False by auto
      from 1(1) [OF False this wf] show ?thesis using list_emb_Cons by fast
    qed
    then show ?thesis using lookup_kids [OF wf, of "subseq xs" e v] by blast
  qed
next
  case (3 p k c cs xs)
  then show ?case using wf_kids_Cons [OF 3(4)] by (fastforce split: option.splits)
next
  case (5 p k c cs xs)
  then show ?case using wf_kids_Cons [OF 5(4)] by (fastforce split: list.splits if_splits)
qed auto

lemma findSuperset_complete:
  "wf_node n \<Longrightarrow> subseq xs ys \<Longrightarrow> lookup_set ys n = Some v \<Longrightarrow> p v \<Longrightarrow> findSuperset p n xs \<noteq> None"
  and superset_first_complete:
  "wf_kids cs \<Longrightarrow> (k, c) \<in> set cs \<Longrightarrow> subseq xs ys \<Longrightarrow> lookup_set ys c = Some v \<Longrightarrow> p v \<Longrightarrow> superset_first p cs xs \<noteq> None"
  and superset_mid_complete:
  "wf_kids cs \<Longrightarrow> (k, c) \<in> set cs \<Longrightarrow> xs = k # xs' \<Longrightarrow> subseq xs' ys \<Longrightarrow> lookup_set ys c = Some v \<Longrightarrow> p v \<Longrightarrow> superset_mid p cs xs \<noteq> None"
proof (induction p n xs and p cs xs and p cs xs arbitrary: ys and k c ys and k c xs' ys rule: findSuperset_superset_first_superset_mid.induct)
  case (1 p e cs xs)
  have wf: "wf_kids cs" using 1(3) by simp
  show ?case
  proof (cases "xs = [] \<and> ends_in p e")
    case True
    then show ?thesis by (auto simp: ends_in_def split: option.splits)
  next
    case False
    then obtain k zs where ys: "ys = k # zs" using 1(4-6) by (cases ys) (auto simp: ends_in_def)
    then obtain c where c: "(k, c) \<in> set cs" "lookup_set zs c = Some v" using 1(5) wf_children(3) [OF 1(3)] by (auto split: option.splits)
    show ?thesis
    proof (cases "subseq xs zs")
      case True
      then have "superset_first p cs xs \<noteq> None" using 1(1) [OF False wf c(1) _ c(2) 1(6)] by blast
      then show ?thesis using False by auto
    next
      case more: False
      then obtain xs' where x: "xs = k # xs'" "subseq xs' zs" using 1(4) ys by (cases xs) (auto split: if_splits)
      show ?thesis
      proof (cases "superset_first p cs xs")
        case None
        then show ?thesis using 1(2) [OF False None wf c(1) x c(2) 1(6)] False by auto
      qed (use False in auto)
    qed
  qed
next
  case (3 p k' c' cs xs)
  note wf = wf_kids_Cons [OF 3(3)]
  have "findSuperset p c' xs \<noteq> None" if "c = c'" using 3(1) [of ys] 3(5-7) that wf by simp
  moreover have "superset_first p cs xs \<noteq> None" if "findSuperset p c' xs = None" "(k, c) \<in> set cs"
    using 3(2) [of k c ys] 3(5-7) that wf by simp
  ultimately show ?case using 3(4) by (auto split: option.split)
next
  case (5 p k' c' cs xs)
  then show ?case using wf_kids_Cons [OF 5(3)] by (force split: list.splits)
qed auto

section \<open>The index as a map from sets\<close>

text \<open>The public methods, on finite sets: \<open>insert\<close>, \<open>lookup\<close>, \<open>findSubset\<close>, \<open>findSuperset\<close>.\<close>

definition mos_insert :: "'k::linorder set \<Rightarrow> 'v \<Rightarrow> ('k, 'v) node \<Rightarrow> ('k, 'v) node" where
  "mos_insert S v n = insert_set (sorted_list_of_set S) v n"

definition mos_lookup :: "'k::linorder set \<Rightarrow> ('k, 'v) node \<Rightarrow> 'v option" where
  "mos_lookup S n = lookup_set (sorted_list_of_set S) n"

definition mos_findSubset :: "('v \<Rightarrow> bool) \<Rightarrow> 'k::linorder set \<Rightarrow> ('k, 'v) node \<Rightarrow> 'v option" where
  "mos_findSubset p S n = findSubset p n (sorted_list_of_set S)"

definition mos_findSuperset :: "('v \<Rightarrow> bool) \<Rightarrow> 'k::linorder set \<Rightarrow> ('k, 'v) node \<Rightarrow> 'v option" where
  "mos_findSuperset p S n = findSuperset p n (sorted_list_of_set S)"

definition mos_subsets :: "'k::linorder set \<Rightarrow> ('k, 'v) node \<Rightarrow> ('k set \<times> 'v) list" where
  "mos_subsets S n = findSubsets n {} (sorted_list_of_set S)"

definition mos_supersets :: "'k::linorder set \<Rightarrow> ('k, 'v) node \<Rightarrow> ('k set \<times> 'v) list" where
  "mos_supersets S n = findSupersets n {} (sorted_list_of_set S)"

text \<open>What a client of such an index may rely on.\<close>

locale set_index =
  fixes index_ok :: "'i \<Rightarrow> bool" and empty_index :: 'i
    and insert_at :: "'k set \<Rightarrow> 'v \<Rightarrow> 'i \<Rightarrow> 'i" and lookup_at :: "'k set \<Rightarrow> 'i \<Rightarrow> 'v option"
    and subset_at :: "('v \<Rightarrow> bool) \<Rightarrow> 'k set \<Rightarrow> 'i \<Rightarrow> 'v option" and superset_at :: "('v \<Rightarrow> bool) \<Rightarrow> 'k set \<Rightarrow> 'i \<Rightarrow> 'v option"
  assumes ok_empty: "index_ok empty_index"
    and lookup_empty: "lookup_at S empty_index = None"
    and ok_insert: "index_ok i \<Longrightarrow> finite S \<Longrightarrow> index_ok (insert_at S v i)"
    and lookup_after: "finite S \<Longrightarrow> finite T \<Longrightarrow> lookup_at T (insert_at S v i) = (if T = S then Some v else lookup_at T i)"
    and subset_found: "index_ok i \<Longrightarrow> finite S \<Longrightarrow> subset_at p S i = Some v \<Longrightarrow> p v \<and> (\<exists>T. T \<subseteq> S \<and> lookup_at T i = Some v)"
    and subset_finds: "index_ok i \<Longrightarrow> finite S \<Longrightarrow> T \<subseteq> S \<Longrightarrow> lookup_at T i = Some v \<Longrightarrow> p v \<Longrightarrow> subset_at p S i \<noteq> None"
    and superset_found: "index_ok i \<Longrightarrow> finite S \<Longrightarrow> superset_at p S i = Some v \<Longrightarrow> p v \<and> (\<exists>T. finite T \<and> S \<subseteq> T \<and> lookup_at T i = Some v)"
    and superset_finds: "index_ok i \<Longrightarrow> finite T \<Longrightarrow> S \<subseteq> T \<Longrightarrow> lookup_at T i = Some v \<Longrightarrow> p v \<Longrightarrow> superset_at p S i \<noteq> None"
begin

text \<open>A relation between the sets and the values of an index holds of everything a search returns.\<close>

lemma insert_keeps:
  assumes "\<And>T u. finite T \<Longrightarrow> lookup_at T i = Some u \<Longrightarrow> Q T u" "Q S v" "finite S" "finite T" "lookup_at T (insert_at S v i) = Some u"
  shows "Q T u"
  using lookup_after [OF assms(3,4), of v i] assms(1) [of T u] assms(2,4,5) by (simp split: if_splits)

lemma subset_related:
  assumes "index_ok i" "finite S" "\<And>T u. finite T \<Longrightarrow> lookup_at T i = Some u \<Longrightarrow> Q T u" "subset_at p S i = Some v"
  shows "p v \<and> (\<exists>T. T \<subseteq> S \<and> Q T v)"
  using subset_found [OF assms(1,2,4)] assms(3) finite_subset [OF _ assms(2)] by blast

lemma superset_related:
  assumes "index_ok i" "finite S" "\<And>T u. finite T \<Longrightarrow> lookup_at T i = Some u \<Longrightarrow> Q T u" "superset_at p S i = Some v"
  shows "p v \<and> (\<exists>T. S \<subseteq> T \<and> Q T v)"
  using superset_found [OF assms(1,2,4)] assms(3) by blast

lemma built_lookup:
  "\<forall>(S, v) \<in> set ops. finite S \<Longrightarrow> finite T \<Longrightarrow> index_ok i \<Longrightarrow>
   index_ok (foldl (\<lambda>i (S, v). insert_at S v i) i ops) \<and>
   lookup_at T (foldl (\<lambda>i (S, v). insert_at S v i) i ops) = foldl (\<lambda>m (S, v). m(S \<mapsto> v)) (\<lambda>T. lookup_at T i) ops T"
proof (induction ops rule: rev_induct)
  case (snoc sv ops)
  then show ?case by (cases sv) (auto simp: lookup_after ok_insert)
qed simp

end

lemma sorted_list_strict: "sorted_wrt (<) (sorted_list_of_set S)"
  by (simp add: strict_sorted_list_of_set)

lemma sorted_list_unique: "finite S \<Longrightarrow> sorted_wrt (<) ys \<Longrightarrow> set ys = S \<Longrightarrow> sorted_list_of_set S = ys"
  by (metis sorted_list_of_set.idem_if_sorted_distinct strict_sorted_iff)

text \<open>A stored path is the list of its set.\<close>

lemma stored_set:
  assumes "wf_node n" "lookup_set ys n = Some v"
  shows "mos_lookup (set ys) n = Some v"
  using sorted_list_unique [of "set ys" ys] lookup_sorted [OF assms] assms(2) by (simp add: mos_lookup_def)

lemma mos_subset_exact:
  assumes "wf_node n" "finite S"
  shows "mos_findSubset p S n = Some v \<Longrightarrow> p v \<and> (\<exists>T. T \<subseteq> S \<and> mos_lookup T n = Some v)"
    and "T \<subseteq> S \<Longrightarrow> mos_lookup T n = Some v \<Longrightarrow> p v \<Longrightarrow> mos_findSubset p S n \<noteq> None"
proof -
  have sub: "subseq ys (sorted_list_of_set S) \<longleftrightarrow> sorted_wrt (<) ys \<and> set ys \<subseteq> S" for ys
    unfolding subseq_sorted_iff [OF sorted_list_strict] set_sorted_list_of_set [OF assms(2)] by (rule refl)
  show "p v \<and> (\<exists>T. T \<subseteq> S \<and> mos_lookup T n = Some v)" if found: "mos_findSubset p S n = Some v"
  proof -
    from findSubset_sound [OF found [unfolded mos_findSubset_def] assms(1)]
    obtain ys where ys: "p v" "subseq ys (sorted_list_of_set S)" "lookup_set ys n = Some v" by (elim conjE exE)
    then show ?thesis using sub [of ys] stored_set [OF assms(1) ys(3)] by (intro conjI exI [of _ "set ys"]) simp_all
  qed
  show "mos_findSubset p S n \<noteq> None" if T: "T \<subseteq> S" "mos_lookup T n = Some v" "p v"
  proof -
    have "subseq (sorted_list_of_set T) (sorted_list_of_set S)"
      unfolding sub using T(1) finite_subset [OF T(1) assms(2)] sorted_list_strict [of T] by simp
    from findSubset_complete [where p = p, OF assms(1) sorted_list_strict this T(2) [unfolded mos_lookup_def] T(3)]
    show ?thesis by (simp add: mos_findSubset_def)
  qed
qed

lemma mos_superset_exact:
  assumes "wf_node n"
  shows "finite S \<Longrightarrow> mos_findSuperset p S n = Some v \<Longrightarrow> p v \<and> (\<exists>T. finite T \<and> S \<subseteq> T \<and> mos_lookup T n = Some v)"
    and "finite T \<Longrightarrow> S \<subseteq> T \<Longrightarrow> mos_lookup T n = Some v \<Longrightarrow> p v \<Longrightarrow> mos_findSuperset p S n \<noteq> None"
proof -
  show "p v \<and> (\<exists>T. finite T \<and> S \<subseteq> T \<and> mos_lookup T n = Some v)" if S: "finite S" "mos_findSuperset p S n = Some v"
  proof -
    obtain ys where "p v" "subseq (sorted_list_of_set S) ys" "lookup_set ys n = Some v"
      using findSuperset_sound [OF S(2) [unfolded mos_findSuperset_def] assms] by blast
    then show ?thesis using subseq_set [of "sorted_list_of_set S" ys] stored_set [OF assms] S(1)
      by (intro conjI exI [of _ "set ys"]) auto
  qed
  show "mos_findSuperset p S n \<noteq> None" if T: "finite T" "S \<subseteq> T" "mos_lookup T n = Some v" "p v"
  proof -
    have "subseq (sorted_list_of_set S) (sorted_list_of_set T)"
      using T(1,2) finite_subset [OF T(2,1)] by (simp add: subseq_sorted_iff [OF sorted_list_strict] sorted_list_strict)
    then show ?thesis unfolding mos_findSuperset_def using T(3,4)
      by (intro findSuperset_complete [OF assms, of _ "sorted_list_of_set T" v]) (simp_all add: mos_lookup_def)
  qed
qed

interpretation mos: set_index wf_node new_node mos_insert mos_lookup mos_findSubset mos_findSuperset
proof unfold_locales
  show "finite S \<Longrightarrow> finite T \<Longrightarrow> mos_lookup T (mos_insert S v i) = (if T = S then Some v else mos_lookup T i)"
    for S T :: "'k::linorder set" and v :: 'v and i
    by (auto simp: mos_lookup_def mos_insert_def lookup_insert sorted_list_of_set_inject)
  show "wf_node i \<Longrightarrow> finite S \<Longrightarrow> wf_node (mos_insert S v i)" for S :: "'k::linorder set" and v :: 'v and i
    by (simp add: mos_insert_def wf_insert_set sorted_list_strict)
  show "mos_lookup S new_node = (None :: 'v option)" for S :: "'k::linorder set"
    by (simp add: mos_lookup_def)
qed (rule wf_new | rule mos_subset_exact, assumption+ | rule mos_superset_exact, assumption+)+

section \<open>Properties\<close>

definition mos_built :: "('k::linorder set \<times> 'v) list \<Rightarrow> ('k, 'v) node" where
  "mos_built ops = foldl (\<lambda>n (S, v). mos_insert S v n) new_node ops"

definition set_map :: "('k set \<times> 'v) list \<Rightarrow> 'k set \<Rightarrow> 'v option" where
  "set_map ops = foldl (\<lambda>m (S, v). m(S \<mapsto> v)) Map.empty ops"

lemma built_refines:
  assumes "\<forall>(S, v) \<in> set ops. finite S" "finite T"
  shows "wf_node (mos_built ops)" "mos_lookup T (mos_built ops) = set_map ops T"
  using mos.built_lookup [OF assms, of new_node] by (simp_all add: mos_built_def set_map_def mos.lookup_empty)

lemma built_exact:
  assumes "\<forall>(S, v) \<in> set ops. finite S" "finite S"
  shows "mos_lookup S (mos_built ops) = set_map ops S"
    and "case mos_findSubset p S (mos_built ops) of
        Some v \<Rightarrow> p v \<and> (\<exists>T. T \<subseteq> S \<and> set_map ops T = Some v)
      | None \<Rightarrow> \<not> (\<exists>T v. T \<subseteq> S \<and> set_map ops T = Some v \<and> p v)"
    and "case mos_findSuperset p S (mos_built ops) of
        Some v \<Rightarrow> p v \<and> (\<exists>T. finite T \<and> S \<subseteq> T \<and> set_map ops T = Some v)
      | None \<Rightarrow> \<not> (\<exists>T v. finite T \<and> S \<subseteq> T \<and> set_map ops T = Some v \<and> p v)"
proof -
  note b = built_refines [OF assms(1)]
  show "mos_lookup S (mos_built ops) = set_map ops S" by (rule b(2) [OF assms(2)])
  have f: "finite T" if "T \<subseteq> S" for T by (rule finite_subset [OF that assms(2)])
  show "case mos_findSubset p S (mos_built ops) of
        Some v \<Rightarrow> p v \<and> (\<exists>T. T \<subseteq> S \<and> set_map ops T = Some v)
      | None \<Rightarrow> \<not> (\<exists>T v. T \<subseteq> S \<and> set_map ops T = Some v \<and> p v)"
  proof (cases "mos_findSubset p S (mos_built ops)")
    case None
    then show ?thesis using mos_subset_exact(2) [OF b(1) [OF assms(2)] assms(2), where p = p] b(2) [OF f] by auto
  next
    case (Some v)
    then show ?thesis using mos_subset_exact(1) [OF b(1) [OF assms(2)] assms(2) Some] b(2) [OF f] by auto
  qed
  show "case mos_findSuperset p S (mos_built ops) of
        Some v \<Rightarrow> p v \<and> (\<exists>T. finite T \<and> S \<subseteq> T \<and> set_map ops T = Some v)
      | None \<Rightarrow> \<not> (\<exists>T v. finite T \<and> S \<subseteq> T \<and> set_map ops T = Some v \<and> p v)"
  proof (cases "mos_findSuperset p S (mos_built ops)")
    case None
    then show ?thesis using mos_superset_exact(2) [OF b(1) [OF assms(2)], of _ S, where p = p] b(2) by auto
  next
    case (Some v)
    then show ?thesis using mos_superset_exact(1) [OF b(1) [OF assms(2)] assms(2) Some] b(2) by auto
  qed
qed

text \<open>
  C27: After any sequence of insertions the index is a map from sets to values: \<open>lookup\<close>
  returns the last value inserted for the set, \<open>findSubset\<close> finds a value with the wanted
  property exactly when one is stored for a subset, and \<open>findSuperset\<close> exactly when one is
  stored for a superset; what they return is such a value.
\<close>

theorem map_of_sets_exact:
  assumes "\<forall>(S, v) \<in> set ops. finite S" "finite S"
  shows "mos_lookup S (mos_built ops) = set_map ops S \<and>
    (case mos_findSubset p S (mos_built ops) of
        Some v \<Rightarrow> p v \<and> (\<exists>T. T \<subseteq> S \<and> set_map ops T = Some v)
      | None \<Rightarrow> \<not> (\<exists>T v. T \<subseteq> S \<and> set_map ops T = Some v \<and> p v)) \<and>
    (case mos_findSuperset p S (mos_built ops) of
        Some v \<Rightarrow> p v \<and> (\<exists>T. finite T \<and> S \<subseteq> T \<and> set_map ops T = Some v)
      | None \<Rightarrow> \<not> (\<exists>T v. finite T \<and> S \<subseteq> T \<and> set_map ops T = Some v \<and> p v))"
  by (intro conjI built_exact assms)

theorem map_of_sets_exact_witness:
  "mos_findSubset (\<lambda>v. v < (5 :: nat)) {1, 2, 3 :: nat} (mos_built [({1, 3}, 4), ({2}, 9), ({7}, 1)]) = Some 4"
proof -
  let ?ops = "[({1, 3}, 4), ({2}, 9), ({7}, 1)] :: (nat set \<times> nat) list"
  have m: "set_map ?ops T = (if T = {7} then Some 1 else if T = {2} then Some 9 else if T = {1, 3} then Some 4 else None)" for T
    by (simp add: set_map_def)
  show ?thesis
  proof (cases "mos_findSubset (\<lambda>v. v < (5 :: nat)) {1, 2, 3 :: nat} (mos_built ?ops)")
    case None
    then have "\<not> (\<exists>T v. T \<subseteq> {1, 2, 3} \<and> set_map ?ops T = Some v \<and> v < 5)"
      using map_of_sets_exact [of ?ops "{1, 2, 3}" "\<lambda>v. v < 5"] by simp
    then have "\<not> ({1, 3} \<subseteq> {1, 2, 3 :: nat} \<and> set_map ?ops {1, 3} = Some 4 \<and> (4 :: nat) < 5)" by blast
    moreover have "{1, 3} \<noteq> {7 :: nat}" "{1, 3} \<noteq> {2 :: nat}" by auto
    ultimately show ?thesis unfolding m by simp
  next
    case (Some v)
    then have "v < 5 \<and> (\<exists>T. T \<subseteq> {1, 2, 3} \<and> set_map ?ops T = Some v)"
      using map_of_sets_exact [of ?ops "{1, 2, 3}" "\<lambda>v. v < 5"] by simp
    then have "v = 4" unfolding m by (auto split: if_splits)
    then show ?thesis using Some by simp
  qed
qed

end
