(* ===== verification/Expr_Weight.thy ===== *)
theory Expr_Weight
  imports Expr_Build
begin

text \<open>
  What the constructors of expressions never add: reads, opaque subterms, and divisions. The
  weight of an expression counts its reads and opaque nodes, where a constant weighs nothing and
  every other expression at least one. No constructor returns an expression that weighs more
  than its arguments together, so rewriting subterms to constants ends.
\<close>

section \<open>Weight and plain expressions\<close>

fun weight :: "expr \<Rightarrow> nat" and weight_updates :: "update_node \<Rightarrow> nat" where
  "weight (Constant w v) = 0"
| "weight (NotOptimized e) = weight e + 1"
| "weight (Read arr us i) = weight_updates us + weight i + 1"
| "weight (Select c t f) = max 1 (weight c + weight t + weight f)"
| "weight (Concat l r) = max 1 (weight l + weight r)"
| "weight (Extract e off w) = max 1 (weight e)"
| "weight (ZExt e w) = max 1 (weight e)"
| "weight (SExt e w) = max 1 (weight e)"
| "weight (NotExpr e) = max 1 (weight e)"
| "weight (Binary k l r) = max 1 (weight l + weight r)"
| "weight_updates No_Update = 0"
| "weight_updates (Update_Node un_next ix v) = weight_updates un_next + weight ix + weight v"

text \<open>
  Plain expressions divide only by constants other than zero, read only arrays of a given kind,
  and have no opaque subterm unless allowed.
\<close>

fun plain :: "(array \<Rightarrow> bool) \<Rightarrow> bool \<Rightarrow> expr \<Rightarrow> bool" and plain_updates :: "(array \<Rightarrow> bool) \<Rightarrow> bool \<Rightarrow> update_node \<Rightarrow> bool" where
  "plain P opaque (Constant w v) = True"
| "plain P opaque (NotOptimized e) = (opaque \<and> plain P opaque e)"
| "plain P opaque (Read arr us i) = (P arr \<and> plain_updates P opaque us \<and> plain P opaque i)"
| "plain P opaque (Select c t f) = (plain P opaque c \<and> plain P opaque t \<and> plain P opaque f)"
| "plain P opaque (Concat l r) = (plain P opaque l \<and> plain P opaque r)"
| "plain P opaque (Extract e off w) = plain P opaque e"
| "plain P opaque (ZExt e w) = plain P opaque e"
| "plain P opaque (SExt e w) = plain P opaque e"
| "plain P opaque (NotExpr e) = plain P opaque e"
| "plain P opaque (Binary k l r) = (plain P opaque l \<and> plain P opaque r \<and> (is_div k \<longrightarrow> (\<exists>w v. r = Constant w v \<and> v \<noteq> 0)))"
| "plain_updates P opaque No_Update = True"
| "plain_updates P opaque (Update_Node un_next ix v) = (plain_updates P opaque un_next \<and> plain P opaque ix \<and> plain P opaque v)"

lemma weight_zero: "weight e = 0 \<longleftrightarrow> dyn_const e \<noteq> None"
  by (cases e) (auto simp: dyn_const_def)

lemma weight_pos: "dyn_const e = None \<Longrightarrow> 1 \<le> weight e"
  using weight_zero [of e] by simp

text \<open>Results that are plain and weigh at most \<open>n\<close>.\<close>

definition small :: "(array \<Rightarrow> bool) \<Rightarrow> bool \<Rightarrow> nat \<Rightarrow> expr option \<Rightarrow> bool" where
  "small P opaque n res \<longleftrightarrow> (\<forall>e. res = Some e \<longrightarrow> plain P opaque e \<and> weight e \<le> n)"

lemma small_None [simp]: "small P q n None"
  by (simp add: small_def)

lemma small_Some [simp]: "small P q n (Some e) \<longleftrightarrow> plain P q e \<and> weight e \<le> n"
  by (simp add: small_def)

lemma small_bind:
  "small P q n res \<Longrightarrow> (\<And>e. res = Some e \<Longrightarrow> plain P q e \<Longrightarrow> weight e \<le> n \<Longrightarrow> small P q k (f e)) \<Longrightarrow> small P q k (res \<bind> f)"
  by (cases res) auto

lemma small_mono: "small P q n res \<Longrightarrow> n \<le> k \<Longrightarrow> small P q k res"
  by (auto simp: small_def)

lemma small_const [simp]:
  "small P q n (ConstantExpr_op k w a b)" "small P q n (ConstantExpr_create v w)" "small P q n (Some (ConstantExpr_alloc v w))"
  by (simp_all add: ConstantExpr_op_def ConstantExpr_create_def ConstantExpr_alloc_def)

section \<open>Bitwise operations and equality\<close>

lemma small_bcreate_r:
  assumes "plain P q l" "plain P q r"
    and "\<And>w v. dyn_const r = None \<Longrightarrow> small P q (weight r) (pr w v r)"
    and "\<And>w v. dyn_const l = None \<Longrightarrow> small P q (weight l) (p l w v)"
    and "dyn_const l = None \<Longrightarrow> dyn_const r = None \<Longrightarrow> small P q (weight l + weight r) (c l r)"
  shows "small P q (weight l + weight r) (bcreate_r k pr p c l r)"
  using assms(3-5) by (cases "dyn_const l"; cases "dyn_const r") (auto simp: bcreate_r_def)

lemma small_bcreate:
  assumes "plain P q l" "plain P q r"
    and "dyn_const l = None \<or> dyn_const r = None \<Longrightarrow> small P q (weight l + weight r) (c l r)"
  shows "small P q (weight l + weight r) (bcreate k c l r)"
  using assms(3) by (cases "dyn_const l"; cases "dyn_const r") (auto simp: bcreate_def)

lemma small_And_partial: "plain P q e \<Longrightarrow> dyn_const e = None \<Longrightarrow> small P q (weight e) (AndExpr_createPartial e w v)"
  using weight_pos [of e] by (simp add: AndExpr_createPartial_def is_div_def)

lemma small_Or_partial: "plain P q e \<Longrightarrow> dyn_const e = None \<Longrightarrow> small P q (weight e) (OrExpr_createPartial e w v)"
  using weight_pos [of e] by (simp add: OrExpr_createPartial_def is_div_def)

lemma small_And: "plain P q l \<Longrightarrow> plain P q r \<Longrightarrow> small P q (weight l + weight r) (create_And l r)"
  unfolding create_And_def
  by (rule small_bcreate_r) (auto simp: AndExpr_createPartialR_def small_And_partial is_div_def dest!: weight_pos)

lemma small_Or: "plain P q l \<Longrightarrow> plain P q r \<Longrightarrow> small P q (weight l + weight r) (create_Or l r)"
  unfolding create_Or_def
  by (rule small_bcreate_r) (auto simp: OrExpr_createPartialR_def small_Or_partial is_div_def dest!: weight_pos)

lemma small_Eq_raw: "plain P q r \<Longrightarrow> weight r \<le> n \<Longrightarrow> 1 \<le> n \<Longrightarrow> small P q n (Some (EqExpr_create (Constant w v) r))"
  by (auto simp: EqExpr_create_def ConstantExpr_alloc_def is_div_def)

lemma small_Eq_const_of:
  assumes "plain P q l" "dyn_const l = None \<Longrightarrow> small P q (max 1 (weight l)) (EqExpr_createPartialR False w v l)"
  shows "small P q (weight l) (create_Eq_const False l w v)"
  using assms weight_pos [of l] by (cases "dyn_const l") (auto simp: create_Eq_const.simps max_def split: if_splits)

lemma small_Eq_partial: "plain P q r \<Longrightarrow> small P q (max 1 (weight r)) (EqExpr_createPartialR False w v r)"
proof (induction "size r" arbitrary: w v r rule: less_induct)
  case less
  have const: "small P q (weight l) (create_Eq_const False l w v)" if "size l < size r" "plain P q l" for l w v
    by (rule small_Eq_const_of [OF that(2) less.hyps [OF that]])
  have raw: "small P q (max 1 (weight r)) (Some (EqExpr_create (Constant w v) r))"
    by (rule small_Eq_raw [OF less.prems]) simp_all
  show ?case
  proof (cases r)
    case (Binary k a b)
    have a: "plain P q a" "plain P q b" using less.prems Binary by auto
    have disj: "small P q (max 1 (weight r)) (do {
        zl \<leftarrow> ConstantExpr_create 0 (getWidth a) \<bind> (\<lambda>_. create_Eq_const False a (getWidth a) 0);
        zr \<leftarrow> ConstantExpr_create 0 (getWidth b) \<bind> (\<lambda>_. create_Eq_const False b (getWidth b) 0);
        create_And zl zr })"
    proof (rule small_bind, rule small_bind [OF small_const(2)], rule const)
      fix zl assume zl: "plain P q zl" "weight zl \<le> weight a"
      show "small P q (max 1 (weight r)) (do {
          zr \<leftarrow> ConstantExpr_create 0 (getWidth b) \<bind> (\<lambda>_. create_Eq_const False b (getWidth b) 0);
          create_And zl zr })"
      proof (rule small_bind, rule small_bind [OF small_const(2)], rule const)
        fix zr assume zr: "plain P q zr" "weight zr \<le> weight b"
        show "small P q (max 1 (weight r)) (create_And zl zr)"
          by (rule small_mono [OF small_And [OF zl(1) zr(1)]]) (use zl zr Binary in simp)
      qed (use Binary a in auto)
    qed (use Binary a in auto)
    have moved: "small P q (max 1 (weight r)) (EqExpr_createPartialR False w u b)" if "k = Add \<or> k = Sub" for w u
      by (rule small_mono [OF less.hyps]) (use Binary a that in auto)
    show ?thesis
    proof (cases "w = 1")
      case True
      then show ?thesis using raw disj a less.prems
        by (subst EqExpr_createPartialR.simps) (auto simp: Binary simp del: One_nat_def)
    next
      case False
      consider (sum) w' u where "k = Add" "a = Constant w' u" | (diff) w' u where "k = Sub" "a = Constant w' u"
        | (other) "const_sum r = None" "const_diff r = None"
        using Binary by (cases "const_sum r"; cases "const_diff r") auto
      then show ?thesis
      proof cases
        case sum
        then show ?thesis using False moved by (subst EqExpr_createPartialR.simps) (simp add: Binary const_sum_def del: One_nat_def)
      next
        case diff
        then show ?thesis using False moved by (subst EqExpr_createPartialR.simps) (simp add: Binary const_sum_def const_diff_def del: One_nat_def)
      next
        case other
        then show ?thesis using False raw Binary by (subst EqExpr_createPartialR.simps) (simp del: One_nat_def)
      qed
    qed
  next
    case (SExt src w')
    then show ?thesis using less.prems raw
      by (subst EqExpr_createPartialR.simps) (auto simp: Let_def simp del: One_nat_def intro!: small_mono [OF const])
  next
    case (ZExt src w')
    then show ?thesis using less.prems raw
      by (subst EqExpr_createPartialR.simps) (auto simp: Let_def simp del: One_nat_def intro!: small_mono [OF const])
  qed (use raw less.prems in \<open>subst EqExpr_createPartialR.simps; auto\<close>)+
qed

lemma small_Eq_const: "plain P q l \<Longrightarrow> small P q (weight l) (create_Eq_const False l w v)"
  by (rule small_Eq_const_of) (simp_all add: small_Eq_partial [unfolded One_nat_def])

lemma small_Eq_partial': "plain P q r \<Longrightarrow> dyn_const r = None \<Longrightarrow> small P q (weight r) (EqExpr_createPartialR False w v r)"
  by (rule small_mono [OF small_Eq_partial]) (auto dest: weight_pos)

lemma small_Eq: "plain P q l \<Longrightarrow> plain P q r \<Longrightarrow> small P q (weight l + weight r) (create_Eq False l r)"
  unfolding create_Eq_def
  by (rule small_bcreate_r) (auto simp: small_Eq_partial' EqExpr_create_def ConstantExpr_alloc_def is_div_def dest!: weight_pos)

lemma small_IsZero: "plain P q e \<Longrightarrow> small P q (weight e) (createIsZero False e)"
  unfolding createIsZero_def
  by (rule small_bind [OF small_const(2) [of P q 0]]) (use small_Eq in fastforce)

lemma small_Xor_partial: "plain P q r \<Longrightarrow> dyn_const r = None \<Longrightarrow> small P q (weight r) (XorExpr_createPartialR False w v r)"
  using weight_pos [of r] by (auto simp: XorExpr_createPartialR_def small_Eq_partial' is_div_def)

lemma small_Xor: "plain P q l \<Longrightarrow> plain P q r \<Longrightarrow> small P q (weight l + weight r) (create_Xor False l r)"
  unfolding create_Xor_def
  by (rule small_bcreate_r) (auto simp: small_Xor_partial is_div_def dest!: weight_pos)

section \<open>Arithmetic and comparisons\<close>

lemma small_Add_Sub_partial:
  "plain P q r \<Longrightarrow> dyn_const r = None \<Longrightarrow>
   small P q (weight r) (AddExpr_createPartialR False w v r) \<and> small P q (weight r) (SubExpr_createPartialR False w v r)"
proof (induction "size r" arbitrary: w v r rule: less_induct)
  case less
  note xor = small_Xor_partial [OF less.prems]
  have raw: "plain P q (Binary Add (Constant w v) r) \<and> weight (Binary Add (Constant w v) r) \<le> weight r"
    "plain P q (Binary Sub (Constant w v) r) \<and> weight (Binary Sub (Constant w v) r) \<le> weight r"
    using less.prems weight_pos [OF less.prems(2)] by (simp_all add: is_div_def)
  have const: "small P q (weight r) (create_Add_const False w v b) \<and> small P q (weight r) (create_Sub_const False w v b)"
    if "r = Binary k (Constant w' u) b" for w v k w' u b
  proof -
    have b: "size b < size r" "plain P q b" "weight b \<le> weight r" using that less.prems by auto
    show ?thesis
    proof (cases "dyn_const b")
      case None
      then show ?thesis using less.hyps [OF b(1,2) None] by (auto simp: create_Add_const.simps create_Sub_const.simps intro: small_mono [OF _ b(3)])
    qed (auto simp: create_Add_const.simps create_Sub_const.simps)
  qed
  consider w' u b where "r = Binary Add (Constant w' u) b" | w' u b where "r = Binary Sub (Constant w' u) b"
    | "const_sum r = None" "const_diff r = None"
    by (cases "const_sum r"; cases "const_diff r") auto
  then show ?case
  proof cases
    case (1 w' u b)
    from const [OF 1] xor less.prems show ?thesis
      by (simp add: AddExpr_createPartialR.simps [of _ _ _ r] SubExpr_createPartialR.simps [of _ _ _ r] const_sum_Some [THEN iffD2, OF 1])
  next
    case (2 w' u b)
    then have "const_sum r = None" by (simp add: const_sum_def)
    with const [OF 2] xor less.prems show ?thesis
      by (simp add: AddExpr_createPartialR.simps [of _ _ _ r] SubExpr_createPartialR.simps [of _ _ _ r] const_diff_Some [THEN iffD2, OF 2])
  next
    case 3
    then show ?thesis using raw xor less.prems
      by (simp add: AddExpr_createPartialR.simps [of _ _ _ r] SubExpr_createPartialR.simps [of _ _ _ r])
  qed
qed

lemma small_Add_Sub_const:
  "plain P q r \<Longrightarrow> small P q (weight r) (create_Add_const False w v r)" "plain P q r \<Longrightarrow> small P q (weight r) (create_Sub_const False w v r)"
  using small_Add_Sub_partial [of P q r]
  by (auto simp: create_Add_const.simps create_Sub_const.simps split: option.split)

lemma small_Sub_by_const: "plain P q l \<Longrightarrow> small P q (weight l) (create_Sub_by_const False l (Constant w v))"
  using small_Add_Sub_partial [of P q l]
  by (cases "dyn_const l") (auto simp: create_Sub_by_const_def bcreate_r_def SubExpr_createPartial_def AddExpr_createPartial_def)

lemma small_then:
  assumes "small P q n res" "\<And>e. plain P q e \<Longrightarrow> small P q (weight e) (f e)" "n \<le> k"
  shows "small P q k (res \<bind> f)"
  by (rule small_bind [OF assms(1)]) (rule small_mono [OF assms(2)], use assms(3) in auto)

lemma small_Add_Sub:
  "plain P q l \<Longrightarrow> plain P q r \<Longrightarrow>
   small P q (weight l + weight r) (create_Add False l r) \<and> small P q (weight l + weight r) (create_Sub False l r)"
proof (induction "size l + size r" arbitrary: l r rule: less_induct)
  case less
  note step = less.hyps [THEN conjunct1] less.hyps [THEN conjunct2]
  let ?n = "weight l + weight r"
  show ?case
  proof (cases "dyn_const l = None \<and> dyn_const r = None")
    case False
    then show ?thesis using less.prems small_Add_Sub_partial [of P q l] small_Add_Sub_partial [of P q r]
      by (cases "dyn_const l"; cases "dyn_const r")
        (auto simp: create_Add.simps create_Sub.simps AddExpr_createPartial_def SubExpr_createPartial_def)
  next
    case True
    then have pos: "1 \<le> weight l" "1 \<le> weight r" using weight_pos by auto
    have raw: "small P q ?n (Some (Binary k l r))" if "\<not> is_div k" for k
      using less.prems pos that by simp
    have add: "small P q ?n (create_Add False a b \<bind> f)" "small P q ?n (create_Sub False a b \<bind> f)"
      if "plain P q a" "plain P q b" "size a + size b < size l + size r" "weight a + weight b \<le> ?n" "\<And>e. plain P q e \<Longrightarrow> small P q (weight e) (f e)" for a b f
      using small_then [OF step(1) [OF that(3,1,2)] that(5) that(4)] small_then [OF step(2) [OF that(3,1,2)] that(5) that(4)] by blast+
    have "small P q ?n (AddExpr_create False l r) \<and> small P q ?n (SubExpr_create False l r)"
    proof -
      note simps = AddExpr_create.simps [of False l r] SubExpr_create.simps [of False l r]
      have bits: "small P q ?n (Some (Binary Xor l r))"
        using raw [of Xor] by (simp add: is_div_def)
      note a = small_Add_Sub_const small_Sub_by_const
      consider (ls) w u c where "const_sum l = Some (w, u, c)" | (ld) w u c where "const_sum l = None" "const_diff l = Some (w, u, c)"
        | (rs) w u c where "const_sum l = None" "const_diff l = None" "const_sum r = Some (w, u, c)"
        | (rd) w u c where "const_sum l = None" "const_diff l = None" "const_sum r = None" "const_diff r = Some (w, u, c)"
        | (no) "const_sum l = None" "const_diff l = None" "const_sum r = None" "const_diff r = None"
        by (cases "const_sum l"; cases "const_diff l"; cases "const_sum r"; cases "const_diff r") auto
      then show ?thesis
      proof cases
        case ls
        then have l: "l = Binary Add (Constant w u) c" by simp
        have "small P q ?n (create_Add False c r \<bind> create_Add_const False w u)" "small P q ?n (create_Sub False c r \<bind> create_Add_const False w u)"
          by (rule add; use less.prems l in \<open>simp add: a\<close>)+
        then show ?thesis using ls bits by (simp add: simps small_const(3) del: small_Some const_sum_Some)
      next
        case ld
        then have l: "l = Binary Sub (Constant w u) c" by simp
        have "small P q ?n (create_Sub False r c \<bind> create_Add_const False w u)" "small P q ?n (create_Add False c r \<bind> create_Sub_const False w u)"
          by (rule add; use less.prems l in \<open>simp add: a\<close>)+
        then show ?thesis using ld bits by (simp add: simps small_const(3) del: small_Some const_diff_Some)
      next
        case rs
        then have r: "r = Binary Add (Constant w u) c" by simp
        have "small P q ?n (create_Add False l c \<bind> create_Add_const False w u)"
            "small P q ?n (create_Sub False l c \<bind> (\<lambda>x. create_Sub_by_const False x (Constant w u)))"
          by (rule add; use less.prems r in \<open>simp add: a\<close>)+
        then show ?thesis using rs bits by (simp add: simps small_const(3) del: small_Some const_sum_Some)
      next
        case rd
        then have r: "r = Binary Sub (Constant w u) c" by simp
        have "small P q ?n (create_Sub False l c \<bind> create_Add_const False w u)"
            "small P q ?n (create_Add False l c \<bind> (\<lambda>x. create_Sub_by_const False x (Constant w u)))"
          by (rule add; use less.prems r in \<open>simp add: a\<close>)+
        then show ?thesis using rd bits by (simp add: simps small_const(3) del: small_Some const_diff_Some)
      next
        case no
        then show ?thesis using bits raw [of Add] raw [of Sub] by (simp add: simps small_const(3) is_div_def del: small_Some)
      qed
    qed
    then show ?thesis using True by (simp add: create_Add.simps [of _ l r] create_Sub.simps [of _ l r])
  qed
qed

lemma small_Mul: "plain P q l \<Longrightarrow> plain P q r \<Longrightarrow> small P q (weight l + weight r) (create_Mul l r)"
proof -
  have "small P q (weight e) (MulExpr_createPartialR w v e)" if "plain P q e" "dyn_const e = None" for w v e
    using that weight_pos [OF that(2)] by (simp add: MulExpr_createPartialR_def AndExpr_createPartialR_def small_And_partial is_div_def)
  then show "plain P q l \<Longrightarrow> plain P q r \<Longrightarrow> ?thesis" unfolding create_Mul_def
    by (intro small_bcreate_r) (auto simp: MulExpr_createPartial_def MulExpr_create_def is_div_def dest!: weight_pos)
qed

lemma small_bit:
  assumes "plain P q l" "plain P q r"
  shows "small P q (weight l + weight r) (createIsZero False l \<bind> (\<lambda>z. create_And z r))"
    and "small P q (weight l + weight r) (createIsZero False l \<bind> (\<lambda>z. create_Or z r))"
    and "small P q (weight l + weight r) (createIsZero False r \<bind> create_And l)"
    and "small P q (weight l + weight r) (createIsZero False r \<bind> create_Or l)"
  by (rule small_bind [OF small_IsZero [OF assms(1)]], rule small_mono [OF small_And] small_mono [OF small_Or], use assms in auto)+
    (rule small_bind [OF small_IsZero [OF assms(2)]], rule small_mono [OF small_And] small_mono [OF small_Or], use assms in auto)+

lemma small_raw:
  "plain P q l \<Longrightarrow> plain P q r \<Longrightarrow> dyn_const l = None \<or> dyn_const r = None \<Longrightarrow> (is_div k \<Longrightarrow> \<exists>w v. r = Constant w v \<and> v \<noteq> 0) \<Longrightarrow>
   small P q (weight l + weight r) (Some (Binary k l r))"
  using weight_pos [of l] weight_pos [of r] by auto

lemma small_compare:
  assumes "plain P q l" "plain P q r"
  shows "small P q (weight l + weight r) (bcreate Ult (UltExpr_create False) l r)"
    and "small P q (weight l + weight r) (bcreate Ule (UleExpr_create False) l r)"
    and "small P q (weight l + weight r) (bcreate Slt (SltExpr_create False) l r)"
    and "small P q (weight l + weight r) (bcreate Sle (SleExpr_create False) l r)"
    and "small P q (weight l + weight r) (bcreate Shl (ShiftExpr_create False Shl) l r)"
    and "small P q (weight l + weight r) (bcreate LShr (ShiftExpr_create False LShr) l r)"
    and "small P q (weight l + weight r) (bcreate AShr AShrExpr_create l r)"
  by (rule small_bcreate [OF assms], use small_bit [OF assms] small_raw [OF assms] assms(1) in
      \<open>force simp: UltExpr_create_def UleExpr_create_def SltExpr_create_def SleExpr_create_def ShiftExpr_create_def AShrExpr_create_def is_div_def\<close>)+

lemma small_divide:
  assumes "plain P q l" "plain P q r" "is_div k" "\<exists>w v. r = Constant w v \<and> v \<noteq> 0"
  shows "small P q (weight l + weight r) (bcreate k (DivExpr_create k) l r)"
    and "small P q (weight l + weight r) (bcreate k (RemExpr_create k) l r)"
  using small_raw [OF assms(1,2), of k] assms
  by (auto simp: DivExpr_create_def RemExpr_create_def simp del: small_Some intro!: small_bcreate) auto

lemma small_Ne:
  assumes "plain P q l" "plain P q r"
  shows "small P q (weight l + weight r) (create_Eq False l r \<bind> (\<lambda>e. ConstantExpr_create 0 1 \<bind> (\<lambda>z. create_Eq False z e)))"
proof (rule small_then [OF small_Eq [OF assms]])
  show "small P q (weight e) (ConstantExpr_create 0 1 \<bind> (\<lambda>z. create_Eq False z e))" if "plain P q e" for e
    by (rule small_bind [OF small_const(2) [of P q 0]]) (use small_Eq that in fastforce)
qed simp

lemma small_binary:
  assumes "plain P q l" "plain P q r" "is_div k \<Longrightarrow> \<exists>w v. r = Constant w v \<and> v \<noteq> 0"
  shows "small P q (weight l + weight r) (create_binary False k l r)"
proof (cases "is_div k")
  case True
  then show ?thesis using small_divide [OF assms(1,2) True assms(3) [OF True]] by (cases k) (simp_all add: is_div_def)
next
  case False
  note swapped = small_compare [OF assms(2,1), unfolded add.commute [of "weight r"]]
  show ?thesis using False
    by (cases k) (simp_all add: is_div_def small_And small_Or small_Xor small_Eq small_Mul small_Add_Sub small_Ne [unfolded One_nat_def] small_compare swapped assms(1,2))
qed

section \<open>Concatenation, extraction, reads and choices\<close>

lemma small_Concat_of:
  assumes "plain P q l" "plain P q r"
    and "\<And>e off w. merge_extracts l r = Some (e, off, w) \<Longrightarrow> small P q (max 1 (weight e)) (extract e off w)"
  shows "small P q (weight l + weight r) (ConcatExpr_create extract l r)"
proof (cases "dyn_const l \<noteq> None \<and> dyn_const r \<noteq> None")
  case True
  then show ?thesis by (auto simp: ConcatExpr_create_def ConstantExpr_Concat_def)
next
  case False
  then have pos: "1 \<le> weight l + weight r" using weight_zero [of l] weight_zero [of r] by linarith
  show ?thesis
  proof (cases "merge_extracts l r")
    case None
    then show ?thesis using False pos assms(1,2) by (auto simp: ConcatExpr_create_def)
  next
    case (Some x)
    obtain e off w where x: "x = (e, off, w)" by (cases x)
    have "max 1 (weight e) \<le> weight l + weight r" using Some x by auto
    then have "small P q (weight l + weight r) (extract e off w)" by (rule small_mono [OF assms(3) [OF Some [unfolded x]]])
    then show ?thesis using False Some x by (auto simp: ConcatExpr_create_def simp del: merge_extracts_Some)
  qed
qed

lemma small_Extract: "plain P q e \<Longrightarrow> small P q (weight e) (create_Extract e off w)"
proof (induction e off w rule: create_Extract.induct)
  case (1 e off w)
  show ?case
  proof (cases "\<exists>x y. e = Concat x y \<and> (0 < w \<and> off + w \<le> getWidth e) \<and> w \<noteq> getWidth e")
    case False
    then show ?thesis using 1(6) weight_pos [of e]
      by (subst create_Extract.simps, cases e) (auto simp: ConstantExpr_Extract_def dyn_const_def)
  next
    case True
    then obtain x y where e: "e = Concat x y" "\<not> \<not> (0 < w \<and> off + w \<le> getWidth e)" "w \<noteq> getWidth e" by blast
    note ih = 1(1-5) [OF e(2,3,1)]
    have p: "plain P q x" "plain P q y" using 1(6) e by auto
    let ?n = "weight x + weight y"
    have both: "small P q ?n (do { l \<leftarrow> create_Extract x 0 (w + off - getWidth y); r \<leftarrow> create_Extract y off (getWidth y - off); ConcatExpr_create create_Extract l r })"
      if c: "\<not> getWidth y \<le> off" "\<not> off + w \<le> getWidth y"
    proof (rule small_bind [OF ih(3) [OF c p(1)]])
      fix l assume l: "create_Extract x 0 (w + off - getWidth y) = Some l" "plain P q l" "weight l \<le> weight x"
      show "small P q ?n (do { r \<leftarrow> create_Extract y off (getWidth y - off); ConcatExpr_create create_Extract l r })"
      proof (rule small_bind [OF ih(4) [OF c l(1) p(2)]])
        fix r assume r: "create_Extract y off (getWidth y - off) = Some r" "plain P q r" "weight r \<le> weight y"
        show "small P q ?n (ConcatExpr_create create_Extract l r)"
        proof (rule small_mono [OF small_Concat_of [OF l(2) r(2)]])
          fix e' off' w' assume m: "merge_extracts l r = Some (e', off', w')"
          have "plain P q e'" using m l(2) by auto
          from small_mono [OF ih(5) [OF c l(1) r(1) m this]] show "small P q (max 1 (weight e')) (create_Extract e' off' w')" by simp
        qed (use l(3) r(3) in simp)
      qed
    qed
    have "small P q ?n (create_Extract e off w)"
    proof -
      have "small P q ?n (create_Extract x (off - getWidth y) w)" if "getWidth y \<le> off" using small_mono [OF ih(1) [OF that p(1)]] by simp
      moreover have "small P q ?n (create_Extract y off w)" if "\<not> getWidth y \<le> off" "off + w \<le> getWidth y" using small_mono [OF ih(2) [OF that p(2)]] by simp
      ultimately show ?thesis using both e by (subst create_Extract.simps) simp
    qed
    then show ?thesis by (rule small_mono) (simp add: e(1))
  qed
qed

lemma small_Concat: "plain P q l \<Longrightarrow> plain P q r \<Longrightarrow> small P q (weight l + weight r) (create_Concat l r)"
  unfolding create_Concat_def
  by (rule small_Concat_of) (auto intro!: small_mono [OF small_Extract])

lemma small_unary:
  assumes "plain P q e"
  shows "small P q (weight e) (create_Not e)" "small P q (weight e) (create_ZExt e w)" "small P q (weight e) (create_SExt e w)"
  using assms weight_pos [of e] small_Extract [OF assms]
  by (cases "dyn_const e"; auto simp: create_Not_def create_ZExt_def create_SExt_def ConstantExpr_Not_def ConstantExpr_ZExt_def ConstantExpr_SExt_def)+

lemma small_Select:
  assumes "plain P q c" "plain P q t" "plain P q f"
  shows "small P q (weight c + weight t + weight f) (create_Select False c t f)"
proof (cases "dyn_const c")
  case None
  let ?n = "weight c + weight t + weight f"
  have "small P q ?n (create_Or c f)" "small P q ?n (create_And c t)"
    by (rule small_mono [OF small_Or [OF assms(1,3)]] small_mono [OF small_And [OF assms(1,2)]]; simp)+
  moreover have "small P q ?n (createIsZero False c \<bind> (\<lambda>z. create_And z f))" "small P q ?n (createIsZero False c \<bind> (\<lambda>z. create_Or z t))"
    by (rule small_mono [OF small_bit(1) [OF assms(1,3)]] small_mono [OF small_bit(2) [OF assms(1,2)]]; simp)+
  ultimately show ?thesis using None assms weight_pos [OF None]
    by (auto simp: create_Select_def simp del: One_nat_def split: option.split)
qed (use assms in \<open>auto simp: create_Select_def\<close>)

lemma small_rollback:
  "plain_updates P q us \<Longrightarrow> P root \<Longrightarrow> plain_updates P q head \<Longrightarrow> plain P q index \<Longrightarrow> weight_updates us \<le> weight_updates head \<Longrightarrow>
   small P q (weight_updates head + weight index + 1) (rollback False root head index us)"
proof (induction False root head index us rule: rollback.induct)
  case (2 root head index un_next un_index un_value)
  show ?case unfolding rollback.simps
  proof (rule small_bind [OF small_Eq])
    fix cond assume c: "create_Eq False index un_index = Some cond"
    show "small P q (weight_updates head + weight index + 1)
        (case dyn_const cond of
           Some (w, v) \<Rightarrow> (if w = 1 \<and> v \<noteq> 0 then Some un_value else rollback False root head index un_next)
         | None \<Rightarrow> Some (Read root head index))"
      using 2(1) [OF c] 2(2-) by (cases "dyn_const cond") (auto simp: dyn_const_def split: expr.splits)
  qed (use 2 in auto)
qed auto

text \<open>An expression with lighter kids is lighter.\<close>

lemma rebuild_lighter:
  assumes "plain P q e" "\<forall>k \<in> set kids. plain P q k" "sum_list (map weight kids) < sum_list (map weight (getKids e))"
    and "\<And>k l r. e = Binary k l r \<Longrightarrow> is_div k \<Longrightarrow> kids ! 1 = r"
  shows "rebuild False e kids = Some e' \<Longrightarrow> plain P q e' \<and> weight e' < weight e"
proof -
  assume r: "rebuild False e kids = Some e'"
  have "small P q (weight e - 1) (rebuild False e kids)"
    using assms
  proof (cases "(False, e, kids)" rule: rebuild.cases)
    case (2 opt arr us i a)
    then show ?thesis using assms small_rollback [of P q us arr us a] by (auto simp: create_Read_def intro: small_mono)
  next
    case (3 opt c t f a b d)
    then show ?thesis using assms small_Select [of P q a b d] by (auto intro: small_mono)
  next
    case (4 opt l r a b)
    then show ?thesis using assms small_Concat [of P q a b] by (auto intro: small_mono)
  next
    case (5 opt x off w a)
    then show ?thesis using assms by (auto intro!: small_mono [OF small_Extract])
  next
    case (9 opt k l r a b)
    then show ?thesis using assms(1-3) assms(4) [of k l r] small_binary [of P q a b k] by (auto intro: small_mono)
  qed (use assms in \<open>auto intro!: small_mono [OF small_unary(1)] small_mono [OF small_unary(2)] small_mono [OF small_unary(3)]\<close>)
  moreover have "1 \<le> weight e" using assms(3) by (cases e) auto
  ultimately show ?thesis using r by auto
qed

end
