(* ===== verification/Constraint_Manager.thy ===== *)
theory Constraint_Manager
  imports Klee_Solver Expr_Weight
begin

text \<open>
  The constraints of a path: \<open>ConstraintManager\<close> in \<open>src/lib/Expr/Constraints.cpp\<close>. A new
  constraint is simplified by the equalities that are known, split at conjunctions, and an equality
  with a constant rewrites the constraints that are there.
\<close>

section \<open>Replacing subterms\<close>

text \<open>\<open>ExprReplaceVisitor\<close>, which replaces one expression.\<close>

function replace_visit :: "bool \<Rightarrow> expr \<Rightarrow> expr \<Rightarrow> expr \<Rightarrow> expr option" where
  "replace_visit opt src dst e =
     visitActual opt (\<lambda>e. Some (if e = src then ChangeTo dst else DoChildren)) (\<lambda>e. Some DoChildren)
       (\<lambda>e. if e = src then ChangeTo dst else DoChildren) (replace_visit opt src dst) e"
  by pat_completeness auto
termination
  by (relation "measure (\<lambda>(opt, src, dst, e). size e)") (auto dest: getKids_size)

declare replace_visit.simps [simp del]

text \<open>
  \<open>ExprReplaceVisitor2\<close>, which replaces by a map after the visit of the kids, and is recursive:
  an expression that was rebuilt is visited again.
\<close>

lemma those_mono [partial_function_mono]:
  "(\<And>x. mono_option (B x)) \<Longrightarrow> mono_option (\<lambda>f. those (map (\<lambda>x. B x f) xs))"
proof (induction xs)
  case (Cons x xs)
  have "mono_option (\<lambda>f. B x f \<bind> (\<lambda>y. those (map (\<lambda>x. B x f) xs) \<bind> (\<lambda>ys. Some (y # ys))))"
    by (intro bind_mono Cons option.const_mono)
  moreover have "(\<lambda>f. those (map (\<lambda>x. B x f) (x # xs))) = (\<lambda>f. B x f \<bind> (\<lambda>y. those (map (\<lambda>x. B x f) xs) \<bind> (\<lambda>ys. Some (y # ys))))"
    by (auto simp: fun_eq_iff split: option.split bind_splits)
  ultimately show ?case by simp
qed (simp add: option.const_mono)

partial_function (option) replace_visit2 :: "bool \<Rightarrow> (expr \<Rightarrow> expr option) \<Rightarrow> expr \<Rightarrow> expr option" where
  "replace_visit2 opt replacements e =
     (if dyn_const e \<noteq> None then Some e
      else do {
        kids \<leftarrow> those (map (\<lambda>k. replace_visit2 opt replacements k) (getKids e));
        e' \<leftarrow> (if kids \<noteq> getKids e then do { r \<leftarrow> rebuild opt e kids; replace_visit2 opt replacements r } else Some e);
        Some (if dyn_const e' \<noteq> None then e' else case replacements e' of Some x \<Rightarrow> x | None \<Rightarrow> e')
      })"

section \<open>The constraint manager\<close>

text \<open>The equality that a constraint gives; \<open>insert\<close> keeps the first one for an expression.\<close>

definition equality_of :: "expr \<Rightarrow> expr \<times> expr" where
  "equality_of c =
     (case c of
        Binary k l r \<Rightarrow> if k = Eq \<and> dyn_const l \<noteq> None then (r, l) else (c, ConstantExpr_alloc 1 1)
      | _ \<Rightarrow> (c, ConstantExpr_alloc 1 1))"

definition equalities :: "expr list \<Rightarrow> expr \<Rightarrow> expr option" where
  "equalities cs = foldl (\<lambda>m c. if m (fst (equality_of c)) = None then m(fst (equality_of c) \<mapsto> snd (equality_of c)) else m) Map.empty cs"

definition simplifyExpr :: "bool \<Rightarrow> expr list \<Rightarrow> expr \<Rightarrow> expr option" where
  "simplifyExpr opt cs e = (if dyn_const e \<noteq> None then Some e else replace_visit2 opt (equalities cs) e)"

text \<open>\<open>rewriteConstraints\<close>, with \<open>addConstraintInternal\<close> as an argument.\<close>

fun rewriteConstraints :: "(expr \<Rightarrow> expr option) \<Rightarrow> (expr \<Rightarrow> expr list \<Rightarrow> expr list option) \<Rightarrow> expr list \<Rightarrow> expr list \<Rightarrow> expr list option" where
  "rewriteConstraints visitor addInternal [] cs = Some cs"
| "rewriteConstraints visitor addInternal (ce # old) cs =
     do {
       e \<leftarrow> visitor ce;
       cs \<leftarrow> (if e \<noteq> ce then addInternal e cs else Some (cs @ [ce]));
       rewriteConstraints visitor addInternal old cs
     }"

lemma rewriteConstraints_mono [partial_function_mono]:
  "(\<And>e cs. mono_option (A e cs)) \<Longrightarrow> mono_option (\<lambda>f. rewriteConstraints visitor (\<lambda>e cs. A e cs f) old cs)"
proof (induction old arbitrary: cs)
  case (Cons ce old)
  show ?case unfolding rewriteConstraints.simps
    by (intro bind_mono option.const_mono if_mono Cons)
qed (simp add: option.const_mono)

text \<open>The flags are the options \<open>ConstArrayOpt\<close> and \<open>RewriteEqualities\<close>.\<close>

partial_function (option) addConstraintInternal :: "bool \<Rightarrow> bool \<Rightarrow> expr \<Rightarrow> expr list \<Rightarrow> expr list option" where
  "addConstraintInternal opt rewrite e cs =
     (case e of
        Constant w v \<Rightarrow> (if isTrue e then Some cs else None)
      | Binary k l r \<Rightarrow>
          (if k = And then do { cs \<leftarrow> addConstraintInternal opt rewrite l cs; addConstraintInternal opt rewrite r cs }
           else if k = Eq \<and> rewrite \<and> dyn_const l \<noteq> None then
             do {
               cs \<leftarrow> rewriteConstraints (replace_visit opt r l) (\<lambda>e cs. addConstraintInternal opt rewrite e cs) cs [];
               Some (cs @ [e])
             }
           else Some (cs @ [e]))
      | _ \<Rightarrow> Some (cs @ [e]))"

definition addConstraint :: "bool \<Rightarrow> bool \<Rightarrow> expr \<Rightarrow> expr list \<Rightarrow> expr list option" where
  "addConstraint opt rewrite e cs = do { e \<leftarrow> simplifyExpr opt cs e; addConstraintInternal opt rewrite e cs }"

declare replace_visit2.simps [code] addConstraintInternal.simps [code]

section \<open>Rewriting reduces\<close>

text \<open>
  An expression that may stand for another one under some contents: of the same width and the same
  values there, plain, and the same or lighter.
\<close>

definition reduces :: "(array \<Rightarrow> bool) \<Rightarrow> bool \<Rightarrow> contents set \<Rightarrow> expr \<Rightarrow> expr \<Rightarrow> bool" where
  "reduces P q R e e' \<longleftrightarrow>
     wf_expr e' \<and> getWidth e' = getWidth e \<and> (\<forall>\<rho> \<in> R. eval \<rho> e' = eval \<rho> e) \<and> plain P q e' \<and> (e' = e \<or> weight e' < weight e)"

lemma reduces_refl: "wf_expr e \<Longrightarrow> plain P q e \<Longrightarrow> reduces P q R e e"
  by (simp add: reduces_def)

lemma reduces_trans: "reduces P q R a b \<Longrightarrow> reduces P q R b c \<Longrightarrow> reduces P q R a c"
  by (auto simp: reduces_def)

lemma reduces_weight: "reduces P q R e e' \<Longrightarrow> weight e' \<le> weight e"
  by (auto simp: reduces_def)

lemma reduces_like: "reduces P q R e e' \<Longrightarrow> \<rho> \<in> R \<Longrightarrow> like False \<rho> e e'"
  by (simp add: reduces_def like_def)

lemma reduces_const: "reduces P q R (Constant w v) e' \<Longrightarrow> e' = Constant w v"
  by (simp add: reduces_def)

lemma plain_kids: "plain P q e \<Longrightarrow> k \<in> set (getKids e) \<Longrightarrow> plain P q k"
  by (cases e) auto

lemma wf_kids_expr: "wf_expr e \<Longrightarrow> k \<in> set (getKids e) \<Longrightarrow> wf_expr k"
  using good_kids [of False "\<lambda>_ _. 0" e k] by simp

lemma plain_divides: "plain P q e \<Longrightarrow> divides \<rho> e"
  by (cases e) (auto simp: divides_def)

lemma reduced_sum:
  "list_all2 (reduces P q R) ks kids \<Longrightarrow> sum_list (map weight kids) \<le> sum_list (map weight ks) \<and>
   (kids \<noteq> ks \<longrightarrow> sum_list (map weight kids) < sum_list (map weight ks))"
proof (induction rule: list_all2_induct)
  case (Cons k ks kid kids)
  then show ?case using reduces_weight [OF Cons(1)] by (auto simp: reduces_def)
qed simp

lemma rebuild_reduces:
  assumes e: "wf_expr e" "plain P q e" "dyn_const e = None" and kids: "list_all2 (reduces P q R) (getKids e) kids" "kids \<noteq> getKids e"
    and R: "\<rho>\<^sub>0 \<in> R"
  shows "\<exists>e'. rebuild False e kids = Some e' \<and> reduces P q R e e' \<and> weight e' < weight e"
proof -
  have ne: "getKids e \<noteq> []" using e(3) by (cases e) auto
  have m: "makes False \<rho> (rebuild False e kids) (getWidth e) (eval \<rho> e)" if "\<rho> \<in> R" for \<rho>
    using rebuild_like [of False \<rho> e kids] e(1) plain_divides [OF e(2)] ne
      list_all2_mono [OF kids(1)] reduces_like [OF _ that] by auto
  obtain e' where e': "rebuild False e kids = Some e'" "wf_expr e'" "getWidth e' = getWidth e" using m [OF R] by (auto simp: makes_def)
  have ev: "eval \<rho> e' = eval \<rho> e" if "\<rho> \<in> R" for \<rho> using m [OF that] e'(1) by (auto simp: makes_def)
  have "plain P q e' \<and> weight e' < weight e"
  proof (rule rebuild_lighter [OF e(2) _ _ _ e'(1)])
    show "\<forall>k \<in> set kids. plain P q k" using kids(1) by (auto simp: list_all2_conv_all_nth in_set_conv_nth reduces_def)
    show "sum_list (map weight kids) < sum_list (map weight (getKids e))" using reduced_sum [OF kids(1)] kids(2) by blast
    show "kids ! 1 = r" if "e = Binary k l r" "is_div k" for k l r
      using that e(2) kids(1) by (auto simp: list_all2_Cons1 dest: reduces_const)
  qed
  then show ?thesis using e' ev by (auto simp: reduces_def)
qed

lemma those_reduces:
  "\<forall>k \<in> set ks. \<exists>k'. f k = Some k' \<and> reduces P q R k k' \<Longrightarrow> \<exists>kids. those (map f ks) = Some kids \<and> list_all2 (reduces P q R) ks kids"
  by (induction ks) auto

text \<open>Replacement by a constant that has the same value.\<close>

definition replaces :: "contents set \<Rightarrow> expr \<Rightarrow> expr \<Rightarrow> bool" where
  "replaces R src dst \<longleftrightarrow> (\<exists>v. dst = Constant (getWidth src) v \<and> const_ok (getWidth src) v \<and> (\<forall>\<rho> \<in> R. eval \<rho> src = v))"

lemma replaces_reduces: "replaces R e x \<Longrightarrow> dyn_const e = None \<Longrightarrow> reduces P q R e x"
  using weight_pos [of e] by (auto simp: replaces_def reduces_def)

lemma replace_visit_reduces:
  assumes "replaces R src dst" "\<rho>\<^sub>0 \<in> R"
  shows "wf_expr e \<Longrightarrow> plain P q e \<Longrightarrow> \<exists>e'. replace_visit False src dst e = Some e' \<and> reduces P q R e e'"
proof (induction "size e" arbitrary: e rule: less_induct)
  case less
  show ?case
  proof (cases "dyn_const e \<noteq> None \<or> e = src")
    case True
    then show ?thesis using replaces_reduces [OF assms(1)] reduces_refl [OF less.prems]
      by (cases "dyn_const e") (auto simp: replace_visit.simps [of _ src] replace_visit.simps [of _ _ _ e] visitActual_def)
  next
    case False
    then have nc: "dyn_const e = None" by blast
    obtain kids where kids: "those (map (replace_visit False src dst) (getKids e)) = Some kids" "list_all2 (reduces P q R) (getKids e) kids"
      using those_reduces [of "getKids e" "replace_visit False src dst" P q R] less.hyps getKids_size wf_kids_expr [OF less.prems(1)] plain_kids [OF less.prems(2)] by blast
    obtain e' where e': "(if kids \<noteq> getKids e then rebuild False e kids else Some e) = Some e'" "reduces P q R e e'"
      using rebuild_reduces [OF less.prems nc kids(2) _ assms(2)] reduces_refl [OF less.prems] by (cases "kids = getKids e") auto
    have "reduces P q R e (if dyn_const e' = None \<and> e' = src then dst else e')"
      using reduces_trans [OF e'(2) replaces_reduces] assms(1) e'(2) by auto
    moreover have "replace_visit False src dst e = Some (if dyn_const e' = None \<and> e' = src then dst else e')"
      using False kids(1) e'(1) by (auto simp: replace_visit.simps [of _ _ _ e] visitActual_def visit_children_def split: if_splits)
    ultimately show ?thesis by blast
  qed
qed

lemma replace_visit2_reduces:
  assumes repl: "\<And>e x. repl e = Some x \<Longrightarrow> replaces R e x" and R: "\<rho>\<^sub>0 \<in> R"
  shows "wf_expr e \<Longrightarrow> plain P q e \<Longrightarrow> \<exists>e'. replace_visit2 False repl e = Some e' \<and> reduces P q R e e'"
proof (induction "(weight e, size e)" arbitrary: e rule: wf_induct_rule [OF wf_lex_prod [OF wf_less_than wf_less_than]])
  case 1
  note ih = 1(1) and e = 1(2,3)
  show ?case
  proof (cases "dyn_const e")
    case (Some wv)
    then show ?thesis using reduces_refl [OF e] by (subst replace_visit2.simps) simp
  next
    case None
    have kid: "\<exists>k'. replace_visit2 False repl k = Some k' \<and> reduces P q R k k'" if k: "k \<in> set (getKids e)" for k
    proof (rule ih)
      have "weight k \<le> weight e" using k by (cases e) auto
      then show "((weight k, size k), weight e, size e) \<in> less_than <*lex*> less_than" using getKids_size [OF k] by auto
    qed (use wf_kids_expr plain_kids e k in blast)+
    obtain kids where kids: "those (map (\<lambda>k. replace_visit2 False repl k) (getKids e)) = Some kids" "list_all2 (reduces P q R) (getKids e) kids"
      using those_reduces [of "getKids e" "replace_visit2 False repl" P q R] kid by blast
    obtain e' where e': "(if kids \<noteq> getKids e then do { r \<leftarrow> rebuild False e kids; replace_visit2 False repl r } else Some e) = Some e'" "reduces P q R e e'"
    proof (cases "kids = getKids e")
      case False
      obtain r where r: "rebuild False e kids = Some r" "reduces P q R e r" "weight r < weight e"
        using rebuild_reduces [OF e None kids(2) False R] by blast
      obtain e' where "replace_visit2 False repl r = Some e'" "reduces P q R r e'"
        using ih [of r] r(2,3) by (auto simp: reduces_def)
      then show ?thesis using that r False reduces_trans [OF r(2)] by simp
    qed (use that reduces_refl [OF e] in simp)
    let ?res = "if dyn_const e' \<noteq> None then e' else case repl e' of Some x \<Rightarrow> x | None \<Rightarrow> e'"
    have "reduces P q R e ?res"
    proof (cases "dyn_const e' = None \<and> repl e' \<noteq> None")
      case True
      then show ?thesis using reduces_trans [OF e'(2) replaces_reduces [OF repl]] by auto
    qed (use e'(2) in \<open>auto split: option.split\<close>)
    moreover have "replace_visit2 False repl e = Some ?res"
      using kids(1) e'(1) None by (subst replace_visit2.simps) simp
    ultimately show ?thesis by blast
  qed
qed

section \<open>The meaning of the constraints\<close>

definition holds :: "expr list \<Rightarrow> contents set" where
  "holds cs = {\<rho>. models \<rho> cs}"

lemma holds_simps [simp]: "holds [] = UNIV" "holds (c # cs) = {\<rho>. eval \<rho> c \<noteq> 0} \<inter> holds cs" "holds (cs @ ds) = holds cs \<inter> holds ds"
  by (auto simp: holds_def models_def)

text \<open>Constraints that the manager can hold: boolean, plain.\<close>

definition plain_constraint :: "(array \<Rightarrow> bool) \<Rightarrow> bool \<Rightarrow> expr \<Rightarrow> bool" where
  "plain_constraint P q c \<longleftrightarrow> formula c \<and> plain P q c"

lemma formula_Eq: "formula (Binary Eq (Constant w v) r) \<longleftrightarrow> wf_expr r \<and> const_ok w v \<and> w = getWidth r"
  by (auto simp: formula_def is_cmp_def)

lemma equality_replaces:
  assumes "formula c" "R \<subseteq> {\<rho>. eval \<rho> c \<noteq> 0}"
  shows "replaces R (fst (equality_of c)) (snd (equality_of c))"
proof (cases "\<exists>w v r. c = Binary Eq (Constant w v) r")
  case True
  then show ?thesis using assms by (auto simp: equality_of_def replaces_def formula_Eq)
next
  case False
  then have e: "equality_of c = (c, Constant 1 1)"
    by (cases c) (auto simp: equality_of_def ConstantExpr_alloc_def dyn_const_def split: expr.split)
  have "eval \<rho> c = 1" if "\<rho> \<in> R" for \<rho> using formula_bool [OF assms(1), of \<rho>] assms(2) that by auto
  then show ?thesis using assms(1) e by (auto simp: replaces_def formula_def const_ok_def)
qed

lemma equalities_replace:
  assumes "\<forall>c \<in> set cs. formula c" "equalities cs e = Some x"
  shows "replaces (holds cs) e x"
proof -
  let ?f = "\<lambda>m c. if m (fst (equality_of c)) = None then m(fst (equality_of c) \<mapsto> snd (equality_of c)) else m"
  have "foldl ?f m ds e = Some x \<Longrightarrow> m e = Some x \<or> (\<exists>c \<in> set ds. fst (equality_of c) = e \<and> snd (equality_of c) = x)" for m ds
  proof (induction ds arbitrary: m)
    case (Cons c ds)
    then show ?case by (fastforce split: if_splits)
  qed simp
  from this [of Map.empty cs] assms(2) obtain c where c: "c \<in> set cs" "fst (equality_of c) = e" "snd (equality_of c) = x"
    by (auto simp: equalities_def)
  have "holds cs \<subseteq> {\<rho>. eval \<rho> c \<noteq> 0}" using c(1) by (auto simp: holds_def models_def)
  then show ?thesis using equality_replaces [of c "holds cs"] assms(1) c by auto
qed

lemma simplifyExpr_reduces:
  assumes "\<forall>c \<in> set cs. formula c" "wf_expr e" "plain P q e" "holds cs \<noteq> {}"
  shows "\<exists>e'. simplifyExpr False cs e = Some e' \<and> reduces P q (holds cs) e e'"
proof (cases "dyn_const e")
  case None
  obtain \<rho> where "\<rho> \<in> holds cs" using assms(4) by blast
  from replace_visit2_reduces [OF equalities_replace [OF assms(1)] this assms(2,3)] show ?thesis using None by (auto simp: simplifyExpr_def)
qed (use reduces_refl [OF assms(2,3)] in \<open>simp add: simplifyExpr_def\<close>)

section \<open>Adding constraints\<close>

definition total_weight :: "expr list \<Rightarrow> nat" where
  "total_weight cs = sum_list (map weight cs)"

lemma total_weight_simps [simp]:
  "total_weight [] = 0" "total_weight (c # cs) = weight c + total_weight cs" "total_weight (cs @ ds) = total_weight cs + total_weight ds"
  by (simp_all add: total_weight_def)

text \<open>What adding a constraint has to give.\<close>

definition added :: "(array \<Rightarrow> bool) \<Rightarrow> bool \<Rightarrow> nat \<Rightarrow> contents set \<Rightarrow> contents set \<Rightarrow> expr list option \<Rightarrow> bool" where
  "added P q n R H res \<longleftrightarrow>
     (\<exists>cs'. res = Some cs' \<and> (\<forall>c \<in> set cs'. plain_constraint P q c) \<and> total_weight cs' \<le> n \<and> R \<inter> holds cs' = H)"

lemma rewriteConstraints_added:
  assumes visitor: "\<And>e. wf_expr e \<Longrightarrow> plain P q e \<Longrightarrow> \<exists>e'. visitor e = Some e' \<and> reduces P q R e e'"
    and add: "\<And>e cs. plain_constraint P q e \<Longrightarrow> \<forall>c \<in> set cs. plain_constraint P q c \<Longrightarrow> total_weight cs + weight e \<le> n \<Longrightarrow>
      holds (e # cs) \<noteq> {} \<Longrightarrow> added P q (total_weight cs + weight e) UNIV (holds (e # cs)) (addInternal e cs)"
  shows "\<forall>c \<in> set (old @ cs). plain_constraint P q c \<Longrightarrow> total_weight old + total_weight cs \<le> n \<Longrightarrow> R \<inter> holds (old @ cs) \<noteq> {} \<Longrightarrow>
    added P q (total_weight old + total_weight cs) R (R \<inter> holds (old @ cs)) (rewriteConstraints visitor addInternal old cs)"
proof (induction old arbitrary: cs)
  case Nil
  then show ?case by (simp add: added_def)
next
  case (Cons ce old)
  have ce: "formula ce" "plain P q ce" using Cons.prems(1) by (simp_all add: plain_constraint_def)
  obtain e where e: "visitor ce = Some e" "reduces P q R ce e" using visitor [of ce] ce by (auto simp: formula_def)
  have pe: "plain_constraint P q e" using e(2) ce(1) by (simp add: reduces_def plain_constraint_def formula_def)
  have R: "R \<inter> holds (e # cs) = R \<inter> holds (ce # cs)" using e(2) by (auto simp: reduces_def)
  obtain cs' where cs': "(if e \<noteq> ce then addInternal e cs else Some (cs @ [ce])) = Some cs'" "\<forall>c \<in> set cs'. plain_constraint P q c"
      "total_weight cs' \<le> total_weight cs + weight ce" "R \<inter> holds cs' = R \<inter> holds (ce # cs)"
  proof (cases "e = ce")
    case True
    then show ?thesis using that [of "cs @ [ce]"] Cons.prems(1) by auto
  next
    case False
    have "added P q (total_weight cs + weight e) UNIV (holds (e # cs)) (addInternal e cs)"
      by (rule add [OF pe]) (use Cons.prems R reduces_weight [OF e(2)] in auto)
    then show ?thesis using that False R reduces_weight [OF e(2)] by (auto simp: added_def)
  qed
  have H: "R \<inter> holds (old @ cs') = R \<inter> holds ((ce # old) @ cs)" using cs'(4) by auto
  have "added P q (total_weight old + total_weight cs') R (R \<inter> holds (old @ cs')) (rewriteConstraints visitor addInternal old cs')"
    by (rule Cons.IH) (use Cons.prems cs' H in auto)
  then show ?case using e(1) cs'(1,3) unfolding H by (auto simp: added_def)
qed

lemma bit_And: "formula l \<Longrightarrow> formula r \<Longrightarrow> eval \<rho> (Binary And l r) \<noteq> 0 \<longleftrightarrow> eval \<rho> l \<noteq> 0 \<and> eval \<rho> r \<noteq> 0"
  using formula_bool [of l \<rho>] formula_bool [of r \<rho>] by auto

lemma addConstraintInternal_push:
  assumes "\<nexists>w v. e = Constant w v" "\<nexists>l r. e = Binary And l r" "\<not> (rewrite \<and> (\<exists>w v r. e = Binary Eq (Constant w v) r))"
  shows "addConstraintInternal opt rewrite e cs = Some (cs @ [e])"
  using assms by (subst addConstraintInternal.simps) (cases e; auto simp: dyn_const_def split: expr.split)

lemma addConstraintInternal_added:
  "plain_constraint P q e \<Longrightarrow> \<forall>c \<in> set cs. plain_constraint P q c \<Longrightarrow> holds (e # cs) \<noteq> {} \<Longrightarrow>
   added P q (total_weight cs + weight e) UNIV (holds (e # cs)) (addConstraintInternal False rewrite e cs)"
proof (induction "(total_weight cs + weight e, size e)" arbitrary: e cs rule: wf_induct_rule [OF wf_lex_prod [OF wf_less_than wf_less_than]])
  case 1
  note ih = 1(1) and e = 1(2) and cs = 1(3) and sat = 1(4)
  have push: "added P q (total_weight cs + weight e) UNIV (holds (e # cs)) (Some (cs @ [e]))"
    using e cs by (auto simp: added_def)
  consider (const) w v where "e = Constant w v" | (conj) l r where "e = Binary And l r"
    | (eq) w v r where "e = Binary Eq (Constant w v) r" "rewrite"
    | (other) "addConstraintInternal False rewrite e cs = Some (cs @ [e])"
    using addConstraintInternal_push by blast
  then show ?case
  proof cases
    case const
    have "v \<noteq> 0" "w = 1" using sat e const by (auto simp: plain_constraint_def formula_def)
    then show ?thesis using const cs by (subst addConstraintInternal.simps) (auto simp: added_def isTrue_def)
  next
    case conj
    have lr: "plain_constraint P q l" "plain_constraint P q r" using e conj
      by (auto simp: plain_constraint_def formula_def is_cmp_def)
    have h: "holds (e # cs) = holds (r # l # cs)" using bit_And lr conj by (auto simp: plain_constraint_def)
    have "added P q (total_weight cs + weight l) UNIV (holds (l # cs)) (addConstraintInternal False rewrite l cs)"
      by (rule ih) (use conj lr cs sat h in auto)
    then obtain cs' where cs': "addConstraintInternal False rewrite l cs = Some cs'" "\<forall>c \<in> set cs'. plain_constraint P q c"
        "total_weight cs' \<le> total_weight cs + weight l" "holds cs' = holds (l # cs)" by (auto simp: added_def)
    have h': "holds (r # cs') = holds (e # cs)" using h cs'(4) by auto
    have "added P q (total_weight cs' + weight r) UNIV (holds (r # cs')) (addConstraintInternal False rewrite r cs')"
      by (rule ih) (use conj lr cs' sat h' in auto)
    then show ?thesis using cs'(1,3) conj h' by (subst addConstraintInternal.simps) (auto simp: added_def)
  next
    case eq
    let ?R = "{\<rho>. eval \<rho> e \<noteq> 0}"
    have f: "formula e" using e by (simp add: plain_constraint_def)
    have repl: "replaces ?R r (Constant w v)" using equality_replaces [OF f, of ?R] eq by (simp add: equality_of_def)
    obtain \<rho>\<^sub>0 where \<rho>\<^sub>0: "\<rho>\<^sub>0 \<in> holds (e # cs)" using sat by blast
    have "added P q (total_weight cs + total_weight []) ?R (?R \<inter> holds (cs @ []))
        (rewriteConstraints (replace_visit False r (Constant w v)) (addConstraintInternal False rewrite) cs [])"
    proof (rule rewriteConstraints_added [where n = "total_weight cs"])
      show "\<exists>e'. replace_visit False r (Constant w v) x = Some e' \<and> reduces P q ?R x e'" if "wf_expr x" "plain P q x" for x
        using replace_visit_reduces [OF repl _ that, of \<rho>\<^sub>0] \<rho>\<^sub>0 by auto
      show "added P q (total_weight ds + weight d) UNIV (holds (d # ds)) (addConstraintInternal False rewrite d ds)"
        if "plain_constraint P q d" "\<forall>c \<in> set ds. plain_constraint P q c" "total_weight ds + weight d \<le> total_weight cs" "holds (d # ds) \<noteq> {}" for d ds
        by (rule ih) (use that eq in auto)
    qed (use cs sat in auto)
    then show ?thesis using eq push e by (subst addConstraintInternal.simps) (auto simp: added_def)
  next
    case other
    then show ?thesis using push by simp
  qed
qed

section \<open>Properties\<close>

text \<open>
  C22: Adding a constraint adds exactly this constraint. For boolean constraints that divide only
  by constants other than zero and can hold together with the new one, \<open>addConstraint\<close>
  returns: simplification, the splitting of conjunctions and the rewriting by equalities, which
  call each other, end. The contents that satisfy the new constraints are those that satisfied
  the old ones and satisfy the new one, the constraints are boolean again, and they do not read
  more than before.
\<close>

theorem addConstraint_exact:
  assumes "\<forall>c \<in> set (e # cs). plain_constraint P q c" "\<exists>\<rho>. models \<rho> (e # cs)"
  shows "\<exists>cs'. addConstraint False rewrite e cs = Some cs' \<and> (\<forall>c \<in> set cs'. plain_constraint P q c) \<and>
    total_weight cs' \<le> total_weight (e # cs) \<and> (\<forall>\<rho>. models \<rho> cs' \<longleftrightarrow> models \<rho> cs \<and> eval \<rho> e \<noteq> 0)"
proof -
  have f: "formula e" "plain P q e" "\<forall>c \<in> set cs. formula c" using assms(1) by (auto simp: plain_constraint_def)
  have sat: "holds (e # cs) \<noteq> {}" using assms(2) by (auto simp: holds_def models_def)
  obtain e' where e': "simplifyExpr False cs e = Some e'" "reduces P q (holds cs) e e'"
    using simplifyExpr_reduces [OF f(3) _ f(2)] f(1) sat by (auto simp: formula_def)
  have p: "plain_constraint P q e'" using e'(2) f(1) by (simp add: reduces_def plain_constraint_def formula_def)
  have h: "holds (e' # cs) = holds (e # cs)" using e'(2) by (auto simp: reduces_def)
  have "added P q (total_weight cs + weight e') UNIV (holds (e' # cs)) (addConstraintInternal False rewrite e' cs)"
    by (rule addConstraintInternal_added [OF p]) (use assms(1) sat h in auto)
  then obtain cs' where cs': "addConstraintInternal False rewrite e' cs = Some cs'" "\<forall>c \<in> set cs'. plain_constraint P q c"
      "total_weight cs' \<le> total_weight cs + weight e'" "holds cs' = holds (e # cs)" unfolding h by (auto simp: added_def)
  have "models \<rho> cs' \<longleftrightarrow> models \<rho> cs \<and> eval \<rho> e \<noteq> 0" for \<rho>
  proof -
    have "\<rho> \<in> holds cs' \<longleftrightarrow> \<rho> \<in> holds (e # cs)" by (simp only: cs'(4))
    then show ?thesis unfolding holds_def by (auto simp: models_def)
  qed
  then show ?thesis using e'(1) cs'(1-3) reduces_weight [OF e'(2)] by (simp add: addConstraint_def)
qed

text \<open>A read below ten, to which its equality with three and a bound of another read are added.\<close>

definition sample_constraint :: expr where
  "sample_constraint = Binary And (Binary Eq (Constant 8 3) (sample_read 0)) (Binary Ult (sample_read 0) (sample_read 1))"

theorem addConstraint_exact_witness:
  "addConstraint False True sample_constraint [Binary Ult (sample_read 0) (Constant 8 10)] =
     Some [Binary Eq (Constant 8 3) (sample_read 0), Binary Ult (sample_read 0) (sample_read 1)] \<and>
   (\<forall>\<rho>. models \<rho> [Binary Eq (Constant 8 3) (sample_read 0), Binary Ult (sample_read 0) (sample_read 1)] \<longleftrightarrow>
     models \<rho> [Binary Ult (sample_read 0) (Constant 8 10)] \<and> eval \<rho> sample_constraint \<noteq> 0)"
proof -
  let ?old = "[Binary Ult (sample_read 0) (Constant 8 10)]"
  have r: "addConstraint False True sample_constraint ?old = Some [Binary Eq (Constant 8 3) (sample_read 0), Binary Ult (sample_read 0) (sample_read 1)]"
    by code_simp
  have p: "\<forall>c \<in> set (sample_constraint # ?old). plain_constraint (\<lambda>_. True) False c"
    by (simp add: plain_constraint_def formula_def sample_constraint_def sample_read_def const_ok_def is_cmp_def is_div_def)
  have "models (\<lambda>arr i. if i = 0 then 3 else 4) (sample_constraint # ?old)"
    by (simp add: models_def sample_constraint_def sample_read_def initial_byte_def)
  then have "\<exists>\<rho>. models \<rho> (sample_constraint # ?old)" by blast
  from addConstraint_exact [OF p this, of True] show ?thesis unfolding r by auto
qed

end
