(* ===== verification/Cex_Cache.thy ===== *)
theory Cex_Cache
  imports Solver_Caches Map_Of_Sets Constraint_Manager "HOL-Library.List_Lexorder"
begin

text \<open>
  The cache of counterexamples, \<open>src/lib/Solver/CexCachingSolver.cpp\<close>: for the set of
  constraints of a query and its negation it keeps an assignment that satisfies them, or that there
  is none, and answers other queries from subsets and supersets of the sets it knows. With it,
  \<open>findSymbolicObjects\<close> of \<open>src/lib/Expr/ExprUtil.cpp\<close>.
\<close>

section \<open>The arrays of expressions\<close>

text \<open>\<open>SymbolicObjectFinder\<close>: the symbolic arrays in the order in which they are found.\<close>

definition isSymbolicArray :: "array \<Rightarrow> bool" where
  "isSymbolicArray arr \<longleftrightarrow> constantValues arr = []"

fun find_objects :: "expr \<Rightarrow> array list \<Rightarrow> array list" and find_objects_updates :: "update_node \<Rightarrow> array list \<Rightarrow> array list" where
  "find_objects (Constant w v) objects = objects"
| "find_objects (NotOptimized e) objects = find_objects e objects"
| "find_objects (Read arr us i) objects =
     (let objects = find_objects_updates us objects;
          objects = (if isSymbolicArray arr \<and> arr \<notin> set objects then objects @ [arr] else objects)
      in find_objects i objects)"
| "find_objects (Select c t f) objects = find_objects f (find_objects t (find_objects c objects))"
| "find_objects (Concat l r) objects = find_objects r (find_objects l objects)"
| "find_objects (Extract e off w) objects = find_objects e objects"
| "find_objects (ZExt e w) objects = find_objects e objects"
| "find_objects (SExt e w) objects = find_objects e objects"
| "find_objects (NotExpr e) objects = find_objects e objects"
| "find_objects (Binary k l r) objects = find_objects r (find_objects l objects)"
| "find_objects_updates No_Update objects = objects"
| "find_objects_updates (Update_Node un_next ix v) objects = find_objects_updates un_next (find_objects v (find_objects ix objects))"

definition findSymbolicObjects :: "expr list \<Rightarrow> array list" where
  "findSymbolicObjects es = foldl (\<lambda>objects e. find_objects e objects) [] es"

section \<open>The cache\<close>

text \<open>
  The options, and the state: the index and the table of assignments. A null pointer is \<open>None\<close>.
  The order of expressions is an injection \<open>rank\<close> into a linear order, by which keys are
  sorted; the order of the table, which compares addresses of arrays, is the argument
  \<open>before\<close>.
\<close>

record cex_options =
  CexCacheTryAll :: bool
  CexCacheSuperSet :: bool
  CexCacheExperimental :: bool
  DebugCexCacheCheckBinding :: bool

record 'k cex_state =
  cex_index :: "('k, assignment option) node"
  assignmentsTable :: "assignment list"

definition empty_cex :: "'k cex_state" where
  "empty_cex = \<lparr>cex_index = new_node, assignmentsTable = []\<rparr>"

definition KeyType :: "(expr \<Rightarrow> 'k::linorder) \<Rightarrow> expr list \<Rightarrow> expr list" where
  "KeyType rank es = sort_key rank (remdups es)"

fun table_insert :: "(assignment \<Rightarrow> assignment \<Rightarrow> bool) \<Rightarrow> assignment \<Rightarrow> assignment list \<Rightarrow> assignment list" where
  "table_insert before a [] = [a]"
| "table_insert before a (b # bs) = (if before a b then a # b # bs else if before b a then b # table_insert before a bs else b # bs)"

definition isFalse :: "expr \<Rightarrow> bool" where
  "isFalse e = (case dyn_const e of Some (w, v) \<Rightarrow> w = 1 \<and> v = 0 | None \<Rightarrow> False)"

definition NullOrSatisfyingAssignment :: "bool \<Rightarrow> expr list \<Rightarrow> assignment option \<Rightarrow> bool" where
  "NullOrSatisfyingAssignment opt key a = (case a of None \<Rightarrow> True | Some a \<Rightarrow> satisfies opt a key = Some True)"

definition searchForAssignment ::
  "bool \<Rightarrow> cex_options \<Rightarrow> (expr \<Rightarrow> 'k::linorder) \<Rightarrow> 'k cex_state \<Rightarrow> expr list \<Rightarrow> assignment option option" where
  "searchForAssignment opt flags rank st key =
     (let S = rank ` set key; cache = cex_index st;
          super = (if CexCacheSuperSet flags then mos_findSuperset (\<lambda>a. a \<noteq> None) S cache else None)
      in case mos_lookup S cache of
           Some result \<Rightarrow> Some result
         | None \<Rightarrow>
             (case super of
                Some result \<Rightarrow> Some result
              | None \<Rightarrow>
                  if CexCacheTryAll flags then
                    (case mos_findSubset (\<lambda>a. a = None) S cache of
                       Some result \<Rightarrow> Some result
                     | None \<Rightarrow> map_option Some (find (\<lambda>a. satisfies opt a key = Some True) (assignmentsTable st)))
                  else mos_findSubset (NullOrSatisfyingAssignment opt key) S cache))"

text \<open>\<open>lookupAssignment\<close> returns the key and what is cached, if anything is.\<close>

definition lookupAssignment ::
  "bool \<Rightarrow> cex_options \<Rightarrow> (expr \<Rightarrow> 'k::linorder) \<Rightarrow> 'k cex_state \<Rightarrow> query \<Rightarrow> (expr list \<times> assignment option option) option" where
  "lookupAssignment opt flags rank st q =
     do {
       neg \<leftarrow> createIsZero opt (qexpr q);
       (if isFalse neg then Some (KeyType rank (constraints q), Some None)
        else
          let key = KeyType rank (if dyn_const neg = None then neg # constraints q else constraints q)
          in Some (key, searchForAssignment opt flags rank st key))
     }"

text \<open>What \<open>getAssignment\<close> does with a result of the solver; an assignment that the table has is the same one.\<close>

definition store_binding ::
  "bool \<Rightarrow> cex_options \<Rightarrow> (expr \<Rightarrow> 'k::linorder) \<Rightarrow> (assignment \<Rightarrow> assignment \<Rightarrow> bool) \<Rightarrow> 'k cex_state \<Rightarrow> expr list \<Rightarrow> int list list option
   \<Rightarrow> ('s \<times> 'k cex_state, assignment option) call" where
  "store_binding opt flags rank before st key sol =
     (case sol of
        Some values \<Rightarrow>
          (let binding = Assignment (findSymbolicObjects key) values False in
           if DebugCexCacheCheckBinding flags \<and> satisfies opt binding key \<noteq> Some True then abort
           else and_then (put_own (st\<lparr>cex_index := mos_insert (rank ` set key) (Some binding) (cex_index st),
               assignmentsTable := table_insert before binding (assignmentsTable st)\<rparr>)) (\<lambda>_. answer (Some binding)))
      | None \<Rightarrow> and_then (put_own (st\<lparr>cex_index := mos_insert (rank ` set key) None (cex_index st)\<rparr>)) (\<lambda>_. answer None))"

text \<open>
  \<open>getAssignment\<close>. On a hit it returns the pointer it found as its success, so that a null
  pointer, the answer that there is no assignment, is a failure.
\<close>

definition getAssignment ::
  "bool \<Rightarrow> cex_options \<Rightarrow> (expr \<Rightarrow> 'k::linorder) \<Rightarrow> (assignment \<Rightarrow> assignment \<Rightarrow> bool) \<Rightarrow> 's solver_impl \<Rightarrow> query
   \<Rightarrow> ('s \<times> 'k cex_state, assignment option) call" where
  "getAssignment opt flags rank before impl q =
     and_then get_own (\<lambda>st.
     and_then (build (lookupAssignment opt flags rank st q)) (\<lambda>(key, found).
       case found of
         Some result \<Rightarrow> (\<lambda>s. (if result \<noteq> None then Answer result else Failure, s))
       | None \<Rightarrow> and_then (below (computeInitialValues impl q (findSymbolicObjects key))) (store_binding opt flags rank before st key)))"

definition cex_computeValidity ::
  "bool \<Rightarrow> cex_options \<Rightarrow> (expr \<Rightarrow> 'k::linorder) \<Rightarrow> (assignment \<Rightarrow> assignment \<Rightarrow> bool) \<Rightarrow> 's solver_impl \<Rightarrow> query
   \<Rightarrow> ('s \<times> 'k cex_state, validity) call" where
  "cex_computeValidity opt flags rank before impl q =
     and_then (getAssignment opt flags rank before impl (withFalse q)) (\<lambda>a.
       case a of
         None \<Rightarrow> abort
       | Some a \<Rightarrow>
           and_then (build (evaluate opt a (qexpr q))) (\<lambda>v.
             if dyn_const v = None then abort
             else if isTrue v then
               and_then (getAssignment opt flags rank before impl q) (\<lambda>a. answer (if a = None then V_True else V_Unknown))
             else
               and_then (build (negateExpr opt q)) (\<lambda>n.
               and_then (getAssignment opt flags rank before impl n) (\<lambda>a. answer (if a = None then V_False else V_Unknown)))))"

definition cex_computeTruth ::
  "bool \<Rightarrow> cex_options \<Rightarrow> (expr \<Rightarrow> 'k::linorder) \<Rightarrow> (assignment \<Rightarrow> assignment \<Rightarrow> bool) \<Rightarrow> 's solver_impl \<Rightarrow> query
   \<Rightarrow> ('s \<times> 'k cex_state, bool) call" where
  "cex_computeTruth opt flags rank before impl q =
     and_then
       (if CexCacheExperimental flags then
          and_then (build (negateExpr opt q)) (\<lambda>n.
          and_then get_own (\<lambda>st.
          and_then (build (lookupAssignment opt flags rank st n)) (\<lambda>(key, found) s.
            (if found = Some None then Failure else Answer (), s))))
        else answer ())
       (\<lambda>_. and_then (getAssignment opt flags rank before impl q) (\<lambda>a. answer (a = None)))"

definition cex_computeValue ::
  "bool \<Rightarrow> cex_options \<Rightarrow> (expr \<Rightarrow> 'k::linorder) \<Rightarrow> (assignment \<Rightarrow> assignment \<Rightarrow> bool) \<Rightarrow> 's solver_impl \<Rightarrow> query
   \<Rightarrow> ('s \<times> 'k cex_state, expr) call" where
  "cex_computeValue opt flags rank before impl q =
     and_then (getAssignment opt flags rank before impl (withFalse q)) (\<lambda>a.
       case a of
         None \<Rightarrow> abort
       | Some a \<Rightarrow> and_then (build (evaluate opt a (qexpr q))) (\<lambda>v. if dyn_const v = None then abort else answer v))"

definition cex_computeInitialValues ::
  "bool \<Rightarrow> cex_options \<Rightarrow> (expr \<Rightarrow> 'k::linorder) \<Rightarrow> (assignment \<Rightarrow> assignment \<Rightarrow> bool) \<Rightarrow> 's solver_impl \<Rightarrow> query \<Rightarrow> array list
   \<Rightarrow> ('s \<times> 'k cex_state, int list list option) call" where
  "cex_computeInitialValues opt flags rank before impl q objects =
     and_then (getAssignment opt flags rank before impl q) (\<lambda>a.
       answer (map_option (\<lambda>a. map (\<lambda>os. case bindings a os of Some bytes \<Rightarrow> bytes | None \<Rightarrow> replicate (array_size os) 0) objects) a))"

definition CexCachingSolver ::
  "bool \<Rightarrow> cex_options \<Rightarrow> (expr \<Rightarrow> 'k::linorder) \<Rightarrow> (assignment \<Rightarrow> assignment \<Rightarrow> bool) \<Rightarrow> 's solver_impl
   \<Rightarrow> ('s \<times> 'k cex_state) solver_impl" where
  "CexCachingSolver opt flags rank before impl =
     \<lparr>computeTruth = cex_computeTruth opt flags rank before impl, computeValidity = cex_computeValidity opt flags rank before impl,
      computeValue = cex_computeValue opt flags rank before impl, computeInitialValues = cex_computeInitialValues opt flags rank before impl\<rparr>"

section \<open>Plain queries\<close>

text \<open>
  The queries that the cache is shown correct for read symbolic arrays with indices of at most 32
  bits, divide by constants only, and have no opaque subterm: these evaluate to constants
  under every assignment.
\<close>

definition plain_expr :: "expr \<Rightarrow> bool" where
  "plain_expr = plain (\<lambda>arr. isSymbolicArray arr \<and> domain arr \<le> 32) False"

definition plain_query :: "query \<Rightarrow> bool" where
  "plain_query q \<longleftrightarrow> (\<forall>c \<in> set (constraints q). plain_expr c) \<and> plain_expr (qexpr q)"

lemma plain_evaluable_gen:
  "plain P False e \<Longrightarrow> (\<And>arr. P arr \<Longrightarrow> domain arr \<le> 32) \<Longrightarrow> evaluable \<rho> e \<and> opaque_free e"
  "plain_updates P False us \<Longrightarrow> (\<And>arr. P arr \<Longrightarrow> domain arr \<le> 32) \<Longrightarrow> evaluable_updates \<rho> us \<and> opaque_free_updates us"
  by (induction e and us) auto

lemma plain_evaluable: "plain_expr e \<Longrightarrow> evaluable \<rho> e \<and> opaque_free e"
  using plain_evaluable_gen(1) [of "\<lambda>arr. isSymbolicArray arr \<and> domain arr \<le> 32" e \<rho>] by (simp add: plain_expr_def)

lemma plain_symbolic_gen:
  "plain P q e \<Longrightarrow> arr \<in> arrays e \<Longrightarrow> P arr"
  "plain_updates P q us \<Longrightarrow> arr \<in> arrays_updates us \<Longrightarrow> P arr"
  by (induction e and us) auto

lemma set_find_objects:
  "set (find_objects e objects) = set objects \<union> {arr \<in> arrays e. isSymbolicArray arr} \<and> (distinct objects \<longrightarrow> distinct (find_objects e objects))"
  "set (find_objects_updates us objects) = set objects \<union> {arr \<in> arrays_updates us. isSymbolicArray arr} \<and>
   (distinct objects \<longrightarrow> distinct (find_objects_updates us objects))"
proof (induction e objects and us objects rule: find_objects_find_objects_updates.induct)
  case (3 arr us i objects)
  define found where "found = (let os = find_objects_updates us objects in if isSymbolicArray arr \<and> arr \<notin> set os then os @ [arr] else os)"
  have f: "set found = insert arr (set objects \<union> arrays_updates us) \<inter> (set objects \<union> {arr. isSymbolicArray arr})" "distinct objects \<longrightarrow> distinct found"
    using 3(1) by (auto simp: found_def Let_def)
  have "set (find_objects i found) = set found \<union> {arr \<in> arrays i. isSymbolicArray arr} \<and> (distinct found \<longrightarrow> distinct (find_objects i found))"
    unfolding found_def Let_def by (rule 3(2)) simp_all
  moreover have "find_objects (Read arr us i) objects = find_objects i found" by (simp add: found_def Let_def)
  ultimately show ?case using f by auto
qed auto

lemma findSymbolicObjects_found:
  "set (findSymbolicObjects es) = {arr \<in> \<Union> (arrays ` set es). isSymbolicArray arr} \<and> distinct (findSymbolicObjects es)"
proof -
  have "set (foldl (\<lambda>objects e. find_objects e objects) os es) = set os \<union> {arr \<in> \<Union> (arrays ` set es). isSymbolicArray arr} \<and>
      (distinct os \<longrightarrow> distinct (foldl (\<lambda>objects e. find_objects e objects) os es))" for os
  proof (induction es arbitrary: os)
    case (Cons e es)
    show ?case using Cons.IH [of "find_objects e os"] set_find_objects(1) [of e os] by auto
  qed simp
  from this [of "[]"] show ?thesis by (simp add: findSymbolicObjects_def)
qed

lemma objects_cover: "plain_expr c \<Longrightarrow> c \<in> set es \<Longrightarrow> arrays c \<subseteq> set (findSymbolicObjects es)"
  using findSymbolicObjects_found [of es] plain_symbolic_gen(1) by (fastforce simp: plain_expr_def)

text \<open>Negation keeps queries plain.\<close>

lemma negate_plain:
  assumes "bool_query q" "plain_query q"
  obtains n where "negateExpr False q = Some n" "createIsZero False (qexpr q) = Some (qexpr n)" "bool_query n" "plain_query n"
    "constraints n = constraints q" "\<And>\<rho>. eval \<rho> (qexpr n) = of_bool (eval \<rho> (qexpr q) = 0)"
proof -
  obtain n where n: "negateExpr False q = Some n" "bool_query n" "constraints n = constraints q"
      "\<And>\<rho>. eval \<rho> (qexpr n) = of_bool (eval \<rho> (qexpr q) = 0)"
    by (rule negateExpr_ok [OF assms(1)]) blast
  have z: "createIsZero False (qexpr q) = Some (qexpr n)" using n(1) by (auto simp: negateExpr_def)
  have "plain_expr (qexpr n)"
    using small_IsZero [of "\<lambda>arr. isSymbolicArray arr \<and> domain arr \<le> 32" False "qexpr q"] assms(2) z by (simp add: plain_query_def plain_expr_def)
  then have "plain_query n" using assms(2) n(3) by (simp add: plain_query_def)
  then show ?thesis using that [OF n(1) z n(2) _ n(3,4)] by blast
qed

lemma withFalse_ok:
  assumes "query_ok q" "plain_query q"
  shows "bool_query (withFalse q)" "plain_query (withFalse q)" "\<not> valid (withFalse q)"
  using assms by (auto simp: bool_query_def query_ok_def const_ok_def plain_query_def plain_expr_def valid_def)

section \<open>What the cache holds\<close>

abbreviation cex_contents :: "assignment \<Rightarrow> contents" where
  "cex_contents a \<equiv> contents_of a (\<lambda>arr i. 0)"

text \<open>What is known of a set of constraints: that nothing satisfies it, or an assignment that does.\<close>

definition known :: "expr set \<Rightarrow> assignment option \<Rightarrow> bool" where
  "known S v =
     (case v of
        None \<Rightarrow> \<not> (\<exists>\<rho>. \<forall>c \<in> S. eval \<rho> c \<noteq> 0)
      | Some a \<Rightarrow> \<not> allowFreeValues a \<and> (\<forall>c \<in> S. eval (cex_contents a) c \<noteq> 0))"

definition entry_ok :: "(expr \<Rightarrow> 'k) \<Rightarrow> 'k set \<Rightarrow> assignment option \<Rightarrow> bool" where
  "entry_ok rank T v \<longleftrightarrow> T \<subseteq> range rank \<and> known (rank -` T) v"

definition cex_ok :: "(expr \<Rightarrow> 'k::linorder) \<Rightarrow> 'k cex_state \<Rightarrow> bool" where
  "cex_ok rank st \<longleftrightarrow>
     wf_node (cex_index st) \<and> (\<forall>T v. finite T \<longrightarrow> mos_lookup T (cex_index st) = Some v \<longrightarrow> entry_ok rank T v) \<and>
     (\<forall>a \<in> set (assignmentsTable st). \<not> allowFreeValues a)"

lemma known_subset: "known S None \<Longrightarrow> S \<subseteq> S' \<Longrightarrow> known S' None"
  by (auto simp: known_def)

lemma known_superset: "known S (Some a) \<Longrightarrow> S' \<subseteq> S \<Longrightarrow> known S' (Some a)"
  by (auto simp: known_def)

lemma empty_cex_ok: "cex_ok rank empty_cex"
  by (simp add: cex_ok_def empty_cex_def mos.lookup_empty)

definition key_ok :: "expr list \<Rightarrow> bool" where
  "key_ok key \<longleftrightarrow> (\<forall>c \<in> set key. formula c \<and> plain_expr c)"

lemma satisfies_known:
  assumes "key_ok key" "\<not> allowFreeValues a" "satisfies False a key = Some True"
  shows "known (set key) (Some a)"
  using satisfies_closed [OF assms(2), of key False "\<lambda>_ _. 0"] assms plain_evaluable
  by (auto simp: known_def key_ok_def formula_def)

lemma known_satisfies:
  assumes "key_ok key" "known (set key) (Some a)"
  shows "satisfies False a key = Some True"
  using satisfies_closed [of a key False "\<lambda>_ _. 0"] assms plain_evaluable
  by (auto simp: known_def key_ok_def formula_def)

lemma search_known:
  assumes inj: "inj rank" and ok: "cex_ok rank st" and key: "key_ok key"
    and found: "searchForAssignment False flags rank st key = Some result"
  shows "known (set key) result"
proof -
  let ?S = "rank ` set key" and ?i = "cex_index st"
  have wf: "wf_node ?i" and entries: "\<And>T v. finite T \<Longrightarrow> mos_lookup T ?i = Some v \<Longrightarrow> entry_ok rank T v"
    using ok by (auto simp: cex_ok_def)
  have S: "finite ?S" "rank -` ?S = set key" using inj by (auto simp: inj_vimage_image_eq)
  have exact: "known (set key) result" if "mos_lookup ?S ?i = Some result"
    using entries [OF S(1) that] S(2) by (simp add: entry_ok_def)
  have super: "known (set key) result" if s: "mos_findSuperset (\<lambda>a. a \<noteq> None) ?S ?i = Some result"
  proof -
    obtain T where T: "result \<noteq> None" "?S \<subseteq> T" "entry_ok rank T result"
      using mos.superset_related [OF wf S(1), where Q = "entry_ok rank" and p = "\<lambda>a. a \<noteq> None", OF entries s] by blast
    have "set key \<subseteq> rank -` T" using T(2) by auto
    then show ?thesis using T known_superset [of "rank -` T" _ "set key"] by (cases result) (auto simp: entry_ok_def)
  qed
  have sub: "known (set key) result" if s: "mos_findSubset p ?S ?i = Some result" and p: "\<And>a. p (Some a) \<Longrightarrow> satisfies False a key = Some True" for p
  proof -
    obtain T where T: "p result" "T \<subseteq> ?S" "entry_ok rank T result"
      using mos.subset_related [OF wf S(1), where Q = "entry_ok rank" and p = p, OF entries s] by blast
    have "rank -` T \<subseteq> set key" using vimage_mono [OF T(2), of rank] S(2) by simp
    then show ?thesis using T known_subset [of "rank -` T" "set key"] satisfies_known [OF key] p
      by (cases result) (auto simp: entry_ok_def known_def)
  qed
  have table: "known (set key) (Some a)" if "find (\<lambda>a. satisfies False a key = Some True) (assignmentsTable st) = Some a" for a
    using that ok satisfies_known [OF key, of a] by (auto simp: find_Some_iff cex_ok_def)
  show ?thesis using found exact super sub [of "\<lambda>a. a = None"] sub [of "NullOrSatisfyingAssignment False key"] table
    by (auto simp: searchForAssignment_def Let_def NullOrSatisfyingAssignment_def split: option.splits if_splits)
qed

section \<open>Lookups and assignments\<close>

text \<open>What an assignment, or its absence, says of a query.\<close>

definition right_assignment :: "query \<Rightarrow> assignment option \<Rightarrow> bool" where
  "right_assignment q v =
     (case v of
        None \<Rightarrow> valid q
      | Some a \<Rightarrow> \<not> allowFreeValues a \<and> models (cex_contents a) (constraints q) \<and> eval (cex_contents a) (qexpr q) = 0)"

definition key_for :: "query \<Rightarrow> expr list \<Rightarrow> bool" where
  "key_for q key \<longleftrightarrow> key_ok key \<and> (\<forall>\<rho>. (\<forall>c \<in> set key. eval \<rho> c \<noteq> 0) \<longleftrightarrow> models \<rho> (constraints q) \<and> eval \<rho> (qexpr q) = 0)"

lemma known_right: "key_for q key \<Longrightarrow> known (set key) v \<longleftrightarrow> right_assignment q v"
  by (auto simp: key_for_def known_def right_assignment_def valid_def split: option.split)

lemma set_KeyType [simp]: "set (KeyType rank es) = set es"
  by (simp add: KeyType_def)

lemma lookup_right:
  assumes q: "bool_query q" "plain_query q" and "inj rank" "cex_ok rank st"
  shows "\<exists>key found. lookupAssignment False flags rank st q = Some (key, found) \<and>
    (\<forall>v. found = Some v \<longrightarrow> right_assignment q v) \<and> (found = None \<longrightarrow> key_for q key)"
proof -
  obtain n where n: "createIsZero False (qexpr q) = Some (qexpr n)" "bool_query n" "plain_query n" "constraints n = constraints q"
      "\<And>\<rho>. eval \<rho> (qexpr n) = of_bool (eval \<rho> (qexpr q) = 0)"
    by (rule negate_plain [OF q]) blast
  let ?key = "KeyType rank (if dyn_const (qexpr n) = None then qexpr n # constraints q else constraints q)"
  show ?thesis
  proof (cases "isFalse (qexpr n)")
    case True
    then have "eval \<rho> (qexpr n) = 0" for \<rho> by (auto simp: isFalse_def split: option.splits)
    then have "valid q" using n(5) by (auto simp: valid_def)
    then show ?thesis using True n(1) by (simp add: lookupAssignment_def right_assignment_def)
  next
    case False
    have const: "eval \<rho> (qexpr q) = 0" if c: "dyn_const (qexpr n) \<noteq> None" for \<rho>
    proof -
      obtain w v where wv: "qexpr n = Constant w v" using c by (cases "dyn_const (qexpr n)") auto
      then have "w = 1" "v \<noteq> 0" using n(2) False by (auto simp: bool_query_def isFalse_def)
      then show ?thesis using n(5) [of \<rho>] wv by (auto split: if_splits)
    qed
    have "formula c \<and> plain_expr c" if "c \<in> set ?key" for c
      using that n(2,3) q by (auto simp: bool_query_formula query_ok_def plain_query_def split: if_splits)
    moreover have "(\<forall>c \<in> set ?key. eval \<rho> c \<noteq> 0) \<longleftrightarrow> models \<rho> (constraints q) \<and> eval \<rho> (qexpr q) = 0" for \<rho>
      using const n(5) by (auto simp: models_def)
    ultimately have key: "key_for q ?key" by (simp add: key_for_def key_ok_def)
    have "right_assignment q v" if "searchForAssignment False flags rank st ?key = Some v" for v
    proof -
      have "key_ok ?key" using key by (simp only: key_for_def)
      from search_known [OF assms(3,4) this that] show ?thesis by (rule known_right [OF key, THEN iffD1])
    qed
    then show ?thesis using key n(1) False by (simp add: lookupAssignment_def Let_def)
  qed
qed

text \<open>A solution for the arrays of a key is an assignment that satisfies it.\<close>

lemma solution_contents: "solution objects values = cex_contents (Assignment objects values False)"
  by (simp add: solution_def)

lemma solution_known:
  assumes "key_for q key" "right_values q (findSymbolicObjects key) (Some values)"
  shows "right_assignment q (Some (Assignment (findSymbolicObjects key) values False))"
proof -
  let ?a = "Assignment (findSymbolicObjects key) values False"
  obtain \<rho> where \<rho>: "models \<rho> (constraints q)" "eval \<rho> (qexpr q) = 0" "agree_on (set (findSymbolicObjects key)) (cex_contents ?a) \<rho>"
    using assms(2) by (auto simp: right_values_def solution_contents)
  have "eval (cex_contents ?a) c \<noteq> 0" if c: "c \<in> set key" for c
  proof -
    have f: "wf_expr c" "plain_expr c" using assms(1) c by (auto simp: key_for_def key_ok_def formula_def)
    have "agree_on (arrays c) (cex_contents ?a) \<rho>" using \<rho>(3) objects_cover [OF f(2) c] by (auto simp: agree_on_def)
    then have "eval (cex_contents ?a) c = eval \<rho> c" by (rule eval_agree [OF f(1)])
    then show ?thesis using assms(1) \<rho>(1,2) c unfolding key_for_def by metis
  qed
  then have "known (set key) (Some ?a)" by (simp add: known_def Assignment_def)
  then show ?thesis using known_right [OF assms(1)] by simp
qed

lemma table_insert_set: "set (table_insert before a as) \<subseteq> insert a (set as)"
  by (induction as) auto

lemma cex_insert_ok:
  assumes "inj rank" "cex_ok rank st" "known (set key) v" "set as \<subseteq> insert a (set (assignmentsTable st))" "\<not> allowFreeValues a"
  shows "cex_ok rank (st\<lparr>cex_index := mos_insert (rank ` set key) v (cex_index st), assignmentsTable := as\<rparr>)"
proof -
  have "rank -` rank ` set key = set key" using assms(1) by (simp add: inj_vimage_image_eq)
  then have e: "entry_ok rank (rank ` set key) v" using assms(3) by (auto simp: entry_ok_def)
  have "entry_ok rank T u" if "finite T" "mos_lookup T (mos_insert (rank ` set key) v (cex_index st)) = Some u" for T u
    by (rule mos.insert_keeps [where i = "cex_index st" and Q = "entry_ok rank", OF _ e _ that]) (use assms(2) in \<open>auto simp: cex_ok_def\<close>)
  then show ?thesis using assms(2,4,5) mos.ok_insert [of "cex_index st" "rank ` set key" v] by (auto simp: cex_ok_def)
qed

lemma sound_strengthen: "sound_call sure ok R m \<Longrightarrow> (sure' \<longrightarrow> sure) \<Longrightarrow> sound_call sure' ok R m"
  by (rule sound_callI) (erule sound_callD, auto)

lemma store_binding_right:
  assumes inj: "inj rank" and st: "cex_ok rank st" and key: "key_for q key" and sol: "right_values q (findSymbolicObjects key) sol"
  shows "sound_call sure (layer_ok ok (cex_ok rank)) (right_assignment q) (store_binding False flags rank before st key sol)"
proof (cases sol)
  case None
  then have v: "right_assignment q None" using sol by (simp add: right_values_def right_assignment_def)
  have "cex_ok rank (st\<lparr>cex_index := mos_insert (rank ` set key) None (cex_index st), assignmentsTable := assignmentsTable st\<rparr>)"
    by (rule cex_insert_ok [OF inj st, where a = "\<lparr>allowFreeValues = False, bindings = Map.empty\<rparr>"]) (use v known_right [OF key] in auto)
  then show ?thesis unfolding None store_binding_def option.case using v by (intro sound_then sound_put_own sound_answer) simp_all
next
  case (Some vals)
  let ?a = "Assignment (findSymbolicObjects key) vals False"
  have v: "right_assignment q (Some ?a)" using solution_known [OF key] sol Some by simp
  then have k: "known (set key) (Some ?a)" using known_right [OF key] by simp
  have "satisfies False ?a key = Some True" using known_satisfies [OF _ k] key by (simp add: key_for_def)
  moreover have "cex_ok rank (st\<lparr>cex_index := mos_insert (rank ` set key) (Some ?a) (cex_index st),
      assignmentsTable := table_insert before ?a (assignmentsTable st)\<rparr>)"
    by (rule cex_insert_ok [OF inj st k table_insert_set]) (simp add: Assignment_def)
  ultimately show ?thesis unfolding Some store_binding_def option.case Let_def using v by (auto intro!: sound_then sound_put_own sound_answer)
qed

text \<open>A sound solver below gives right assignments; where it never fails, only valid queries fail.\<close>

lemma getAssignment_right:
  assumes impl: "sound_solver impl ok True" and inj: "inj rank" and q: "bool_query q" "plain_query q"
  shows "sound_call (\<not> valid q) (layer_ok ok (cex_ok rank)) (right_assignment q) (getAssignment False flags rank before impl q)"
  unfolding getAssignment_def
proof (rule sound_and_then [OF sound_get_own])
  fix st assume st: "cex_ok rank st"
  let ?ok = "layer_ok ok (cex_ok rank)"
  let ?body = "\<lambda>(key, found). case found of
         Some result \<Rightarrow> (\<lambda>s. (if result \<noteq> None then Answer result else Failure, s))
       | None \<Rightarrow> and_then (below (computeInitialValues impl q (findSymbolicObjects key))) (store_binding False flags rank before st key)"
  obtain key found where l: "lookupAssignment False flags rank st q = Some (key, found)" "\<And>v. found = Some v \<Longrightarrow> right_assignment q v"
      "found = None \<Longrightarrow> key_for q key"
    using lookup_right [OF q inj st] by blast
  have "sound_call (\<not> valid q) ?ok (right_assignment q) (?body (key, found))"
  proof (cases found)
    case (Some result)
    then show ?thesis using l(2) [OF Some] by (auto simp: sound_call_def right_assignment_def)
  next
    case None
    have "sound_call (\<not> valid q) ?ok (right_values q (findSymbolicObjects key)) (below (computeInitialValues impl q (findSymbolicObjects key)))"
      by (rule sound_below, rule sound_strengthen [OF sound_solver.initial_right [OF impl q(1)]]) (use findSymbolicObjects_found in auto)
    then have "sound_call (\<not> valid q) ?ok (right_assignment q)
        (and_then (below (computeInitialValues impl q (findSymbolicObjects key))) (store_binding False flags rank before st key))"
      by (rule sound_and_then) (rule store_binding_right [OF inj st l(3) [OF None]])
    then show ?thesis using None by simp
  qed
  then show "sound_call (\<not> valid q) ?ok (right_assignment q) (and_then (build (lookupAssignment False flags rank st q)) ?body)"
    by (intro sound_and_then [OF sound_build [where right = "\<lambda>x. x = (key, found)", OF l(1) refl]]) simp
qed

section \<open>The methods\<close>

lemma evaluate_plain:
  assumes "\<not> allowFreeValues a" "wf_expr e" "plain_expr e"
  shows "evaluate False a e = Some (Constant (getWidth e) (eval (cex_contents a) e))"
  using evaluate_closed [OF assms(1), of False "\<lambda>_ _. 0" e] assms(2) plain_evaluable [OF assms(3)] by simp

lemma some_assignment_right:
  assumes "sound_solver impl ok True" "inj rank" "query_ok q" "plain_query q"
    and f: "\<And>a. \<not> allowFreeValues a \<Longrightarrow> models (cex_contents a) (constraints q) \<Longrightarrow> sound_call sure (layer_ok ok (cex_ok rank)) Q (f a)"
  shows "sound_call sure (layer_ok ok (cex_ok rank)) Q
    (and_then (getAssignment False flags rank before impl (withFalse q)) (\<lambda>a. case a of None \<Rightarrow> abort | Some a \<Rightarrow> f a))"
proof (rule sound_and_then)
  note w = withFalse_ok [OF assms(3,4)]
  show "sound_call sure (layer_ok ok (cex_ok rank)) (right_assignment (withFalse q)) (getAssignment False flags rank before impl (withFalse q))"
    using sound_strengthen [OF getAssignment_right [OF assms(1,2) w(1,2)]] w(3) by simp
  show "sound_call sure (layer_ok ok (cex_ok rank)) Q (case a of None \<Rightarrow> abort | Some a \<Rightarrow> f a)" if "right_assignment (withFalse q) a" for a
    using that w(3) f by (cases a) (simp_all add: right_assignment_def)
qed

lemma cex_validity_right:
  assumes impl: "sound_solver impl ok True" and inj: "inj rank" and q: "bool_query q" "plain_query q"
  shows "sound_call (\<not> valid q \<and> \<not> unsatisfiable q) (layer_ok ok (cex_ok rank)) (right_validity q) (cex_computeValidity False flags rank before impl q)"
    (is "sound_call ?sure ?ok _ _")
  unfolding cex_computeValidity_def
proof (rule some_assignment_right [OF impl inj _ q(2)])
  fix a assume a: "\<not> allowFreeValues a" "models (cex_contents a) (constraints q)"
  obtain n where n: "negateExpr False q = Some n" "bool_query n" "plain_query n" "constraints n = constraints q"
      "\<And>\<rho>. eval \<rho> (qexpr n) = of_bool (eval \<rho> (qexpr q) = 0)"
    by (rule negate_plain [OF q]) blast
  note neg = negated_validity [OF n(4,5)]
  have wf: "wf_expr (qexpr q)" "getWidth (qexpr q) = 1" "plain_expr (qexpr q)" using q by (auto simp: bool_query_def query_ok_def plain_query_def)
  let ?v = "Constant 1 (eval (cex_contents a) (qexpr q))"
  have ev: "evaluate False a (qexpr q) = Some ?v" using evaluate_plain [OF a(1) wf(1,3)] wf(2) by simp
  have true: "sound_call ?sure ?ok (right_validity q)
      (and_then (getAssignment False flags rank before impl q) (\<lambda>a. answer (if a = None then V_True else V_Unknown)))" if sat: "\<not> unsatisfiable q"
  proof -
    have "right_validity q (if x = None then V_True else V_Unknown)" if "right_assignment q x" for x
      using that sat by (cases x) (auto simp: right_assignment_def right_validity_def valid_def)
    then show ?thesis by (intro sound_and_then [OF sound_strengthen [OF getAssignment_right [OF impl inj q]]] sound_answer) blast+
  qed
  have false: "sound_call ?sure ?ok (right_validity q)
      (and_then (build (negateExpr False q)) (\<lambda>n.
        and_then (getAssignment False flags rank before impl n) (\<lambda>a. answer (if a = None then V_False else V_Unknown))))" if "\<not> valid q"
  proof (rule sound_and_then [OF sound_build [where right = "\<lambda>m. m = n", OF n(1) refl]], hypsubst)
    have "right_validity q (if x = None then V_False else V_Unknown)" if "right_assignment n x" for x
      using that \<open>\<not> valid q\<close> neg n(4,5) by (cases x) (auto simp: right_assignment_def right_validity_def unsatisfiable_def split: if_splits)
    then show "sound_call ?sure ?ok (right_validity q)
        (and_then (getAssignment False flags rank before impl n) (\<lambda>a. answer (if a = None then V_False else V_Unknown)))"
      by (intro sound_and_then [OF sound_strengthen [OF getAssignment_right [OF impl inj n(2,3)]]] sound_answer) (use neg in blast)+
  qed
  show "sound_call ?sure ?ok (right_validity q)
      (and_then (build (evaluate False a (qexpr q))) (\<lambda>v.
        if dyn_const v = None then abort
        else if isTrue v then
          and_then (getAssignment False flags rank before impl q) (\<lambda>a. answer (if a = None then V_True else V_Unknown))
        else
          and_then (build (negateExpr False q)) (\<lambda>n.
          and_then (getAssignment False flags rank before impl n) (\<lambda>a. answer (if a = None then V_False else V_Unknown)))))"
  proof (rule sound_and_then [OF sound_build [where right = "\<lambda>v. v = ?v", OF ev refl]], hypsubst)
    have "\<not> unsatisfiable q" if "isTrue ?v" using that a(2) by (auto simp: isTrue_def unsatisfiable_def)
    moreover have "\<not> valid q" if "\<not> isTrue ?v" using that a(2) by (auto simp: isTrue_def valid_def)
    ultimately show "sound_call ?sure ?ok (right_validity q)
       (if dyn_const ?v = None then abort
        else if isTrue ?v then
          and_then (getAssignment False flags rank before impl q) (\<lambda>a. answer (if a = None then V_True else V_Unknown))
        else
          and_then (build (negateExpr False q)) (\<lambda>n.
          and_then (getAssignment False flags rank before impl n) (\<lambda>a. answer (if a = None then V_False else V_Unknown))))"
      using true false by (simp del: One_nat_def)
  qed
qed (use q in \<open>simp add: bool_query_def\<close>)

lemma cex_truth_right:
  assumes impl: "sound_solver impl ok True" and inj: "inj rank" and q: "bool_query q" "plain_query q" and "\<not> CexCacheExperimental flags"
  shows "sound_call (\<not> valid q) (layer_ok ok (cex_ok rank)) (\<lambda>b. b = valid q) (cex_computeTruth False flags rank before impl q)"
proof -
  have "sound_call (\<not> valid q) (layer_ok ok (cex_ok rank)) (\<lambda>b. b = valid q)
      (and_then (getAssignment False flags rank before impl q) (\<lambda>a. answer (a = None)))"
    by (rule sound_and_then [OF getAssignment_right [OF impl inj q]])
      (auto simp: right_assignment_def valid_def split: option.splits)
  then show ?thesis unfolding cex_computeTruth_def using assms(5) by (auto intro!: sound_then sound_answer)
qed

lemma cex_value_right:
  assumes impl: "sound_solver impl ok True" and inj: "inj rank" and q: "query_ok q" "plain_query q"
  shows "sound_call True (layer_ok ok (cex_ok rank)) (right_value q) (cex_computeValue False flags rank before impl q)"
  unfolding cex_computeValue_def
proof (rule some_assignment_right [OF impl inj q])
  fix a assume a: "\<not> allowFreeValues a" "models (cex_contents a) (constraints q)"
  let ?v = "Constant (getWidth (qexpr q)) (eval (cex_contents a) (qexpr q))"
  have "evaluate False a (qexpr q) = Some ?v" using evaluate_plain [OF a(1)] q by (auto simp: query_ok_def plain_query_def)
  moreover have "right_value q ?v" using a(2) by (auto simp: right_value_def)
  ultimately show "sound_call True (layer_ok ok (cex_ok rank)) (right_value q)
      (and_then (build (evaluate False a (qexpr q))) (\<lambda>v. if dyn_const v = None then abort else answer v))"
    by (intro sound_and_then [OF sound_build [where right = "\<lambda>v. v = ?v", OF _ refl]]) auto
qed

lemma cex_initial_right:
  assumes impl: "sound_solver impl ok True" and inj: "inj rank" and q: "bool_query q" "plain_query q" and objects: "distinct objects"
  shows "sound_call (\<not> valid q) (layer_ok ok (cex_ok rank)) (right_values q objects) (cex_computeInitialValues False flags rank before impl q objects)"
  unfolding cex_computeInitialValues_def
proof (rule sound_and_then [OF getAssignment_right [OF impl inj q]], rule sound_answer)
  fix a assume a: "right_assignment q a"
  show "right_values q objects (map_option (\<lambda>a. map (\<lambda>os. case bindings a os of Some bytes \<Rightarrow> bytes | None \<Rightarrow> replicate (array_size os) 0) objects) a)"
  proof (cases a)
    case (Some b)
    let ?f = "\<lambda>os. case bindings b os of Some bytes \<Rightarrow> bytes | None \<Rightarrow> replicate (array_size os) 0"
    have b: "\<not> allowFreeValues b" "models (cex_contents b) (constraints q)" "eval (cex_contents b) (qexpr q) = 0"
      using a Some by (simp_all add: right_assignment_def)
    have "solution objects (map ?f objects) arr i = cex_contents b arr i" if "arr \<in> set objects" for arr i
    proof -
      have "map_of (zip objects (map ?f objects)) arr = Some (?f arr)" using that by (simp add: map_of_zip_map)
      then have "bindings (Assignment objects (map ?f objects) False) arr = Some (?f arr)" using objects by (simp add: Assignment_bindings)
      moreover have "\<not> allowFreeValues (Assignment objects (map ?f objects) False)" by (simp add: Assignment_def)
      ultimately show ?thesis using b(1) by (cases "bindings b arr") (simp_all add: solution_def contents_of_def)
    qed
    then have "agree_on (set objects) (solution objects (map ?f objects)) (cex_contents b)" by (simp add: agree_on_def)
    then show ?thesis using b(2,3) Some by (auto simp: right_values_def)
  qed (use a in \<open>simp add: right_values_def right_assignment_def\<close>)
qed

section \<open>An order of expressions\<close>

text \<open>Expressions as lists of numbers, which are in lexicographic order: an order of the kind that the cache needs.\<close>

fun kind_code :: "kind \<Rightarrow> int" where
  "kind_code Add = 0" | "kind_code Sub = 1" | "kind_code Mul = 2" | "kind_code UDiv = 3" | "kind_code SDiv = 4"
| "kind_code URem = 5" | "kind_code SRem = 6" | "kind_code And = 7" | "kind_code Or = 8" | "kind_code Xor = 9"
| "kind_code Shl = 10" | "kind_code LShr = 11" | "kind_code AShr = 12" | "kind_code Eq = 13" | "kind_code Ne = 14"
| "kind_code Ult = 15" | "kind_code Ule = 16" | "kind_code Ugt = 17" | "kind_code Uge = 18" | "kind_code Slt = 19"
| "kind_code Sle = 20" | "kind_code Sgt = 21" | "kind_code Sge = 22"

definition code_array :: "array \<Rightarrow> int list" where
  "code_array arr = [int (array_ref arr), int (array_size arr), int (domain arr), int (range_w arr), int (length (array_name arr))] @
     map of_char (array_name arr) @ [int (length (constantValues arr))] @ constantValues arr"

fun code_expr :: "expr \<Rightarrow> int list" and code_updates :: "update_node \<Rightarrow> int list" where
  "code_expr (Constant w v) = [0, int w, v]"
| "code_expr (NotOptimized e) = 1 # code_expr e"
| "code_expr (Read arr us i) = 2 # code_array arr @ code_updates us @ code_expr i"
| "code_expr (Select c t f) = 3 # code_expr c @ code_expr t @ code_expr f"
| "code_expr (Concat l r) = 4 # code_expr l @ code_expr r"
| "code_expr (Extract e off w) = 5 # int off # int w # code_expr e"
| "code_expr (ZExt e w) = 6 # int w # code_expr e"
| "code_expr (SExt e w) = 7 # int w # code_expr e"
| "code_expr (NotExpr e) = 8 # code_expr e"
| "code_expr (Binary k l r) = 9 # kind_code k # code_expr l @ code_expr r"
| "code_updates No_Update = [0]"
| "code_updates (Update_Node un_next ix v) = 1 # code_updates un_next @ code_expr ix @ code_expr v"

lemma kind_code_inj [simp]: "kind_code k = kind_code k' \<longleftrightarrow> k = k'"
  by (cases k; cases k'; simp)

lemma code_array_prefix: "code_array a @ xs = code_array b @ ys \<longleftrightarrow> a = b \<and> xs = ys"
proof
  assume e: "code_array a @ xs = code_array b @ ys"
  then have n: "length (array_name a) = length (array_name b)" by (simp add: code_array_def)
  have "map (of_char :: char \<Rightarrow> int) (array_name a) @ int (length (constantValues a)) # constantValues a @ xs =
      map of_char (array_name b) @ int (length (constantValues b)) # constantValues b @ ys"
    using e by (simp add: code_array_def)
  then have m: "map (of_char :: char \<Rightarrow> int) (array_name a) = map of_char (array_name b)"
      "int (length (constantValues a)) # constantValues a @ xs = int (length (constantValues b)) # constantValues b @ ys"
    using n by (simp_all add: append_eq_append_conv)
  have "inj (of_char :: char \<Rightarrow> int)" by (simp add: inj_def)
  then have "array_name a = array_name b" using m(1) by (simp add: inj_map_eq_map)
  moreover have "constantValues a = constantValues b \<and> xs = ys" using m(2) by (auto simp: append_eq_append_conv)
  ultimately show "a = b \<and> xs = ys" using e by (auto simp: code_array_def intro: array.equality)
qed auto

lemma code_prefix:
  "code_expr e @ xs = code_expr e' @ ys \<longleftrightarrow> e = e' \<and> xs = ys"
  "code_updates us @ xs = code_updates us' @ ys \<longleftrightarrow> us = us' \<and> xs = ys"
proof (induction e and us arbitrary: e' xs ys and us' xs ys)
  case (Constant w v)
  show ?case by (cases e') auto
next
  case (NotOptimized e)
  show ?case by (cases e') (simp_all add: NotOptimized)
next
  case (Read arr us i)
  show ?case by (cases e') (simp_all add: Read code_array_prefix conj_assoc)
next
  case (Select c t f)
  show ?case by (cases e') (simp_all add: Select)
next
  case (Concat l r)
  show ?case by (cases e') (simp_all add: Concat)
next
  case (Extract e off w)
  show ?case by (cases e') (auto simp: Extract)
next
  case (ZExt e w)
  show ?case by (cases e') (auto simp: ZExt)
next
  case (SExt e w)
  show ?case by (cases e') (auto simp: SExt)
next
  case (NotExpr e)
  show ?case by (cases e') (simp_all add: NotExpr)
next
  case (Binary k l r)
  show ?case by (cases e') (simp_all add: Binary)
next
  case No_Update
  show ?case by (cases us') auto
next
  case (Update_Node un ix v)
  show ?case by (cases us') (simp_all add: Update_Node)
qed

lemma code_expr_inj: "inj code_expr"
  using code_prefix(1) [of _ "[]" _ "[]"] by (auto simp: inj_def)

text \<open>A key that was not found is found after it was inserted.\<close>

lemma search_after: "searchForAssignment opt flags rank (st\<lparr>cex_index := mos_insert (rank ` set key) v (cex_index st)\<rparr>) key = Some v"
  by (simp add: searchForAssignment_def Let_def mos.lookup_after)

lemma lookup_miss:
  "lookupAssignment opt flags rank st q = Some (key, None) \<Longrightarrow> lookupAssignment opt flags rank st' q = Some (key, searchForAssignment opt flags rank st' key)"
  by (auto simp: lookupAssignment_def Let_def split: bind_splits if_splits)

section \<open>Properties\<close>


text \<open>The options of the tool: all off.\<close>

definition default_options :: cex_options where
  "default_options = \<lparr>CexCacheTryAll = False, CexCacheSuperSet = False, CexCacheExperimental = False, DebugCexCacheCheckBinding = False\<rparr>"

lemma sample_plain: "plain_expr (sample_read i)" "plain_expr (Constant w v)" "plain_expr l \<Longrightarrow> plain_expr r \<Longrightarrow> plain_expr (Binary Ult l r)"
  by (simp_all add: plain_expr_def sample_read_def isSymbolicArray_def is_div_def)


text \<open>
  C26: A valid query that was asked before fails: the cached answer, that there is no
  counterexample, is a null pointer, which \<open>getAssignment\<close> returns as its success. In any
  state, the first question may be answered with true; asked again, the same query fails, and
  the state does not change any more.
\<close>

theorem cex_valid_query_fails:
  assumes "sound_solver impl ok True" "inj rank" "ok s" "cex_ok rank st" "bool_query q" "plain_query q" "valid q"
    and "\<not> CexCacheExperimental flags"
  shows "\<exists>r s'. computeTruth (CexCachingSolver False flags rank before impl) q (s, st) = (r, s') \<and> (r = Answer True \<or> r = Failure) \<and>
    computeTruth (CexCachingSolver False flags rank before impl) q s' = (Failure, s')"
proof -
  let ?get = "getAssignment False flags rank before impl q"
  have truth: "computeTruth (CexCachingSolver False flags rank before impl) q x = and_then ?get (\<lambda>a. answer (a = None)) x" for x
    using assms(8) by (simp add: CexCachingSolver_def cex_computeTruth_def and_then_def answer_def)
  obtain key found where l: "lookupAssignment False flags rank st q = Some (key, found)" "\<And>v. found = Some v \<Longrightarrow> right_assignment q v"
      "found = None \<Longrightarrow> key_for q key"
    using lookup_right [OF assms(5,6,2,4)] by blast
  have none: "v = None" if "right_assignment q v" for v using that assms(7) by (cases v) (auto simp: right_assignment_def valid_def)
  show ?thesis
  proof (cases found)
    case (Some v)
    then have "?get (s, st) = (Failure, (s, st))"
      using l(1) none [OF l(2) [OF Some]] by (simp add: getAssignment_def and_then_def get_own_def build_def)
    then show ?thesis unfolding truth by (simp add: and_then_def)
  next
    case None
    have dist: "distinct (findSymbolicObjects key)" using findSymbolicObjects_found by blast
    from sound_solver.initial_right [OF assms(1,5) dist] assms(3)
    obtain sol s' where c: "computeInitialValues impl q (findSymbolicObjects key) s = (Answer sol, s')" "right_values q (findSymbolicObjects key) sol"
      by (cases rule: sound_callD) auto
    have sol: "sol = None" using c(2) assms(7) by (cases sol) (auto simp: right_values_def valid_def)
    let ?st = "st\<lparr>cex_index := mos_insert (rank ` set key) None (cex_index st)\<rparr>"
    have "?get (s, st) = (Answer None, (s', ?st))"
      using l(1) None c(1) sol by (simp add: getAssignment_def and_then_def get_own_def build_def below_def store_binding_def put_own_def answer_def)
    moreover have "?get (s', ?st) = (Failure, (s', ?st))"
    proof -
      have "lookupAssignment False flags rank ?st q = Some (key, Some None)"
        using lookup_miss [of False flags rank st q key ?st] search_after l(1) None by simp
      then show ?thesis by (simp add: getAssignment_def and_then_def get_own_def build_def)
    qed
    ultimately show ?thesis unfolding truth by (simp add: and_then_def answer_def)
  qed
qed

definition implied_query :: query where
  "implied_query = Query [Binary Ult (sample_read 0) (Constant 8 10)] (Binary Ult (sample_read 0) (Constant 8 20))"

theorem cex_valid_query_fails_witness:
  "\<exists>r s'. computeTruth (CexCachingSolver False default_options code_expr (\<lambda>a b. False) core_solver) implied_query ((), empty_cex) = (r, s') \<and>
     computeTruth (CexCachingSolver False default_options code_expr (\<lambda>a b. False) core_solver) implied_query s' = (Failure, s') \<and> valid implied_query"
proof -
  have m: "models (\<lambda>arr i. 0) (constraints implied_query)"
    by (simp add: models_def implied_query_def sample_read_def initial_byte_def)
  then have q: "bool_query implied_query"
    by (auto simp: bool_query_def query_ok_def implied_query_def sample_read_def formula_def const_ok_def is_cmp_def)
  have p: "plain_query implied_query" by (simp add: plain_query_def implied_query_def sample_plain)
  have v: "valid implied_query" by (auto simp: valid_def models_def implied_query_def split: if_splits)
  from cex_valid_query_fails [OF core.sound_solver_axioms code_expr_inj TrueI empty_cex_ok q p v, of default_options "\<lambda>a b. False" "()"] v
  show ?thesis by (auto simp: default_options_def)
qed

end
