(* ===== verification/Spec2Isabelle.thy ===== *)
theory Spec2Isabelle
  imports Contention_Cache Router Reconciliation Ktest_File Cost_Map Cex_Cache
begin

text \<open>
  A verification library for CASTAN (\<open>src/\<close>): a fork of the symbolic executor KLEE that
  looks for the packet sequences a network function handles slowest. While a network function
  is executed symbolically, a model of the processor's cache concretizes its symbolic pointers
  to addresses that miss; a search heuristic drives the exploration towards expensive paths;
  and the network functions under test, address translators, load balancers and routers
  over different tables, are part of the repository.

  \<^bold>\<open>The theories, and the sources they translate.\<close> Names are those of the
  sources where Isabelle allows it; a prefix tells versions of one function apart.

  \<^item> \<open>Castan_Prelude\<close>: machine integers, results, the ordered association list that
    stands for \<open>std::map\<close> and \<open>std::set\<close>, and shared lemmas.
  \<^item> \<open>Lru_Set\<close>: one associative set, \<open>access_set\<close> with \<open>find_lru\<close>, and the proof that it
    is a list in order of use (\<open>lru_rel\<close>, \<open>lru_access\<close>). Both cache models use it.
  \<^item> \<open>Contention_Sets\<close>, \<open>Contention_Cache\<close>:
    \<open>lib/CASTAN/ContentionSetCacheModel.cpp\<close>, the model the tool runs with. The record
    \<open>contention\<close> is the pair of global tables, \<open>contention_cache\<close> the object;
    \<open>updateCache\<close>, \<open>getMissCost\<close>, \<open>memoryOperation\<close>, \<open>load\<close>, \<open>store\<close>, \<open>exec\<close>,
    \<open>loop\<close> and \<open>getTotalTime\<close> are its methods, \<open>cache_step\<close> the steps the engine's hooks
    take.
  \<^item> \<open>Generic_Cache\<close>: \<open>lib/CASTAN/GenericCacheModel.cpp\<close>, the model of several levels.
    A configuration is the list of its levels, and \<open>updateLevel\<close>, \<open>getCost\<close> and
    \<open>getLevelMissCost\<close> recurse on it as the methods recurse on the level.
  \<^item> \<open>Searchers\<close>: \<open>lib/CASTAN/CastanSearcher.cpp\<close>, \<open>lib/Core/Searcher.cpp\<close>,
    \<open>constructUserSearcher\<close>, \<open>Executor::updateStates\<close> and the loop of \<open>Executor::run\<close>.
    The locales \<open>searcher\<close> and \<open>any_searcher\<close> are the contract of the class \<open>Searcher\<close>;
    the engine and the wrapping searchers are proved against it once.
  \<^item> \<open>Cost_Map\<close>: the constructor of the CASTAN searcher, which computes the tables of
    costs from the control flow of the module: \<open>init_costs\<close> its starting tables, \<open>cost_step\<close> the
    body of its worklist loop \<open>cost_loop\<close>, with \<open>relax\<close> for one successor and \<open>relax_call\<close> for
    a call.
  \<^item> \<open>Flow_Table\<close>: the tables of the examples (\<open>hash_init\<close>, \<open>hash_set\<close>, \<open>hash_get\<close>):
    ring, chains, tree, STL containers. The locale \<open>flow_table\<close> says what a table promises,
    with the capacity it needs; \<open>null_safe_table\<close> adds lookups that discard the value.
  \<^item> \<open>Packet\<close>, \<open>Nat_Function\<close>, \<open>Nat_Examples\<close>: packet buffers as byte memories with
    network-order fields, the translator \<open>dispatch_packet\<close> over an arbitrary table, the five
    translators \<open>examples/dpdk-nat-*\<close> and their receive loop \<open>run\<close>.
  \<^item> \<open>Load_Balancer\<close>: the four balancers \<open>examples/dpdk-lb-*\<close>.
  \<^item> \<open>Lpm\<close>, \<open>Router\<close>: the bit trie and the direct array with the routers
    \<open>examples/dpdk-lpm-btrie\<close> and \<open>examples/dpdk-lpm-da\<close>; locale \<open>lpm_table\<close>.

  \<^item> \<open>Rainbow_Table\<close>: the generators \<open>make-rainbow-table.c\<close> of the examples and the reader
    \<open>lib/CASTAN/RainbowTable.cpp\<close>, down to the characters of the file.
  \<^item> \<open>Reconciliation\<close>: \<open>KleeHandler::processTestCase\<close> of \<open>tools/castan/castan.cpp\<close>, which
    replaces the hash values a path assumed by inputs that have them. The locale
    \<open>sound_table\<close> is what it relies on in a table.
  \<^item> \<open>Ktest_File\<close>: \<open>lib/Basic/KTest.cpp\<close>, the files test cases are stored in.
  \<^item> \<open>Klee_Expr\<close>, \<open>Expr_Build\<close>: the expressions of \<open>lib/Expr/Expr.cpp\<close> as the datatype
    \<open>expr\<close>, the method \<open>create\<close> of every kind with its rewriting, and \<open>rebuild\<close>. The value
    of an expression under contents of the arrays is \<open>eval\<close>; \<open>makes\<close> says that a construction
    succeeds with a given width and value.
  \<^item> \<open>Expr_Evaluator\<close>: visitors (\<open>lib/Expr/ExprVisitor.cpp\<close>), evaluation under an assignment
    (\<open>lib/Expr/ExprEvaluator.cpp\<close>, \<open>include/klee/util/Assignment.h\<close>). The locale
    \<open>initial_values\<close> is what an evaluator supplies.
  \<^item> \<open>Expr_Weight\<close>: a weight that no construction increases; with it the rewriting of
    constraints is shown to end.
  \<^item> \<open>Constraint_Manager\<close>: \<open>lib/Expr/Constraints.cpp\<close>, the constraints of a path with the two
    replacing visitors, \<open>simplifyExpr\<close> and \<open>addConstraint\<close>.
  \<^item> \<open>Klee_Solver\<close>: queries and the front end \<open>lib/Solver/Solver.cpp\<close>. An implementation is
    the record \<open>solver_impl\<close> of its methods, calls that answer, fail or abort over a state of
    its own; the locale \<open>sound_solver\<close> is the contract of the interface.
  \<^item> \<open>Solver_Caches\<close>: the layers \<open>StagedSolver\<close> and \<open>CachingSolver\<close>
    (\<open>lib/Solver/IncompleteSolver.cpp\<close>, \<open>lib/Solver/CachingSolver.cpp\<close>), functions from
    implementations to implementations that keep the contract.
  \<^item> \<open>Cex_Cache\<close>: the layer \<open>CexCachingSolver\<close> (\<open>lib/Solver/CexCachingSolver.cpp\<close>) and
    \<open>findSymbolicObjects\<close>. Its state holds the index and the table of assignments.
  \<^item> \<open>Map_Of_Sets\<close>: the index of sets \<open>include/klee/Internal/ADT/MapOfSets.h\<close>; locale
    \<open>set_index\<close>.

  \<^bold>\<open>What is shown.\<close> Of the cache models: reachable states keep their invariant and
  run into no undefined behaviour; a set is a list in order of use; more blocks of one
  contention set than it has ways, visited in turn, miss every time; a symbolic pointer is
  concretized to a value its constraints allow, and to one that misses when the search
  succeeds; the time never decreases. Of the search: the engine and any stack of
  searchers hold the same states, and the CASTAN searcher runs the state of the highest
  priority; the tables of costs are computed in finitely many steps, and mark exactly the
  instructions from which control flow leads to the next packet. Of a path that is output:
  every hash value it assumes is the hash of the input it fixes, and a path is not
  lost when the table has a fitting input; a table that is generated and sorted answers with all its
  keys of a value; a stored test case is read back. Of expressions and solvers: constructions
  keep widths and values and fail no assertion on well-formed arguments; evaluation is
  exact; adding a constraint to a path ends, and adds exactly this constraint; the range search
  is exact on every sound solver; the cache of results cannot be observed in the answers, the cache
  of counterexamples only by failing on queries that it knows to be valid;
  the searches for subsets and supersets find what there is. Of the network functions: each table refines a map, so each program refines the
  same program over a map; translations are consistent and replies return; balancing is
  even and sticky; routing is by the longest prefix; and all of them return, with the
  exceptions stated as theorems.

  \<^bold>\<open>Conventions.\<close> A failed assertion, an access outside a container and a read of
  an uninitialised variable are the result \<open>None\<close>; errors that end the program are
  values of \<open>nf_error\<close>. Machine integers that can wrap are words; counters of events
  (\<open>unsigned long\<close>, incremented by one) are natural numbers. A \<open>double\<close> is a rational
  number, so rounding is not modelled. Loops that may not end, the search for a free port,
  the worklist of the cost tables and the rewriting of constraints, are \<open>partial_function\<close>s, and
  not returning is \<open>None\<close>; no
  definition uses fuel. The
  constraint solver, the DPDK library, \<open>rand()\<close> and the clock are parameters.

  \<^bold>\<open>Not modelled.\<close> The interpreter of LLVM instructions with its memory (it rests on
  the LLVM libraries); of the solvers, the decision procedures, which are external libraries
  (\<open>core_solver\<close> is what the interface documents of one), and the layers for independent
  constraints, guessing and logging; time limits and status codes; hashes and reference counts of
  expressions, the tables of visitors, which return what a visit returned before; the printers
  and parsers of expressions; weighted-random, random-path and merging searchers; the tables of the
  DPDK library; the options and the output files of the command-line tools; the vendored network
  functions; log messages and statistics reports.
\<close>

end
